(* ===== verification/Prelude.thy ===== *)
theory Prelude
  imports Main "HOL-Library.Word"
begin

text \<open>
  Vocabulary shared by the models of the programs of the repository: C strings and the
  characters of a NUL-terminated buffer, the error numbers the code tests, the ways a C
  function can end (a value, \<^verbatim>\<open>exit\<close>, a fault such as a null dereference), the answers a
  kernel gives to \<^verbatim>\<open>read\<close> and \<^verbatim>\<open>write\<close>, and generic lemmas on lists and indices.
\<close>

named_theorems c_simps \<open>computation rules of the C vocabulary\<close>

unbundle bit_operations_syntax

subsection \<open>How a piece of C code ends\<close>

datatype fault =
    NullDeref          \<comment> \<open>access through a null pointer\<close>
  | OutOfBounds        \<comment> \<open>access outside an array or past the terminator of a string\<close>
  | Uninitialised      \<comment> \<open>read of an indeterminate object\<close>
  | Deadlock           \<comment> \<open>blocked for ever on a lock held by the caller\<close>
  | Endless            \<comment> \<open>a loop that does not end\<close>

datatype 'a run =
    Done 'a            \<comment> \<open>the function returned\<close>
  | Exited int         \<comment> \<open>the process called \<^verbatim>\<open>exit\<close> or \<^verbatim>\<open>_exit\<close>\<close>
  | Faulted fault      \<comment> \<open>undefined behaviour or a hang\<close>

primrec run_bind :: "'a run \<Rightarrow> ('a \<Rightarrow> 'b run) \<Rightarrow> 'b run" where
  "run_bind (Done x) f = f x"
| "run_bind (Exited n) f = Exited n"
| "run_bind (Faulted e) f = Faulted e"

lemma run_bind_Done_iff:
  "run_bind m f = Done y \<longleftrightarrow> (\<exists>x. m = Done x \<and> f x = Done y)"
  by (cases m) auto

lemma run_bind_assoc: "run_bind (run_bind m f) g = run_bind m (\<lambda>x. run_bind (f x) g)"
  by (cases m) auto

abbreviation (input) EXIT_SUCCESS :: int where "EXIT_SUCCESS \<equiv> 0"
abbreviation (input) EXIT_FAILURE :: int where "EXIT_FAILURE \<equiv> 1"

subsection \<open>Error numbers\<close>

datatype errno =
    EINTR | EAGAIN | EACCES | ENOENT | ENOEXEC | EINVAL | ENAMETOOLONG | ENOTDIR | ERANGE
  | EEXIST | EBADF | EMFILE | ENOMEM | EPERM | EIO | ECHILD | ENODATA

subsection \<open>C strings\<close>

text \<open>
  A C string is the list of its characters up to the terminator; \<open>cat s i\<close> is the
  character at offset \<open>i\<close>, the terminator itself at offset \<open>length s\<close>. An offset beyond
  the terminator is outside the object; every model that can reach one tests for it.
\<close>

abbreviation (input) NUL :: char where "NUL \<equiv> CHR 0x00"
abbreviation (input) slash :: char where "slash \<equiv> CHR ''/''"
abbreviation (input) newline :: char where "newline \<equiv> CHR 0x0A"

definition cat :: "string \<Rightarrow> nat \<Rightarrow> char" where
  "cat s i = (if i < length s then s ! i else NUL)"

lemma cat_less [c_simps]: "i < length s \<Longrightarrow> cat s i = s ! i"
  by (simp add: cat_def)

lemma cat_end [c_simps]: "cat s (length s) = NUL"
  by (simp add: cat_def)

lemma cat_append_left: "i < length s \<Longrightarrow> cat (s @ t) i = cat s i"
  by (simp add: cat_def nth_append)

lemma cat_append_right [simp]: "cat (s @ t) (length s + i) = cat t i"
  by (simp add: cat_def nth_append)

text \<open>\<^verbatim>\<open>strcmp(s, t) == 0\<close>, for strings without embedded terminators, is equality.\<close>

definition c_string :: "string \<Rightarrow> bool" where
  "c_string s \<longleftrightarrow> NUL \<notin> set s"

lemma c_string_cat_NUL: "c_string s \<Longrightarrow> i \<le> length s \<Longrightarrow> cat s i = NUL \<longleftrightarrow> i = length s"
  by (auto simp: c_string_def cat_def in_set_conv_nth)

end
