(* ===== verification/Heap_Memory.thy ===== *)
theory Heap_Memory
  imports Prelude
begin

text \<open>
  Byte-addressed memory for the allocator of Section 7. Memory maps an address to a byte;
  a 64-bit object is eight bytes, least significant first. \<open>mem64\<close> is the interface the
  list code needs of it: a store is read back, and a store leaves every object alone that
  it does not overlap. \<open>links\<close> describes a chain of doubly linked nodes by the functions
  that read the two pointers of a node.
\<close>

text \<open>The number of values of a 64-bit object.\<close>

definition W64 :: nat where "W64 = 2 ^ 64"

type_synonym memory = "nat \<Rightarrow> nat"

definition rd64 :: "memory \<Rightarrow> nat \<Rightarrow> nat" where
  "rd64 m a = (\<Sum>i<8. (m (a + i) mod 256) * 256 ^ i)"

definition wr64 :: "memory \<Rightarrow> nat \<Rightarrow> nat \<Rightarrow> memory" where
  "wr64 m a v = (\<lambda>x. if a \<le> x \<and> x < a + 8 then v div 256 ^ (x - a) mod 256 else m x)"

lemma base_digits: "(\<Sum>i<n. (v div 256 ^ i mod 256) * 256 ^ i) = v mod 256 ^ (n::nat)" for v :: nat
proof (induction n)
  case (Suc n)
  have "v mod 256 ^ Suc n = 256 ^ n * (v div 256 ^ n mod 256) + v mod 256 ^ n"
    by (simp only: power_Suc2 mod_mult2_eq)
  with Suc show ?case by (simp add: mult.commute)
qed simp

text \<open>What the clients of the memory rely on.\<close>

locale mem64 =
  fixes rd :: "'m \<Rightarrow> nat \<Rightarrow> nat" and wr :: "'m \<Rightarrow> nat \<Rightarrow> nat \<Rightarrow> 'm"
  assumes rd_wr_same: "v < W64 \<Longrightarrow> rd (wr m a v) a = v"
    and rd_wr_other: "a + 8 \<le> b \<or> b + 8 \<le> a \<Longrightarrow> rd (wr m a v) b = rd m b"
begin

text \<open>Objects of several consecutive fields: a store to field \<open>i\<close> of one object leaves the
  other fields of the object, and every field of an object that does not overlap it.\<close>

lemma rd_wr_field:
  assumes "v < W64" "p = q \<or> p + 8 * n \<le> q \<or> q + 8 * n \<le> p" "i < n" "j < n"
  shows "rd (wr m (p + 8 * i) v) (q + 8 * j) = (if p = q \<and> i = j then v else rd m (q + 8 * j))"
proof (cases "p = q \<and> i = j")
  case True
  then show ?thesis by (simp add: rd_wr_same [OF assms(1)])
next
  case False
  have "p + 8 * i + 8 \<le> q + 8 * j \<or> q + 8 * j + 8 \<le> p + 8 * i"
    using assms(2-4) False by auto
  then show ?thesis using False by (auto simp: rd_wr_other)
qed

end

interpretation bytes: mem64 rd64 wr64
proof
  fix v a :: nat and m
  assume "v < W64"
  then show "rd64 (wr64 m a v) a = v"
    using base_digits [of v 8] by (simp add: rd64_def wr64_def W64_def)
next
  fix a b v :: nat and m
  assume "a + 8 \<le> b \<or> b + 8 \<le> a"
  then show "rd64 (wr64 m a v) b = rd64 m b"
    unfolding rd64_def wr64_def by (intro sum.cong) auto
qed

lemma rd64_bound: "rd64 m a < W64"
proof -
  have "(\<Sum>i<n. (m (a + i) mod 256) * 256 ^ i) < 256 ^ n" for n :: nat
  proof (induction n)
    case (Suc n)
    have "m (a + n) mod 256 * 256 ^ n \<le> 255 * 256 ^ n" by (intro mult_right_mono) auto
    with Suc show ?case by (simp only: sum.lessThan_Suc power_Suc)
  qed simp
  from this [of 8] show ?thesis by (simp add: rd64_def W64_def)
qed

subsection \<open>Chains of doubly linked nodes\<close>

fun links :: "(nat \<Rightarrow> nat) \<Rightarrow> (nat \<Rightarrow> nat) \<Rightarrow> nat list \<Rightarrow> bool" where
  "links nx pv (a # b # zs) = (nx a = b \<and> pv b = a \<and> links nx pv (b # zs))"
| "links nx pv [] = True"
| "links nx pv [a] = True"

lemma links_append:
  "links nx pv (xs @ ys) \<longleftrightarrow> links nx pv xs \<and> links nx pv ys
     \<and> (xs \<noteq> [] \<and> ys \<noteq> [] \<longrightarrow> nx (last xs) = hd ys \<and> pv (hd ys) = last xs)"
proof (induction nx pv xs rule: links.induct)
  case (3 nx pv v)
  then show ?case by (cases ys) auto
qed auto

lemma links_Cons: "links nx pv (a # zs) \<longleftrightarrow> (zs \<noteq> [] \<longrightarrow> nx a = hd zs \<and> pv (hd zs) = a) \<and> links nx pv zs"
  by (cases zs) auto

text \<open>A chain reads the forward pointer of all nodes but the last, the backward pointer of
  all but the first.\<close>

lemma links_cong:
  assumes "\<And>x. x \<in> set (butlast zs) \<Longrightarrow> nx x = nx' x" "\<And>x. x \<in> set (tl zs) \<Longrightarrow> pv x = pv' x"
  shows "links nx pv zs = links nx' pv' zs"
  using assms
proof (induction zs rule: induct_list012)
  case (3 x y zs)
  then show ?case by (cases zs) auto
qed auto

lemma butlast_not_last: "x \<in> set (butlast zs) \<Longrightarrow> distinct zs \<Longrightarrow> x \<noteq> last zs"
  by (cases zs rule: rev_cases) auto

text \<open>Replacing a stretch of a chain: only the pointers at the two seams and inside the new
  stretch have to be looked at.\<close>

lemma links_splice:
  assumes "links nx pv (A @ B @ C)" "A \<noteq> []" "C \<noteq> []"
    and "\<And>x. x \<in> set (butlast A) \<union> set (butlast C) \<Longrightarrow> nx' x = nx x"
    and "\<And>x. x \<in> set (tl A) \<union> set (tl C) \<Longrightarrow> pv' x = pv x"
    and "links nx' pv' (last A # B' @ [hd C])"
  shows "links nx' pv' (A @ B' @ C)"
proof -
  have "links nx pv A" "links nx pv C" using assms(1) by (simp_all add: links_append)
  moreover have "links nx' pv' A = links nx pv A"
    by (rule links_cong) (use assms(4,5) in auto)
  moreover have "links nx' pv' C = links nx pv C"
    by (rule links_cong) (use assms(4,5) in auto)
  ultimately have "links nx' pv' A" "links nx' pv' C" by simp_all
  then show ?thesis
    using assms(2,3,6) by (auto simp: links_append links_Cons hd_append)
qed

end
