(* ===== verification/Malloc.thy ===== *)
theory Malloc
  imports Heap_Memory "HOL-Library.While_Combinator"
begin

text \<open>
  Section 7, \<^verbatim>\<open>mymalloc_myfree.c\<close>: a first-fit allocator that keeps its free blocks in a
  ring of doubly linked headers inside the blocks themselves. The state is the process
  memory, byte by byte, and the program break. \<open>my_malloc\<close> and \<open>my_free\<close> are the source's
  sequences of loads and stores; \<open>heap_ok\<close> is the invariant that ties the memory to a list
  of free blocks, and the lemmas show which list operation each of them performs, and where
  they break the invariant.
\<close>

abbreviation MEM_INC_SIZE :: nat where "MEM_INC_SIZE \<equiv> 1024"
abbreviation sizeof_size_t :: nat where "sizeof_size_t \<equiv> 8"
abbreviation sizeof_free_block_msg :: nat where "sizeof_free_block_msg \<equiv> 24"

subsection \<open>The header of a free block\<close>

text \<open>\<^verbatim>\<open>struct free_block_msg\<close>: three 64-bit fields at offsets 0, 8 and 16.\<close>

definition block_size :: "memory \<Rightarrow> nat \<Rightarrow> nat" where "block_size m p = rd64 m p"
definition prev_p :: "memory \<Rightarrow> nat \<Rightarrow> nat" where "prev_p m p = rd64 m (p + 8)"
definition next_p :: "memory \<Rightarrow> nat \<Rightarrow> nat" where "next_p m p = rd64 m (p + 16)"
definition set_block_size :: "memory \<Rightarrow> nat \<Rightarrow> nat \<Rightarrow> memory" where
  "set_block_size m p v = wr64 m p v"
definition set_prev :: "memory \<Rightarrow> nat \<Rightarrow> nat \<Rightarrow> memory" where "set_prev m p v = wr64 m (p + 8) v"
definition set_next :: "memory \<Rightarrow> nat \<Rightarrow> nat \<Rightarrow> memory" where "set_next m p v = wr64 m (p + 16) v"

text \<open>Arithmetic of \<^verbatim>\<open>size_t\<close> and of addresses.\<close>

definition add64 :: "nat \<Rightarrow> nat \<Rightarrow> nat" where "add64 a b = (a + b) mod W64"
definition sub64 :: "nat \<Rightarrow> nat \<Rightarrow> nat" where "sub64 a b = (a + (W64 - b mod W64)) mod W64"
definition mul64 :: "nat \<Rightarrow> nat \<Rightarrow> nat" where "mul64 a b = (a * b) mod W64"

subsection \<open>The process: memory and program break\<close>

record heap =
  mem :: memory
  brk :: nat          \<comment> \<open>the program break\<close>
  brk_lo :: nat       \<comment> \<open>the break at program start; it cannot go below\<close>
  brk_hi :: nat       \<comment> \<open>the resource limit on the break\<close>

text \<open>\<^verbatim>\<open>sbrk\<close>: the old break and the moved one, or failure.\<close>

definition sbrk :: "int \<Rightarrow> heap \<Rightarrow> (nat \<times> heap) option" where
  "sbrk inc h =
     (let nb = int (brk h) + inc in
      if int (brk_lo h) \<le> nb \<and> nb \<le> int (brk_hi h)
      then Some (brk h, h\<lparr>brk := nat nb\<rparr>) else None)"

text \<open>A \<^verbatim>\<open>size_t\<close> passed as \<^verbatim>\<open>intptr_t\<close>.\<close>

definition as_intptr :: "nat \<Rightarrow> int" where
  "as_intptr n = (if n < 2 ^ 63 then int n else int n - int W64)"

subsection \<open>\<^verbatim>\<open>my_malloc\<close>\<close>

text \<open>The search: \<^verbatim>\<open>for (; ptr != head && !(ptr->block_size >= size); ptr = ptr->next)\<close>.\<close>

definition scan_fit :: "memory \<Rightarrow> nat \<Rightarrow> nat \<Rightarrow> nat option" where
  "scan_fit m H sz = while_option (\<lambda>p. p \<noteq> H \<and> block_size m p < sz) (next_p m) (next_p m H)"

text \<open>
  Growing the heap. \<^verbatim>\<open>head->prev + head->block_size + sizeof(size_t)\<close> is arithmetic on a
  pointer to the 24-byte header, so the test compares with an address 24 times as far.
\<close>

definition grow :: "nat \<Rightarrow> nat \<Rightarrow> heap \<Rightarrow> (nat \<times> heap) run" where
  "grow H sz h =
     (let alloc_num = sz div MEM_INC_SIZE;
          inc = mul64 MEM_INC_SIZE (add64 alloc_num 1)
      in case sbrk (as_intptr inc) h of
           None \<Rightarrow> Exited EXIT_FAILURE
         | Some (temp_p, h1) \<Rightarrow>
             let m = mem h1; last_p = prev_p m H;
                 m' = (if add64 last_p (mul64 sizeof_free_block_msg (add64 (block_size m H) sizeof_size_t)) = temp_p
                       then set_block_size m last_p (add64 (block_size m last_p) inc)
                       else let m1 = set_block_size m temp_p (sub64 inc sizeof_size_t);
                                m2 = set_prev m1 temp_p (prev_p m1 H);
                                m3 = set_next m2 temp_p H;
                                m4 = set_next m3 (prev_p m3 H) temp_p
                            in set_prev m4 H temp_p)
             in Done (prev_p m' H, h1\<lparr>mem := m'\<rparr>))"

text \<open>Splitting the chosen block when the rest can hold a header.\<close>

definition split_block :: "nat \<Rightarrow> nat \<Rightarrow> memory \<Rightarrow> memory" where
  "split_block sz ptr m =
     (if sizeof_free_block_msg \<le> sub64 (block_size m ptr) sz
      then let temp_p = add64 (add64 ptr sz) sizeof_size_t;
               m1 = set_next m temp_p (next_p m ptr);
               m2 = set_prev m1 temp_p ptr;
               m3 = set_prev m2 (next_p m2 ptr) temp_p;
               m4 = set_next m3 ptr temp_p;
               m5 = set_block_size m4 temp_p (sub64 (sub64 (block_size m4 ptr) sz) sizeof_size_t)
           in set_block_size m5 ptr sz
      else m)"

definition unlink_block :: "nat \<Rightarrow> memory \<Rightarrow> memory" where
  "unlink_block ptr m =
     (let m1 = set_next m (prev_p m ptr) (next_p m ptr)
      in set_prev m1 (next_p m1 ptr) (prev_p m1 ptr))"

definition my_malloc :: "nat \<Rightarrow> nat \<Rightarrow> heap \<Rightarrow> (nat \<times> heap) run" where
  "my_malloc H sz h =
     (case scan_fit (mem h) H sz of
        None \<Rightarrow> Faulted Endless
      | Some p \<Rightarrow>
          run_bind (if p = H then grow H sz h else Done (p, h)) (\<lambda>(ptr, h1).
            Done (ptr, h1\<lparr>mem := unlink_block ptr (split_block sz ptr (mem h1))\<rparr>)))"

subsection \<open>\<^verbatim>\<open>my_free\<close>\<close>

definition scan_pos :: "memory \<Rightarrow> nat \<Rightarrow> nat \<Rightarrow> nat option" where
  "scan_pos m H ptr = while_option (\<lambda>t. t \<noteq> H \<and> \<not> ptr < t) (next_p m) (next_p m H)"

definition merge_back :: "nat \<Rightarrow> nat \<Rightarrow> nat \<Rightarrow> memory \<Rightarrow> memory" where
  "merge_back H ptr tmp_p m =
     (if tmp_p \<noteq> H \<and> add64 (add64 ptr (block_size m ptr)) sizeof_size_t = tmp_p
      then let m1 = set_next m ptr (next_p m tmp_p);
               m2 = set_block_size m1 ptr
                      (add64 (block_size m1 ptr) (add64 (block_size m1 tmp_p) sizeof_size_t))
           in set_prev m2 (next_p m2 tmp_p) ptr
      else set_prev (set_next m ptr tmp_p) tmp_p ptr)"

definition merge_front :: "nat \<Rightarrow> nat \<Rightarrow> nat \<Rightarrow> memory \<Rightarrow> memory" where
  "merge_front H ptr tmp_front_p m =
     (if tmp_front_p \<noteq> H \<and>
         add64 (add64 tmp_front_p (block_size m tmp_front_p)) sizeof_size_t = ptr
      then let m1 = set_block_size m tmp_front_p
                      (add64 (block_size m tmp_front_p) (add64 (block_size m ptr) sizeof_size_t));
               m2 = set_next m1 tmp_front_p (next_p m1 ptr)
           in set_prev m2 (next_p m2 ptr) tmp_front_p
      else let m1 = set_prev m ptr tmp_front_p in set_next m1 tmp_front_p ptr)"

text \<open>Giving memory back: the break moves, the header of the last block stays as it is.\<close>

definition shrink :: "nat \<Rightarrow> heap \<Rightarrow> heap" where
  "shrink H h =
     (let tmp_p = prev_p (mem h) H in
      if brk h = add64 (add64 tmp_p (block_size (mem h) tmp_p)) sizeof_size_t
      then let free_num = block_size (mem h) tmp_p div MEM_INC_SIZE
           in (case sbrk (as_intptr (mul64 (mul64 (W64 - 1) free_num) MEM_INC_SIZE)) h of
                 None \<Rightarrow> h | Some (_, h') \<Rightarrow> h')
      else h)"

definition my_free :: "nat \<Rightarrow> nat \<Rightarrow> heap \<Rightarrow> heap run" where
  "my_free H ptr h =
     (case scan_pos (mem h) H ptr of
        None \<Rightarrow> Faulted Endless
      | Some tmp_p \<Rightarrow>
          let tmp_front_p = prev_p (mem h) tmp_p;
              m1 = merge_back H ptr tmp_p (mem h);
              m2 = merge_front H ptr tmp_front_p m1
          in Done (shrink H (h\<lparr>mem := m2\<rparr>)))"

text \<open>\<^verbatim>\<open>main\<close>: the three breaks it prints.\<close>

definition malloc_main :: "nat \<Rightarrow> heap \<Rightarrow> (nat list \<times> heap) run" where
  "malloc_main H h =
     run_bind (my_malloc H 10240 h) (\<lambda>(tmp, h1).
     run_bind (my_free H tmp h1) (\<lambda>h2. Done ([brk h, brk h1, brk h2], h2)))"


subsection \<open>Reading fields after a store\<close>

definition sep :: "nat \<Rightarrow> nat \<Rightarrow> bool" where
  "sep p q \<longleftrightarrow> p = q \<or> p + sizeof_free_block_msg \<le> q \<or> q + sizeof_free_block_msg \<le> p"

lemma sep_refl [simp]: "sep p p"
  by (simp add: sep_def)

lemma sep_sym: "sep p q = sep q p"
  by (auto simp: sep_def)

lemma field_bound [simp]: "block_size m p < W64" "prev_p m p < W64" "next_p m p < W64"
  by (simp_all add: block_size_def prev_p_def next_p_def rd64_bound)

lemma header_fields [simp]:
  assumes "sep p q" "v < W64"
  shows "block_size (set_block_size m p v) q = (if p = q then v else block_size m q)"
    and "prev_p (set_prev m p v) q = (if p = q then v else prev_p m q)"
    and "next_p (set_next m p v) q = (if p = q then v else next_p m q)"
    and "block_size (set_prev m p v) q = block_size m q"
    and "block_size (set_next m p v) q = block_size m q"
    and "prev_p (set_block_size m p v) q = prev_p m q"
    and "prev_p (set_next m p v) q = prev_p m q"
    and "next_p (set_block_size m p v) q = next_p m q"
    and "next_p (set_prev m p v) q = next_p m q"
proof -
  have s: "p = q \<or> p + 8 * 3 \<le> q \<or> q + 8 * 3 \<le> p" using assms(1) by (auto simp: sep_def)
  note f = bytes.rd_wr_field [OF assms(2) s]
  show "block_size (set_block_size m p v) q = (if p = q then v else block_size m q)"
    and "prev_p (set_prev m p v) q = (if p = q then v else prev_p m q)"
    and "next_p (set_next m p v) q = (if p = q then v else next_p m q)"
    and "block_size (set_prev m p v) q = block_size m q"
    and "block_size (set_next m p v) q = block_size m q"
    and "prev_p (set_block_size m p v) q = prev_p m q"
    and "prev_p (set_next m p v) q = prev_p m q"
    and "next_p (set_block_size m p v) q = next_p m q"
    and "next_p (set_prev m p v) q = next_p m q"
    using f [of 0 0 m] f [of 0 1 m] f [of 0 2 m] f [of 1 0 m] f [of 1 1 m] f [of 1 2 m]
      f [of 2 0 m] f [of 2 1 m] f [of 2 2 m]
    by (simp_all add: block_size_def prev_p_def next_p_def set_block_size_def set_prev_def set_next_def)
qed

lemma arith64 [simp]:
  "a + b < W64 \<Longrightarrow> add64 a b = a + b"
  "b \<le> a \<Longrightarrow> a < W64 \<Longrightarrow> sub64 a b = a - b"
  "a * b < W64 \<Longrightarrow> mul64 a b = a * b"
  by (auto simp: add64_def sub64_def mul64_def mod_if)

lemma add64_bound [simp]: "add64 a b < W64" "sub64 a b < W64" "mul64 a b < W64"
  by (simp_all add: add64_def sub64_def mul64_def W64_def)

subsection \<open>The invariant\<close>

text \<open>A free block is its address and its \<^verbatim>\<open>block_size\<close>; it occupies the eight bytes of the
  size field and \<^verbatim>\<open>block_size\<close> bytes behind it.\<close>

type_synonym block = "nat \<times> nat"

text \<open>Blocks in address order, without overlap, between two bounds.\<close>

fun laid :: "nat \<Rightarrow> block list \<Rightarrow> nat \<Rightarrow> bool" where
  "laid lo [] hi = (lo \<le> hi)"
| "laid lo ((p, s) # bs) hi = (lo \<le> p \<and> 16 \<le> s \<and> laid (p + 8 + s) bs hi)"

lemma laid_le: "laid lo bs hi \<Longrightarrow> lo \<le> hi"
  by (induction bs arbitrary: lo) force+

lemma laid_append: "laid lo (xs @ ys) hi \<longleftrightarrow> (\<exists>mid. laid lo xs mid \<and> laid mid ys hi)"
proof (induction lo xs hi rule: laid.induct)
  case (1 lo hi)
  have "laid lo ys hi" if "lo \<le> mid" "laid mid ys hi" for mid
    using that by (cases ys) auto
  then show ?case by auto
qed auto

lemma laid_weaken: "laid lo bs hi \<Longrightarrow> lo' \<le> lo \<Longrightarrow> hi \<le> hi' \<Longrightarrow> laid lo' bs hi'"
  by (induction lo' bs hi' arbitrary: lo rule: laid.induct) auto

lemma laid_member: "laid lo bs hi \<Longrightarrow> (p, s) \<in> set bs \<Longrightarrow> lo \<le> p \<and> 16 \<le> s \<and> p + 8 + s \<le> hi"
  by (induction lo bs hi rule: laid.induct) (auto dest: laid_le)

definition heap_ok :: "nat \<Rightarrow> heap \<Rightarrow> block list \<Rightarrow> bool" where
  "heap_ok H h bs \<longleftrightarrow>
     links (next_p (mem h)) (prev_p (mem h)) (H # map fst bs @ [H])
   \<and> (\<forall>(p, s) \<in> set bs. block_size (mem h) p = s)
   \<and> block_size (mem h) H = 0
   \<and> laid (brk_lo h) bs (brk h)
   \<and> H + 192 < brk_lo h \<and> brk h \<le> brk_hi h \<and> brk_hi h < 2 ^ 63"

text \<open>Two headers of the ring do not overlap.\<close>

lemma laid_sep: "laid lo bs hi \<Longrightarrow> p \<in> set (map fst bs) \<Longrightarrow> q \<in> set (map fst bs) \<Longrightarrow> sep p q"
proof (induction lo bs hi rule: laid.induct)
  case (2 lo a s bs hi)
  have "a + 24 \<le> x" if "x \<in> set (map fst bs)" for x
    using that 2(2) by (auto dest: laid_member)
  then show ?case using 2 by (auto simp: sep_def)
qed simp


lemma heap_ok_facts:
  assumes "heap_ok H h bs"
  shows "links (next_p (mem h)) (prev_p (mem h)) (H # map fst bs @ [H])"
    "\<And>p s. (p, s) \<in> set bs \<Longrightarrow> block_size (mem h) p = s"
    "block_size (mem h) H = 0" "laid (brk_lo h) bs (brk h)"
    "H + 192 < brk_lo h" "brk h < W64" "H \<notin> set (map fst bs)" "distinct (map fst bs)"
proof -
  show "laid (brk_lo h) bs (brk h)" "H + 192 < brk_lo h"
    using assms by (simp_all add: heap_ok_def)
  then show "H \<notin> set (map fst bs)" by (auto dest: laid_member)
  have "laid lo bs hi \<Longrightarrow> distinct (map fst bs)" for lo hi
  proof (induction lo bs hi rule: laid.induct)
    case (2 lo p s bs hi)
    then show ?case by (auto dest: laid_member)
  qed simp
  then show "distinct (map fst bs)" using \<open>laid (brk_lo h) bs (brk h)\<close> by blast
qed (use assms in \<open>auto simp: heap_ok_def W64_def\<close>)

lemma heap_ok_sep:
  assumes "heap_ok H h bs" "p \<in> insert H (set (map fst bs))" "q \<in> insert H (set (map fst bs))"
  shows "sep p q"
proof -
  have "H + 24 \<le> x" if "x \<in> set (map fst bs)" for x
    using that heap_ok_facts(4,5) [OF assms(1)] by (auto dest: laid_member)
  then show ?thesis
    using assms(2,3) laid_sep [OF heap_ok_facts(4) [OF assms(1)]] by (auto simp: sep_def)
qed

text \<open>The ring around a block of the list.\<close>

lemma heap_ok_neighbours:
  assumes "heap_ok H h (xs @ (p, s) # ys)"
  shows "prev_p (mem h) p = last (H # map fst xs)" "next_p (mem h) p = hd (map fst ys @ [H])"
proof -
  have "links (next_p (mem h)) (prev_p (mem h)) ((H # map fst xs) @ [p] @ (map fst ys @ [H]))"
    using heap_ok_facts(1) [OF assms] by simp
  then show "prev_p (mem h) p = last (H # map fst xs)" "next_p (mem h) p = hd (map fst ys @ [H])"
    by (auto simp only: links_append list.sel append_is_Nil_conv) (auto simp: hd_append)
qed

lemma last_in_ring: "last (H # as) \<in> insert H (set as)"
  using last_in_set [of "H # as"] by auto

lemma hd_in_ring: "hd (cs @ [H]) \<in> insert H (set cs)"
  by (cases cs) auto

subsection \<open>The two searches\<close>

lemma scan_links:
  assumes "links nx pv (a # ps @ [H])" "H \<notin> set ps"
  shows "while_option (\<lambda>p. p \<noteq> H \<and> P p) nx (nx a) = Some (hd (dropWhile P ps @ [H]))"
  using assms
proof (induction ps arbitrary: a)
  case Nil
  then show ?case by (simp add: while_option_unfold)
next
  case (Cons p ps)
  then have n: "nx a = p" and l: "links nx pv (p # ps @ [H])" by auto
  show ?case
  proof (cases "P p")
    case True
    then show ?thesis
      using Cons.IH [OF l] Cons.prems(2) n by (subst while_option_unfold) simp
  next
    case False
    then show ?thesis using n by (subst while_option_unfold) simp
  qed
qed

lemma hd_dropWhile_map:
  "hd (dropWhile (\<lambda>p. Q (g p)) (map fst bs) @ [H])
     = hd (map fst (dropWhile (\<lambda>b. Q (g (fst b))) bs) @ [H])"
  by (induction bs) auto

text \<open>The search of \<^verbatim>\<open>my_malloc\<close> ends, at the first block that is large enough or at the head.\<close>

lemma scan_fit_eq:
  assumes "heap_ok H h bs"
  shows "scan_fit (mem h) H sz = Some (hd (map fst (dropWhile (\<lambda>(p, s). s < sz) bs) @ [H]))"
proof -
  have "dropWhile (\<lambda>b. block_size (mem h) (fst b) < sz) bs = dropWhile (\<lambda>(p, s). s < sz) bs"
    using heap_ok_facts(2) [OF assms] by (intro dropWhile_cong) auto
  then show ?thesis
    using scan_links [OF heap_ok_facts(1,7) [OF assms], of "\<lambda>p. block_size (mem h) p < sz"]
      hd_dropWhile_map [of "\<lambda>x. x < sz" "block_size (mem h)" bs H]
    by (simp add: scan_fit_def)
qed

lemma scan_pos_eq:
  assumes "heap_ok H h bs"
  shows "scan_pos (mem h) H ptr = Some (hd (map fst (dropWhile (\<lambda>(p, s). p \<le> ptr) bs) @ [H]))"
proof -
  have "dropWhile (\<lambda>b. \<not> ptr < fst b) bs = dropWhile (\<lambda>(p, s). p \<le> ptr) bs"
    by (intro dropWhile_cong) auto
  then show ?thesis
    using scan_links [OF heap_ok_facts(1,7) [OF assms], of "\<lambda>p. \<not> ptr < p"]
      hd_dropWhile_map [of "\<lambda>x. \<not> ptr < x" "\<lambda>x. x" bs H]
    by (simp add: scan_pos_def)
qed

subsection \<open>Taking a block off the list\<close>

lemma unlink_fields:
  assumes "prev_p m p = P" "next_p m p = N" "P \<noteq> p" "N \<noteq> p"
    and "sep P p" "sep N p" "sep P N" "sep P q" "sep N q"
  shows "next_p (unlink_block p m) q = (if q = P then N else next_p m q)"
    "prev_p (unlink_block p m) q = (if q = N then P else prev_p m q)"
    "block_size (unlink_block p m) q = block_size m q"
  using assms by (auto simp: unlink_block_def Let_def)

lemma split_fields:
  assumes "block_size m p = s" "next_p m p = N" "24 \<le> sub64 s sz" "p + sz + 8 < W64"
    and "t = p + sz + 8" "sep t p" "sep t N" "sep N p" "N \<noteq> p" "t \<noteq> p" "t \<noteq> N"
    and "sep t q" "sep p q" "sep N q"
  shows "next_p (split_block sz p m) q = (if q = t then N else if q = p then t else next_p m q)"
    "prev_p (split_block sz p m) q = (if q = t then p else if q = N then t else prev_p m q)"
    "block_size (split_block sz p m) q
       = (if q = p then sz else if q = t then sub64 (sub64 s sz) 8 else block_size m q)"
  using assms by (auto simp: split_block_def Let_def sep_sym)


text \<open>What is left on the list of a block of \<open>s\<close> bytes at \<open>p\<close> from which \<open>sz\<close> are taken, and
  the size the taken block ends up with.\<close>

definition carve_rest :: "nat \<Rightarrow> block \<Rightarrow> block list" where
  "carve_rest sz b = (if sz + 24 \<le> snd b then [(fst b + sz + 8, snd b - sz - 8)] else [])"

definition carve_size :: "nat \<Rightarrow> block \<Rightarrow> nat" where
  "carve_size sz b = (if sz + 24 \<le> snd b then sz else snd b)"

lemma laid_carve:
  assumes "laid lo (xs @ (p, s) # ys) hi" "sz \<le> s"
  shows "laid lo (xs @ carve_rest sz (p, s) @ ys) hi"
proof -
  obtain mid where m: "laid lo xs mid" "mid \<le> p" "16 \<le> s" "laid (p + 8 + s) ys hi"
    using assms(1) by (auto simp: laid_append)
  have "laid mid (carve_rest sz (p, s) @ ys) hi"
    using m assms(2) by (auto simp: carve_rest_def intro: laid_weaken)
  with m(1) show ?thesis by (auto simp: laid_append)
qed

lemma split_block_none:
  "block_size m p = s \<Longrightarrow> sz \<le> s \<Longrightarrow> s < sz + 24 \<Longrightarrow> split_block sz p m = m"
  by (auto simp: split_block_def)

text \<open>The ring as the two halves around the chosen block.\<close>

lemma ring_parts:
  assumes "distinct (H # as @ p # cs)"
  shows "x \<in> set (butlast (H # as)) \<union> set (butlast (cs @ [H])) \<Longrightarrow>
           x \<noteq> last (H # as) \<and> x \<noteq> p \<and> x \<in> insert H (set (as @ p # cs))"
    and "x \<in> set (tl (H # as)) \<union> set (tl (cs @ [H])) \<Longrightarrow>
           x \<noteq> hd (cs @ [H]) \<and> x \<noteq> p \<and> x \<in> insert H (set (as @ p # cs))"
proof -
  assume "x \<in> set (butlast (H # as)) \<union> set (butlast (cs @ [H]))"
  then consider "x \<in> set (butlast (H # as))" | "x \<in> set cs" by auto
  then show "x \<noteq> last (H # as) \<and> x \<noteq> p \<and> x \<in> insert H (set (as @ p # cs))"
  proof cases
    case 1
    then have "x \<in> set (H # as)" "x \<noteq> last (H # as)"
      using assms butlast_not_last [of x "H # as"] by (blast dest: in_set_butlastD, auto)
    then show ?thesis using assms by auto
  next
    case 2
    then show ?thesis using assms last_in_ring [of H as] by (metis IntI Un_iff append_is_Nil_conv
          distinct.simps(2) distinct_append empty_iff insertCI insertE list.set_intros(1,2) set_append)
  qed
next
  assume "x \<in> set (tl (H # as)) \<union> set (tl (cs @ [H]))"
  then show "x \<noteq> hd (cs @ [H]) \<and> x \<noteq> p \<and> x \<in> insert H (set (as @ p # cs))"
    using assms by (cases cs) auto
qed

lemma take_block_links:
  assumes ok: "heap_ok H h (xs @ (p, s) # ys)" and sz: "16 \<le> sz" "sz \<le> s"
  defines "m' \<equiv> unlink_block p (split_block sz p (mem h))"
  shows "links (next_p m') (prev_p m') (H # map fst (xs @ carve_rest sz (p, s) @ ys) @ [H])"
    and "block_size m' p = carve_size sz (p, s)"
    and "q \<in> insert H (set (map fst (xs @ ys))) \<Longrightarrow> block_size m' q = block_size (mem h) q"
    and "(q, t) \<in> set (carve_rest sz (p, s)) \<Longrightarrow> block_size m' q = t"
proof -
  define as cs where "as = map fst xs" and "cs = map fst ys"
  let ?m = "mem h" let ?P = "last (H # as)" let ?N = "hd (cs @ [H])"
  let ?nodes = "insert H (set (as @ p # cs))"
  have all: "map fst (xs @ (p, s) # ys) = as @ p # cs" by (simp add: as_def cs_def)
  note f = heap_ok_facts [OF ok]
  note nb = heap_ok_neighbours [OF ok, folded as_def cs_def]
  have dist: "distinct (H # as @ p # cs)" using f(7,8) unfolding all by simp
  have bs: "block_size ?m p = s" using f(2) by simp
  have mid: "p + 8 + s \<le> brk h" using laid_member [OF f(4), of p s] by simp
  have in_nodes: "?P \<in> ?nodes" "?N \<in> ?nodes" "p \<in> ?nodes"
    using last_in_ring [of H as] hd_in_ring [of cs H] by auto
  have ne: "?P \<noteq> p" "?N \<noteq> p"
    using dist last_in_ring [of H as] hd_in_ring [of cs H] by auto
  have sepn: "sep a b" if "a \<in> ?nodes" "b \<in> ?nodes" for a b
    using heap_ok_sep [OF ok, unfolded all] that .
  have "links (next_p ?m) (prev_p ?m) ((H # as) @ [p] @ (cs @ [H]))"
    using f(1) unfolding all by simp
  note splice = links_splice [OF this]
  note ring = ring_parts [OF dist]
  have *: "links (next_p m') (prev_p m') (H # as @ map fst (carve_rest sz (p, s)) @ cs @ [H])
    \<and> block_size m' p = carve_size sz (p, s)
    \<and> (\<forall>q \<in> insert H (set (as @ cs)). block_size m' q = block_size ?m q)
    \<and> (\<forall>(q, t) \<in> set (carve_rest sz (p, s)). block_size m' q = t)"
  proof (cases "sz + 24 \<le> s")
    case False
    then have m': "m' = unlink_block p ?m" using bs sz by (simp add: m'_def split_block_none)
    have u: "next_p m' q = (if q = ?P then ?N else next_p ?m q)"
        "prev_p m' q = (if q = ?N then ?P else prev_p ?m q)"
        "block_size m' q = block_size ?m q" if "q \<in> ?nodes" for q
      unfolding m' using that in_nodes by (intro unlink_fields [OF nb ne sepn sepn sepn sepn sepn]; simp)+
    have "links (next_p m') (prev_p m') ((H # as) @ [] @ (cs @ [H]))"
    proof (rule splice)
      fix x assume "x \<in> set (butlast (H # as)) \<union> set (butlast (cs @ [H]))"
      from ring(1) [OF this] show "next_p m' x = next_p ?m x" using u(1) [of x] by auto
    next
      fix x assume "x \<in> set (tl (H # as)) \<union> set (tl (cs @ [H]))"
      from ring(2) [OF this] show "prev_p m' x = prev_p ?m x" using u(2) [of x] by auto
    next
      show "links (next_p m') (prev_p m') (?P # [] @ [?N])"
        using u in_nodes by simp
    qed simp_all
    then show ?thesis using False u bs in_nodes by (auto simp: carve_rest_def carve_size_def)
  next
    case True
    let ?t = "p + sz + 8"
    have tsep: "sep ?t q" "?t \<noteq> q" if q: "q \<in> ?nodes" for q
    proof -
      obtain mid where l: "laid (brk_lo h) xs mid" "mid \<le> p" "laid (p + 8 + s) ys (brk h)"
        using f(4) by (auto simp: laid_append)
      have "q = p \<or> q + 24 \<le> p \<or> p + 8 + s \<le> q"
        using q l(2) f(5) laid_le [OF l(1)]
        by (auto simp: as_def cs_def dest: laid_member [OF l(1)] laid_member [OF l(3)])
      then show "sep ?t q" "?t \<noteq> q" using True sz by (auto simp: sep_def)
    qed
    have tsep': "sep q ?t" if "q \<in> ?nodes" for q
      using tsep(1) [OF that] sep_sym by blast
    have sp: "next_p (split_block sz p ?m) q = (if q = ?t then ?N else if q = p then ?t else next_p ?m q)"
        "prev_p (split_block sz p ?m) q = (if q = ?t then p else if q = ?N then ?t else prev_p ?m q)"
        "block_size (split_block sz p ?m) q
           = (if q = p then sz else if q = ?t then s - sz - 8 else block_size ?m q)"
      if "q \<in> ?nodes \<or> q = ?t" for q
    proof -
      have q: "sep ?t q" "sep p q" "sep ?N q"
        using that tsep(1) [of q] tsep' [of p] tsep' [of ?N] sepn [of p q] sepn [of ?N q] in_nodes
          sep_refl [of ?t] by metis+
      have sub: "sub64 s sz = s - sz" "sub64 (sub64 s sz) 8 = s - sz - 8" "24 \<le> sub64 s sz"
        using True mid f(6) by (simp_all del: diff_diff_left)
      note s = split_fields [OF bs nb(2) sub(3) _ refl tsep(1) tsep(1) sepn ne(2) tsep(2) tsep(2) q]
      show "next_p (split_block sz p ?m) q = (if q = ?t then ?N else if q = p then ?t else next_p ?m q)"
        "prev_p (split_block sz p ?m) q = (if q = ?t then p else if q = ?N then ?t else prev_p ?m q)"
        "block_size (split_block sz p ?m) q
           = (if q = p then sz else if q = ?t then s - sz - 8 else block_size ?m q)"
        unfolding sub(2) [symmetric] using in_nodes mid f(6) True by (intro s; simp)+
    qed
    have pt: "prev_p (split_block sz p ?m) p = ?P" "next_p (split_block sz p ?m) p = ?t"
      using sp(1,2) [of p] in_nodes ne tsep(2) [of p] nb by auto
    have u: "next_p m' q = (if q = ?P then ?t else next_p (split_block sz p ?m) q)"
        "prev_p m' q = (if q = ?t then ?P else prev_p (split_block sz p ?m) q)"
        "block_size m' q = block_size (split_block sz p ?m) q" if "q \<in> ?nodes \<or> q = ?t" for q
    proof -
      have q: "sep ?P q" "sep ?t q"
        using that tsep(1) [of q] tsep' [of ?P] sepn [of ?P q] in_nodes
          sep_refl [of ?t] by metis+
      note s = unlink_fields [OF pt ne(1) tsep(2) sepn tsep(1) _ q]
      show "next_p m' q = (if q = ?P then ?t else next_p (split_block sz p ?m) q)"
        "prev_p m' q = (if q = ?t then ?P else prev_p (split_block sz p ?m) q)"
        "block_size m' q = block_size (split_block sz p ?m) q"
        unfolding m'_def using in_nodes tsep' [of ?P] by (intro s; simp)+
    qed
    have tP: "?t \<noteq> ?P" "?t \<noteq> ?N" using tsep(2) in_nodes by auto
    have "links (next_p m') (prev_p m') ((H # as) @ [?t] @ (cs @ [H]))"
    proof (rule splice)
      fix x assume "x \<in> set (butlast (H # as)) \<union> set (butlast (cs @ [H]))"
      from ring(1) [OF this] show "next_p m' x = next_p ?m x" using u(1) [of x] sp(1) [of x] tsep(2) [of x] by auto
    next
      fix x assume "x \<in> set (tl (H # as)) \<union> set (tl (cs @ [H]))"
      from ring(2) [OF this] show "prev_p m' x = prev_p ?m x" using u(2) [of x] sp(2) [of x] tsep(2) [of x] by auto
    next
      show "links (next_p m') (prev_p m') (?P # [?t] @ [?N])"
        using u sp in_nodes tP by simp
    qed simp_all
    moreover have "block_size m' q = block_size ?m q" if "q \<in> insert H (set (as @ cs))" for q
    proof -
      have "q \<in> ?nodes" "q \<noteq> p" using that dist by auto
      then show ?thesis using u(3) [of q] sp(3) [of q] tsep(2) [of q] by simp
    qed
    moreover have "block_size m' p = sz" "block_size m' ?t = s - sz - 8"
      using u(3) [of p] sp(3) [of p] u(3) [of ?t] sp(3) [of ?t] in_nodes tsep(2) [of p] by auto
    ultimately show ?thesis using True by (simp add: carve_rest_def carve_size_def)
  qed
  then show "links (next_p m') (prev_p m') (H # map fst (xs @ carve_rest sz (p, s) @ ys) @ [H])"
    "block_size m' p = carve_size sz (p, s)"
    "q \<in> insert H (set (map fst (xs @ ys))) \<Longrightarrow> block_size m' q = block_size (mem h) q"
    "(q, t) \<in> set (carve_rest sz (p, s)) \<Longrightarrow> block_size m' q = t"
    by (auto simp: as_def cs_def)
qed


lemma take_block_ok:
  assumes ok: "heap_ok H h (xs @ (p, s) # ys)" and sz: "16 \<le> sz" "sz \<le> s"
  defines "h' \<equiv> h\<lparr>mem := unlink_block p (split_block sz p (mem h))\<rparr>"
  shows "heap_ok H h' (xs @ carve_rest sz (p, s) @ ys)"
    and "block_size (mem h') p = carve_size sz (p, s)"
proof -
  note t = take_block_links [OF assms(1-3)]
  have "laid (brk_lo h) (xs @ carve_rest sz (p, s) @ ys) (brk h)"
    using heap_ok_facts(4) [OF ok] sz(2) by (rule laid_carve)
  moreover have "block_size (mem h') a = b"
    if "(a, b) \<in> set (xs @ carve_rest sz (p, s) @ ys)" for a b
  proof (cases "(a, b) \<in> set (carve_rest sz (p, s))")
    case False
    with that have "(a, b) \<in> set (xs @ ys)" by auto
    then have "a \<in> set (map fst (xs @ ys))" "(a, b) \<in> set (xs @ (p, s) # ys)" by force+
    then show ?thesis using t(3) [of a] heap_ok_facts(2) [OF ok, of a b] by (simp add: h'_def)
  qed (use t(4) in \<open>simp add: h'_def\<close>)
  ultimately show "heap_ok H h' (xs @ carve_rest sz (p, s) @ ys)"
    using ok t(1) t(3) [of H] by (auto simp: heap_ok_def h'_def)
  show "block_size (mem h') p = carve_size sz (p, s)" using t(2) by (simp add: h'_def)
qed


subsection \<open>Growing the heap\<close>

definition grow_inc :: "nat \<Rightarrow> nat" where
  "grow_inc sz = MEM_INC_SIZE * (sz div MEM_INC_SIZE + 1)"

lemma grow_inc_facts: "sz < grow_inc sz" "grow_inc sz \<le> sz + 1024" "1024 \<le> grow_inc sz"
  "sz \<le> grow_inc sz - 8 \<longleftrightarrow> sz mod 1024 \<le> 1016"
proof -
  obtain q r where q: "q = sz div 1024" "r = sz mod 1024" by blast
  then have "sz = 1024 * q + r" "r < 1024" by simp_all
  then show "sz < grow_inc sz" "grow_inc sz \<le> sz + 1024" "1024 \<le> grow_inc sz"
    "sz \<le> grow_inc sz - 8 \<longleftrightarrow> sz mod 1024 \<le> 1016"
    unfolding grow_inc_def q(1) [symmetric] q(2) [symmetric] by auto
qed

lemma grow_sbrk:
  assumes "heap_ok H h bs" "brk h + grow_inc sz \<le> brk_hi h"
  shows "mul64 MEM_INC_SIZE (add64 (sz div MEM_INC_SIZE) 1) = grow_inc sz"
    and "sbrk (as_intptr (grow_inc sz)) h = Some (brk h, h\<lparr>brk := brk h + grow_inc sz\<rparr>)"
proof -
  have b: "brk_hi h < 2 ^ 63" "brk_lo h \<le> brk h"
    using assms(1) laid_le by (auto simp: heap_ok_def)
  then have s: "grow_inc sz < 2 ^ 63" using assms(2) by simp
  then have "sz div MEM_INC_SIZE + 1 < W64" "MEM_INC_SIZE * (sz div MEM_INC_SIZE + 1) < W64"
    by (simp_all add: grow_inc_def W64_def)
  then show "mul64 MEM_INC_SIZE (add64 (sz div MEM_INC_SIZE) 1) = grow_inc sz"
    by (simp add: grow_inc_def)
  show "sbrk (as_intptr (grow_inc sz)) h = Some (brk h, h\<lparr>brk := brk h + grow_inc sz\<rparr>)"
    using s b assms(2) by (simp add: sbrk_def as_intptr_def Let_def nat_add_distrib)
qed

text \<open>The ring with a new block at its end.\<close>

lemma grow_ok:
  assumes ok: "heap_ok H h bs" and room: "brk h + grow_inc sz \<le> brk_hi h"
    and far: "last (H # map fst bs) + 192 \<noteq> brk h"
  shows "\<exists>h1. grow H sz h = Done (brk h, h1) \<and> brk h1 = brk h + grow_inc sz
           \<and> heap_ok H h1 (bs @ [(brk h, grow_inc sz - 8)])"
proof -
  define as where "as = map fst bs"
  let ?m = "mem h" let ?P = "last (H # as)" let ?t = "brk h" let ?v = "grow_inc sz - 8"
  note f = heap_ok_facts [OF ok, folded as_def]
  note g = grow_sbrk [OF ok room]
  have links: "links (next_p ?m) (prev_p ?m) ((H # as) @ [] @ [H])" using f(1) by simp
  then have P: "prev_p ?m H = ?P" by (simp only: links_append) auto
  have Pn: "?P \<in> insert H (set as)" by (rule last_in_ring)
  have sepn: "sep a b" if "a \<in> insert H (set as)" "b \<in> insert H (set as)" for a b
    using heap_ok_sep [OF ok, folded as_def] that .
  have tsep: "sep ?t q" "sep q ?t" "?t \<noteq> q" if "q \<in> insert H (set as)" for q
  proof -
    have "q + 24 \<le> ?t"
      using that f(5) laid_le [OF f(4)] by (auto simp: as_def dest: laid_member [OF f(4)])
    then show "sep ?t q" "sep q ?t" "?t \<noteq> q" by (auto simp: sep_def)
  qed
  have lt: "?t < W64" "?P < W64" "?v < W64" "grow_inc sz < W64" "H < W64"
    using f(5,6) laid_le [OF f(4)] P field_bound(2) [of ?m H] room ok
    by (auto simp: heap_ok_def W64_def)
  have c: "add64 (prev_p ?m H) (mul64 24 (add64 (block_size ?m H) 8)) \<noteq> ?t"
  proof -
    have "?P + 192 < W64"
    proof (cases "?P = H")
      case False
      with Pn have "?P < brk h" by (auto simp: as_def dest: laid_member [OF f(4)])
      then show ?thesis using ok by (simp add: heap_ok_def W64_def)
    qed (use f(5) laid_le [OF f(4)] f(6) in simp)
    then show ?thesis using P f(3) far by (simp add: as_def W64_def)
  qed
  define m' where "m' = set_prev (set_next (set_next (set_prev (set_block_size ?m ?t ?v) ?t ?P) ?t H) ?P ?t) H ?t"
  have flds: "next_p m' q = (if q = ?P then ?t else if q = ?t then H else next_p ?m q)"
      "prev_p m' q = (if q = H then ?t else if q = ?t then ?P else prev_p ?m q)"
      "block_size m' q = (if q = ?t then ?v else block_size ?m q)"
    if "q \<in> insert H (set as) \<or> q = ?t" for q
  proof -
    have "sep ?t q" "sep ?P q" "sep H q" "sep ?P ?t" "sep H ?t" "?P \<noteq> ?t" "H \<noteq> ?t"
      using that tsep sepn Pn by (metis sep_refl insertI1)+
    then show "next_p m' q = (if q = ?P then ?t else if q = ?t then H else next_p ?m q)"
      "prev_p m' q = (if q = H then ?t else if q = ?t then ?P else prev_p ?m q)"
      "block_size m' q = (if q = ?t then ?v else block_size ?m q)"
      unfolding m'_def using lt by auto
  qed
  have "prev_p m' H = ?t" using flds(2) [of H] by simp
  have gr: "grow H sz h = Done (?t, h\<lparr>brk := brk h + grow_inc sz, mem := m'\<rparr>)"
  proof -
    have "sep ?t H" "sep ?P H" using tsep(1) [of H] sepn [OF Pn, of H] by auto
    then show ?thesis
      using c g P lt grow_inc_facts(3) [of sz] \<open>prev_p m' H = ?t\<close>
      by (simp add: grow_def Let_def m'_def)
  qed
  have "distinct (H # as)" using f(7,8) by simp
  have "links (next_p m') (prev_p m') ((H # as) @ [?t] @ [H])"
  proof (rule links_splice [OF links])
    fix x assume "x \<in> set (butlast (H # as)) \<union> set (butlast [H])"
    then have "x \<in> set (H # as)" "x \<noteq> ?P"
      using butlast_not_last [OF _ \<open>distinct (H # as)\<close>, of x] in_set_butlastD [of x "H # as"] by auto
    then show "next_p m' x = next_p ?m x" using flds(1) [of x] tsep(3) [of x] by auto
  next
    fix x assume "x \<in> set (tl (H # as)) \<union> set (tl [H])"
    then show "prev_p m' x = prev_p ?m x" using flds(2) [of x] tsep(3) [of x] f(7) by auto
  next
    show "links (next_p m') (prev_p m') (last (H # as) # [?t] @ [hd [H]])"
      using flds(1,2) [of ?t] flds(2) [of H] flds(1) [of ?P] tsep(3) [OF Pn] tsep(3) [of H] Pn by simp
  qed simp_all
  moreover have "laid (brk_lo h) (bs @ [(?t, ?v)]) (brk h + grow_inc sz)"
    using f(4) grow_inc_facts(3) [of sz] by (auto simp: laid_append)
  moreover have "block_size m' a = b" if "(a, b) \<in> set bs" for a b
  proof -
    have "a \<in> set as" using that by (force simp: as_def)
    then show ?thesis using flds(3) [of a] tsep(3) [of a] f(2) [OF that] by auto
  qed
  ultimately show ?thesis
    using ok gr flds(3) [of H] flds(3) [of ?t] tsep(3) [of H] room
    by (auto simp: heap_ok_def as_def)
qed


subsection \<open>What \<^verbatim>\<open>my_malloc\<close> guarantees\<close>

lemma dropWhile_first:
  fixes sz :: nat
  shows "\<forall>(q, t) \<in> set xs. t < sz \<Longrightarrow> sz \<le> s \<Longrightarrow>
     dropWhile (\<lambda>(p, s). s < sz) (xs @ (p, s) # ys) = (p, s) # ys"
  by (induction xs) (auto simp: not_le [symmetric])

text \<open>C1: For a request of at least 16 bytes, the size of the two pointers that a free block holds,
  and a free list with a block that is large enough, \<^verbatim>\<open>my_malloc\<close> takes the first such block,
  cuts it when the rest can hold a header, returns its address and leaves a well-formed ring that
  holds exactly the other blocks and the rest, in order; the break does not move. For smaller
  requests this fails: see \<open>my_malloc_small_request_corrupts\<close>.\<close>

theorem my_malloc_first_fit:
  assumes "heap_ok H h (xs @ (p, s) # ys)" "\<forall>(q, t) \<in> set xs. t < sz" "sz \<le> s" "16 \<le> sz"
  shows "\<exists>h'. my_malloc H sz h = Done (p, h')
           \<and> heap_ok H h' (xs @ carve_rest sz (p, s) @ ys)
           \<and> block_size (mem h') p = carve_size sz (p, s) \<and> sz \<le> carve_size sz (p, s)
           \<and> brk h' = brk h"
proof -
  have "p \<noteq> H" using heap_ok_facts(7) [OF assms(1)] by auto
  moreover have "scan_fit (mem h) H sz = Some p"
    using scan_fit_eq [OF assms(1), of sz] dropWhile_first [OF assms(2,3), of p ys] by simp
  ultimately have "my_malloc H sz h = Done (p, h\<lparr>mem := unlink_block p (split_block sz p (mem h))\<rparr>)"
    by (simp add: my_malloc_def)
  then show ?thesis
    using take_block_ok [OF assms(1,4,3)] assms(3) by (auto simp: carve_size_def)
qed

text \<open>When no free block is large enough, the resource limit allows it and the request does
  not fall into the last eight bytes of a multiple of 1024, \<^verbatim>\<open>my_malloc\<close> grows the break by
  whole units of 1024 bytes, returns the old break and puts what is left of the new memory at
  the end of the free list.\<close>

theorem my_malloc_grows:
  assumes "heap_ok H h bs" "\<forall>(q, t) \<in> set bs. t < sz" "16 \<le> sz" "sz mod MEM_INC_SIZE \<le> 1016"
    and "brk h + grow_inc sz \<le> brk_hi h" "last (H # map fst bs) + 192 \<noteq> brk h"
  shows "\<exists>h'. my_malloc H sz h = Done (brk h, h')
           \<and> heap_ok H h' (bs @ carve_rest sz (brk h, grow_inc sz - 8))
           \<and> sz \<le> block_size (mem h') (brk h) \<and> brk h' = brk h + grow_inc sz"
proof -
  have none: "dropWhile (\<lambda>(p, s). s < sz) bs = []" using assms(2) by simp
  then have sc: "scan_fit (mem h) H sz = Some H"
    unfolding scan_fit_eq [OF assms(1)] none by simp
  obtain h1 where h1: "grow H sz h = Done (brk h, h1)" "brk h1 = brk h + grow_inc sz"
      "heap_ok H h1 (bs @ [(brk h, grow_inc sz - 8)])"
    using grow_ok [OF assms(1,5,6)] by blast
  have le: "sz \<le> grow_inc sz - 8" using assms(4) grow_inc_facts(4) by simp
  show ?thesis
    using sc h1 take_block_ok [OF h1(3) assms(3) le] le
    by (auto simp: my_malloc_def carve_size_def)
qed


subsection \<open>Giving a block back\<close>

text \<open>The list after a block is returned between \<open>xs\<close> and \<open>ys\<close>: it absorbs the block right
  behind it, and is absorbed by the block right in front of it.\<close>

definition absorb_next :: "block \<Rightarrow> block list \<Rightarrow> nat \<times> block list" where
  "absorb_next b ys =
     (case ys of
        (q, t) # ys' \<Rightarrow> if fst b + snd b + 8 = q then (snd b + t + 8, ys') else (snd b, ys)
      | [] \<Rightarrow> (snd b, []))"

definition coalesce :: "block list \<Rightarrow> block \<Rightarrow> block list \<Rightarrow> block list" where
  "coalesce xs b ys =
     (case absorb_next b ys of
        (s1, ys1) \<Rightarrow>
          if xs \<noteq> [] \<and> fst (last xs) + snd (last xs) + 8 = fst b
          then butlast xs @ (fst (last xs), snd (last xs) + s1 + 8) # ys1
          else xs @ (fst b, s1) # ys1)"

lemma merge_back_fields:
  assumes "block_size m p = s" "T \<noteq> p" "sep T p" "sep p q" "p + s + 8 < W64" "T < W64" "p < W64"
  shows "T = H \<or> p + s + 8 \<noteq> T \<Longrightarrow> sep T q \<Longrightarrow>
      next_p (merge_back H p T m) q = (if q = p then T else next_p m q)
    \<and> prev_p (merge_back H p T m) q = (if q = T then p else prev_p m q)
    \<and> block_size (merge_back H p T m) q = block_size m q"
    and "T \<noteq> H \<Longrightarrow> p + s + 8 = T \<Longrightarrow> block_size m T = t \<Longrightarrow> next_p m T = N \<Longrightarrow> N \<noteq> p \<Longrightarrow>
      sep N p \<Longrightarrow> sep N q \<Longrightarrow> sep N T \<Longrightarrow> s + t + 8 < W64 \<Longrightarrow>
      next_p (merge_back H p T m) q = (if q = p then N else next_p m q)
    \<and> prev_p (merge_back H p T m) q = (if q = N then p else prev_p m q)
    \<and> block_size (merge_back H p T m) q = (if q = p then s + t + 8 else block_size m q)"
proof -
  assume "T = H \<or> p + s + 8 \<noteq> T" "sep T q"
  then show "next_p (merge_back H p T m) q = (if q = p then T else next_p m q)
    \<and> prev_p (merge_back H p T m) q = (if q = T then p else prev_p m q)
    \<and> block_size (merge_back H p T m) q = block_size m q"
    using assms by (auto simp: merge_back_def)
next
  assume a: "T \<noteq> H" "p + s + 8 = T" "block_size m T = t" "next_p m T = N" "N \<noteq> p" "sep N p" "sep N q"
    "sep N T" "s + t + 8 < W64"
  have "sep p T" using assms(3) sep_sym by blast
  then show "next_p (merge_back H p T m) q = (if q = p then N else next_p m q)
    \<and> prev_p (merge_back H p T m) q = (if q = N then p else prev_p m q)
    \<and> block_size (merge_back H p T m) q = (if q = p then s + t + 8 else block_size m q)"
    using assms a field_bound(3) [of m T] by (auto simp: merge_back_def Let_def)
qed

lemma merge_front_fields:
  assumes "block_size m p = s1" "F \<noteq> p" "sep F p" "sep p q" "sep F q" "F < W64" "p < W64"
    and "block_size m F = f" "F + f + 8 < W64"
  shows "F = H \<or> F + f + 8 \<noteq> p \<Longrightarrow>
      next_p (merge_front H p F m) q = (if q = F then p else next_p m q)
    \<and> prev_p (merge_front H p F m) q = (if q = p then F else prev_p m q)
    \<and> block_size (merge_front H p F m) q = block_size m q"
    and "F \<noteq> H \<Longrightarrow> F + f + 8 = p \<Longrightarrow> next_p m p = N \<Longrightarrow> N \<noteq> p \<Longrightarrow>
      sep N p \<Longrightarrow> sep N q \<Longrightarrow> f + s1 + 8 < W64 \<Longrightarrow>
      next_p (merge_front H p F m) q = (if q = F then N else next_p m q)
    \<and> prev_p (merge_front H p F m) q = (if q = N then F else prev_p m q)
    \<and> block_size (merge_front H p F m) q = (if q = F then f + s1 + 8 else block_size m q)"
proof -
  assume "F = H \<or> F + f + 8 \<noteq> p"
  then show "next_p (merge_front H p F m) q = (if q = F then p else next_p m q)
    \<and> prev_p (merge_front H p F m) q = (if q = p then F else prev_p m q)
    \<and> block_size (merge_front H p F m) q = block_size m q"
    using assms by (auto simp: merge_front_def Let_def)
next
  assume a: "F \<noteq> H" "F + f + 8 = p" "next_p m p = N" "N \<noteq> p" "sep N p" "sep N q" "f + s1 + 8 < W64"
  then show "next_p (merge_front H p F m) q = (if q = F then N else next_p m q)
    \<and> prev_p (merge_front H p F m) q = (if q = N then F else prev_p m q)
    \<and> block_size (merge_front H p F m) q = (if q = F then f + s1 + 8 else block_size m q)"
    using assms field_bound(3) [of m p] by (auto simp: merge_front_def Let_def)
qed

lemma laid_absorb:
  assumes "laid lo (xs @ (p, s) # ys) hi" "absorb_next (p, s) ys = (s1, ys1)"
  shows "laid lo (xs @ (p, s1) # ys1) hi"
proof -
  obtain mid where m: "laid lo xs mid" "mid \<le> p" "16 \<le> s" "laid (p + 8 + s) ys hi"
    using assms(1) by (auto simp: laid_append)
  then have "laid mid ((p, s1) # ys1) hi"
    using assms(2) by (auto simp: absorb_next_def add.assoc add.left_commute add.commute [of 8]
        split: list.splits if_splits intro: laid_weaken)
  with m(1) show ?thesis by (auto simp: laid_append)
qed

lemma laid_coalesce:
  assumes "laid lo (xs @ (p, s) # ys) hi"
  shows "laid lo (coalesce xs (p, s) ys) hi"
proof -
  obtain s1 ys1 where a: "absorb_next (p, s) ys = (s1, ys1)" by fastforce
  obtain mid where m: "laid lo xs mid" and n: "laid mid ((p, s1) # ys1) hi"
    using laid_absorb [OF assms a] by (auto simp: laid_append)
  show ?thesis
  proof (cases "xs \<noteq> [] \<and> fst (last xs) + snd (last xs) + 8 = p")
    case True
    then obtain zs F f where xs: "xs = zs @ [(F, f)]" by (cases xs rule: rev_cases) auto
    then obtain k where "laid lo zs k" "k \<le> F" "16 \<le> f" using m by (auto simp: laid_append)
    moreover have "F + 8 + (f + s1 + 8) = p + 8 + s1" using True xs by simp
    then have "laid (F + 8 + (f + s1 + 8)) ys1 hi" using n by (simp only: laid.simps)
    ultimately show ?thesis using True xs a by (auto simp: coalesce_def laid_append)
  next
    case False
    then show ?thesis using m n a by (auto simp: coalesce_def laid_append)
  qed
qed


text \<open>A ring of separated headers with a block that is not in it.\<close>

lemma free_setting:
  assumes ok: "heap_ok H h (xs @ ys)" and l: "laid (brk_lo h) (xs @ (p, s) # ys) (brk h)"
  shows "p \<notin> insert H (set (map fst (xs @ ys)))" "p + s + 8 \<le> brk h"
    "q \<in> insert H (set (map fst (xs @ ys))) \<Longrightarrow> sep p q \<and> sep q p \<and> q < W64"
    "dropWhile (\<lambda>(q, t). q \<le> p) (xs @ ys) = ys"
proof -
  note f = heap_ok_facts [OF ok]
  obtain mid where m: "laid (brk_lo h) xs mid" "mid \<le> p" "16 \<le> s" "laid (p + 8 + s) ys (brk h)"
    using l by (auto simp: laid_append)
  have low: "q + 24 \<le> p" if "(q, t) \<in> set xs" for q t using laid_member [OF m(1) that] m(2) by simp
  have high: "p + 24 \<le> q" if "(q, t) \<in> set ys" for q t using laid_member [OF m(4) that] m(3) by simp
  have H: "H + 24 \<le> p" using laid_le [OF m(1)] m(2) f(5) by simp
  show "p \<notin> insert H (set (map fst (xs @ ys)))" using low high H by force
  show "p + s + 8 \<le> brk h" using laid_le [OF m(4)] by simp
  have "q < W64" if q: "q \<in> set (map fst (xs @ ys))" for q
  proof -
    obtain b where "b \<in> set (xs @ ys)" "q = fst b" using q unfolding set_map by blast
    then show ?thesis using laid_member [OF f(4), of "fst b" "snd b"] f(6) by simp
  qed
  moreover have "H < W64" using f(5,6) laid_le [OF f(4)] by simp
  ultimately have small: "q < W64" if "q \<in> insert H (set (map fst (xs @ ys)))" for q using that by blast
  have side: "q + 24 \<le> p \<or> p + 24 \<le> q" if "q \<in> insert H (set (map fst (xs @ ys)))" for q
    using that low high H by auto
  show "sep p q \<and> sep q p \<and> q < W64" if "q \<in> insert H (set (map fst (xs @ ys)))"
    using side [OF that] small [OF that] by (auto simp: sep_def)
  have "dropWhile (\<lambda>(q, t). q \<le> p) ys = ys" using high by (cases ys) force+
  moreover have "\<forall>b \<in> set xs. (\<lambda>(q, t). q \<le> p) b" using low by force
  ultimately show "dropWhile (\<lambda>(q, t). q \<le> p) (xs @ ys) = ys"
    by (simp add: dropWhile_append2)
qed

lemma merge_back_step:
  assumes ok: "heap_ok H h (xs @ ys)" and l: "laid (brk_lo h) (xs @ (p, s) # ys) (brk h)"
    and s: "block_size (mem h) p = s" and a: "absorb_next (p, s) ys = (s1, ys1)"
  defines "m1 \<equiv> merge_back H p (hd (map fst ys @ [H])) (mem h)"
    and "N \<equiv> hd (map fst ys1 @ [H])"
  assumes q: "q \<in> insert p (insert H (set (map fst (xs @ ys))))"
  shows "next_p m1 q = (if q = p then N else next_p (mem h) q)"
    "prev_p m1 q = (if q = N then p else prev_p (mem h) q)"
    "block_size m1 q = (if q = p then s1 else block_size (mem h) q)"
proof -
  define D where "D = insert H (set (map fst (xs @ ys)))"
  let ?T = "hd (map fst ys @ [H])"
  note f = heap_ok_facts [OF ok] and fs = free_setting [OF ok l, folded D_def]
  have T: "?T \<in> D" using hd_in_ring [of "map fst ys" H] unfolding D_def by fastforce
  have sepD: "sep x y" if "x \<in> D" "y \<in> D" for x y
    using heap_ok_sep [OF ok] that unfolding D_def by blast
  have q': "q = p \<or> q \<in> D" using q unfolding D_def by blast
  have pq: "sep p q" using q' fs(3) [of q] sep_refl by blast
  have Tq: "sep x q" if "x \<in> D" for x using q' fs(3) [OF that] sepD [OF that] by blast
  have small: "p + s + 8 < W64" "p < W64" using fs(2) f(6) by simp_all
  have Tp: "?T \<noteq> p" "sep ?T p" "?T < W64" using T fs(1) fs(3) [OF T] by auto
  note mb = merge_back_fields [OF s Tp(1,2) pq small(1) Tp(3) small(2)]
  consider (no) "ys1 = ys" "s1 = s" "?T = H \<or> p + s + 8 \<noteq> ?T"
    | (yes) T t ys' where "ys = (T, t) # ys'" "p + s + 8 = T" "ys1 = ys'" "s1 = s + t + 8"
    using a by (cases ys) (auto simp: absorb_next_def split: if_splits)
  then have "next_p m1 q = (if q = p then N else next_p (mem h) q)
    \<and> prev_p m1 q = (if q = N then p else prev_p (mem h) q)
    \<and> block_size m1 q = (if q = p then s1 else block_size (mem h) q)"
  proof cases
    case no
    then show ?thesis using mb(1) [OF no(3) Tq [OF T]] s unfolding m1_def N_def by simp
  next
    case yes
    have TT: "?T = T" using yes(1) by simp
    have b: "block_size (mem h) T = t" using f(2) yes(1) by simp
    have n: "next_p (mem h) T = N"
      using heap_ok_neighbours(2) [of H h xs T t ys'] ok yes(1,3) unfolding N_def by simp
    have TH: "T \<noteq> H" using f(7) yes(1) by auto
    have N: "N \<in> D"
      using hd_in_ring [of "map fst ys1" H] yes(1,3) unfolding N_def D_def by fastforce
    have Np: "N \<noteq> p" "sep N p" using N fs(1) fs(3) [OF N] by auto
    have "(T, t) \<in> set (xs @ (p, s) # ys)" using yes(1) by simp
    then have "p + 8 + s + 8 + t \<le> brk h" using laid_member [OF l] yes(2) by force
    then have "s + t + 8 < W64" using f(6) by simp
    then show ?thesis
      using mb(2) [unfolded TT, OF TH yes(2) b n Np Tq [OF N] sepD [OF N T, unfolded TT]] yes(4)
      unfolding m1_def TT by simp
  qed
  then show "next_p m1 q = (if q = p then N else next_p (mem h) q)"
    "prev_p m1 q = (if q = N then p else prev_p (mem h) q)"
    "block_size m1 q = (if q = p then s1 else block_size (mem h) q)" by blast+
qed

lemma last_block_facts:
  assumes ok: "heap_ok H h (xs @ ys)" and l: "laid (brk_lo h) (xs @ (p, s) # ys) (brk h)"
  shows "last (H # map fst xs) + block_size (mem h) (last (H # map fst xs)) + 8 \<le> p"
    and "xs \<noteq> [] \<Longrightarrow> last xs = (last (H # map fst xs), block_size (mem h) (last (H # map fst xs)))
           \<and> last (H # map fst xs) \<noteq> H"
proof -
  note f = heap_ok_facts [OF ok]
  obtain mid where m: "laid (brk_lo h) xs mid" "mid \<le> p" using l by (auto simp: laid_append)
  have "last (H # map fst xs) + block_size (mem h) (last (H # map fst xs)) + 8 \<le> p
    \<and> (xs \<noteq> [] \<longrightarrow> last xs = (last (H # map fst xs), block_size (mem h) (last (H # map fst xs)))
           \<and> last (H # map fst xs) \<noteq> H)"
  proof (cases xs rule: rev_cases)
    case Nil
    then show ?thesis using f(3,5) laid_le [OF m(1)] m(2) by simp
  next
    case (snoc zs b)
    then have b: "b = (fst b, block_size (mem h) (fst b))" using f(2) [of "fst b" "snd b"] by (simp add: prod_eq_iff)
    then have "(fst b, block_size (mem h) (fst b)) \<in> set xs" using snoc by simp
    from laid_member [OF m(1) this] show ?thesis using snoc b f(5) m(2) by auto
  qed
  then show "last (H # map fst xs) + block_size (mem h) (last (H # map fst xs)) + 8 \<le> p"
    and "xs \<noteq> [] \<Longrightarrow> last xs = (last (H # map fst xs), block_size (mem h) (last (H # map fst xs)))
           \<and> last (H # map fst xs) \<noteq> H" by blast+
qed

lemma absorb_bound:
  assumes "laid lo (xs @ (p, s) # ys) hi" "absorb_next (p, s) ys = (s1, ys1)"
  shows "p + 8 + s1 \<le> hi"
  using laid_member [OF laid_absorb [OF assms], of p s1] by simp

text \<open>The whole of \<^verbatim>\<open>my_free\<close> up to the attempt to shrink the heap.\<close>

lemma free_ok:
  assumes ok: "heap_ok H h (xs @ ys)" and l: "laid (brk_lo h) (xs @ (p, s) # ys) (brk h)"
    and s: "block_size (mem h) p = s"
  shows "\<exists>m2. my_free H p h = Done (shrink H (h\<lparr>mem := m2\<rparr>)) \<and>
           heap_ok H (h\<lparr>mem := m2\<rparr>) (coalesce xs (p, s) ys)"
proof -
  obtain s1 ys1 where a: "absorb_next (p, s) ys = (s1, ys1)" by fastforce
  define as cs where "as = map fst xs" and "cs = map fst ys1"
  let ?F = "last (H # as)" let ?N = "hd (cs @ [H])"
  define D where "D = insert H (set (map fst (xs @ ys)))"
  define m1 m2 where "m1 = merge_back H p (hd (map fst ys @ [H])) (mem h)"
    and "m2 = merge_front H p ?F m1"
  note f = heap_ok_facts [OF ok] and fs = free_setting [OF ok l, folded D_def]
  note st1 = merge_back_step [OF ok l s a, folded m1_def cs_def D_def]
  obtain B where B: "map fst ys = B @ cs" "set (B @ cs) = set (map fst ys)"
    using a by (cases ys) (auto simp: absorb_next_def cs_def split: if_splits)
  have ring: "links (next_p (mem h)) (prev_p (mem h)) ((H # as) @ B @ (cs @ [H]))"
    using f(1) by (simp add: as_def B(1))
  have ys1: "set ys1 \<subseteq> set ys"
    using a by (cases ys) (auto simp: absorb_next_def split: if_splits)
  have sub: "insert H (set as \<union> set cs) \<subseteq> D" using B(2) unfolding D_def as_def by auto
  have "distinct (H # as @ B @ cs)" using f(7,8) by (simp add: as_def B(1))
  then have dist: "distinct (H # as @ p # cs)" using fs(1) sub by auto
  have F: "?F \<in> D" and N: "?N \<in> D"
    using last_in_ring [of H as] hd_in_ring [of cs H] sub by blast+
  have Fp: "?F \<noteq> p" "?N \<noteq> p" using F N fs(1) by auto
  have run: "my_free H p h = Done (shrink H (h\<lparr>mem := m2\<rparr>))"
  proof -
    have "links (next_p (mem h)) (prev_p (mem h)) ((H # as) @ (map fst ys @ [H]))"
      using f(1) by (simp add: as_def)
    then have "prev_p (mem h) (hd (map fst ys @ [H])) = ?F" by (simp only: links_append) auto
    then show ?thesis
      using scan_pos_eq [OF ok, of p] fs(4) by (simp add: my_free_def m1_def m2_def Let_def)
  qed
  have m1p: "block_size m1 p = s1" "next_p m1 p = ?N" using st1(1,3) [of p] by auto
  have Dp: "p \<notin> D" by (rule fs(1))
  have rp: "x \<in> D \<and> x \<noteq> ?F \<and> x \<noteq> p"
    if "x \<in> set (butlast (H # as)) \<union> set (butlast (cs @ [H]))" for x
    using ring_parts(1) [OF dist that] sub by auto
  have rn: "x \<in> D \<and> x \<noteq> ?N \<and> x \<noteq> p"
    if "x \<in> set (tl (H # as)) \<union> set (tl (cs @ [H]))" for x
    using ring_parts(2) [OF dist that] sub by auto
  have sepD: "sep x y" if "x \<in> insert p D" "y \<in> insert p D" for x y
    using that fs(3) heap_ok_sep [OF ok, folded D_def] sep_refl by blast
  define f where "f = block_size (mem h) ?F"
  have fb: "?F + f + 8 \<le> p" "xs \<noteq> [] \<Longrightarrow> last xs = (?F, f) \<and> ?F \<noteq> H"
    using last_block_facts [OF ok l] unfolding f_def as_def by auto
  have lts: "p < W64" "?F < W64" "?F + f + 8 < W64" "f + s1 + 8 < W64"
    using fb(1) fs(2) f(6) absorb_bound [OF l a] by auto
  have m1F: "block_size m1 ?F = f" using st1(3) [of ?F] F Fp(1) by (simp add: f_def)
  note mf = merge_front_fields [OF m1p(1) Fp(1) _ _ _ lts(2,1) m1F lts(3)]
  have "links (next_p m2) (prev_p m2) (H # map fst (coalesce xs (p, s) ys) @ [H])
    \<and> (\<forall>(q, t) \<in> set (coalesce xs (p, s) ys). block_size m2 q = t) \<and> block_size m2 H = 0"
  proof (cases "xs \<noteq> [] \<and> fst (last xs) + snd (last xs) + 8 = p")
    case True
    then have c: "?F \<noteq> H" "?F + f + 8 = p" using fb(2) by auto
    have m2: "next_p m2 q = (if q = ?F then ?N else next_p m1 q)"
        "prev_p m2 q = (if q = ?N then ?F else prev_p m1 q)"
        "block_size m2 q = (if q = ?F then f + s1 + 8 else block_size m1 q)" if "q \<in> insert p D" for q
      using mf(2) [OF _ _ _ c m1p(2) Fp(2) _ _ lts(4)] sepD F N that unfolding m2_def by auto
    have lk: "links (next_p m2) (prev_p m2) ((H # as) @ [] @ (cs @ [H]))"
    proof (rule links_splice [OF ring])
      fix x assume "x \<in> set (butlast (H # as)) \<union> set (butlast (cs @ [H]))"
      from rp [OF this] show "next_p m2 x = next_p (mem h) x" using m2(1) [of x] st1(1) [of x] by auto
    next
      fix x assume "x \<in> set (tl (H # as)) \<union> set (tl (cs @ [H]))"
      from rn [OF this] show "prev_p m2 x = prev_p (mem h) x" using m2(2) [of x] st1(2) [of x] by auto
    next
      show "links (next_p m2) (prev_p m2) (last (H # as) # [] @ [hd (cs @ [H])])"
        using m2(1) [of ?F] m2(2) [of ?N] F N by simp
    qed simp_all
    have co: "coalesce xs (p, s) ys = butlast xs @ (?F, f + s1 + 8) # ys1"
      using True a fb(2) by (simp add: coalesce_def)
    have mp: "map fst (butlast xs @ (?F, f + s1 + 8) # ys1) = as @ cs"
      using True by (cases xs rule: rev_cases) (auto simp: as_def cs_def)
    have bs: "block_size m2 q = t" if "(q, t) \<in> set (butlast xs @ (?F, f + s1 + 8) # ys1)" for q t
    proof (cases "q = ?F")
      case False
      with that have qt: "(q, t) \<in> set (xs @ ys)" using ys1 by (auto dest: in_set_butlastD)
      then have "q \<in> D" unfolding D_def by force
      then show ?thesis using False m2(3) [of q] st1(3) [of q] f(2) [OF qt] Dp by auto
    next
      case True
      have "fst (last xs) \<notin> set (map fst (butlast xs))" "fst (last xs) \<notin> set cs"
        using dist \<open>xs \<noteq> [] \<and> _\<close> by (cases xs rule: rev_cases; simp add: as_def)+
      then have "(q, t) \<notin> set (butlast xs)" "(q, t) \<notin> set ys1"
        using True fb(2) \<open>xs \<noteq> [] \<and> _\<close> unfolding cs_def by force+
      then have "t = f + s1 + 8" using that by simp
      then show ?thesis using m2(3) [of ?F] F True by simp
    qed
    have "block_size m2 H = 0"
      using m2(3) [of H] st1(3) [of H] f(3) c(1) Dp by (simp add: D_def)
    then show ?thesis unfolding co mp using lk bs by (auto simp del: set_append)
  next
    case False
    then have c: "?F = H \<or> ?F + f + 8 \<noteq> p" using fb(2) by (auto simp: as_def)
    have m2: "next_p m2 q = (if q = ?F then p else next_p m1 q)"
        "prev_p m2 q = (if q = p then ?F else prev_p m1 q)"
        "block_size m2 q = block_size m1 q" if "q \<in> insert p D" for q
      using mf(1) [OF _ _ _ c] sepD F N that unfolding m2_def by auto
    have "links (next_p m2) (prev_p m2) ((H # as) @ [p] @ (cs @ [H]))"
    proof (rule links_splice [OF ring])
      fix x assume "x \<in> set (butlast (H # as)) \<union> set (butlast (cs @ [H]))"
      from rp [OF this] show "next_p m2 x = next_p (mem h) x" using m2(1) [of x] st1(1) [of x] by auto
    next
      fix x assume "x \<in> set (tl (H # as)) \<union> set (tl (cs @ [H]))"
      from rn [OF this] show "prev_p m2 x = prev_p (mem h) x" using m2(2) [of x] st1(2) [of x] by auto
    next
      show "links (next_p m2) (prev_p m2) (last (H # as) # [p] @ [hd (cs @ [H])])"
        using m2(1) [of ?F] m2(1,2) [of p] m2(2) [of ?N] st1(1) [of p] st1(2) [of ?N] F N Fp m1p by simp
    qed simp_all
    moreover have co: "coalesce xs (p, s) ys = xs @ (p, s1) # ys1"
      using False a by (auto simp: coalesce_def)
    moreover have "block_size m2 q = t" if "(q, t) \<in> set (xs @ (p, s1) # ys1)" for q t
    proof (cases "(q, t) = (p, s1)")
      case False
      with that have qt: "(q, t) \<in> set (xs @ ys)" using ys1 by auto
      then have "q \<in> D" unfolding D_def by force
      then show ?thesis using m2(3) [of q] st1(3) [of q] f(2) [OF qt] Dp by auto
    qed (use m2(3) [of p] m1p in simp)
    moreover have "block_size m2 H = 0"
      using m2(3) [of H] st1(3) [of H] f(3) Dp by (simp add: D_def)
    ultimately show ?thesis by (auto simp: as_def cs_def)
  qed
  then show ?thesis
    using run ok laid_coalesce [OF l] by (auto simp: heap_ok_def)
qed


subsection \<open>Moving the break back\<close>

lemma mul64_minus: "b * n < W64 \<Longrightarrow> mul64 (mul64 (W64 - 1) n) b = (W64 - b * n) mod W64"
proof -
  assume a: "b * n < W64"
  have "((W64 - 1) * n mod W64) * b mod W64 = ((W64 - 1) * (b * n)) mod W64"
    by (subst mod_mult_left_eq) (simp add: ac_simps)
  also have "\<dots> = (W64 * (b * n) - b * n) mod W64" by (simp add: diff_mult_distrib)
  also have "\<dots> = (W64 - b * n) mod W64"
  proof (cases "b * n")
    case (Suc k)
    then have "W64 * (b * n) - b * n = (W64 - b * n) + W64 * k" using a by simp
    then show ?thesis by simp
  qed auto
  finally show ?thesis by (simp add: mul64_def)
qed

lemma as_intptr_minus: "k < 2 ^ 63 \<Longrightarrow> as_intptr ((W64 - k) mod W64) = - int k"
  by (cases k) (auto simp: as_intptr_def W64_def)

text \<open>The ring's last block decides what \<open>shrink\<close> does.\<close>

lemma shrink_eq:
  assumes ok: "heap_ok H h bs"
  shows "shrink H h =
     (if bs \<noteq> [] \<and> fst (last bs) + snd (last bs) + 8 = brk h
      then h\<lparr>brk := brk h - MEM_INC_SIZE * (snd (last bs) div MEM_INC_SIZE)\<rparr> else h)"
proof -
  note f = heap_ok_facts [OF ok]
  have P: "prev_p (mem h) H = last (H # map fst bs)"
  proof -
    have "links (next_p (mem h)) (prev_p (mem h)) ((H # map fst bs) @ [H])" using f(1) by simp
    then show ?thesis by (simp only: links_append) auto
  qed
  show ?thesis
  proof (cases bs rule: rev_cases)
    case Nil
    then show ?thesis
      using P f(3,5) laid_le [OF f(4)] f(6) by (simp add: shrink_def Let_def W64_def)
  next
    case (snoc zs b)
    obtain q t where b: "b = (q, t)" by fastforce
    have m: "brk_lo h \<le> q" "q + 8 + t \<le> brk h" "block_size (mem h) q = t"
      using laid_member [OF f(4), of q t] f(2) [of q t] snoc b by auto
    define k where "k = MEM_INC_SIZE * (t div MEM_INC_SIZE)"
    have "k \<le> t" by (simp add: k_def)
    then have k: "k < 2 ^ 63" "MEM_INC_SIZE * (t div MEM_INC_SIZE) < W64"
      using m(2) ok by (auto simp: heap_ok_def W64_def k_def)
    have "as_intptr (mul64 (mul64 (W64 - 1) (t div MEM_INC_SIZE)) MEM_INC_SIZE) = - int k"
      using mul64_minus [OF k(2)] as_intptr_minus [OF k(1)] by (simp add: k_def)
    moreover have "brk_lo h + k \<le> brk h" "brk h \<le> brk_hi h"
      using m \<open>k \<le> t\<close> ok by (auto simp: heap_ok_def)
    ultimately have "sbrk (as_intptr (mul64 (mul64 (W64 - 1) (t div MEM_INC_SIZE)) MEM_INC_SIZE)) h
        = Some (brk h, h\<lparr>brk := brk h - k\<rparr>)"
      by (auto simp: sbrk_def Let_def nat_diff_distrib)
    moreover have "add64 (add64 q t) 8 = q + t + 8" using m(2) f(6) by simp
    ultimately show ?thesis
      using P snoc b m(3) by (auto simp: shrink_def Let_def k_def)
  qed
qed

definition keeps_break :: "block list \<Rightarrow> nat \<Rightarrow> bool" where
  "keeps_break bs b \<longleftrightarrow> (bs \<noteq> [] \<longrightarrow> fst (last bs) + snd (last bs) + 8 \<noteq> b \<or> snd (last bs) < MEM_INC_SIZE)"

lemma shrink_none:
  "heap_ok H h bs \<Longrightarrow> keeps_break bs (brk h) \<Longrightarrow> shrink H h = h"
  by (auto simp: shrink_eq keeps_break_def)

subsection \<open>What \<^verbatim>\<open>my_free\<close> guarantees\<close>

text \<open>C2: Returning a block that lies between the free blocks \<open>xs\<close> and \<open>ys\<close> puts it at its
  place in address order, merged with the neighbours it touches; the ring stays well-formed
  and the free bytes grow by exactly the returned block, as long as the last free block does
  not reach the break with 1024 bytes or more.\<close>

theorem my_free_coalesces:
  assumes "heap_ok H h (xs @ ys)" "laid (brk_lo h) (xs @ (p, s) # ys) (brk h)"
    and "block_size (mem h) p = s" "keeps_break (coalesce xs (p, s) ys) (brk h)"
  shows "\<exists>h'. my_free H p h = Done h' \<and> heap_ok H h' (coalesce xs (p, s) ys) \<and> brk h' = brk h
     \<and> (\<Sum>(q, t)\<leftarrow>coalesce xs (p, s) ys. 8 + t) = (\<Sum>(q, t)\<leftarrow>xs @ ys. 8 + t) + (8 + s)"
proof -
  obtain m2 where m2: "my_free H p h = Done (shrink H (h\<lparr>mem := m2\<rparr>))"
      "heap_ok H (h\<lparr>mem := m2\<rparr>) (coalesce xs (p, s) ys)"
    using free_ok [OF assms(1-3)] by blast
  have "(\<Sum>(q, t)\<leftarrow>coalesce xs (p, s) ys. 8 + t) = (\<Sum>(q, t)\<leftarrow>xs @ ys. 8 + t) + (8 + s)"
    by (cases xs rule: rev_cases; cases ys)
      (auto simp: coalesce_def absorb_next_def)
  with m2 shrink_none [OF m2(2)] assms(4) show ?thesis by simp
qed

text \<open>No two neighbours of the list touch each other.\<close>

fun apart :: "block list \<Rightarrow> bool" where
  "apart ((p, s) # (q, t) # bs) = (p + s + 8 \<noteq> q \<and> apart ((q, t) # bs))"
| "apart [] = True"
| "apart [b] = True"

lemma apart_append:
  "apart (xs @ (p, s) # ys) \<longleftrightarrow> apart (xs @ [(p, s)]) \<and> apart ((p, s) # ys)"
proof (induction xs rule: apart.induct)
  case (3 v)
  then show ?case by (cases v) auto
qed auto

lemma coalesce_carve:
  assumes "apart (xs @ (p, s) # ys)" "sz \<le> s"
  shows "coalesce xs (p, carve_size sz (p, s)) (carve_rest sz (p, s) @ ys) = xs @ (p, s) # ys"
proof -
  have "\<not> (xs \<noteq> [] \<and> fst (last xs) + snd (last xs) + 8 = p)"
  proof (cases xs rule: rev_cases)
    case (snoc zs b)
    then show ?thesis using assms(1) apart_append [of zs "fst b" "snd b" "(p, s) # ys"]
      by (cases b) auto
  qed simp
  moreover have "apart ((p, s) # ys)" using assms(1) apart_append by blast
  then have "absorb_next (p, carve_size sz (p, s)) (carve_rest sz (p, s) @ ys) = (s, ys)"
    using assms(2)
    by (cases ys) (auto simp: absorb_next_def carve_size_def carve_rest_def)
  ultimately show ?thesis by (simp add: coalesce_def)
qed

lemma laid_carve_both:
  assumes "laid lo (xs @ (p, s) # ys) hi" "sz \<le> s" "16 \<le> sz"
  shows "laid lo (xs @ (p, carve_size sz (p, s)) # carve_rest sz (p, s) @ ys) hi"
proof -
  obtain mid where m: "laid lo xs mid" "mid \<le> p" "16 \<le> s" "laid (p + 8 + s) ys hi"
    using assms(1) by (auto simp: laid_append)
  then have "laid mid ((p, carve_size sz (p, s)) # carve_rest sz (p, s) @ ys) hi"
    using assms(2,3) by (auto simp: carve_size_def carve_rest_def intro: laid_weaken)
  with m(1) show ?thesis by (subst laid_append) blast
qed

text \<open>C3: Allocating at least 16 bytes from the first free block that is large enough and returning
  the block at once gives back the very same free list and break, under two conditions on that
  list: no two of its blocks touch each other (\<open>apart\<close>: \<^verbatim>\<open>my_free\<close> would merge them), and its last block does
  not reach the break with 1024 bytes or more (\<open>keeps_break\<close>: \<^verbatim>\<open>my_free\<close> would lower the
  break). Outside these conditions the list is not restored: see
  \<open>my_malloc_small_request_corrupts\<close> and \<open>my_free_leaves_stale_block\<close>.\<close>

theorem my_malloc_my_free_roundtrip:
  assumes "heap_ok H h (xs @ (p, s) # ys)" "\<forall>(q, t) \<in> set xs. t < sz" "sz \<le> s" "16 \<le> sz"
    and "apart (xs @ (p, s) # ys)" "keeps_break (xs @ (p, s) # ys) (brk h)"
  shows "\<exists>h1 h2. my_malloc H sz h = Done (p, h1) \<and> my_free H p h1 = Done h2
     \<and> heap_ok H h2 (xs @ (p, s) # ys) \<and> brk h2 = brk h"
proof -
  define h1 where "h1 = h\<lparr>mem := unlink_block p (split_block sz p (mem h))\<rparr>"
  have "p \<noteq> H" using heap_ok_facts(7) [OF assms(1)] by auto
  moreover have "scan_fit (mem h) H sz = Some p"
    using scan_fit_eq [OF assms(1), of sz] dropWhile_first [OF assms(2,3), of p ys] by simp
  ultimately have m: "my_malloc H sz h = Done (p, h1)" by (simp add: my_malloc_def h1_def)
  note t = take_block_ok [OF assms(1,4,3), folded h1_def]
  have "laid (brk_lo h) (xs @ (p, carve_size sz (p, s)) # carve_rest sz (p, s) @ ys) (brk h)"
    using heap_ok_facts(4) [OF assms(1)] assms(3,4) by (rule laid_carve_both)
  then obtain m2 where m2: "my_free H p h1 = Done (shrink H (h1\<lparr>mem := m2\<rparr>))"
      "heap_ok H (h1\<lparr>mem := m2\<rparr>) (xs @ (p, s) # ys)"
    using free_ok [of H h1 xs "carve_rest sz (p, s) @ ys" p "carve_size sz (p, s)"] t
      coalesce_carve [OF assms(5,3)] by (auto simp: h1_def)
  moreover have "shrink H (h1\<lparr>mem := m2\<rparr>) = h1\<lparr>mem := m2\<rparr>"
    using shrink_none [OF m2(2)] assms(6) by (simp add: h1_def)
  ultimately show ?thesis using m by (auto simp: h1_def)
qed

text \<open>When the heap shrinks, the header of the last free block is not updated: the block
  stays in the ring with its old size and now extends beyond the break.\<close>

theorem my_free_leaves_stale_block:
  assumes "heap_ok H h (xs @ ys)" "laid (brk_lo h) (xs @ (p, s) # ys) (brk h)"
    and "block_size (mem h) p = s" "coalesce xs (p, s) ys = zs @ [(q, t)]"
    and "q + t + 8 = brk h" "MEM_INC_SIZE \<le> t"
  shows "\<exists>h'. my_free H p h = Done h' \<and> prev_p (mem h') H = q \<and> block_size (mem h') q = t
     \<and> brk h' < q + 8 + t"
proof -
  obtain m2 where m2: "my_free H p h = Done (shrink H (h\<lparr>mem := m2\<rparr>))"
      "heap_ok H (h\<lparr>mem := m2\<rparr>) (zs @ [(q, t)])"
    using free_ok [OF assms(1-3)] assms(4) by auto
  have "links (next_p m2) (prev_p m2) ((H # map fst zs @ [q]) @ [H])"
    using heap_ok_facts(1) [OF m2(2)] by simp
  then have "prev_p m2 H = q" by (simp only: links_append) auto
  moreover have "block_size m2 q = t" using heap_ok_facts(2) [OF m2(2), of q t] by simp
  moreover have "0 < t div MEM_INC_SIZE" using assms(6) by (simp add: div_greater_zero_iff)
  ultimately show ?thesis using m2(1) shrink_eq [OF m2(2)] assms(5) by auto
qed

text \<open>A request whose size falls into the last eight bytes of a multiple of 1024 gets a block
  that does not fit into the memory obtained from the system: it ends beyond the break.\<close>

theorem my_malloc_short_block:
  assumes "heap_ok H h bs" "\<forall>(q, t) \<in> set bs. t < sz" "1016 < sz mod MEM_INC_SIZE"
    and "brk h + grow_inc sz \<le> brk_hi h" "last (H # map fst bs) + 192 \<noteq> brk h"
  shows "\<exists>h'. my_malloc H sz h = Done (brk h, h') \<and> brk h' < brk h + 8 + sz"
proof -
  have none: "dropWhile (\<lambda>(p, s). s < sz) bs = []" using assms(2) by simp
  have "scan_fit (mem h) H sz = Some H" unfolding scan_fit_eq [OF assms(1)] none by simp
  moreover obtain h1 where "grow H sz h = Done (brk h, h1)" "brk h1 = brk h + grow_inc sz"
    using grow_ok [OF assms(1,4,5)] by blast
  moreover have "grow_inc sz < 8 + sz" using grow_inc_facts(3,4) [of sz] assms(3) by linarith
  ultimately show ?thesis by (simp add: my_malloc_def)
qed


text \<open>The program: from an empty free list, \<^verbatim>\<open>main\<close> prints the initial break, that break
  plus eleven units and that break plus one unit, and leaves a free block of 11256 bytes of
  which only 1016 are below the break.\<close>

theorem malloc_main_output:
  assumes "heap_ok H h []" "brk h + 11264 \<le> brk_hi h"
  shows "\<exists>h'. malloc_main H h = Done ([brk h, brk h + 11264, brk h + 1024], h')
     \<and> block_size (mem h') (brk h) = 11256"
proof -
  let ?b = "brk h"
  have inc: "grow_inc 10240 = 11264" by (simp add: grow_inc_def)
  have far: "last (H # map fst []) + 192 \<noteq> ?b"
    using heap_ok_facts(4,5) [OF assms(1)] by simp
  obtain h1 where h1: "grow H 10240 h = Done (?b, h1)" "brk h1 = ?b + 11264"
      "heap_ok H h1 ([] @ [(?b, 11256)])"
    using grow_ok [OF assms(1) _ far, of 10240] assms(2) inc by auto
  define h2 where "h2 = h1\<lparr>mem := unlink_block ?b (split_block 10240 ?b (mem h1))\<rparr>"
  have m: "my_malloc H 10240 h = Done (?b, h2)"
    using scan_fit_eq [OF assms(1), of 10240] h1(1) by (simp add: my_malloc_def h2_def)
  have c: "carve_rest 10240 (?b, 11256) = [(?b + 10248, 1008)]" "carve_size 10240 (?b, 11256) = 10240"
    by (simp_all add: carve_rest_def carve_size_def)
  note t = take_block_ok [of H h1 "[]" ?b 11256 "[]" 10240, folded h2_def, unfolded c]
  have ok2: "heap_ok H h2 ([] @ [(?b + 10248, 1008)])" "block_size (mem h2) ?b = 10240"
    using t h1(3) by simp_all
  have co: "coalesce [] (?b, 10240) [(?b + 10248, 1008)] = [(?b, 11256)]"
    by (simp add: coalesce_def absorb_next_def)
  have "laid (brk_lo h2) ([] @ (?b, 10240) # [(?b + 10248, 1008)]) (brk h2)"
    using heap_ok_facts(4) [OF ok2(1)] heap_ok_facts(4) [OF h1(3)] h1(2) by (auto simp: h2_def)
  then obtain m2 where m2: "my_free H ?b h2 = Done (shrink H (h2\<lparr>mem := m2\<rparr>))"
      "heap_ok H (h2\<lparr>mem := m2\<rparr>) [(?b, 11256)]"
    using free_ok [of H h2 "[]" "[(?b + 10248, 1008)]" ?b 10240] ok2 co by auto
  have "block_size m2 ?b = 11256" using heap_ok_facts(2) [OF m2(2), of ?b 11256] by simp
  then show ?thesis
    using m m2(1) shrink_eq [OF m2(2)] h1(2) by (simp add: malloc_main_def h2_def)
qed

subsection \<open>Concrete heaps\<close>

definition fresh_heap :: heap where
  "fresh_heap = \<lparr>mem = set_next (set_prev (\<lambda>_. 0) 2048 2048) 2048 2048,
     brk = 4096, brk_lo = 4096, brk_hi = 1000000\<rparr>"

definition one_block_heap :: heap where
  "one_block_heap = \<lparr>mem = set_next (set_prev (set_block_size
       (set_next (set_prev (\<lambda>_. 0) 2048 4096) 2048 4096) 4096 1016) 4096 2048) 4096 2048,
     brk = 5120, brk_lo = 4096, brk_hi = 1000000\<rparr>"

definition live_block_heap :: "nat \<Rightarrow> heap" where
  "live_block_heap s = fresh_heap\<lparr>mem := set_block_size (mem fresh_heap) 4096 s, brk := 4104 + s\<rparr>"

lemma zero_fields [simp]:
  "block_size (\<lambda>_. 0) p = 0" "prev_p (\<lambda>_. 0) p = 0" "next_p (\<lambda>_. 0) p = 0"
  by (simp_all add: block_size_def prev_p_def next_p_def rd64_def)

lemma W64_numerals [simp]: "numeral k < W64 \<longleftrightarrow> numeral k < (18446744073709551616 :: nat)"
  "0 < W64" "Suc 0 < W64"
  by (simp_all add: W64_def)

lemma sep_numerals [simp]:
  "sep (numeral a) (numeral b) \<longleftrightarrow> (numeral a :: nat) = numeral b
     \<or> numeral a + (24 :: nat) \<le> numeral b \<or> numeral b + (24 :: nat) \<le> numeral a"
  by (simp add: sep_def)

lemma concrete_heaps_ok:
  "heap_ok 2048 fresh_heap []" "heap_ok 2048 one_block_heap [(4096, 1016)]"
  "heap_ok 2048 (live_block_heap 1016) []" "heap_ok 2048 (live_block_heap 2040) []"
  by (simp_all add: heap_ok_def fresh_heap_def one_block_heap_def live_block_heap_def)

lemma live_block_size: "s < W64 \<Longrightarrow> block_size (mem (live_block_heap s)) 4096 = s"
  by (simp add: live_block_heap_def)

theorem my_malloc_first_fit_witness:
  "\<exists>h'. my_malloc 2048 100 one_block_heap = Done (4096, h')
     \<and> heap_ok 2048 h' ([] @ carve_rest 100 (4096, 1016) @ [])
     \<and> block_size (mem h') 4096 = carve_size 100 (4096, 1016) \<and> 100 \<le> carve_size 100 (4096, 1016)
     \<and> brk h' = brk one_block_heap"
  by (rule my_malloc_first_fit) (simp_all add: concrete_heaps_ok)

theorem my_malloc_grows_witness:
  "\<exists>h'. my_malloc 2048 100 fresh_heap = Done (brk fresh_heap, h')
     \<and> heap_ok 2048 h' ([] @ carve_rest 100 (brk fresh_heap, grow_inc 100 - 8))
     \<and> 100 \<le> block_size (mem h') (brk fresh_heap) \<and> brk h' = brk fresh_heap + grow_inc 100"
  by (rule my_malloc_grows) (simp_all add: concrete_heaps_ok, simp_all add: fresh_heap_def grow_inc_def)

theorem my_free_coalesces_witness:
  "\<exists>h'. my_free 2048 4096 (live_block_heap 1016) = Done h'
     \<and> heap_ok 2048 h' (coalesce [] (4096, 1016) []) \<and> brk h' = brk (live_block_heap 1016)
     \<and> (\<Sum>(q, t)\<leftarrow>coalesce [] (4096, 1016) []. 8 + t) = (\<Sum>(q, t)\<leftarrow>([] :: block list) @ []. 8 + t) + (8 + 1016)"
  by (rule my_free_coalesces)
    (simp_all add: concrete_heaps_ok live_block_size, simp_all add: live_block_heap_def
      fresh_heap_def coalesce_def absorb_next_def keeps_break_def)

theorem my_malloc_my_free_roundtrip_witness:
  "\<exists>h1 h2. my_malloc 2048 100 one_block_heap = Done (4096, h1) \<and> my_free 2048 4096 h1 = Done h2
     \<and> heap_ok 2048 h2 ([] @ (4096, 1016) # []) \<and> brk h2 = brk one_block_heap"
  by (rule my_malloc_my_free_roundtrip) (simp_all add: concrete_heaps_ok keeps_break_def)

theorem my_free_leaves_stale_block_witness:
  "\<exists>h'. my_free 2048 4096 (live_block_heap 2040) = Done h' \<and> prev_p (mem h') 2048 = 4096
     \<and> block_size (mem h') 4096 = 2040 \<and> brk h' < 4096 + 8 + 2040"
  by (rule my_free_leaves_stale_block [where xs = "[]" and ys = "[]" and zs = "[]" and s = 2040])
    (simp_all add: concrete_heaps_ok live_block_size, simp_all add: live_block_heap_def
      fresh_heap_def coalesce_def absorb_next_def)

theorem my_malloc_short_block_witness:
  "\<exists>h'. my_malloc 2048 1020 fresh_heap = Done (brk fresh_heap, h') \<and> brk h' < brk fresh_heap + 8 + 1020"
  by (rule my_malloc_short_block [where bs = "[]"])
    (simp_all add: concrete_heaps_ok, simp_all add: fresh_heap_def grow_inc_def)

theorem malloc_main_output_witness:
  "\<exists>h'. malloc_main 2048 fresh_heap = Done ([brk fresh_heap, brk fresh_heap + 11264, brk fresh_heap + 1024], h')
     \<and> block_size (mem h') (brk fresh_heap) = 11256"
  by (rule malloc_main_output) (simp_all add: concrete_heaps_ok, simp add: fresh_heap_def)


text \<open>A request for fewer than 16 bytes makes the header of the rest overlap the links of the
  block that is cut: \<^verbatim>\<open>my_malloc(8)\<close> on a fresh heap leaves the list head pointing at address
  1000, the size of the rest, instead of at a block.\<close>

theorem my_malloc_small_request_corrupts:
  "\<exists>h'. my_malloc 2048 8 fresh_heap = Done (4096, h') \<and> next_p (mem h') 2048 = 1000"
proof -
  have s: "scan_fit (mem fresh_heap) 2048 8 = Some 2048"
    using scan_fit_eq [OF concrete_heaps_ok(1), of 8] by simp
  define m where "m = set_prev (set_next (set_next (set_prev (set_block_size
      (mem fresh_heap) 4096 1016) 4096 2048) 4096 2048) 2048 4096) 2048 4096"
  have g: "grow 2048 8 fresh_heap = Done (4096, fresh_heap\<lparr>brk := 5120, mem := m\<rparr>)"
    by (simp add: grow_def fresh_heap_def m_def Let_def sbrk_def as_intptr_def)
  have f: "rd64 m 4096 = 1016" "rd64 m 4104 = 2048" "rd64 m 4112 = 2048" "rd64 m 2064 = 4096"
    by (simp_all add: m_def set_block_size_def set_prev_def set_next_def bytes.rd_wr_same
        bytes.rd_wr_other)
  have "next_p (unlink_block 4096 (split_block 8 4096 m)) 2048 = 1000"
    by (simp add: split_block_def unlink_block_def Let_def block_size_def prev_p_def next_p_def
        set_block_size_def set_prev_def set_next_def bytes.rd_wr_same bytes.rd_wr_other f)
  then show ?thesis using s g by (simp add: my_malloc_def)
qed

end
