(* ===== verification/Dirname.thy ===== *)
theory Dirname
  imports Prelude
begin

text \<open>
  Section 31, \<^verbatim>\<open>my_dirname_basename_mt.c\<close>: the thread-safe \<^verbatim>\<open>dirname\<close> and
  \<^verbatim>\<open>basename\<close>. A path is the string the caller passes (\<open>None\<close> for a null pointer), the
  pointer \<^verbatim>\<open>ptr\<close> is an offset into it, and every loop is a recursive function on that
  offset. The state holds what the threads share: the two keys, the pointer each thread has
  stored under each key, and the heap with the buffers, addressed by those pointers; both
  functions return a pointer. The first group of lemmas describes each scan, the second
  the two functions on paths of the usual shapes, the third the buffers under calls of any
  number of threads that interleave: an invariant says that no two of the pointers kept under
  the keys are equal.
\<close>

subsection \<open>State: the keys, the pointers of each thread and the heap\<close>

record mt_state =
  dirname_key :: nat
  basename_key :: nat
  dirname_once :: bool                  \<comment> \<open>\<^verbatim>\<open>create_dirname_key\<close> has run\<close>
  basename_once :: bool
  keys_made :: nat                      \<comment> \<open>keys the process has created\<close>
  specific :: "nat \<Rightarrow> nat \<Rightarrow> nat option"  \<comment> \<open>key and thread to the stored pointer\<close>
  mt_heap :: "nat \<rightharpoonup> string"            \<comment> \<open>allocated buffers and the strings in them\<close>

text \<open>The calls that can fail: \<^verbatim>\<open>pthread_key_create\<close>, \<^verbatim>\<open>pthread_once\<close>,
  \<^verbatim>\<open>malloc\<close>, which chooses an address by the state of the heap and leaves the bytes there as
  they are, and \<^verbatim>\<open>pthread_setspecific\<close>.\<close>

record mt_env =
  key_create_s :: int
  once_s :: int
  malloc_f :: "(nat \<rightharpoonup> string) \<Rightarrow> nat option"
  malloc_junk :: string
  setspecific_s :: int

abbreviation PATH_MAX :: nat where "PATH_MAX \<equiv> 4096"
abbreviation FILENAME_MAX :: nat where "FILENAME_MAX \<equiv> 4096"

text \<open>A new key differs from every key made before.\<close>

definition create_dirname_key :: "mt_env \<Rightarrow> mt_state \<Rightarrow> mt_state run" where
  "create_dirname_key e st =
     (if key_create_s e \<noteq> 0 then Exited EXIT_FAILURE else Done (st\<lparr>dirname_key := keys_made st, keys_made := Suc (keys_made st)\<rparr>))"

definition create_basename_key :: "mt_env \<Rightarrow> mt_state \<Rightarrow> mt_state run" where
  "create_basename_key e st =
     (if key_create_s e \<noteq> 0 then Exited EXIT_FAILURE else Done (st\<lparr>basename_key := keys_made st, keys_made := Suc (keys_made st)\<rparr>))"

subsection \<open>The scans over the path\<close>

text \<open>\<^verbatim>\<open>while (ptr > pathname && *ptr == '/' && *(ptr - 1) == '/') ptr--;\<close>\<close>

fun skip_trailing :: "string \<Rightarrow> nat \<Rightarrow> nat" where
  "skip_trailing s 0 = 0"
| "skip_trailing s (Suc p) =
     (if cat s (Suc p) = slash \<and> cat s p = slash then skip_trailing s p else Suc p)"

text \<open>\<^verbatim>\<open>while (*ptr != '/' && ptr != pathname) ptr--;\<close>\<close>

fun search_back :: "string \<Rightarrow> nat \<Rightarrow> nat" where
  "search_back s 0 = 0"
| "search_back s (Suc p) = (if cat s (Suc p) \<noteq> slash then search_back s p else Suc p)"

text \<open>The position both functions compute before they copy.\<close>

definition scan_ptr :: "string \<Rightarrow> nat" where
  "scan_ptr s =
     (let p = skip_trailing s (length s - 1);
          q = (if cat s p = slash \<and> p \<noteq> 0 then p - 1 else p)
      in search_back s q)"

text \<open>\<^verbatim>\<open>while (*tmp_ptr == '/' && *(tmp_ptr + 1) == '/') tmp_ptr++;\<close>\<close>

function skip_dup :: "string \<Rightarrow> nat \<Rightarrow> nat" where
  "skip_dup s t =
     (if t < length s \<and> cat s t = slash \<and> cat s (Suc t) = slash then skip_dup s (Suc t) else t)"
  by pat_completeness auto
termination
  by (relation "measure (\<lambda>(s, t). length s - t)") auto

declare skip_dup.simps [simp del]

text \<open>
  The copying loop of \<^verbatim>\<open>my_dirname_mt\<close>. \<^verbatim>\<open>buf\<close> has \<^verbatim>\<open>PATH_MAX\<close> bytes, the last
  store is the terminator. A read beyond the terminator of \<^verbatim>\<open>pathname\<close> and a store beyond
  the buffer are faults.
\<close>

lemma skip_dup_ge: "t \<le> skip_dup s t"
proof (induction s t rule: skip_dup.induct)
  case (1 s t)
  then show ?case by (subst skip_dup.simps) (auto dest: Suc_leD)
qed

function dirname_copy :: "string \<Rightarrow> nat \<Rightarrow> nat \<Rightarrow> string \<Rightarrow> string run" where
  "dirname_copy s ptr tmp buf =
     (if length s < tmp then Faulted OutOfBounds
      else let tmp' = skip_dup s tmp in
        if PATH_MAX \<le> length buf then Faulted OutOfBounds
        else if tmp' = ptr then Done buf
        else dirname_copy s ptr (Suc tmp') (buf @ [cat s tmp']))"
  by pat_completeness auto
termination
proof (relation "measure (\<lambda>(s, ptr, tmp, buf). Suc (length s) - tmp)", goal_cases)
  case (2 s ptr tmp buf x)
  then show ?case using skip_dup_ge [of tmp s] by auto
qed simp

declare dirname_copy.simps [simp del]

text \<open>\<^verbatim>\<open>while (ptr[i] != '/' && ptr[i] != '\0') { buf[i] = ptr[i]; i++; }\<close>, on the
  characters from \<^verbatim>\<open>ptr\<close> on.\<close>

fun basename_copy :: "string \<Rightarrow> string \<Rightarrow> string run" where
  "basename_copy [] buf = (if FILENAME_MAX \<le> length buf then Faulted OutOfBounds else Done buf)"
| "basename_copy (c # cs) buf =
     (if FILENAME_MAX \<le> length buf then Faulted OutOfBounds
      else if c \<noteq> slash \<and> c \<noteq> NUL then basename_copy cs (buf @ [c]) else Done buf)"

definition dirname_path :: "string option \<Rightarrow> string run" where
  "dirname_path pathname =
     (case pathname of
        None \<Rightarrow> Done ''.''
      | Some s \<Rightarrow>
          if s = [] then Done ''.''
          else if cat s 0 = slash \<and> cat s 1 = NUL then Done ''/''
          else let ptr = scan_ptr s in
            if cat s ptr \<noteq> slash then Done ''.''
            else dirname_copy s ptr 0 [])"

definition basename_path :: "string option \<Rightarrow> string run" where
  "basename_path pathname =
     (case pathname of
        None \<Rightarrow> Done ''.''
      | Some s \<Rightarrow>
          if s = [] then Done ''.''
          else if cat s 0 = slash \<and> cat s 1 = NUL then Done ''/''
          else let ptr = scan_ptr s; ptr' = (if ptr \<noteq> 0 then Suc ptr else ptr) in
            basename_copy (drop ptr' s) [])"

subsection \<open>The functions with their per-thread buffers\<close>

text \<open>
  \<^verbatim>\<open>pthread_once\<close> runs the initialiser at the first call only and reports a failure of its
  own by a non-zero result, upon which the code exits with \<^verbatim>\<open>EXIT_SUCCESS\<close>. The pointer that
  the calling thread has stored under the key is used again; without one a buffer is
  allocated and its address stored.
\<close>

definition thread_buffer :: "mt_env \<Rightarrow> nat \<Rightarrow> nat \<Rightarrow> mt_state \<Rightarrow> (nat \<times> mt_state) run" where
  "thread_buffer e key tid st =
     (case specific st key tid of
        Some buf \<Rightarrow> Done (buf, st)
      | None \<Rightarrow>
          (case malloc_f e (mt_heap st) of
             None \<Rightarrow> Exited EXIT_FAILURE
           | Some buf \<Rightarrow>
               if setspecific_s e \<noteq> 0 then Exited EXIT_FAILURE
               else Done (buf, st\<lparr>mt_heap := (mt_heap st)(buf \<mapsto> malloc_junk e),
                      specific := (specific st)(key := (specific st key)(tid := Some buf))\<rparr>)))"

definition dirname_buffer :: "mt_env \<Rightarrow> nat \<Rightarrow> mt_state \<Rightarrow> (nat \<times> mt_state) run" where
  "dirname_buffer e tid st =
     (if once_s e \<noteq> 0 then Exited EXIT_SUCCESS
      else run_bind (if dirname_once st then Done st
                     else run_bind (create_dirname_key e st) (\<lambda>st1. Done (st1\<lparr>dirname_once := True\<rparr>)))
             (\<lambda>st1. thread_buffer e (dirname_key st1) tid st1))"

definition basename_buffer :: "mt_env \<Rightarrow> nat \<Rightarrow> mt_state \<Rightarrow> (nat \<times> mt_state) run" where
  "basename_buffer e tid st =
     (if once_s e \<noteq> 0 then Exited EXIT_SUCCESS
      else run_bind (if basename_once st then Done st
                     else run_bind (create_basename_key e st) (\<lambda>st1. Done (st1\<lparr>basename_once := True\<rparr>)))
             (\<lambda>st1. thread_buffer e (basename_key st1) tid st1))"

text \<open>The string is written through the pointer, which is returned.\<close>

definition put_buf :: "nat \<Rightarrow> string \<Rightarrow> mt_state \<Rightarrow> mt_state" where
  "put_buf buf r st = st\<lparr>mt_heap := (mt_heap st)(buf \<mapsto> r)\<rparr>"

definition my_dirname_mt :: "mt_env \<Rightarrow> nat \<Rightarrow> string option \<Rightarrow> mt_state \<Rightarrow> (nat \<times> mt_state) run" where
  "my_dirname_mt e tid pathname st =
     run_bind (dirname_buffer e tid st) (\<lambda>(buf, st1).
     run_bind (dirname_path pathname) (\<lambda>r. Done (buf, put_buf buf r st1)))"

definition my_basename_mt :: "mt_env \<Rightarrow> nat \<Rightarrow> string option \<Rightarrow> mt_state \<Rightarrow> (nat \<times> mt_state) run" where
  "my_basename_mt e tid pathname st =
     run_bind (basename_buffer e tid st) (\<lambda>(buf, st1).
     run_bind (basename_path pathname) (\<lambda>r. Done (buf, put_buf buf r st1)))"

text \<open>At the end of a thread the destructor is called for each of its stored pointers, which
  are reset; it frees the buffer.\<close>

definition destructor :: "nat \<Rightarrow> mt_state \<Rightarrow> mt_state" where
  "destructor buf st = st\<lparr>mt_heap := (mt_heap st)(buf := None)\<rparr>"

definition drop_key :: "nat \<Rightarrow> nat \<Rightarrow> mt_state \<Rightarrow> mt_state" where
  "drop_key tid key st =
     (case specific st key tid of
        None \<Rightarrow> st
      | Some buf \<Rightarrow>
          destructor buf (st\<lparr>specific := (specific st)(key := (specific st key)(tid := None))\<rparr>))"

definition thread_exit :: "nat \<Rightarrow> mt_state \<Rightarrow> mt_state" where
  "thread_exit tid st = fold (drop_key tid) [0..<keys_made st] st"

text \<open>\<^verbatim>\<open>thread_func\<close> (thread 1), which prints both results, and \<^verbatim>\<open>main\<close> (thread 0), which
  reads its own two results through its pointers after the other thread has ended.\<close>

definition str_at :: "mt_state \<Rightarrow> nat \<Rightarrow> string run" where
  "str_at st buf = (case mt_heap st buf of None \<Rightarrow> Faulted OutOfBounds | Some s \<Rightarrow> Done s)"

definition print_both :: "nat \<Rightarrow> nat \<Rightarrow> mt_state \<Rightarrow> (string \<times> string) run" where
  "print_both d b st = run_bind (str_at st d) (\<lambda>s. run_bind (str_at st b) (\<lambda>s'. Done (s, s')))"

definition thread_func :: "mt_env \<Rightarrow> mt_state \<Rightarrow> ((string \<times> string) \<times> mt_state) run" where
  "thread_func e st =
     (let pathname = Some ''//////bcd////efg////'' in
      run_bind (my_dirname_mt e 1 pathname st) (\<lambda>(d, st1).
      run_bind (my_basename_mt e 1 pathname st1) (\<lambda>(b, st2).
      run_bind (print_both d b st2) (\<lambda>line. Done (line, st2)))))"

definition dirname_main :: "mt_env \<Rightarrow> mt_state \<Rightarrow> ((string \<times> string) list \<times> mt_state) run" where
  "dirname_main e st =
     (let pathname = Some ''//////etc////passwd////'' in
      run_bind (my_dirname_mt e 0 pathname st) (\<lambda>(d, st1).
      run_bind (my_basename_mt e 0 pathname st1) (\<lambda>(b, st2).
      run_bind (thread_func e st2) (\<lambda>(sub, st3).
      let st4 = thread_exit 1 st3 in
      run_bind (print_both d b st4) (\<lambda>line. Done ([sub, line], st4))))))"


subsection \<open>What the scans compute\<close>

lemma cat_in_left: "i < length u \<Longrightarrow> cat (u @ v) i = u ! i"
  by (simp add: cat_def nth_append)

lemma skip_trailing_stop: "cat s p \<noteq> slash \<Longrightarrow> skip_trailing s p = p"
  by (cases p) auto

lemma skip_trailing_replicate:
  assumes "u \<noteq> []" "last u \<noteq> slash" "j < m"
  shows "skip_trailing (u @ replicate m slash) (length u + j) = length u"
  using assms(3)
proof (induction j)
  case 0
  obtain n where n: "length u = Suc n" using assms(1) by (cases u) auto
  then have "cat (u @ replicate m slash) n \<noteq> slash"
    using assms(1,2) by (simp add: cat_in_left last_conv_nth)
  then show ?case by (simp add: n)
next
  case (Suc j)
  have "cat (u @ replicate m slash) (length u + i) = slash" if "i \<le> Suc j" for i
    using that Suc.prems by (simp add: cat_def)
  from this [of j] this [of "Suc j"] Suc show ?case by simp
qed

lemma search_back_free:
  assumes "slash \<notin> set b" "j < length b"
  shows "search_back (w @ b @ v) (length w + j) = search_back (w @ b @ v) (length w)"
  using assms(2)
proof (induction j)
  case (Suc j)
  then have "cat (w @ b @ v) (length w + Suc j) \<noteq> slash"
    using assms(1) by (auto simp: cat_in_left in_set_conv_nth simp del: add_Suc_right)
  with Suc show ?case by simp
qed simp

lemma search_back_at:
  assumes "b \<noteq> []" "slash \<notin> set b" "w = [] \<or> last w = slash"
  shows "search_back (w @ b @ v) (length w) = length w - 1"
proof (cases "length w")
  case (Suc n)
  then have "w \<noteq> []" by auto
  have "cat (w @ b @ v) (length w + 0) \<noteq> slash"
    using assms(1,2) by (subst cat_append_right) (cases b; auto simp: cat_def)
  moreover have "cat (w @ b @ v) n = slash"
    using Suc assms(3) \<open>w \<noteq> []\<close> by (simp add: cat_in_left last_conv_nth)
  then have "search_back (w @ b @ v) n = n" by (cases n) auto
  ultimately show ?thesis using Suc by simp
qed simp

text \<open>The scan stops at the separator in front of the last component, or at the start.\<close>

lemma scan_ptr_eq:
  assumes "b \<noteq> []" "slash \<notin> set b" "w = [] \<or> last w = slash"
  shows "scan_ptr (w @ b @ replicate m slash) = length w - 1"
proof -
  let ?u = "w @ b" let ?s = "w @ b @ replicate m slash"
  have lb: "last ?u \<noteq> slash" "?u \<noteq> []" using assms(1,2) by (auto dest: last_in_set)
  have len: "length ?u - 1 = length w + (length b - 1)" "length b - 1 < length b"
    using assms(1) by (cases b; simp)+
  define p where "p = skip_trailing ?s (length ?s - 1)"
  have "(if cat ?s p = slash \<and> p \<noteq> 0 then p - 1 else p) = length ?u - 1"
  proof (cases m)
    case 0
    have "cat ?s (length ?u - 1) \<noteq> slash"
      using lb 0 by (simp add: cat_def last_conv_nth)
    then show ?thesis by (simp add: p_def skip_trailing_stop 0)
  next
    case (Suc k)
    have "p = length ?u"
      using skip_trailing_replicate [OF lb(2,1), of k m] Suc by (simp add: p_def add.assoc)
    moreover have "cat ?s (length ?u) = slash" by (simp add: cat_def Suc nth_append)
    ultimately show ?thesis using lb(2) by simp
  qed
  then have "scan_ptr ?s = search_back ?s (length w + (length b - 1))"
    unfolding scan_ptr_def Let_def p_def [symmetric] using len by simp
  then show ?thesis
    using search_back_free [OF assms(2) len(2)] search_back_at [OF assms] by simp
qed

subsection \<open>The copying loops\<close>

text \<open>Runs of separators collapsed to one.\<close>

fun squeeze :: "string \<Rightarrow> string" where
  "squeeze (x # y # zs) =
     (if x = slash \<and> y = slash then squeeze (y # zs) else x # squeeze (y # zs))"
| "squeeze [] = []"
| "squeeze [x] = [x]"

lemma length_squeeze: "length (squeeze s) \<le> length s"
  by (induction s rule: squeeze.induct) auto

lemma squeeze_eq_Nil [simp]: "squeeze s = [] \<longleftrightarrow> s = []"
  by (induction s rule: squeeze.induct) auto

lemma squeeze_slashes: "squeeze (replicate (Suc k) slash) = [slash]"
  by (induction k) auto

lemma squeeze_append:
  "d \<noteq> [] \<Longrightarrow> last d \<noteq> slash \<Longrightarrow> e \<noteq> [] \<Longrightarrow> squeeze (d @ e) = squeeze d @ squeeze e"
proof (induction d rule: squeeze.induct)
  case (3 v)
  then show ?case by (cases e) auto
qed auto

lemma squeeze_free: "slash \<notin> set s \<Longrightarrow> squeeze s = s"
  by (induction s rule: squeeze.induct) auto

lemma squeeze_dir:
  "d \<noteq> [] \<Longrightarrow> last d \<noteq> slash \<Longrightarrow> squeeze (d @ replicate (Suc k) slash) = squeeze d @ [slash]"
  by (simp add: squeeze_append squeeze_slashes del: replicate_Suc)

lemma squeeze_no_double:
  "Suc i < length (squeeze s) \<Longrightarrow> \<not> (squeeze s ! i = slash \<and> squeeze s ! Suc i = slash)"
proof (induction s arbitrary: i rule: squeeze.induct)
  case (1 x y zs)
  show ?case
  proof (cases "x = slash \<and> y = slash")
    case True
    with "1.prems" "1.IH"(1) [OF True, of i] show ?thesis by simp
  next
    case False
    have hd: "squeeze (y # zs) ! 0 = y" by (induction zs) auto
    show ?thesis
    proof (cases i)
      case 0
      with False hd show ?thesis by auto
    next
      case (Suc k)
      with False "1.prems" "1.IH"(2) [OF False, of k] show ?thesis by auto
    qed
  qed
qed auto

text \<open>The loop, from offset \<open>length u\<close> on, copies the squeezed rest up to the last separator.\<close>

lemma dirname_copy_eq:
  assumes "v \<noteq> []" "last v = slash" "r = [] \<or> hd r \<noteq> slash"
    and "length buf + length v \<le> PATH_MAX"
  shows "dirname_copy (u @ v @ r) (length u + length v - 1) (length u) buf
           = Done (buf @ butlast (squeeze v))"
  using assms
proof (induction "length v" arbitrary: u v buf rule: less_induct)
  case less
  let ?s = "u @ v @ r" let ?p = "length u + length v - 1"
  obtain x xs where v: "v = x # xs" using less.prems(1) by (cases v) auto
  have buf: "length buf < PATH_MAX" using less.prems(4) v by simp
  have cx: "cat ?s (length u) = x" using v by (simp add: cat_def nth_append)
  show ?case
  proof (cases xs)
    case Nil
    then have "x = slash" using less.prems(2) v by simp
    have "cat ?s (Suc (length u)) \<noteq> slash"
      using less.prems(3) v Nil by (cases r) (auto simp: cat_def nth_append)
    then have "skip_dup ?s (length u) = length u" by (subst skip_dup.simps) simp
    then show ?thesis using v Nil buf by (subst dirname_copy.simps) simp
  next
    case (Cons y ys)
    let ?u = "u @ [x]"
    have cy: "cat ?s (Suc (length u)) = y" using v Cons by (simp add: cat_def nth_append)
    have len: "\<not> length ?s < length u" "\<not> length ?s < Suc (length u)" using v by simp_all
    have IH: "dirname_copy ?s ?p (Suc (length u)) b = Done (b @ butlast (squeeze xs))"
      if "length b + length xs \<le> PATH_MAX" for b
      using less.hyps [of xs b ?u] less.prems that v Cons by simp
    show ?thesis
    proof (cases "x = slash \<and> y = slash")
      case True
      have sk: "skip_dup ?s (length u) = skip_dup ?s (Suc (length u))"
        using True cx cy v by (subst skip_dup.simps) simp
      have "dirname_copy ?s ?p (length u) buf = dirname_copy ?s ?p (Suc (length u)) buf"
        using buf len less.prems(1) by (subst (1 2) dirname_copy.simps) (auto simp: sk Let_def)
      then show ?thesis using IH [of buf] less.prems(4) v Cons True by simp
    next
      case False
      then have "skip_dup ?s (length u) = length u"
        using cx cy by (subst skip_dup.simps) auto
      then have "dirname_copy ?s ?p (length u) buf = dirname_copy ?s ?p (Suc (length u)) (buf @ [x])"
        using v Cons buf cx by (subst dirname_copy.simps) (simp add: Let_def)
      then show ?thesis using IH [of "buf @ [x]"] less.prems(4) v Cons False by simp
    qed
  qed
qed

lemma basename_copy_eq:
  assumes "slash \<notin> set b" "c_string b" "v = [] \<or> hd v = slash"
    and "length buf + length b < FILENAME_MAX"
  shows "basename_copy (b @ v) buf = Done (buf @ b)"
  using assms
proof (induction b arbitrary: buf)
  case Nil
  then show ?case by (cases v) auto
next
  case (Cons c b)
  then show ?case by (auto simp: c_string_def)
qed


subsection \<open>The two functions on the shapes of paths\<close>

text \<open>A path whose only separators trail it names an entry of the working directory.\<close>

lemma dirname_path_bare:
  assumes "b \<noteq> []" "slash \<notin> set b" "c_string b"
  shows "dirname_path (Some (b @ replicate m slash)) = Done ''.''"
proof -
  have "cat (b @ replicate m slash) 0 \<noteq> slash"
    using assms(1,2) by (cases b) (auto simp: cat_def)
  then show ?thesis
    using scan_ptr_eq [of b "[]" m] assms by (simp add: dirname_path_def)
qed

lemma not_root_path:
  "c_string s \<Longrightarrow> s \<noteq> [slash] \<Longrightarrow> s \<noteq> [] \<Longrightarrow> \<not> (cat s 0 = slash \<and> cat s 1 = NUL)"
  by (cases s rule: remdups_adj.cases) (auto simp: cat_def c_string_def)

lemma cat_last_of_left: "w \<noteq> [] \<Longrightarrow> cat (w @ v) (length w - 1) = last w"
  by (cases w rule: rev_cases) (auto simp: cat_def nth_append)

lemma dirname_path_copy:
  assumes "w \<noteq> []" "last w = slash" "b \<noteq> []" "slash \<notin> set b"
    and "c_string (w @ b)" "length w \<le> PATH_MAX"
  shows "dirname_path (Some (w @ b @ replicate m slash)) = Done (butlast (squeeze w))"
proof -
  let ?s = "w @ b @ replicate m slash"
  have nr: "\<not> (cat ?s 0 = slash \<and> cat ?s 1 = NUL)"
    using assms by (intro not_root_path) (auto simp: c_string_def append_eq_Cons_conv)
  have ptr: "scan_ptr ?s = length w - 1"
    using assms by (intro scan_ptr_eq) auto
  have "dirname_copy ?s (length w - 1) 0 [] = Done (butlast (squeeze w))"
    using dirname_copy_eq [of w "b @ replicate m slash" "[]" "[]"] assms
    by (cases b) auto
  then show ?thesis
    using nr ptr assms(1,2) cat_last_of_left [of w "b @ replicate m slash"]
    by (auto simp: dirname_path_def)
qed

lemma basename_path_copy:
  assumes "w \<noteq> []" "last w = slash" "b \<noteq> []" "slash \<notin> set b"
    and "c_string (w @ b)" "length b < FILENAME_MAX"
  shows "basename_path (Some (w @ b @ replicate m slash)) = Done (if length w = 1 then [] else b)"
proof -
  let ?s = "w @ b @ replicate m slash"
  have nr: "\<not> (cat ?s 0 = slash \<and> cat ?s 1 = NUL)"
    using assms by (intro not_root_path) (auto simp: c_string_def append_eq_Cons_conv)
  have ptr: "scan_ptr ?s = length w - 1"
    using assms by (intro scan_ptr_eq) auto
  have "basename_copy (b @ replicate m slash) [] = Done ([] @ b)"
    using assms by (intro basename_copy_eq) (cases m; auto simp: c_string_def)+
  moreover have "w = [slash]" if "length w = 1"
    using that assms(2) by (cases w) auto
  ultimately show ?thesis
    using nr ptr assms(1) by (cases "length w = 1"; cases w) (auto simp: basename_path_def Let_def)
qed

lemma scan_ptr_slashes: "scan_ptr (replicate (Suc (Suc k)) slash) = 0"
proof -
  have "skip_trailing (replicate (Suc n) slash) j = 0" if "j \<le> n" for j n
    using that by (induction j) (auto simp: cat_def nth_append simp del: replicate_Suc)
  from this [of "Suc k" "Suc k"] show ?thesis
    by (simp add: scan_ptr_def Let_def del: replicate_Suc)
qed

text \<open>On a path of two or more separators the copying loop misses its stop position.\<close>

lemma dirname_copy_past:
  assumes "skip_dup s tmp \<noteq> ptr" "ptr < tmp" "length buf + (length s - tmp) + 2 \<le> PATH_MAX"
  shows "dirname_copy s ptr tmp buf = Faulted OutOfBounds"
  using assms
proof (induction s ptr tmp buf rule: dirname_copy.induct)
  case (1 s ptr tmp buf)
  show ?case
  proof (cases "length s < tmp")
    case False
    let ?t = "skip_dup s tmp"
    have ge: "tmp \<le> ?t" "ptr < ?t" using skip_dup_ge [of tmp s] "1.prems"(2) by auto
    have "skip_dup s (Suc ?t) \<noteq> ptr" using skip_dup_ge [of "Suc ?t" s] ge by auto
    moreover have "length (buf @ [cat s ?t]) + (length s - Suc ?t) + 2 \<le> PATH_MAX \<or> length s < Suc ?t"
      using "1.prems"(3) ge by auto
    ultimately show ?thesis
      using False "1.IH" [OF False refl] "1.prems" ge
      by (subst dirname_copy.simps) (auto simp: Let_def dirname_copy.simps [of s ptr "Suc ?t"])
  qed (simp add: dirname_copy.simps)
qed

lemma split_path_parts:
  assumes "d \<noteq> []" "last d \<noteq> slash" "b \<noteq> []" "slash \<notin> set b" "c_string (d @ b)"
    and "length d + Suc k \<le> PATH_MAX" "length b < FILENAME_MAX"
  shows "\<exists>dir base.
      dirname_path (Some (d @ replicate (Suc k) slash @ b @ replicate m slash)) = Done dir
    \<and> basename_path (Some (d @ replicate (Suc k) slash @ b @ replicate m slash)) = Done base
    \<and> dir = squeeze d \<and> base = b
    \<and> squeeze (d @ replicate (Suc k) slash @ b) = dir @ [slash] @ base"
proof -
  let ?w = "d @ replicate (Suc k) slash"
  have w: "?w \<noteq> []" "last ?w = slash" "length ?w \<noteq> 1" "c_string (?w @ b)"
    using assms by (auto simp: c_string_def)
  have sq: "squeeze ?w = squeeze d @ [slash]" using assms(1,2) by (rule squeeze_dir)
  have "squeeze (slash # b) = slash # b"
    using assms(3,4) by (cases b) (auto simp: squeeze_free)
  moreover have "squeeze (replicate (Suc k) slash @ b) = squeeze (slash # b)"
    using assms(3) by (induction k) auto
  ultimately have "squeeze (d @ replicate (Suc k) slash @ b) = squeeze d @ slash # b"
    using assms by (subst squeeze_append) auto
  with sq show ?thesis
    using dirname_path_copy [OF w(1,2) assms(3,4) w(4), of m]
      basename_path_copy [OF w(1,2) assms(3,4) w(4) assms(7), of m] w(3) assms(1,6)
    by (simp del: replicate_Suc)
qed

text \<open>C4: On every path made of a directory part, separators, a last component and trailing
  separators, the two functions split the path at the right place: the directory part comes
  back with its runs of separators collapsed, the last component unchanged, and joining
  the two with one separator gives the path with all runs of separators collapsed.\<close>

theorem dirname_basename_split:
  assumes "d \<noteq> []" "last d \<noteq> slash" "b \<noteq> []" "slash \<notin> set b" "c_string (d @ b)"
    and "length d + Suc k \<le> PATH_MAX" "length b < FILENAME_MAX"
  shows "\<exists>dir base.
      dirname_path (Some (d @ replicate (Suc k) slash @ b @ replicate m slash)) = Done dir
    \<and> basename_path (Some (d @ replicate (Suc k) slash @ b @ replicate m slash)) = Done base
    \<and> dir = squeeze d \<and> base = b
    \<and> squeeze (d @ replicate (Suc k) slash @ b) = dir @ [slash] @ base"
  using assms by (rule split_path_parts)

theorem dirname_basename_split_witness:
  "\<exists>dir base.
      dirname_path (Some (''a'' @ replicate (Suc 1) slash @ ''b'' @ replicate 1 slash)) = Done dir
    \<and> basename_path (Some (''a'' @ replicate (Suc 1) slash @ ''b'' @ replicate 1 slash)) = Done base
    \<and> dir = squeeze ''a'' \<and> base = ''b''
    \<and> squeeze (''a'' @ replicate (Suc 1) slash @ ''b'') = dir @ [slash] @ base"
  by (rule dirname_basename_split) (simp_all add: c_string_def)

text \<open>For a file of the root directory both functions fail their contract: the directory
  part comes back empty where \<^verbatim>\<open>/\<close> is meant, and with a single leading separator the last
  component comes back empty too.\<close>

theorem dirname_basename_of_root_file:
  assumes "b \<noteq> []" "slash \<notin> set b" "c_string b" "length b < FILENAME_MAX" "Suc k \<le> PATH_MAX"
  shows "dirname_path (Some (replicate (Suc k) slash @ b @ replicate m slash)) = Done []
    \<and> basename_path (Some (replicate (Suc k) slash @ b @ replicate m slash))
        = Done (if k = 0 then [] else b)"
proof -
  let ?w = "replicate (Suc k) slash"
  have w: "?w \<noteq> []" "last ?w = slash" "c_string (?w @ b)"
    using assms by (auto simp: c_string_def)
  show ?thesis
    using dirname_path_copy [OF w(1,2) assms(1,2) w(3), of m]
      basename_path_copy [OF w(1,2) assms(1,2) w(3) assms(4), of m] assms(5)
    by (simp add: squeeze_slashes del: replicate_Suc)
qed

theorem dirname_basename_of_root_file_witness:
  "dirname_path (Some (replicate (Suc 0) slash @ ''a'' @ replicate 0 slash)) = Done []
    \<and> basename_path (Some (replicate (Suc 0) slash @ ''a'' @ replicate 0 slash))
        = Done (if (0::nat) = 0 then [] else ''a'')"
  by (rule dirname_basename_of_root_file) (simp_all add: c_string_def)

text \<open>On a path of two or more separators \<^verbatim>\<open>my_dirname_mt\<close> never meets its stop position and
  reads past the end of the path.\<close>

theorem dirname_all_slashes_overrun:
  assumes "k + 4 \<le> PATH_MAX"
  shows "dirname_path (Some (replicate (Suc (Suc k)) slash)) = Faulted OutOfBounds"
proof -
  let ?s = "replicate (Suc (Suc k)) slash"
  have nr: "\<not> (cat ?s 0 = slash \<and> cat ?s 1 = NUL)"
    by (intro not_root_path) (auto simp: c_string_def)
  have "skip_dup ?s 0 = skip_dup ?s 1" by (subst skip_dup.simps) (simp add: cat_def)
  then have ge: "1 \<le> skip_dup ?s 0" using skip_dup_ge [of 1 ?s] by simp
  have "dirname_copy ?s 0 (Suc (skip_dup ?s 0)) [cat ?s (skip_dup ?s 0)] = Faulted OutOfBounds"
    using ge assms skip_dup_ge [of "Suc (skip_dup ?s 0)" ?s]
    by (intro dirname_copy_past) auto
  then have "dirname_copy ?s 0 0 [] = Faulted OutOfBounds"
    using ge by (subst dirname_copy.simps) (simp add: Let_def del: replicate_Suc)
  then show ?thesis
    using nr by (simp add: dirname_path_def scan_ptr_slashes cat_def del: replicate_Suc)
qed

theorem dirname_all_slashes_overrun_witness:
  "dirname_path (Some (replicate (Suc (Suc 0)) slash)) = Faulted OutOfBounds"
  by (rule dirname_all_slashes_overrun) simp

subsection \<open>Thread safety\<close>

text \<open>
  Calls of any number of threads interleave in two steps: \<open>Enter\<close> is the first part of a
  call, up to the pointer of the buffer, \<open>Store\<close> writes the string and returns; a thread
  outside a call may end. \<open>mt_call\<close> holds the calls that are between the two steps.
\<close>

datatype mt_fun = DirnameF | BasenameF

datatype mt_event = Enter nat mt_fun "string option" | Store nat | ThreadExit nat

type_synonym mt_calls = "nat \<rightharpoonup> mt_fun \<times> nat \<times> string option"

primrec buffer_of :: "mt_fun \<Rightarrow> mt_env \<Rightarrow> nat \<Rightarrow> mt_state \<Rightarrow> (nat \<times> mt_state) run" where
  "buffer_of DirnameF = dirname_buffer"
| "buffer_of BasenameF = basename_buffer"

primrec path_of :: "mt_fun \<Rightarrow> string option \<Rightarrow> string run" where
  "path_of DirnameF = dirname_path"
| "path_of BasenameF = basename_path"

primrec key_of :: "mt_fun \<Rightarrow> mt_state \<Rightarrow> nat" where
  "key_of DirnameF = dirname_key"
| "key_of BasenameF = basename_key"

primrec once_of :: "mt_fun \<Rightarrow> mt_state \<Rightarrow> bool" where
  "once_of DirnameF = dirname_once"
| "once_of BasenameF = basename_once"

inductive mt_step :: "mt_env \<Rightarrow> mt_state \<times> mt_calls \<Rightarrow> mt_event \<Rightarrow> mt_state \<times> mt_calls \<Rightarrow> bool"
  for e :: mt_env where
  enter: "calls t = None \<Longrightarrow> buffer_of w e t st = Done (buf, st')
    \<Longrightarrow> mt_step e (st, calls) (Enter t w p) (st', calls(t \<mapsto> (w, buf, p)))"
| store: "calls t = Some (w, buf, p) \<Longrightarrow> path_of w p = Done r
    \<Longrightarrow> mt_step e (st, calls) (Store t) (put_buf buf r st, calls(t := None))"
| texit: "calls t = None \<Longrightarrow> mt_step e (st, calls) (ThreadExit t) (thread_exit t st, calls)"

inductive mt_run :: "mt_env \<Rightarrow> mt_state \<times> mt_calls \<Rightarrow> mt_event list \<Rightarrow> mt_state \<times> mt_calls \<Rightarrow> bool"
  for e :: mt_env where
  mt_nil: "mt_run e s [] s"
| mt_cons: "mt_step e s ev s' \<Longrightarrow> mt_run e s' evs s'' \<Longrightarrow> mt_run e s (ev # evs) s''"

inductive_cases mt_stepE: "mt_step e (st, calls) ev s'"

definition mt_init :: mt_state where
  "mt_init = \<lparr>dirname_key = 0, basename_key = 0, dirname_once = False, basename_once = False,
     keys_made = 0, specific = (\<lambda>_ _. None), mt_heap = Map.empty\<rparr>"

text \<open>What \<^verbatim>\<open>malloc\<close> promises: the address of a new block is not in use.\<close>

definition malloc_fresh :: "mt_env \<Rightarrow> bool" where
  "malloc_fresh e \<longleftrightarrow> (\<forall>h buf. malloc_f e h = Some buf \<longrightarrow> h buf = None)"

text \<open>The stored pointers are pairwise different and point to allocated buffers; pointers are
  stored under created keys only; the two keys differ; a call in progress uses the pointer its
  thread has stored.\<close>

definition mt_inv :: "mt_state \<times> mt_calls \<Rightarrow> bool" where
  "mt_inv = (\<lambda>(st, calls).
     (\<forall>k t buf. specific st k t = Some buf \<longrightarrow> mt_heap st buf \<noteq> None \<and> k < keys_made st)
   \<and> (\<forall>k t k' t' buf. specific st k t = Some buf \<and> specific st k' t' = Some buf \<longrightarrow> k = k' \<and> t = t')
   \<and> (\<forall>w. once_of w st \<longrightarrow> key_of w st < keys_made st)
   \<and> (dirname_once st \<and> basename_once st \<longrightarrow> dirname_key st \<noteq> basename_key st)
   \<and> (\<forall>t w buf p. calls t = Some (w, buf, p) \<longrightarrow> once_of w st \<and> specific st (key_of w st) t = Some buf))"

lemmas buffer_defs = dirname_buffer_def basename_buffer_def create_dirname_key_def
  create_basename_key_def thread_buffer_def run_bind_Done_iff

lemma mt_funs: "(\<forall>w. P w) \<longleftrightarrow> P DirnameF \<and> P BasenameF"
  by (metis mt_fun.exhaust)

lemma mt_inv_start: "mt_inv (mt_init, Map.empty)"
  by (simp add: mt_inv_def mt_init_def mt_funs)

text \<open>The buffer that a call gets is the one stored for its thread; either it was stored before,
  or it is new.\<close>

lemma buffer_of_cases:
  assumes "buffer_of w e t st = Done (buf, st')" "\<forall>w. once_of w st \<longrightarrow> key_of w st < keys_made st"
  obtains (old) "once_of w st" "specific st (key_of w st) t = Some buf" "st' = st"
  | (new) k where "malloc_f e (mt_heap st) = Some buf" "once_of w st'" "key_of w st' = k"
      "specific st k t = None \<or> keys_made st \<le> k" "k < keys_made st'"
      "specific st' = (specific st)(k := (specific st k)(t := Some buf))"
      "mt_heap st' = (mt_heap st)(buf \<mapsto> malloc_junk e)" "keys_made st \<le> keys_made st'"
      "\<forall>w'. w' \<noteq> w \<longrightarrow> once_of w' st' = once_of w' st \<and> key_of w' st' = key_of w' st"
      "once_of w st \<longrightarrow> k = key_of w st" "\<not> once_of w st \<longrightarrow> k = keys_made st"
  | (kept) "\<not> once_of w st" "specific st (keys_made st) t = Some buf"
  using assms
  by (cases w) (auto simp: buffer_defs mt_funs split: if_splits option.splits)

lemma mt_invD:
  assumes "mt_inv (st, calls)"
  shows "\<And>k t buf. specific st k t = Some buf \<Longrightarrow> mt_heap st buf \<noteq> None"
    "\<And>k t buf. specific st k t = Some buf \<Longrightarrow> k < keys_made st"
    "\<And>k t k' t' buf. specific st k t = Some buf \<Longrightarrow> specific st k' t' = Some buf \<Longrightarrow> k = k' \<and> t = t'"
    "\<And>w. once_of w st \<Longrightarrow> key_of w st < keys_made st"
    "\<And>w w'. once_of w st \<Longrightarrow> once_of w' st \<Longrightarrow> key_of w st = key_of w' st \<Longrightarrow> w = w'"
    "\<And>t w buf p. calls t = Some (w, buf, p) \<Longrightarrow> once_of w st"
    "\<And>t w buf p. calls t = Some (w, buf, p) \<Longrightarrow> specific st (key_of w st) t = Some buf"
proof -
  show "w = w'" if "once_of w st" "once_of w' st" "key_of w st = key_of w' st" for w w'
    using assms that by (cases w; cases w') (auto simp: mt_inv_def)
qed (use assms in \<open>unfold mt_inv_def split_conv, (blast | metis)\<close>)+

lemma mt_invI:
  assumes "\<And>k t buf. specific st k t = Some buf \<Longrightarrow> mt_heap st buf \<noteq> None"
    "\<And>k t buf. specific st k t = Some buf \<Longrightarrow> k < keys_made st"
    "\<And>k t k' t' buf. specific st k t = Some buf \<Longrightarrow> specific st k' t' = Some buf \<Longrightarrow> k = k' \<and> t = t'"
    "\<And>w. once_of w st \<Longrightarrow> key_of w st < keys_made st"
    "\<And>w w'. once_of w st \<Longrightarrow> once_of w' st \<Longrightarrow> key_of w st = key_of w' st \<Longrightarrow> w = w'"
    "\<And>t w buf p. calls t = Some (w, buf, p) \<Longrightarrow> once_of w st \<and> specific st (key_of w st) t = Some buf"
  shows "mt_inv (st, calls)"
  using assms(1-4,6) assms(5) [of DirnameF BasenameF] unfolding mt_inv_def split_conv
  by (auto 0 3)

lemma mt_inv_new:
  assumes inv: "mt_inv (st, calls)" and free: "mt_heap st buf = None" and none: "calls t = None"
    and w: "once_of w st'" "key_of w st' = k" "k < keys_made st'"
      "once_of w st \<longrightarrow> k = key_of w st" "\<not> once_of w st \<longrightarrow> k = keys_made st"
    and ch: "specific st' = (specific st)(k := (specific st k)(t := Some buf))"
      "mt_heap st' = (mt_heap st)(buf \<mapsto> j)" "keys_made st \<le> keys_made st'"
    and oth: "\<forall>w'. w' \<noteq> w \<longrightarrow> once_of w' st' = once_of w' st \<and> key_of w' st' = key_of w' st"
  shows "mt_inv (st', calls(t \<mapsto> (w, buf, p)))"
proof (rule mt_invI)
  note D = mt_invD [OF inv]
  have sp: "specific st' k' t' = Some b \<longleftrightarrow> (if k' = k \<and> t' = t then b = buf else specific st k' t' = Some b)" for k' t' b
    by (auto simp: ch(1))
  show "mt_heap st' b \<noteq> None" if "specific st' k' t' = Some b" for k' t' b
    using that D(1) by (auto simp: sp ch(2) split: if_splits)
  show "k' < keys_made st'" if "specific st' k' t' = Some b" for k' t' b
    using that D(2) [of k' t' b] w(3) ch(3) by (auto simp: sp split: if_splits)
  show "k1 = k2 \<and> t1 = t2" if "specific st' k1 t1 = Some b" "specific st' k2 t2 = Some b" for k1 t1 k2 t2 b
    using that D(3) [of k1 t1 b k2 t2] D(1) [of k1 t1 b] D(1) [of k2 t2 b] free by (auto simp: sp split: if_splits)
  show "key_of v st' < keys_made st'" if "once_of v st'" for v
    using that D(4) [of v] w(2,3) ch(3) oth by (cases "v = w") auto
  have other: "key_of v st \<noteq> k" if "once_of v st" "v \<noteq> w" for v
    using that D(4) [of v] D(5) [of v w] w(4,5) by auto
  show "v = v'" if "once_of v st'" "once_of v' st'" "key_of v st' = key_of v' st'" for v v'
    using that other [of v] other [of v'] D(5) [of v v'] oth w(2) by metis
  show "once_of v st' \<and> specific st' (key_of v st') t' = Some b" if "(calls(t \<mapsto> (w, buf, p))) t' = Some (v, b, q)" for t' v b q
  proof (cases "t' = t")
    case True
    then show ?thesis using that w(1,2) sp by auto
  next
    case False
    then have c: "once_of v st" "specific st (key_of v st) t' = Some b" using that D(6,7) by auto
    moreover have "v = w \<Longrightarrow> key_of v st = k" using c w(4) by simp
    ultimately show ?thesis using False w(1,2) oth sp by metis
  qed
qed

lemma mt_inv_enter:
  assumes "mt_inv (st, calls)" "malloc_fresh e" "calls t = None" "buffer_of w e t st = Done (buf, st')"
  shows "mt_inv (st', calls(t \<mapsto> (w, buf, p)))"
proof -
  note D = mt_invD [OF assms(1)]
  from assms(4) have "\<forall>w. once_of w st \<longrightarrow> key_of w st < keys_made st" using D(4) by blast
  with assms(4) show ?thesis
  proof (cases rule: buffer_of_cases)
    case old
    then show ?thesis using D by (intro mt_invI) (auto split: if_splits)
  next
    case (new k)
    then have "mt_heap st buf = None" using assms(2) by (simp add: malloc_fresh_def)
    with assms(1,3) new show ?thesis by (intro mt_inv_new) auto
  next
    case kept
    then show ?thesis using D(2) by blast
  qed
qed

lemma mt_inv_store:
  "mt_inv (st, calls) \<Longrightarrow> mt_inv (put_buf buf r st, calls(t := None))"
  unfolding mt_inv_def put_buf_def mt_funs split_conv by (auto split: if_splits)

lemma key_of_drop [simp]:
  "key_of w (drop_key t k st) = key_of w st" "once_of w (drop_key t k st) = once_of w st"
  "keys_made (drop_key t k st) = keys_made st"
  by (cases w; simp add: drop_key_def destructor_def split: option.splits)+

lemma specific_drop:
  "specific (drop_key t k st) k' t' = (if k' = k \<and> t' = t then None else specific st k' t')"
  by (simp add: drop_key_def destructor_def split: option.splits)

lemma heap_drop:
  "mt_heap (drop_key t k st) buf = (if specific st k t = Some buf then None else mt_heap st buf)"
  by (auto simp: drop_key_def destructor_def split: option.splits)

lemma mt_inv_drop:
  assumes "mt_inv (st, calls)" "calls t = None"
  shows "mt_inv (drop_key t k st, calls)"
proof (rule mt_invI)
  note D = mt_invD [OF assms(1)]
  show "mt_heap (drop_key t k st) b \<noteq> None" if "specific (drop_key t k st) k' t' = Some b" for k' t' b
    using that D(1) [of k' t' b] D(3) [of k' t' b k t] by (auto simp: specific_drop heap_drop split: if_splits)
  show "once_of v (drop_key t k st) \<and> specific (drop_key t k st) (key_of v (drop_key t k st)) t' = Some b"
    if "calls t' = Some (v, b, q)" for t' v b q
    using that D(6) [OF that] D(7) [OF that] assms(2) by (auto simp: specific_drop)
qed (use mt_invD [OF assms(1)] in \<open>auto simp: specific_drop split: if_splits\<close>)

lemma mt_inv_exit:
  assumes "mt_inv (st, calls)" "calls t = None"
  shows "mt_inv (thread_exit t st, calls)"
proof -
  have "mt_inv (fold (drop_key t) ks st, calls)" for ks
    using assms by (induction ks arbitrary: st) (auto intro: mt_inv_drop)
  then show ?thesis by (simp add: thread_exit_def)
qed

lemma mt_inv_step:
  "mt_step e s ev s' \<Longrightarrow> malloc_fresh e \<Longrightarrow> mt_inv s \<Longrightarrow> mt_inv s'"
  by (induction rule: mt_step.induct) (auto intro: mt_inv_enter mt_inv_store mt_inv_exit)

lemma mt_inv_run:
  "mt_run e s evs s' \<Longrightarrow> malloc_fresh e \<Longrightarrow> mt_inv s \<Longrightarrow> mt_inv s'"
  by (induction rule: mt_run.induct) (auto intro: mt_inv_step)

text \<open>Thread \<open>t\<close> has its result \<open>r\<close> of the function \<open>w\<close> at \<open>buf\<close>, and no call in progress
  is about to write there.\<close>

definition holds :: "nat \<Rightarrow> mt_fun \<Rightarrow> nat \<Rightarrow> string \<Rightarrow> mt_state \<times> mt_calls \<Rightarrow> bool" where
  "holds t w buf r = (\<lambda>(st, calls). once_of w st \<and> specific st (key_of w st) t = Some buf
     \<and> mt_heap st buf = Some r \<and> (\<forall>t' w' buf' p. calls t' = Some (w', buf', p) \<longrightarrow> buf' \<noteq> buf))"

definition reuses :: "nat \<Rightarrow> mt_fun \<Rightarrow> mt_event \<Rightarrow> bool" where
  "reuses t w ev \<longleftrightarrow> ev = ThreadExit t \<or> (\<exists>p. ev = Enter t w p)"

lemma holds_enter:
  assumes inv: "mt_inv (st, calls)" "malloc_fresh e" and h: "holds t w buf r (st, calls)"
    and en: "buffer_of w' e t' st = Done (buf', st')" "t' \<noteq> t \<or> w' \<noteq> w"
  shows "holds t w buf r (st', calls(t' \<mapsto> (w', buf', p)))"
proof -
  note D = mt_invD [OF inv(1)]
  from h have h': "once_of w st" "specific st (key_of w st) t = Some buf" "mt_heap st buf = Some r"
      "\<And>t' w' buf' p. calls t' = Some (w', buf', p) \<Longrightarrow> buf' \<noteq> buf"
    by (auto simp: holds_def)
  have "\<forall>w. once_of w st \<longrightarrow> key_of w st < keys_made st" using D(4) by blast
  with en(1) show ?thesis
  proof (cases rule: buffer_of_cases)
    case old
    then have "buf' \<noteq> buf" using D(3) [of "key_of w' st" t' buf "key_of w st" t] D(5) [of w' w] h'(1,2) en(2) by auto
    then show ?thesis using h' old(3) by (auto simp: holds_def split: if_splits)
  next
    case (new k)
    have ne: "buf' \<noteq> buf" using inv(2) new(1) h'(3) by (force simp: malloc_fresh_def)
    have kw: "key_of w st' = key_of w st" "once_of w st'" using new(2,3,9,10) h'(1) by (cases "w' = w"; auto)+
    moreover have "\<not> (k = key_of w st \<and> t' = t)"
      using new(10,11) D(4) [OF h'(1)] D(5) [of w' w] h'(1) en(2) by auto
    then have "specific st' (key_of w st) t = Some buf" using new(6) h'(2) by auto
    ultimately show ?thesis using ne h'(3,4) new(7) by (auto simp: holds_def split: if_splits)
  next
    case kept
    then show ?thesis using D(2) by blast
  qed
qed

lemma holds_exit:
  assumes "mt_inv (st, calls)" "holds t w buf r (st, calls)" "t' \<noteq> t" "calls t' = None"
  shows "holds t w buf r (thread_exit t' st, calls)"
proof -
  have "holds t w buf r (fold (drop_key t') ks st, calls)" for ks
    using assms(1,2)
  proof (induction ks arbitrary: st)
    case (Cons k ks)
    have "holds t w buf r (drop_key t' k st, calls)"
      using Cons.prems(2) mt_invD(3) [OF Cons.prems(1), of k t' buf "key_of w st" t] assms(3)
      by (auto simp: holds_def specific_drop heap_drop)
    then show ?case using Cons.IH [OF mt_inv_drop [OF Cons.prems(1) assms(4)]] by simp
  qed simp
  then show ?thesis by (simp add: thread_exit_def)
qed

lemma once_of_put [simp]:
  "once_of w (put_buf buf r st) = once_of w st" "key_of w (put_buf buf r st) = key_of w st"
  "specific (put_buf buf r st) = specific st" "mt_heap (put_buf buf r st) = (mt_heap st)(buf \<mapsto> r)"
  by (cases w; simp add: put_buf_def)+

lemma holds_step:
  "mt_step e s ev s' \<Longrightarrow> malloc_fresh e \<Longrightarrow> mt_inv s \<Longrightarrow> holds t w buf r s \<Longrightarrow> \<not> reuses t w ev
    \<Longrightarrow> holds t w buf r s'"
proof (induction rule: mt_step.induct)
  case (enter calls t' w' st buf' st' p)
  then show ?case by (auto simp: reuses_def intro!: holds_enter)
next
  case (store calls t' w' buf' p r' st)
  then show ?case by (auto simp: holds_def)
next
  case (texit calls t' st)
  then show ?case by (auto simp: reuses_def intro!: holds_exit)
qed

lemma holds_run:
  "mt_run e s evs s' \<Longrightarrow> malloc_fresh e \<Longrightarrow> mt_inv s \<Longrightarrow> holds t w buf r s
    \<Longrightarrow> \<forall>ev \<in> set evs. \<not> reuses t w ev \<Longrightarrow> holds t w buf r s'"
  by (induction rule: mt_run.induct) (auto dest: mt_inv_step holds_step)

lemma mt_run_append:
  "mt_run e s evs s' \<Longrightarrow> mt_run e s' evs' s'' \<Longrightarrow> mt_run e s (evs @ evs') s''"
  by (induction rule: mt_run.induct) (auto intro: mt_run.intros)

text \<open>The pointer a call is about to write through belongs to no other call.\<close>

lemma holds_store:
  assumes "mt_inv (st, calls)" "calls t = Some (w, buf, p)"
  shows "holds t w buf r (put_buf buf r st, calls(t := None))"
proof -
  note D = mt_invD [OF assms(1)]
  have "b \<noteq> buf" if "calls t' = Some (v, b, q)" "t' \<noteq> t" for t' v b q
    using D(7) [OF that(1)] D(7) [OF assms(2)] D(3) [of "key_of v st" t' buf "key_of w st" t] that(2) by auto
  then show ?thesis using D(6,7) [OF assms(2)] by (auto simp: holds_def split: if_splits)
qed

text \<open>A whole call is the two steps.\<close>

lemma call_steps:
  assumes "buffer_of w e t st = Done (buf, st1)" "path_of w p = Done r" "calls t = None"
  shows "mt_run e (st, calls) [Enter t w p, Store t] (put_buf buf r st1, calls)"
proof -
  have "calls(t := None) = calls" using assms(3) by auto
  then have "mt_step e (st1, calls(t \<mapsto> (w, buf, p))) (Store t) (put_buf buf r st1, calls)"
    using mt_step.store [of "calls(t \<mapsto> (w, buf, p))" t w buf p r e st1] assms(2) by simp
  then show ?thesis using mt_step.enter [of calls t w e st buf st1 p] assms(1,3)
    by (blast intro: mt_run.intros)
qed

lemma my_dirname_mt_steps:
  "my_dirname_mt e t p st = Done (buf, st') \<Longrightarrow> calls t = None
    \<Longrightarrow> mt_run e (st, calls) [Enter t DirnameF p, Store t] (st', calls)"
  using call_steps [of DirnameF e t st buf _ p] by (auto simp: my_dirname_mt_def run_bind_Done_iff)

lemma my_basename_mt_steps:
  "my_basename_mt e t p st = Done (buf, st') \<Longrightarrow> calls t = None
    \<Longrightarrow> mt_run e (st, calls) [Enter t BasenameF p, Store t] (st', calls)"
  using call_steps [of BasenameF e t st buf _ p] by (auto simp: my_basename_mt_def run_bind_Done_iff)

text \<open>C5: Thread safety, on a heap that all threads share: after any interleaved run of calls and
  thread ends, the string that a call writes through its pointer \<open>buf\<close> stays there through
  every further run in which the calling thread neither ends nor calls the same function
  again - calls of the other function by the same thread and any calls and ends of other
  threads included - and no call in progress holds the same pointer. \<^verbatim>\<open>my_dirname_mt\<close> and
  \<^verbatim>\<open>my_basename_mt\<close> themselves are such runs. The hypothesis on \<^verbatim>\<open>malloc\<close> is that a new
  block is not in use.\<close>

theorem dirname_result_survives_other_threads:
  assumes "malloc_fresh e" "mt_run e (mt_init, Map.empty) evs (st, calls)"
    and "calls t = Some (w, buf, p)" "path_of w p = Done r"
    and "mt_run e (put_buf buf r st, calls(t := None)) evs' (st', calls')"
    and "\<forall>ev \<in> set evs'. \<not> reuses t w ev"
  shows "mt_heap st' buf = Some r
    \<and> (\<forall>t' w' buf' p'. calls' t' = Some (w', buf', p') \<longrightarrow> buf' \<noteq> buf)
    \<and> (calls' u = None \<longrightarrow> my_dirname_mt e u q st' = Done (a, st'')
        \<longrightarrow> mt_run e (st', calls') [Enter u DirnameF q, Store u] (st'', calls'))
    \<and> (calls' u = None \<longrightarrow> my_basename_mt e u q st' = Done (a, st'')
        \<longrightarrow> mt_run e (st', calls') [Enter u BasenameF q, Store u] (st'', calls'))"
proof -
  have inv: "mt_inv (st, calls)" using mt_inv_run [OF assms(2,1) mt_inv_start] .
  have "holds t w buf r (st', calls')"
    using holds_run [OF assms(5,1) mt_inv_store [OF inv] holds_store [OF inv assms(3)] assms(6)] .
  then show ?thesis
    using my_dirname_mt_steps [of e u q st' a st'' calls'] my_basename_mt_steps [of e u q st' a st'' calls']
    by (auto simp: holds_def)
qed

text \<open>A process in which every call succeeds; \<^verbatim>\<open>malloc\<close> takes the first of the addresses 1, 9,
  17, \<open>\<dots>\<close> below a limit that is free.\<close>

fun first_free :: "nat \<Rightarrow> nat \<Rightarrow> (nat \<rightharpoonup> string) \<Rightarrow> nat option" where
  "first_free 0 a h = None"
| "first_free (Suc n) a h = (if h a = None then Some a else first_free n (a + 8) h)"

definition mt_ok :: mt_env where
  "mt_ok = \<lparr>key_create_s = 0, once_s = 0, malloc_f = first_free 8 1, malloc_junk = ''?'', setspecific_s = 0\<rparr>"

lemma malloc_fresh_ok: "malloc_fresh mt_ok"
proof -
  have "first_free n a h = Some b \<Longrightarrow> h b = None" for n a h b
    by (induction n a h rule: first_free.induct) (auto split: if_splits)
  then show ?thesis by (simp add: malloc_fresh_def mt_ok_def)
qed

lemma first_free_numeral: "first_free (numeral n) a h = (if h a = None then Some a else first_free (pred_numeral n) (a + 8) h)"
  by (simp add: numeral_eq_Suc)

lemmas mt_eval = my_dirname_mt_def my_basename_mt_def buffer_defs mt_ok_def mt_init_def put_buf_def
  dirname_path_def basename_path_def first_free_numeral

theorem dirname_result_survives_other_threads_witness:
  "\<exists>st1 st2 st3. dirname_buffer mt_ok 0 mt_init = Done (1, st1)
     \<and> my_dirname_mt mt_ok 1 (Some ''/'') (put_buf 1 ''.'' st1) = Done (9, st2)
     \<and> my_basename_mt mt_ok 0 (Some ''/'') st2 = Done (17, st3)
     \<and> mt_heap st3 1 = Some ''.''"
proof -
  obtain st1 st2 st3 where s: "dirname_buffer mt_ok 0 mt_init = Done (1, st1)"
      "my_dirname_mt mt_ok 1 (Some ''/'') (put_buf 1 ''.'' st1) = Done (9, st2)"
      "my_basename_mt mt_ok 0 (Some ''/'') st2 = Done (17, st3)"
    by (simp add: mt_eval cat_def)
  let ?c = "Map.empty(0 \<mapsto> (DirnameF, 1, None))"
  have "mt_run mt_ok (mt_init, Map.empty) [Enter 0 DirnameF None] (st1, ?c)"
    using s(1) by (intro mt_cons [OF mt_step.enter mt_nil]) auto
  moreover have "mt_run mt_ok (put_buf 1 ''.'' st1, ?c(0 := None)) 
      [Enter 1 DirnameF (Some ''/''), Store 1, Enter 0 BasenameF (Some ''/''), Store 0] (st3, Map.empty)"
    using my_dirname_mt_steps [OF s(2), of Map.empty] my_basename_mt_steps [OF s(3), of Map.empty]
    mt_run_append by fastforce
  ultimately have "mt_heap st3 1 = Some ''.''"
    using dirname_result_survives_other_threads [OF malloc_fresh_ok, of _ st1 ?c 0 DirnameF 1 None "''.''"]
    by (auto simp: dirname_path_def reuses_def)
  with s show ?thesis by blast
qed

text \<open>The next call of the same function by the same thread returns the same pointer, and so
  overwrites the result.\<close>

lemma dirname_buffer_stored:
  "dirname_buffer e t st = Done (buf, st1)
    \<Longrightarrow> once_s e = 0 \<and> dirname_once st1 \<and> specific st1 (dirname_key st1) t = Some buf"
  by (auto simp: buffer_defs split: if_splits option.splits)

lemma my_dirname_mt_same_pointer:
  assumes "my_dirname_mt e t p st = Done (buf, st1)" "my_dirname_mt e t q st1 = Done (buf', st2)"
  shows "buf' = buf \<and> (\<exists>r. dirname_path q = Done r \<and> mt_heap st2 buf = Some r)"
proof -
  obtain st' r where s: "dirname_buffer e t st = Done (buf, st')" "st1 = put_buf buf r st'"
    using assms(1) by (auto simp: my_dirname_mt_def run_bind_Done_iff)
  then have "dirname_buffer e t st1 = Done (buf, st1)"
    using dirname_buffer_stored [OF s(1)] by (simp add: dirname_buffer_def thread_buffer_def put_buf_def)
  then show ?thesis using assms(2) by (auto simp: my_dirname_mt_def run_bind_Done_iff)
qed

text \<open>The program: with no failing call, \<^verbatim>\<open>main\<close> prints the two parts of its own path after
  the second thread printed those of its path.\<close>

theorem dirname_main_output:
  "\<exists>st'. dirname_main mt_ok mt_init
     = Done ([(''/bcd'', ''efg''), (''/etc'', ''passwd'')], st')"
proof -
  have p1: "''//////bcd////efg////'' = ''//////bcd'' @ replicate (Suc 3) slash @ ''efg'' @ replicate 4 slash"
    and p2: "''//////etc////passwd////'' = ''//////etc'' @ replicate (Suc 3) slash @ ''passwd'' @ replicate 4 slash"
    by (simp_all add: eval_nat_numeral)
  show ?thesis
    using split_path_parts [of "''//////bcd''" "''efg''" 3 4]
      split_path_parts [of "''//////etc''" "''passwd''" 3 4]
    unfolding dirname_main_def thread_func_def Let_def p1 p2
    by (simp add: my_dirname_mt_def my_basename_mt_def mt_ok_def mt_init_def
        dirname_buffer_def basename_buffer_def thread_buffer_def put_buf_def print_both_def str_at_def
        thread_exit_def drop_key_def destructor_def upt_conv_Cons first_free_numeral
        create_dirname_key_def create_basename_key_def c_string_def)
qed

end
