(* ===== verification/C_Lib.thy ===== *)
theory C_Lib
  imports Prelude
begin

text \<open>
  The parts of the C library and of the kernel interface that several programs use: \<^verbatim>\<open>atoi\<close>
  on a character array whose elements may be indeterminate, decimal output, the 32-bit
  \<^verbatim>\<open>int\<close>, and \<^verbatim>\<open>read\<close> on a byte stream that delivers its data in chunks of any size. The
  lemmas show that reading a printed number gives it back and that conversion stops at the
  first character that is not a digit.
\<close>

subsection \<open>The type \<^verbatim>\<open>int\<close>\<close>

definition to_int32 :: "int \<Rightarrow> int" where
  "to_int32 v = (v + 2147483648) mod 4294967296 - 2147483648"

abbreviation (input) INT_MAX :: int where "INT_MAX \<equiv> 2147483647"
abbreviation (input) INT_MIN :: int where "INT_MIN \<equiv> - 2147483648"

definition is_int32 :: "int \<Rightarrow> bool" where
  "is_int32 v \<longleftrightarrow> INT_MIN \<le> v \<and> v \<le> INT_MAX"

lemma to_int32_id: "is_int32 v \<Longrightarrow> to_int32 v = v"
  by (simp add: to_int32_def is_int32_def)

lemma to_int32_0 [simp]: "to_int32 0 = 0"
  by (simp add: to_int32_def)

lemma to_int32_add: "to_int32 (to_int32 a + b) = to_int32 (a + b)"
  unfolding to_int32_def by (simp add: mod_simps ac_simps)

lemma is_int32_to_int32 [simp]: "is_int32 (to_int32 v)"
proof -
  have "0 \<le> (v + 2147483648) mod 4294967296" "(v + 2147483648) mod 4294967296 < 4294967296"
    by simp_all
  then show ?thesis by (simp add: to_int32_def is_int32_def)
qed

lemma sint_word32_is_int32 [simp]: "is_int32 (sint (w :: 32 word))"
  using sint_greater_eq [of w] sint_lt [of w] by (simp add: is_int32_def)

subsection \<open>Characters and arrays of characters\<close>

text \<open>An array element is \<open>None\<close> while it is indeterminate.\<close>

type_synonym chars = "char option list"

definition is_digit :: "char \<Rightarrow> bool" where
  "is_digit c \<longleftrightarrow> 48 \<le> (of_char c :: nat) \<and> (of_char c :: nat) \<le> 57"

definition is_space :: "char \<Rightarrow> bool" where
  "is_space c \<longleftrightarrow> (of_char c :: nat) = 32 \<or> (9 \<le> (of_char c :: nat) \<and> (of_char c :: nat) \<le> 13)"

definition digit_val :: "char \<Rightarrow> nat" where
  "digit_val c = of_char c - 48"

definition digit_char :: "nat \<Rightarrow> char" where
  "digit_char d = char_of (48 + d)"

lemma digit_char_props [simp]:
  assumes "d < 10"
  shows "is_digit (digit_char d)" "digit_val (digit_char d) = d" "\<not> is_space (digit_char d)"
    "digit_char d \<noteq> CHR ''-''" "digit_char d \<noteq> CHR ''+''" "digit_char d \<noteq> newline" "digit_char d \<noteq> NUL"
proof -
  have 1: "(of_char (digit_char d) :: nat) = 48 + d"
    using assms by (simp add: digit_char_def)
  show "is_digit (digit_char d)" "digit_val (digit_char d) = d" "\<not> is_space (digit_char d)"
    using 1 assms by (simp_all add: is_digit_def digit_val_def is_space_def)
  have ne: "(of_char c :: nat) < 48 \<Longrightarrow> digit_char d \<noteq> c" for c using 1 by auto
  show "digit_char d \<noteq> CHR ''-''" "digit_char d \<noteq> CHR ''+''" "digit_char d \<noteq> newline"
    "digit_char d \<noteq> NUL"
    by (rule ne, simp)+
qed

lemma digit_char_values:
  "digit_char (Suc 0) = CHR ''1''" "digit_char 0 = CHR ''0''" "digit_char 1 = CHR ''1''" "digit_char 2 = CHR ''2''"
  "digit_char 3 = CHR ''3''" "digit_char 4 = CHR ''4''" "digit_char 5 = CHR ''5''"
  "digit_char 6 = CHR ''6''" "digit_char 7 = CHR ''7''" "digit_char 8 = CHR ''8''"
  "digit_char 9 = CHR ''9''"
  by (simp_all add: digit_char_def char_of_def bit_0)

text \<open>\<^verbatim>\<open>toupper\<close> in the C locale.\<close>

definition c_toupper :: "char \<Rightarrow> char" where
  "c_toupper c = (if 97 \<le> (of_char c :: nat) \<and> (of_char c :: nat) \<le> 122 then char_of ((of_char c :: nat) - 32) else c)"

lemma of_char_upper: "97 \<le> n \<Longrightarrow> n \<le> 122 \<Longrightarrow> (of_char (char_of (n - 32) :: char) :: nat) = n - 32"
  by (simp add: take_bit_nat_eq_self_iff)

text \<open>A string as the array that holds it, with its terminator.\<close>

definition c_array :: "string \<Rightarrow> chars" where
  "c_array s = map Some s @ [Some NUL]"

subsection \<open>\<^verbatim>\<open>atoi\<close>\<close>

text \<open>
  The conversion reads the array character by character; reading an indeterminate element or
  beyond the array is a fault. The C library computes the value as a clamped \<^verbatim>\<open>long\<close> and
  returns its low 32 bits.
\<close>

fun scan_digits :: "chars \<Rightarrow> nat \<Rightarrow> nat run" where
  "scan_digits [] acc = Faulted OutOfBounds"
| "scan_digits (None # r) acc = Faulted Uninitialised"
| "scan_digits (Some c # r) acc =
     (if is_digit c then scan_digits r (acc * 10 + digit_val c) else Done acc)"

fun scan_sign :: "chars \<Rightarrow> int run" where
  "scan_sign [] = Faulted OutOfBounds"
| "scan_sign (None # r) = Faulted Uninitialised"
| "scan_sign (Some c # r) =
     (if c = CHR ''-'' then run_bind (scan_digits r 0) (\<lambda>n. Done (- int n))
      else if c = CHR ''+'' then run_bind (scan_digits r 0) (\<lambda>n. Done (int n))
      else run_bind (scan_digits (Some c # r) 0) (\<lambda>n. Done (int n)))"

fun scan_space :: "chars \<Rightarrow> int run" where
  "scan_space [] = Faulted OutOfBounds"
| "scan_space (None # r) = Faulted Uninitialised"
| "scan_space (Some c # r) = (if is_space c then scan_space r else scan_sign (Some c # r))"

definition clamp_long :: "int \<Rightarrow> int" where
  "clamp_long v = max (- (2 ^ 63)) (min (2 ^ 63 - 1) v)"

definition atoi_array :: "chars \<Rightarrow> int run" where
  "atoi_array a = run_bind (scan_space a) (\<lambda>v. Done (to_int32 (clamp_long v)))"

lemma clamp_long_id: "is_int32 v \<Longrightarrow> clamp_long v = v"
  by (simp add: clamp_long_def is_int32_def)

text \<open>A terminated string never faults.\<close>

lemma scan_digits_terminated:
  "\<exists>n. scan_digits (map Some s @ [Some NUL]) acc = Done n"
  by (induction s arbitrary: acc) (auto simp: is_digit_def)

lemma scan_sign_terminated: "\<exists>v. scan_sign (map Some s @ [Some NUL]) = Done v"
proof (cases s)
  case Nil
  then show ?thesis by (simp add: is_digit_def)
next
  case (Cons c r)
  obtain n where n: "scan_digits (map Some r @ [Some NUL]) 0 = Done n"
    using scan_digits_terminated by blast
  obtain k where k: "scan_digits (map Some s @ [Some NUL]) 0 = Done k"
    using scan_digits_terminated by blast
  show ?thesis using n k Cons by auto
qed

lemma scan_space_terminated: "\<exists>v. scan_space (map Some s @ [Some NUL]) = Done v"
proof (induction s)
  case Nil
  show ?case by (simp add: is_space_def is_digit_def)
next
  case (Cons c r)
  then show ?case using scan_sign_terminated [of "c # r"] by auto
qed

definition atoi :: "string \<Rightarrow> int" where
  "atoi s = (case atoi_array (c_array s) of Done v \<Rightarrow> v | _ \<Rightarrow> 0)"

text \<open>\<^verbatim>\<open>atol\<close> and \<^verbatim>\<open>atoll\<close>, which do not cut the value to 32 bits.\<close>

definition atol :: "string \<Rightarrow> int" where
  "atol s = (case scan_space (c_array s) of Done v \<Rightarrow> clamp_long v | _ \<Rightarrow> 0)"

lemma atoi_array_c_array: "atoi_array (c_array s) = Done (atoi s)"
  using scan_space_terminated [of s] by (auto simp: atoi_def atoi_array_def c_array_def)

text \<open>\<^verbatim>\<open>printf("%s", ...)\<close> of a character array: it reads up to a terminator.\<close>

fun print_str :: "chars \<Rightarrow> string run" where
  "print_str [] = Faulted OutOfBounds"
| "print_str (None # r) = Faulted Uninitialised"
| "print_str (Some c # r) =
     (if c = NUL then Done [] else run_bind (print_str r) (\<lambda>s. Done (c # s)))"

lemma print_str_indeterminate:
  assumes "NUL \<notin> set s"
  shows "print_str (map Some s @ None # r) = Faulted Uninitialised"
  using assms by (induction s) auto

lemma print_str_c_array: "c_string s \<Longrightarrow> print_str (map Some s @ Some NUL # r) = Done s"
  by (induction s) (auto simp: c_string_def)

subsection \<open>Decimal output\<close>

fun dec_nat :: "nat \<Rightarrow> string" where
  "dec_nat n = (if n < 10 then [digit_char n] else dec_nat (n div 10) @ [digit_char (n mod 10)])"

declare dec_nat.simps [simp del]

definition dec_int :: "int \<Rightarrow> string" where
  "dec_int v = (if v < 0 then CHR ''-'' # dec_nat (nat (- v)) else dec_nat (nat v))"

lemma dec_nat_digits: "c \<in> set (dec_nat n) \<Longrightarrow> \<exists>d < 10. c = digit_char d"
proof (induction n rule: dec_nat.induct)
  case (1 n)
  show ?case
  proof (cases "n < 10")
    case True
    then show ?thesis using 1 by (auto simp: dec_nat.simps [of n])
  next
    case False
    then have "c \<in> set (dec_nat (n div 10)) \<or> c = digit_char (n mod 10)"
      using 1(2) by (auto simp: dec_nat.simps [of n])
    then show ?thesis using 1(1) False by (metis mod_less_divisor zero_less_numeral)
  qed
qed

lemma dec_nat_not_Nil [simp]: "dec_nat n \<noteq> []"
  by (simp add: dec_nat.simps [of n])

lemma hd_dec_nat: "\<exists>d < 10. hd (dec_nat n) = digit_char d"
  by (rule dec_nat_digits) (rule hd_in_set, simp)

lemma scan_digits_append:
  assumes "\<forall>c \<in> set s. is_digit c"
  shows "scan_digits (map Some s @ r) acc =
         scan_digits r (foldl (\<lambda>a c. a * 10 + digit_val c) acc s)"
  using assms by (induction s arbitrary: acc) auto

lemma fold_dec_nat: "foldl (\<lambda>a c. a * 10 + digit_val c) 0 (dec_nat n) = n"
proof (induction n rule: dec_nat.induct)
  case (1 n)
  show ?case
  proof (cases "n < 10")
    case True
    then show ?thesis by (simp add: dec_nat.simps [of n])
  next
    case False
    have "n mod 10 < 10" by simp
    then show ?thesis using 1 [OF False] False
      by (simp only: dec_nat.simps [of n] if_False foldl_append foldl.simps digit_char_props)
        (simp add: mult.commute)
  qed
qed

lemma scan_digits_dec_nat:
  assumes "\<not> is_digit c"
  shows "scan_digits (map Some (dec_nat n) @ Some c # r) 0 = Done n"
proof -
  have "\<forall>d \<in> set (dec_nat n). is_digit d" using dec_nat_digits by fastforce
  then show ?thesis using assms by (simp add: scan_digits_append fold_dec_nat)
qed

text \<open>Reading a printed number gives the number, whatever follows the first character after it.\<close>

lemma scan_space_dec_int:
  assumes "\<not> is_digit c"
  shows "scan_space (map Some (dec_int v) @ Some c # r) = Done v"
proof (cases "v < 0")
  case True
  then show ?thesis using scan_digits_dec_nat [OF assms, of "nat (- v)" r]
    by (simp add: dec_int_def is_space_def)
next
  case False
  obtain d s where d: "dec_nat (nat v) = digit_char d # s" "d < 10"
    using hd_dec_nat [of "nat v"] dec_nat_not_Nil [of "nat v"] by (metis list.collapse)
  have "scan_digits (map Some (dec_nat (nat v)) @ Some c # r) 0 = Done (nat v)"
    using scan_digits_dec_nat [OF assms] .
  then show ?thesis using False d by (simp add: dec_int_def del: scan_digits.simps)
qed

lemma atoi_array_dec_int:
  assumes "\<not> is_digit c" "is_int32 v"
  shows "atoi_array (map Some (dec_int v) @ Some c # r) = Done v"
  using assms by (simp add: atoi_array_def scan_space_dec_int clamp_long_id to_int32_id)

lemma atoi_dec_int: "is_int32 v \<Longrightarrow> atoi (dec_int v) = v"
  using atoi_array_dec_int [of NUL v "[]"]
  by (simp add: atoi_def c_array_def is_digit_def)

lemma dec_int_not_help: "dec_int v \<noteq> ''--help''"
proof -
  obtain d where "hd (dec_nat (nat \<bar>v\<bar>)) = digit_char d" "d < 10" using hd_dec_nat by blast
  then have "hd (dec_nat (nat \<bar>v\<bar>)) \<noteq> CHR ''-''" by simp
  then show ?thesis by (auto simp: dec_int_def)
qed

lemma atol_dec_int: "- (2 ^ 63) \<le> v \<Longrightarrow> v < 2 ^ 63 \<Longrightarrow> atol (dec_int v) = v"
  using scan_space_dec_int [of NUL v "[]"]
  by (simp add: atol_def c_array_def is_digit_def clamp_long_def)

lemma dec_int_chars: "c \<in> set (dec_int v) \<Longrightarrow> c \<noteq> newline \<and> c \<noteq> NUL"
proof -
  assume "c \<in> set (dec_int v)"
  then consider "c = CHR ''-''" | k where "c \<in> set (dec_nat k)"
    by (auto simp: dec_int_def split: if_splits)
  then show "c \<noteq> newline \<and> c \<noteq> NUL" 
  proof cases
    case 1
    then show ?thesis by simp
  next
    case 2
    then obtain d where "d < 10" "c = digit_char d" using dec_nat_digits by blast
    then show ?thesis by simp
  qed
qed

lemma dec_nat_length: "n < 10 ^ k \<Longrightarrow> 0 < k \<Longrightarrow> length (dec_nat n) \<le> k"
proof (induction n arbitrary: k rule: dec_nat.induct)
  case (1 n)
  show ?case
  proof (cases "n < 10")
    case True
    then show ?thesis using 1 by (simp add: dec_nat.simps [of n])
  next
    case False
    then obtain j where j: "k = Suc j" "0 < j"
      using 1(2,3) by (cases k; cases "k = 1") auto
    then have "n div 10 < 10 ^ j" using 1(2) by (simp add: div_less_iff_less_mult mult.commute)
    then show ?thesis using 1(1) [OF False _ j(2)] False j by (simp add: dec_nat.simps [of n])
  qed
qed

lemma dec_int_length: "is_int32 v \<Longrightarrow> length (dec_int v) \<le> 11"
proof -
  assume v: "is_int32 v"
  have "nat v < 10 ^ 10" "nat (- v) < 10 ^ 10" using v by (auto simp: is_int32_def)
  then have "length (dec_nat (nat v)) \<le> 10" "length (dec_nat (nat (- v))) \<le> 10"
    by (simp_all add: dec_nat_length)
  then show ?thesis by (simp add: dec_int_def)
qed

subsection \<open>Reading from a descriptor\<close>

text \<open>
  A descriptor is described by what its successive \<^verbatim>\<open>read\<close> calls find: an error, or a chunk
  of bytes. A chunk longer than the request is delivered in parts; an empty chunk is an
  end-of-file indication; when nothing is left every further \<^verbatim>\<open>read\<close> returns 0.
\<close>

datatype rd_ans = RdErr errno | RdBytes string

fun sys_read :: "nat \<Rightarrow> rd_ans list \<Rightarrow> (errno + string) \<times> rd_ans list" where
  "sys_read n [] = (Inr [], [])"
| "sys_read n (RdErr e # r) = (Inl e, r)"
| "sys_read n (RdBytes b # r) =
     (Inr (take n b), if length b \<le> n then r else RdBytes (drop n b) # r)"

text \<open>The bytes still to come when no read fails and no chunk is empty.\<close>

fun feed :: "rd_ans list \<Rightarrow> string" where
  "feed [] = []"
| "feed (RdErr e # r) = feed r"
| "feed (RdBytes b # r) = b @ feed r"

definition rd_clean :: "rd_ans list \<Rightarrow> bool" where
  "rd_clean s \<longleftrightarrow> (\<forall>a \<in> set s. \<exists>b. a = RdBytes b \<and> b \<noteq> [])"

fun rd_weight :: "rd_ans list \<Rightarrow> nat" where
  "rd_weight [] = 0"
| "rd_weight (RdErr e # r) = Suc (rd_weight r)"
| "rd_weight (RdBytes b # r) = Suc (length b + rd_weight r)"

lemma sys_read_weight:
  "sys_read n s = (Inr b, s') \<Longrightarrow> b \<noteq> [] \<Longrightarrow> length b + rd_weight s' \<le> rd_weight s"
  by (induction n s rule: sys_read.induct) (auto simp: min_def split: if_splits)

lemma sys_read_weight_less:
  assumes "sys_read n s = (Inr b, s')" "b \<noteq> []"
  shows "rd_weight s' < rd_weight s"
proof -
  have "0 < length b" using assms(2) by simp
  then show ?thesis using sys_read_weight [OF assms] by linarith
qed

lemma sys_read_length: "sys_read n s = (Inr b, s') \<Longrightarrow> length b \<le> n"
  by (induction n s rule: sys_read.induct) (auto split: if_splits)

text \<open>On a clean descriptor a \<^verbatim>\<open>read\<close> delivers a non-empty prefix of what is still to come.\<close>

lemma sys_read_clean:
  assumes "rd_clean s" "0 < n" "sys_read n s = (a, s')"
  obtains b where "a = Inr b" "feed s = b @ feed s'" "b = [] \<longleftrightarrow> s = []" "rd_clean s'"
    "length b \<le> n"
proof (cases s)
  case Nil
  then show ?thesis using assms that by (simp add: rd_clean_def)
next
  case (Cons x r)
  then obtain c where c: "x = RdBytes c" "c \<noteq> []" using assms(1) by (auto simp: rd_clean_def)
  show ?thesis
    by (rule that [of "take n c"])
      (use assms Cons c in \<open>auto simp: rd_clean_def split: if_splits\<close>)
qed

lemma feed_Nil_iff: "rd_clean s \<Longrightarrow> feed s = [] \<longleftrightarrow> s = []"
  by (induction s rule: feed.induct) (auto simp: rd_clean_def)

subsection \<open>Writing to a descriptor\<close>

text \<open>What successive \<^verbatim>\<open>write\<close> calls find: an error, or room for a number of bytes. When nothing is
  left every further \<^verbatim>\<open>write\<close> takes all bytes.\<close>

datatype wr_ans = WrErr errno | WrRoom nat

fun sys_write :: "string \<Rightarrow> wr_ans list \<Rightarrow> (errno + nat) \<times> wr_ans list" where
  "sys_write b [] = (Inr (length b), [])"
| "sys_write b (WrErr e # r) = (Inl e, r)"
| "sys_write b (WrRoom k # r) = (Inr (min k (length b)), r)"

definition wr_clean :: "nat \<Rightarrow> wr_ans list \<Rightarrow> bool" where
  "wr_clean n a \<longleftrightarrow> (\<forall>x \<in> set a. \<exists>k \<ge> n. x = WrRoom k)"

lemma sys_write_length: "sys_write b a = (Inr k, a') \<Longrightarrow> k \<le> length b"
  by (induction b a rule: sys_write.induct) auto

lemma sys_write_clean:
  "wr_clean n a \<Longrightarrow> length b \<le> n \<Longrightarrow> \<exists>a'. sys_write b a = (Inr (length b), a') \<and> wr_clean n a'"
  by (cases a) (auto simp: wr_clean_def)

end
