(* ===== verification/Readline.thy ===== *)
theory Readline
  imports C_Lib
begin

text \<open>
  Section 59, \<^verbatim>\<open>readline.c\<close> and \<^verbatim>\<open>readline.h\<close>: line-by-line input through a buffer of
  1024 bytes. The lemmas show that the result does not depend on how the kernel cuts the
  stream into chunks: each call takes exactly one line off the bytes not yet delivered. The
  locale \<open>line_reader\<close> states that contract; its clients are proved once against it and
  the buffered reader is an interpretation.
\<close>

subsection \<open>The book-keeping structure\<close>

abbreviation (input) BUF_SIZE :: nat where "BUF_SIZE \<equiv> 1024"

record readline_state =
  rl_fd :: int
  rl_buf :: chars
  rl_buf_len :: int
  rl_buf_p :: int

definition readline_buf_init :: "int \<Rightarrow> readline_state \<Rightarrow> readline_state" where
  "readline_buf_init fd rl = rl\<lparr>rl_fd := fd, rl_buf_len := 0, rl_buf_p := 0\<rparr>"

text \<open>Storing the bytes of a \<^verbatim>\<open>read\<close> at the start of an array leaves its tail alone.\<close>

definition store_bytes :: "string \<Rightarrow> chars \<Rightarrow> chars" where
  "store_bytes b a = map Some b @ drop (length b) a"

definition fetch :: "chars \<Rightarrow> int \<Rightarrow> char run" where
  "fetch a i =
     (if i < 0 \<or> int (length a) \<le> i then Faulted OutOfBounds
      else case a ! nat i of None \<Rightarrow> Faulted Uninitialised | Some c \<Rightarrow> Done c)"

text \<open>
  The first part of the loop body refills the buffer when it is used up: the call fails, the
  loop is left at end of file, or the buffer holds at least one character.
\<close>

datatype refilled =
    ReadFailed readline_state "rd_ans list"
  | AtEof readline_state "rd_ans list"
  | Ready readline_state "rd_ans list"

definition refill :: "readline_state \<Rightarrow> rd_ans list \<Rightarrow> refilled" where
  "refill rl s =
     (if rl_buf_len rl \<le> rl_buf_p rl then
        case sys_read BUF_SIZE s of
          (Inl e, s') \<Rightarrow> ReadFailed (rl\<lparr>rl_buf_len := - 1\<rparr>) s'
        | (Inr b, s') \<Rightarrow>
            let rl' = rl\<lparr>rl_buf := store_bytes b (rl_buf rl), rl_buf_len := int (length b)\<rparr>
            in if b = [] then AtEof rl' s' else Ready (rl'\<lparr>rl_buf_p := 0\<rparr>) s'
      else Ready rl s)"

lemma refill_Ready_weight:
  assumes "refill rl s = Ready rl' s'"
  shows "nat (rl_buf_len rl' - (rl_buf_p rl' + 1)) + rd_weight s'
       < nat (rl_buf_len rl - rl_buf_p rl) + rd_weight s"
proof (cases "rl_buf_len rl \<le> rl_buf_p rl")
  case False
  then show ?thesis using assms by (simp add: refill_def)
next
  case True
  then obtain b where b: "sys_read BUF_SIZE s = (Inr b, s')" "b \<noteq> []"
    and rl': "rl_buf_len rl' = int (length b)" "rl_buf_p rl' = 0"
    using assms
    by (auto simp: refill_def Let_def split: prod.splits sum.splits if_splits)
  have "length b + rd_weight s' \<le> rd_weight s" "0 < length b"
    using sys_read_weight [OF b] b(2) by simp_all
  then show ?thesis using rl' True by arith
qed

subsection \<open>\<^verbatim>\<open>readline_buf\<close>\<close>

text \<open>
  The result carries the return value, the caller's buffer, the book-keeping structure and
  what is left of the descriptor.
\<close>

function readline_loop ::
  "nat \<Rightarrow> readline_state \<Rightarrow> rd_ans list \<Rightarrow> chars \<Rightarrow> nat
   \<Rightarrow> (int \<times> chars \<times> readline_state \<times> rd_ans list) run" where
  "readline_loop n rl s buff cnt =
     (case refill rl s of
        ReadFailed rl' s' \<Rightarrow> Done (- 1, buff, rl', s')
      | AtEof rl' s' \<Rightarrow> Done (int cnt, buff, rl', s')
      | Ready rl' s' \<Rightarrow>
          (case fetch (rl_buf rl') (rl_buf_p rl') of
             Faulted e \<Rightarrow> Faulted e
           | Exited v \<Rightarrow> Exited v
           | Done c \<Rightarrow>
               let rl'' = rl'\<lparr>rl_buf_p := rl_buf_p rl' + 1\<rparr> in
               if cnt < n \<and> length buff \<le> cnt then Faulted OutOfBounds
               else
                 let buff' = (if cnt < n then buff[cnt := Some c] else buff);
                     cnt' = (if cnt < n then Suc cnt else cnt)
                 in if c = newline then Done (int cnt', buff', rl'', s')
                    else readline_loop n rl'' s' buff' cnt'))"
  by pat_completeness auto
termination
  by (relation "measure (\<lambda>(n, rl, s, buff, cnt). nat (rl_buf_len rl - rl_buf_p rl) + rd_weight s)")
    (auto dest!: refill_Ready_weight)

declare readline_loop.simps [simp del]

definition readline_buf ::
  "readline_state \<Rightarrow> chars option \<Rightarrow> nat \<Rightarrow> rd_ans list
   \<Rightarrow> (int \<times> chars option \<times> readline_state \<times> rd_ans list) run" where
  "readline_buf rl buff n s =
     (case buff of
        None \<Rightarrow> Done (- 1, buff, rl, s)
      | Some a \<Rightarrow>
          if n = 0 then Done (- 1, buff, rl, s)
          else run_bind (readline_loop n rl s a 0) (\<lambda>(r, a', rl', s'). Done (r, Some a', rl', s')))"

subsection \<open>What a call delivers\<close>

text \<open>The characters up to and including the first newline.\<close>

fun first_line :: "string \<Rightarrow> string" where
  "first_line [] = []"
| "first_line (c # r) = (if c = newline then [c] else c # first_line r)"

lemma first_line_prefix: "first_line d @ drop (length (first_line d)) d = d"
  by (induction d) auto

lemma length_first_line: "length (first_line d) \<le> length d"
  by (induction d) auto

lemma first_line_eq_Nil [simp]: "first_line d = [] \<longleftrightarrow> d = []"
  by (cases d) auto

lemma first_line_append_newline [simp]:
  "newline \<notin> set a \<Longrightarrow> first_line (a @ newline # r) = a @ [newline]"
  by (induction a) auto

lemma first_line_no_newline: "newline \<notin> set a \<Longrightarrow> first_line a = a"
  by (induction a) auto

definition rl_ok :: "readline_state \<Rightarrow> bool" where
  "rl_ok rl \<longleftrightarrow> length (rl_buf rl) = BUF_SIZE \<and> 0 \<le> rl_buf_p rl \<and> rl_buf_len rl \<le> int BUF_SIZE \<and>
     (\<forall>i. rl_buf_p rl \<le> int i \<and> int i < rl_buf_len rl \<longrightarrow> rl_buf rl ! i \<noteq> None)"

text \<open>The characters in the buffer that no call has returned yet.\<close>

definition unread :: "readline_state \<Rightarrow> string" where
  "unread rl = map (\<lambda>i. the (rl_buf rl ! i)) [nat (rl_buf_p rl) ..< nat (rl_buf_len rl)]"

lemma readline_buf_init_ok:
  "length (rl_buf rl) = BUF_SIZE \<Longrightarrow> rl_ok (readline_buf_init fd rl)"
  "unread (readline_buf_init fd rl) = []"
  by (simp_all add: rl_ok_def readline_buf_init_def unread_def)

lemma length_store_bytes [simp]: "length b \<le> length a \<Longrightarrow> length (store_bytes b a) = length a"
  by (simp add: store_bytes_def)

lemma nth_store_bytes: "i < length b \<Longrightarrow> store_bytes b a ! i = Some (b ! i)"
  by (simp add: store_bytes_def nth_append)

text \<open>One character more in the caller's array.\<close>

lemma store_bytes_snoc:
  assumes "length b < length a"
  shows "(store_bytes b a)[length b := Some c] = store_bytes (b @ [c]) a"
proof -
  obtain x r where "drop (length b) a = x # r" using assms by (metis Cons_nth_drop_Suc)
  moreover from this have "drop (Suc (length b)) a = r" by (metis drop_Suc tl_drop list.sel(3))
  ultimately show ?thesis using list_update_append [of "map Some b" "x # r" "length b"]
    by (simp add: store_bytes_def)
qed

lemma refill_clean:
  assumes "rl_ok rl" "rd_clean s"
  shows "(unread rl @ feed s = [] \<and> (\<exists>rl'. refill rl s = AtEof rl' [] \<and> rl_ok rl' \<and> unread rl' = []))
       \<or> (\<exists>rl' s'. refill rl s = Ready rl' s' \<and> rl_ok rl' \<and> rd_clean s' \<and>
            rl_buf_p rl' < rl_buf_len rl' \<and> unread rl' @ feed s' = unread rl @ feed s)"
proof (cases "rl_buf_len rl \<le> rl_buf_p rl")
  case False
  then show ?thesis using assms by (simp add: refill_def)
next
  case True
  then have u: "unread rl = []" by (simp add: unread_def)
  obtain a s' where rd: "sys_read BUF_SIZE s = (a, s')" by fastforce
  obtain b where b: "a = Inr b" "feed s = b @ feed s'" "b = [] \<longleftrightarrow> s = []" "rd_clean s'"
    "length b \<le> BUF_SIZE" by (rule sys_read_clean [OF assms(2) _ rd]) auto
  let ?rl = "rl\<lparr>rl_buf := store_bytes b (rl_buf rl), rl_buf_len := int (length b)\<rparr>"
  show ?thesis
  proof (cases "b = []")
    case b0: True
    then have "refill rl s = AtEof ?rl []" using True rd b by (simp add: refill_def)
    moreover have "rl_ok ?rl" "unread ?rl = []"
      using assms(1) b0 by (simp_all add: rl_ok_def unread_def store_bytes_def)
    ultimately show ?thesis using b0 b u by simp
  next
    case b1: False
    then have r: "refill rl s = Ready (?rl\<lparr>rl_buf_p := 0\<rparr>) s'"
      using True rd b by (simp add: refill_def)
    have l: "length (store_bytes b (rl_buf rl)) = BUF_SIZE"
      using assms(1) b(5) by (simp add: rl_ok_def)
    have ok: "rl_ok (?rl\<lparr>rl_buf_p := 0\<rparr>)"
      using l b(5) by (simp add: rl_ok_def nth_store_bytes)
    have "unread (?rl\<lparr>rl_buf_p := 0\<rparr>) = map ((!) b) [0 ..< length b]"
      by (simp add: unread_def nth_store_bytes)
    then have "unread (?rl\<lparr>rl_buf_p := 0\<rparr>) = b" by (simp add: map_nth)
    then show ?thesis using r ok b b1 u by simp
  qed
qed

lemma fetch_unread:
  assumes "rl_ok rl" "rl_buf_p rl < rl_buf_len rl"
  obtains c where "fetch (rl_buf rl) (rl_buf_p rl) = Done c"
    "unread rl = c # unread (rl\<lparr>rl_buf_p := rl_buf_p rl + 1\<rparr>)"
    "rl_ok (rl\<lparr>rl_buf_p := rl_buf_p rl + 1\<rparr>)"
proof -
  let ?p = "nat (rl_buf_p rl)"
  have p: "int ?p = rl_buf_p rl" "?p < nat (rl_buf_len rl)" "?p < length (rl_buf rl)"
    using assms by (auto simp: rl_ok_def)
  then have "rl_buf rl ! ?p \<noteq> None" using assms by (auto simp: rl_ok_def)
  then obtain c where c: "rl_buf rl ! ?p = Some c" by blast
  have "nat (rl_buf_p rl + 1) = Suc ?p" using assms(1) by (simp add: rl_ok_def nat_add_distrib)
  then have u: "unread rl = c # unread (rl\<lparr>rl_buf_p := rl_buf_p rl + 1\<rparr>)"
    using c p(2) by (simp add: unread_def upt_conv_Cons)
  show ?thesis
    by (rule that [OF _ u]) (use assms c p in \<open>auto simp: fetch_def rl_ok_def split: if_splits\<close>)
qed

text \<open>The loop, started with the characters \<open>got\<close> of the line already copied.\<close>

lemma readline_loop_clean:
  assumes "rl_ok rl" "rd_clean s" "n \<le> length a" "d = unread rl @ feed s"
  shows "\<exists>rl' s'. readline_loop n rl s (store_bytes (take n got) a) (min n (length got)) =
      Done (int (min n (length (got @ first_line d))), store_bytes (take n (got @ first_line d)) a,
            rl', s') \<and>
    rl_ok rl' \<and> rd_clean s' \<and> unread rl' @ feed s' = drop (length (first_line d)) d"
  using assms
proof (induction d arbitrary: rl s got)
  case Nil
  then obtain rl' where "refill rl s = AtEof rl' []" "rl_ok rl'" "unread rl' = []"
    using refill_clean [of rl s] fetch_unread by (metis append_is_Nil_conv list.distinct(1))
  then show ?case by (subst readline_loop.simps) (simp add: rd_clean_def)
next
  case (Cons c d)
  then obtain rl1 s1 where r: "refill rl s = Ready rl1 s1" "rl_ok rl1" "rd_clean s1"
    "rl_buf_p rl1 < rl_buf_len rl1" "unread rl1 @ feed s1 = c # d"
    using refill_clean [of rl s] by auto
  let ?rl2 = "rl1\<lparr>rl_buf_p := rl_buf_p rl1 + 1\<rparr>"
  obtain c' where c': "fetch (rl_buf rl1) (rl_buf_p rl1) = Done c'" "unread rl1 = c' # unread ?rl2"
    "rl_ok ?rl2" by (rule fetch_unread [OF r(2,4)])
  then have c: "c' = c" "unread ?rl2 @ feed s1 = d" using r(5) by simp_all
  have buf: "(if min n (length got) < n then (store_bytes (take n got) a)[min n (length got) := Some c]
       else store_bytes (take n got) a) = store_bytes (take n (got @ [c])) a"
    using store_bytes_snoc [of got a c] \<open>n \<le> length a\<close> by (auto simp: min_def)
  have cnt: "(if min n (length got) < n then Suc (min n (length got)) else min n (length got))
       = min n (length (got @ [c]))" by auto
  have room: "\<not> (min n (length got) < n \<and> length (store_bytes (take n got) a) \<le> min n (length got))"
    using \<open>n \<le> length a\<close> by (simp add: min_def)
  have step: "readline_loop n rl s (store_bytes (take n got) a) (min n (length got)) =
      (if c = newline
       then Done (int (min n (length (got @ [c]))), store_bytes (take n (got @ [c])) a, ?rl2, s1)
       else readline_loop n ?rl2 s1 (store_bytes (take n (got @ [c])) a) (min n (length (got @ [c]))))"
    using room by (subst readline_loop.simps) (simp only: r(1) c'(1) c(1) refilled.case run.case Let_def
        buf cnt if_False)
  show ?case
  proof (cases "c = newline")
    case True
    then show ?thesis using step c c'(3) r(3) by auto
  next
    case False
    then show ?thesis
      using step Cons.IH [OF c'(3) r(3) \<open>n \<le> length a\<close> c(2) [symmetric], of "got @ [c]"] by simp
  qed
qed

lemma readline_buf_clean:
  assumes "rl_ok rl" "rd_clean s" "0 < n" "n \<le> length a" "d = unread rl @ feed s"
  obtains rl' s' where
    "readline_buf rl (Some a) n s =
       Done (int (min n (length (first_line d))), Some (store_bytes (take n (first_line d)) a), rl', s')"
    "rl_ok rl'" "rd_clean s'" "unread rl' @ feed s' = drop (length (first_line d)) d"
  using readline_loop_clean [OF assms(1,2,4,5), of "[]"] assms(3)
  by (auto simp: readline_buf_def store_bytes_def)

subsection \<open>Reading a stream line by line\<close>

text \<open>The lines of a stream, each with its newline; the last one may lack it.\<close>

function split_lines :: "string \<Rightarrow> string list" where
  "split_lines d =
     (if d = [] then [] else first_line d # split_lines (drop (length (first_line d)) d))"
  by pat_completeness auto
termination
  by (relation "measure length") (auto simp: neq_Nil_conv)

declare split_lines.simps [simp del]

lemma concat_split_lines: "concat (split_lines d) = d"
proof (induction d rule: split_lines.induct)
  case (1 d)
  then show ?case
    by (cases "d = []")
      (simp_all add: split_lines.simps [of d] split_lines.simps [of "[]"] first_line_prefix)
qed

locale line_reader =
  fixes get :: "'s \<Rightarrow> string \<times> 's"
    and pending :: "'s \<Rightarrow> string"
    and ok :: "'s \<Rightarrow> bool"
    and cap :: nat
  assumes get_ok: "ok s \<Longrightarrow> ok (snd (get s))"
    and get_line: "ok s \<Longrightarrow> fst (get s) = take cap (first_line (pending s))"
    and get_rest: "ok s \<Longrightarrow> pending (snd (get s)) = drop (length (first_line (pending s))) (pending s)"
begin

primrec get_many :: "nat \<Rightarrow> 's \<Rightarrow> string list \<times> 's" where
  "get_many 0 s = ([], s)"
| "get_many (Suc k) s = (let (l, s') = get s; (ls, s'') = get_many k s' in (l # ls, s''))"

lemma get_many_lines:
  "ok s \<Longrightarrow> get_many (length (split_lines (pending s)) + j) s =
     (map (take cap) (split_lines (pending s)) @ fst (get_many j (snd (get_many (length (split_lines (pending s))) s))),
      snd (get_many j (snd (get_many (length (split_lines (pending s))) s)))) \<and>
     pending (snd (get_many (length (split_lines (pending s))) s)) = [] \<and>
     ok (snd (get_many (length (split_lines (pending s))) s))"
proof (induction "split_lines (pending s)" arbitrary: s)
  case Nil
  then have "pending s = []" by (metis concat.simps(1) concat_split_lines)
  then show ?case using Nil by (simp add: split_lines.simps [of "[]"])
next
  case (Cons l ls)
  have p: "pending s \<noteq> []" using Cons(2) by (metis list.distinct(1) split_lines.simps)
  then have l: "l = first_line (pending s)" and ls: "ls = split_lines (pending (snd (get s)))"
    using Cons(2) get_rest [OF Cons.prems] by (simp_all add: split_lines.simps [of "pending s"])
  have "fst (get s) = take cap l" using get_line [OF Cons.prems] l by simp
  then show ?case using Cons(1) [OF ls get_ok [OF Cons.prems]] Cons(2) [symmetric] ls
    by (simp add: Let_def split_beta)
qed

end

text \<open>One call of \<^verbatim>\<open>readline_buf\<close> with a buffer of \<open>n\<close> characters, as a line reader.\<close>

definition next_line ::
  "nat \<Rightarrow> readline_state \<times> rd_ans list \<times> chars
   \<Rightarrow> string \<times> (readline_state \<times> rd_ans list \<times> chars)" where
  "next_line n = (\<lambda>(rl, s, a).
     case readline_buf rl (Some a) n s of
       Done (r, Some a', rl', s') \<Rightarrow> (map the (take (nat r) a'), rl', s', a')
     | _ \<Rightarrow> ([], rl, s, a))"

definition stream_ok :: "nat \<Rightarrow> readline_state \<times> rd_ans list \<times> chars \<Rightarrow> bool" where
  "stream_ok n = (\<lambda>(rl, s, a). rl_ok rl \<and> rd_clean s \<and> 0 < n \<and> n \<le> length a)"

definition stream_rest :: "readline_state \<times> rd_ans list \<times> chars \<Rightarrow> string" where
  "stream_rest = (\<lambda>(rl, s, a). unread rl @ feed s)"

lemma take_store_bytes: "take (length b) (store_bytes b a) = map Some b"
  by (simp add: store_bytes_def)

lemma next_line_clean:
  assumes "stream_ok n (rl, s, a)"
  obtains rl' s' where
    "next_line n (rl, s, a) = (take n (first_line (unread rl @ feed s)), rl', s',
       store_bytes (take n (first_line (unread rl @ feed s))) a)"
    "stream_ok n (rl', s', store_bytes (take n (first_line (unread rl @ feed s))) a)"
    "unread rl' @ feed s' = drop (length (first_line (unread rl @ feed s))) (unread rl @ feed s)"
proof -
  let ?l = "take n (first_line (unread rl @ feed s))"
  have n: "n \<le> length a" "0 < n" using assms by (simp_all add: stream_ok_def)
  then have len: "length ?l \<le> length a" by simp
  obtain rl' s' where r: "readline_buf rl (Some a) n s =
      Done (int (length ?l), Some (store_bytes ?l a), rl', s')"
    "rl_ok rl'" "rd_clean s'"
    "unread rl' @ feed s' = drop (length (first_line (unread rl @ feed s))) (unread rl @ feed s)"
    using readline_buf_clean [of rl s n a] assms by (auto simp: stream_ok_def min.commute)
  have "map the (take (length ?l) (store_bytes ?l a)) = ?l"
    by (simp only: take_store_bytes map_map) (simp add: comp_def)
  then show ?thesis
    using that [of rl' s'] r n len by (simp add: next_line_def stream_ok_def del: length_take)
qed

interpretation buffered: line_reader "next_line n" stream_rest "stream_ok n" n for n
proof
  fix st assume ok: "stream_ok n st"
  obtain rl s a where st: "st = (rl, s, a)" by (cases st)
  obtain rl' s' where n: "next_line n (rl, s, a) = (take n (first_line (unread rl @ feed s)), rl', s',
       store_bytes (take n (first_line (unread rl @ feed s))) a)"
    "stream_ok n (rl', s', store_bytes (take n (first_line (unread rl @ feed s))) a)"
    "unread rl' @ feed s' = drop (length (first_line (unread rl @ feed s))) (unread rl @ feed s)"
    by (rule next_line_clean [OF ok [unfolded st]])
  show "stream_ok n (snd (next_line n st))" "fst (next_line n st) = take n (first_line (stream_rest st))"
    "stream_rest (snd (next_line n st)) = drop (length (first_line (stream_rest st))) (stream_rest st)"
    using n by (simp_all add: st stream_rest_def)
qed

text \<open>The lines \<open>k\<close> successive calls of \<^verbatim>\<open>readline_buf\<close> return.\<close>

primrec read_lines :: "nat \<Rightarrow> nat \<Rightarrow> readline_state \<times> rd_ans list \<times> chars \<Rightarrow> string list" where
  "read_lines n 0 st = []"
| "read_lines n (Suc k) st = fst (next_line n st) # read_lines n k (snd (next_line n st))"

lemma read_lines_get_many: "read_lines n k st = fst (buffered.get_many n k st)"
  by (induction k arbitrary: st) (simp_all add: Let_def split_beta)

text \<open>C6: however the descriptor cuts the stream into chunks, successive calls of
  \<^verbatim>\<open>readline_buf\<close> deliver exactly its lines, each cut to the size of the caller's buffer, and
  the call after the last line returns nothing.\<close>

theorem readline_delivers_lines:
  assumes "rd_clean s" "length (rl_buf rl) = BUF_SIZE" "0 < n" "n \<le> length a"
  shows "read_lines n (length (split_lines (feed s)) + 1) (readline_buf_init fd rl, s, a) =
         map (take n) (split_lines (feed s)) @ [[]]"
proof -
  let ?st = "(readline_buf_init fd rl, s, a)"
  have ok: "stream_ok n ?st" using assms readline_buf_init_ok(1) by (simp add: stream_ok_def)
  have rest: "stream_rest ?st = feed s" using readline_buf_init_ok(2) by (simp add: stream_rest_def)
  let ?fin = "snd (buffered.get_many n (length (split_lines (feed s))) ?st)"
  have many: "fst (buffered.get_many n (length (split_lines (feed s)) + 1) ?st) =
      map (take n) (split_lines (feed s)) @ fst (buffered.get_many n 1 ?fin)"
    "stream_rest ?fin = []" "stream_ok n ?fin"
    using buffered.get_many_lines [OF ok, of 1] rest by simp_all
  have "fst (buffered.get_many n 1 ?fin) = [[]]"
    using buffered.get_line [OF many(3)] many(2) by (simp add: Let_def split_beta)
  then show ?thesis using many(1) by (simp add: read_lines_get_many)
qed

theorem readline_delivers_lines_witness:
  "read_lines 4 3 (readline_buf_init 5 \<lparr>rl_fd = 0, rl_buf = replicate 1024 None, rl_buf_len = 9, rl_buf_p = 7\<rparr>,
     [RdBytes ''ab'', RdBytes [CHR ''c'', CHR ''d'', CHR ''e'', newline, CHR ''x'']],
     replicate 4 None) = [''abcd'', ''x'', []]"
proof -
  let ?s = "[RdBytes ''ab'', RdBytes [CHR ''c'', CHR ''d'', CHR ''e'', newline, CHR ''x'']]"
  have l: "split_lines (feed ?s) = [[CHR ''a'', CHR ''b'', CHR ''c'', CHR ''d'', CHR ''e'', newline], ''x'']"
    by (simp add: split_lines.simps)
  show ?thesis
    using readline_delivers_lines [of ?s "\<lparr>rl_fd = 0, rl_buf = replicate 1024 None, rl_buf_len = 9, rl_buf_p = 7\<rparr>"
        4 "replicate 4 None" 5, unfolded l]
    by (simp add: rd_clean_def numeral_3_eq_3)
qed

end
