(* ===== verification/Seq_Alloc.thy ===== *)
theory Seq_Alloc
  imports Prelude
begin

text \<open>
  What the three sequence-number servers of the repository promise (Section 44 over FIFOs,
  Section 46 over System V message queues, Section 59 over sockets): a request for \<open>n\<close>
  numbers is answered with the current number, and the counter moves on by \<open>n\<close>. The locale
  states the law of one request; its lemmas show that over any sequence of requests the
  ranges handed out are disjoint and ascending and that no number is skipped. Each server is
  an interpretation in its own theory.
\<close>

type_synonym grant = "int \<times> int"     \<comment> \<open>first number and how many\<close>

definition before :: "grant \<Rightarrow> grant \<Rightarrow> bool" where
  "before g h \<longleftrightarrow> fst g + snd g \<le> fst h"

definition range_of :: "grant \<Rightarrow> int set" where
  "range_of g = {fst g ..< fst g + snd g}"

lemma before_disjoint: "before g h \<Longrightarrow> range_of g \<inter> range_of h = {}"
  by (auto simp: before_def range_of_def)

text \<open>Starting at \<open>v\<close>, the ranges of successive requests for the numbers \<open>ns\<close>.\<close>

primrec ranges_from :: "int \<Rightarrow> int list \<Rightarrow> grant list" where
  "ranges_from v [] = []"
| "ranges_from v (n # ns) = (v, n) # ranges_from (v + n) ns"

lemma ranges_from_bounds:
  "\<forall>n \<in> set ns. 0 \<le> n \<Longrightarrow> g \<in> set (ranges_from v ns) \<Longrightarrow>
   v \<le> fst g \<and> 0 \<le> snd g \<and> fst g + snd g \<le> v + sum_list ns"
proof (induction ns arbitrary: v)
  case (Cons n ns)
  moreover have "0 \<le> sum_list ns" using Cons.prems(1) by (simp add: sum_list_nonneg)
  ultimately show ?case by fastforce
qed simp

lemma ranges_from_before:
  "\<forall>n \<in> set ns. 0 \<le> n \<Longrightarrow> sorted_wrt before (ranges_from v ns)"
proof (induction ns arbitrary: v)
  case (Cons n ns)
  then show ?case using ranges_from_bounds [of ns] by (auto simp: before_def)
qed simp

lemma ranges_from_cover:
  "\<forall>n \<in> set ns. 0 \<le> n \<Longrightarrow> (\<Union>g \<in> set (ranges_from v ns). range_of g) = {v ..< v + sum_list ns}"
proof (induction ns arbitrary: v)
  case (Cons n ns)
  have "0 \<le> sum_list ns" using Cons.prems by (simp add: sum_list_nonneg)
  then have "{v ..< v + n} \<union> {v + n ..< v + n + sum_list ns} = {v ..< v + (n + sum_list ns)}"
    using Cons.prems by auto
  then show ?case using Cons by (simp add: range_of_def)
qed simp

locale seq_allocator =
  fixes cur :: "'s \<Rightarrow> int"
    and serve :: "'s \<Rightarrow> 'r \<Rightarrow> 's \<times> grant option"
    and fits :: "'s \<Rightarrow> 'r \<Rightarrow> bool"
  assumes serve_grant:
      "fits s r \<Longrightarrow> serve s r = (s', Some g) \<Longrightarrow> fst g = cur s \<and> 0 \<le> snd g \<and> cur s' = cur s + snd g"
    and serve_refuse: "fits s r \<Longrightarrow> serve s r = (s', None) \<Longrightarrow> cur s' = cur s"
begin

fun run_all :: "'s \<Rightarrow> 'r list \<Rightarrow> 's \<times> grant list" where
  "run_all s [] = (s, [])"
| "run_all s (r # rs) =
     (case serve s r of
        (s', None) \<Rightarrow> run_all s' rs
      | (s', Some g) \<Rightarrow> let (s'', gs) = run_all s' rs in (s'', g # gs))"

fun all_fit :: "'s \<Rightarrow> 'r list \<Rightarrow> bool" where
  "all_fit s [] \<longleftrightarrow> True"
| "all_fit s (r # rs) \<longleftrightarrow> fits s r \<and> all_fit (fst (serve s r)) rs"

lemma run_all_ranges:
  assumes "all_fit s rs" "run_all s rs = (s', gs)"
  shows "gs = ranges_from (cur s) (map snd gs) \<and> (\<forall>n \<in> set (map snd gs). 0 \<le> n) \<and>
         cur s' = cur s + sum_list (map snd gs)"
  using assms
proof (induction rs arbitrary: s s' gs)
  case (Cons r rs)
  obtain s1 o1 where s1: "serve s r = (s1, o1)" by fastforce
  then have fit: "fits s r" "all_fit s1 rs" using Cons.prems(1) by simp_all
  show ?case
  proof (cases o1)
    case None
    then show ?thesis using Cons.IH [OF fit(2)] Cons.prems(2) s1 serve_refuse [OF fit(1)] by simp
  next
    case (Some g)
    obtain gs1 where gs: "run_all s1 rs = (s', gs1)" "gs = g # gs1"
      using Cons.prems(2) s1 Some by (auto split: prod.splits)
    then show ?thesis
      using Cons.IH [OF fit(2) gs(1)] serve_grant [OF fit(1) s1 [unfolded Some]]
      by (cases g) (simp add: add.assoc)
  qed
qed simp

text \<open>Ranges handed out are disjoint, in ascending order, and leave no gap.\<close>

lemma run_all_disjoint:
  assumes "all_fit s rs" "run_all s rs = (s', gs)"
  shows "sorted_wrt before gs" "(\<Union>g \<in> set gs. range_of g) = {cur s ..< cur s'}"
proof -
  note r = run_all_ranges [OF assms]
  then show "sorted_wrt before gs" using ranges_from_before by metis
  show "(\<Union>g \<in> set gs. range_of g) = {cur s ..< cur s'}" using r ranges_from_cover by metis
qed

end

end
