(* ===== verification/Seqnum_Inet.thy ===== *)
theory Seqnum_Inet
  imports Readline Seq_Alloc
begin

text \<open>
  Section 59, \<^verbatim>\<open>is_seqnum_sv.c\<close> and \<^verbatim>\<open>is_seqnum_cl.c\<close>: the iterative sequence-number server
  over stream sockets and its client. The server's state is the 32-bit counter together
  with the objects that live across requests: the request array, which is not cleared
  between connections, and the line buffer. A connection is what the socket calls return
  for it. The server is an interpretation of \<open>seq_allocator\<close>.
\<close>

abbreviation (input) INT_LEN :: nat where "INT_LEN \<equiv> 50"

subsection \<open>State and environment\<close>

record sv_state =
  seqNum :: "32 word"
  reqLenStr :: chars
  sv_rlbuf :: readline_state

record conn =
  accept_ok :: bool
  peer_name :: "(string \<times> string) option"   \<comment> \<open>\<^verbatim>\<open>getnameinfo\<close>: host and service\<close>
  incoming :: "rd_ans list"                 \<comment> \<open>what the client sends\<close>
  write_len :: nat                          \<comment> \<open>bytes the \<^verbatim>\<open>write\<close> of the reply accepts\<close>
  conn_close_ok :: bool

datatype sv_event =
    AcceptError
  | ConnectionFrom string       \<comment> \<open>line on standard output\<close>
  | Reply string                \<comment> \<open>bytes written to the client\<close>
  | WriteError
  | CloseError

definition addr_str :: "conn \<Rightarrow> string" where
  "addr_str c = (case peer_name c of
      Some (host, service) \<Rightarrow> ''('' @ host @ '', '' @ service @ '')''
    | None \<Rightarrow> ''(?UNKNOWN?)'')"

subsection \<open>One iteration of the server\<close>

text \<open>\<^verbatim>\<open>snprintf(seqNumStr, INT_LEN, "%d\n", seqNum)\<close>: the counter is printed as signed.\<close>

definition seqNumStr :: "32 word \<Rightarrow> string" where
  "seqNumStr w = take (INT_LEN - 1) (dec_int (sint w) @ [newline])"

definition serve_conn :: "sv_state \<Rightarrow> conn \<Rightarrow> (sv_state \<times> sv_event list) run" where
  "serve_conn st c =
     (if \<not> accept_ok c then Done (st, [AcceptError])
      else
        let hello = ConnectionFrom (addr_str c);
            rl0 = readline_buf_init 4 (sv_rlbuf st)
        in run_bind (readline_buf rl0 (Some (reqLenStr st)) INT_LEN (incoming c)) (\<lambda>(r, a, rl, s).
           let st1 = st\<lparr>reqLenStr := (case a of Some x \<Rightarrow> x | None \<Rightarrow> []), sv_rlbuf := rl\<rparr> in
           if r \<le> 0 then Done (st1, [hello])
           else run_bind (atoi_array (reqLenStr st1)) (\<lambda>reqLen.
             if reqLen \<le> 0 then Done (st1, [hello])
             else
               let out = seqNumStr (seqNum st1);
                   sent = take (write_len c) out
               in Done (st1\<lparr>seqNum := seqNum st1 + word_of_int reqLen\<rparr>,
                        [hello, Reply sent]
                        @ (if length sent \<noteq> length out then [WriteError] else [])
                        @ (if conn_close_ok c then [] else [CloseError])))))"

text \<open>The endless service loop, on the connections that arrive.\<close>

fun serve_all :: "sv_state \<Rightarrow> conn list \<Rightarrow> (sv_state \<times> sv_event list) run" where
  "serve_all st [] = Done (st, [])"
| "serve_all st (c # cs) =
     run_bind (serve_conn st c) (\<lambda>(st', ev).
       run_bind (serve_all st' cs) (\<lambda>(st'', evs). Done (st'', ev @ evs)))"

subsection \<open>Start of the server\<close>

record addr_try =
  socket_ok :: bool
  setsockopt_ok :: bool
  bind_ok :: bool               \<comment> \<open>\<^verbatim>\<open>bind\<close> in the server, \<^verbatim>\<open>connect\<close> in the client\<close>

text \<open>The index of the address that could be bound, \<open>None\<close> when \<^verbatim>\<open>rp\<close> reaches the end.\<close>

fun bind_any :: "addr_try list \<Rightarrow> nat \<Rightarrow> nat option run" where
  "bind_any [] i = Done None"
| "bind_any (a # r) i =
     (if \<not> socket_ok a then bind_any r (Suc i)
      else if \<not> setsockopt_ok a then Exited EXIT_FAILURE
      else if bind_ok a then Done (Some i)
      else bind_any r (Suc i))"

record sv_env =
  signal_ok :: bool
  addrs :: "addr_try list option"     \<comment> \<open>\<open>None\<close>: \<^verbatim>\<open>getaddrinfo\<close> failed\<close>
  listen_ok :: bool
  stack_req :: chars                  \<comment> \<open>indeterminate contents of the local arrays\<close>
  stack_rl :: readline_state

definition seqnum_sv_main ::
  "string list \<Rightarrow> sv_env \<Rightarrow> conn list \<Rightarrow> (sv_state \<times> sv_event list) run" where
  "seqnum_sv_main argv e cs =
     (if 1 < length argv \<and> argv ! 1 = ''--help'' then Exited EXIT_FAILURE
      else
        let n = (if 1 < length argv then word_of_int (atoi (argv ! 1)) else 0) in
        if \<not> signal_ok e then Exited EXIT_FAILURE
        else case addrs e of
          None \<Rightarrow> Exited EXIT_FAILURE
        | Some as \<Rightarrow> run_bind (bind_any as 0) (\<lambda>rp.
            if rp = None then Exited EXIT_FAILURE
            else if \<not> listen_ok e then Exited EXIT_FAILURE
            else serve_all \<lparr>seqNum = n, reqLenStr = stack_req e, sv_rlbuf = stack_rl e\<rparr> cs))"

subsection \<open>The client\<close>

fun connect_any :: "addr_try list \<Rightarrow> nat \<Rightarrow> nat option" where
  "connect_any [] i = None"
| "connect_any (a # r) i =
     (if \<not> socket_ok a then connect_any r (Suc i)
      else if bind_ok a then Some i
      else connect_any r (Suc i))"

record cl_env =
  cl_addrs :: "addr_try list option"
  cl_write1 :: int                    \<comment> \<open>result of the \<^verbatim>\<open>write\<close> of the number\<close>
  cl_write2 :: int                    \<comment> \<open>result of the \<^verbatim>\<open>write\<close> of the newline\<close>
  cl_reply :: "rd_ans list"           \<comment> \<open>what the server sends back\<close>
  cl_stack :: chars
  cl_rl :: readline_state

text \<open>What the client sends and what it prints.\<close>

definition seqnum_cl_main :: "string list \<Rightarrow> cl_env \<Rightarrow> (string \<times> string) run" where
  "seqnum_cl_main argv e =
     (if length argv < 2 \<or> argv ! 1 = ''--help'' then Exited EXIT_FAILURE
      else case cl_addrs e of
        None \<Rightarrow> Exited EXIT_FAILURE
      | Some as \<Rightarrow>
          if connect_any as 0 = None then Exited EXIT_FAILURE
          else
            let req = (if 2 < length argv then argv ! 2 else ''1'') in
            if cl_write1 e \<noteq> int (length req) then Exited EXIT_FAILURE
            else if cl_write2 e \<noteq> 1 then Exited EXIT_FAILURE
            else run_bind (readline_buf (readline_buf_init 3 (cl_rl e)) (Some (cl_stack e)) INT_LEN (cl_reply e))
              (\<lambda>(numRead, a, rl, s).
                 if numRead = - 1 then Exited EXIT_FAILURE
                 else if numRead = 0 then Exited EXIT_FAILURE
                 else run_bind (print_str (case a of Some x \<Rightarrow> x | None \<Rightarrow> []))
                   (\<lambda>out. Done (req @ [newline], ''Sequence number: '' @ out))))"

subsection \<open>One request\<close>

definition sv_ok :: "sv_state \<Rightarrow> bool" where
  "sv_ok st \<longleftrightarrow> length (reqLenStr st) = INT_LEN \<and> length (rl_buf (sv_rlbuf st)) = BUF_SIZE"

text \<open>The number a client asks for: the value of the first line it sends.\<close>

definition requested :: "conn \<Rightarrow> int" where
  "requested c = atoi (first_line (feed (incoming c)))"

definition good_request :: "conn \<Rightarrow> bool" where
  "good_request c \<longleftrightarrow> accept_ok c \<and> rd_clean (incoming c) \<and>
     (\<exists>k r. feed (incoming c) = dec_int k @ newline # r \<and> 0 < k \<and> k \<le> INT_MAX)"

lemma sint_to_int32: "sint (w :: 32 word) = to_int32 (uint w)"
  by (simp add: sint_uint to_int32_def signed_take_bit_eq_take_bit_shift take_bit_eq_mod)

lemma newline_not_digit: "\<not> is_digit newline"
  by (simp add: is_digit_def)

lemma seqNumStr_full: "seqNumStr w = dec_int (to_int32 (uint w)) @ [newline]"
  using dec_int_length [of "sint w"] by (simp add: seqNumStr_def sint_to_int32)

lemma length_seqNumStr: "length (seqNumStr w) \<le> 12"
  using dec_int_length [of "sint w"] by (simp add: seqNumStr_def)

lemma requested_line:
  assumes "feed (incoming c) = dec_int k @ newline # r" "is_int32 k"
  shows "first_line (feed (incoming c)) = dec_int k @ [newline]" "requested c = k"
proof -
  show 1: "first_line (feed (incoming c)) = dec_int k @ [newline]"
    using assms dec_int_chars by (metis first_line_append_newline)
  show "requested c = k"
    using atoi_array_dec_int [OF newline_not_digit assms(2), of "[Some NUL]"]
    unfolding requested_def 1 atoi_def c_array_def by simp
qed

text \<open>What the request array holds after a line was read into it.\<close>

lemma serve_conn_line:
  assumes "sv_ok st" "accept_ok c" "rd_clean (incoming c)" "feed (incoming c) \<noteq> []"
    and a: "a = store_bytes (take INT_LEN (first_line (feed (incoming c)))) (reqLenStr st)"
    and v: "atoi_array a = Done v" "0 < v"
  shows "\<exists>st' ev. serve_conn st c = Done (st', ConnectionFrom (addr_str c)
             # Reply (take (write_len c) (seqNumStr (seqNum st))) # ev) \<and>
           set ev \<subseteq> {WriteError, CloseError} \<and>
           seqNum st' = seqNum st + word_of_int v \<and> reqLenStr st' = a \<and> sv_ok st'"
proof -
  let ?rl = "readline_buf_init 4 (sv_rlbuf st)" and ?d = "feed (incoming c)"
  have rl: "rl_ok ?rl" "?d = unread ?rl @ ?d"
    using assms(1) readline_buf_init_ok by (simp_all add: sv_ok_def)
  have room: "0 < INT_LEN" "INT_LEN \<le> length (reqLenStr st)" using assms(1) by (simp_all add: sv_ok_def)
  obtain rl' s' where r: "readline_buf ?rl (Some (reqLenStr st)) INT_LEN (incoming c) =
      Done (int (min INT_LEN (length (first_line ?d))), Some a, rl', s')" "rl_ok rl'"
    unfolding a by (rule readline_buf_clean [OF rl(1) assms(3) room rl(2)])
  have "length a = INT_LEN" using assms(1) by (simp add: a sv_ok_def)
  moreover have "length (rl_buf rl') = BUF_SIZE" using r(2) by (simp add: rl_ok_def)
  moreover have "0 < length (first_line ?d)" using assms(4) by simp
  ultimately show ?thesis using assms(2) r(1) v
    by (simp add: serve_conn_def sv_ok_def Let_def) (simp add: subset_iff)
qed

lemma serve_conn_good:
  assumes "sv_ok st" "good_request c"
  shows "\<exists>st' ev. serve_conn st c = Done (st', ConnectionFrom (addr_str c)
             # Reply (take (write_len c) (seqNumStr (seqNum st))) # ev) \<and>
           set ev \<subseteq> {WriteError, CloseError} \<and>
           seqNum st' = seqNum st + word_of_int (requested c) \<and> sv_ok st'"
proof -
  obtain k r where k: "accept_ok c" "rd_clean (incoming c)"
    "feed (incoming c) = dec_int k @ newline # r" "0 < k" "k \<le> INT_MAX"
    using assms(2) by (auto simp: good_request_def)
  then have k32: "is_int32 k" by (simp add: is_int32_def)
  note line = requested_line [OF k(3) k32]
  let ?a = "store_bytes (take INT_LEN (first_line (feed (incoming c)))) (reqLenStr st)"
  have "?a = map Some (dec_int k) @ Some newline # drop (Suc (length (dec_int k))) (reqLenStr st)"
    using dec_int_length [OF k32] by (simp add: line store_bytes_def)
  then have "atoi_array ?a = Done k" by (simp add: atoi_array_dec_int newline_not_digit k32)
  moreover have "feed (incoming c) \<noteq> []" using k(3) by simp
  ultimately show ?thesis using serve_conn_line [OF assms(1) k(1,2) _ refl _ k(4)] line(2) by blast
qed

subsection \<open>The server as an allocator of number ranges\<close>

definition serve :: "sv_state \<Rightarrow> conn \<Rightarrow> sv_state \<times> grant option" where
  "serve st c = (case serve_conn st c of
      Done (st', ev) \<Rightarrow>
        (st', if \<exists>s. Reply s \<in> set ev then Some (uint (seqNum st), requested c) else None)
    | _ \<Rightarrow> (st, None))"

definition sv_fits :: "sv_state \<Rightarrow> conn \<Rightarrow> bool" where
  "sv_fits st c \<longleftrightarrow> sv_ok st \<and>
     (\<not> accept_ok c \<or> good_request c \<and> uint (seqNum st) + requested c < 2 ^ 32)"

lemma requested_pos: "good_request c \<Longrightarrow> 0 < requested c \<and> requested c \<le> INT_MAX"
  using requested_line(2) by (fastforce simp: good_request_def is_int32_def)

lemma uint_add_fits:
  assumes "uint (w :: 32 word) + k < 2 ^ 32" "0 \<le> k"
  shows "uint (w + word_of_int k) = uint w + k"
proof -
  have "0 \<le> uint w" by simp
  then have "k < 2 ^ 32" using assms by linarith
  then show ?thesis using assms by (simp add: uint_word_ariths(1) uint_word_of_int)
qed

interpretation inet: seq_allocator "\<lambda>st. uint (seqNum st)" serve sv_fits
proof
  fix st c st' g
  assume fit: "sv_fits st c"
  { assume s: "serve st c = (st', Some g)"
    then have acc: "accept_ok c" by (cases "accept_ok c") (simp_all add: serve_def serve_conn_def)
    then have g: "good_request c" "uint (seqNum st) + requested c < 2 ^ 32" "sv_ok st"
      using fit by (auto simp: sv_fits_def)
    obtain st1 ev where r: "serve_conn st c = Done (st1, ConnectionFrom (addr_str c)
             # Reply (take (write_len c) (seqNumStr (seqNum st))) # ev)"
      "seqNum st1 = seqNum st + word_of_int (requested c)"
      using serve_conn_good [OF g(3,1)] by blast
    then have "st' = st1" "g = (uint (seqNum st), requested c)" using s by (auto simp: serve_def split: if_splits)
    then show "fst g = uint (seqNum st) \<and> 0 \<le> snd g \<and> uint (seqNum st') = uint (seqNum st) + snd g"
      using r(2) g(2) requested_pos [OF g(1)] uint_add_fits by auto }
  { assume s: "serve st c = (st', None)"
    have "\<not> accept_ok c"
    proof
      assume "accept_ok c"
      then have "sv_ok st" "good_request c" using fit by (simp_all add: sv_fits_def)
      then obtain st1 ev where "serve_conn st c = Done (st1, ConnectionFrom (addr_str c)
             # Reply (take (write_len c) (seqNumStr (seqNum st))) # ev)"
        using serve_conn_good by blast
      then show False using s by (auto simp: serve_def split: if_splits)
    qed
    then show "uint (seqNum st') = uint (seqNum st)"
      using s by (simp add: serve_def serve_conn_def) }
qed

fun replies :: "sv_event list \<Rightarrow> string list" where
  "replies [] = []"
| "replies (Reply s # r) = s # replies r"
| "replies (x # r) = replies r"

lemma replies_append [simp]: "replies (a @ b) = replies a @ replies b"
  by (induction a rule: replies.induct) auto

lemma replies_errors: "set ev \<subseteq> {WriteError, CloseError} \<Longrightarrow> replies ev = []"
  by (induction ev) auto

lemma serve_all_ranges:
  assumes "sv_ok st" "\<forall>c \<in> set cs. \<not> accept_ok c \<or> good_request c"
    "\<forall>c \<in> set cs. 12 \<le> write_len c"
    "uint (seqNum st) + sum_list (map requested (filter accept_ok cs)) < 2 ^ 32"
  shows "inet.all_fit st cs \<and> (\<exists>st' ev. serve_all st cs = Done (st', ev) \<and>
           inet.run_all st cs = (st', ranges_from (uint (seqNum st)) (map requested (filter accept_ok cs))) \<and>
           replies ev = map (\<lambda>g. dec_int (to_int32 (fst g)) @ [newline])
             (ranges_from (uint (seqNum st)) (map requested (filter accept_ok cs))))"
  using assms
proof (induction cs arbitrary: st)
  case (Cons c cs)
  have nn: "0 \<le> sum_list (map requested (filter accept_ok cs))"
  proof (rule sum_list_nonneg)
    fix k assume "k \<in> set (map requested (filter accept_ok cs))"
    then obtain d where "d \<in> set cs" "accept_ok d" "k = requested d" by auto
    then show "0 \<le> k" using requested_pos [of d] Cons.prems(2) by auto
  qed
  show ?case
  proof (cases "accept_ok c")
    case False
    then have "serve_conn st c = Done (st, [AcceptError])" by (simp add: serve_conn_def)
    moreover have "serve st c = (st, None)" using calculation by (simp add: serve_def)
    moreover have "sv_fits st c" using Cons.prems(1) False by (simp add: sv_fits_def)
    ultimately show ?thesis using Cons.IH [OF Cons.prems(1)] Cons.prems False by auto
  next
    case True
    then have g: "good_request c" using Cons.prems(2) by simp
    have k: "0 < requested c" "uint (seqNum st) + requested c < 2 ^ 32"
      using requested_pos [OF g] Cons.prems(4) True nn by simp_all
    obtain st1 ev where r: "serve_conn st c = Done (st1, ConnectionFrom (addr_str c)
             # Reply (take (write_len c) (seqNumStr (seqNum st))) # ev)"
      "set ev \<subseteq> {WriteError, CloseError}"
      "seqNum st1 = seqNum st + word_of_int (requested c)" "sv_ok st1"
      using serve_conn_good [OF Cons.prems(1) g] by blast
    have s: "serve st c = (st1, Some (uint (seqNum st), requested c))"
      using r(1) by (auto simp: serve_def)
    have u: "uint (seqNum st1) = uint (seqNum st) + requested c"
      using r(3) uint_add_fits k by auto
    have full: "take (write_len c) (seqNumStr (seqNum st)) = seqNumStr (seqNum st)"
      using length_seqNumStr [of "seqNum st"] Cons.prems(3) by simp
    have fit: "sv_fits st c" using Cons.prems(1) g k by (simp add: sv_fits_def)
    have "uint (seqNum st1) + sum_list (map requested (filter accept_ok cs)) < 2 ^ 32"
      using Cons.prems(4) True u by (simp add: add.assoc)
    then obtain st2 ev2 where ih: "inet.all_fit st1 cs" "serve_all st1 cs = Done (st2, ev2)"
      "inet.run_all st1 cs = (st2, ranges_from (uint (seqNum st1)) (map requested (filter accept_ok cs)))"
      "replies ev2 = map (\<lambda>g. dec_int (to_int32 (fst g)) @ [newline])
         (ranges_from (uint (seqNum st1)) (map requested (filter accept_ok cs)))"
      using Cons.IH [OF r(4)] Cons.prems(2,3) by auto
    show ?thesis
      using ih r(1) replies_errors [OF r(2)] True s u full fit by (simp add: seqNumStr_full)
  qed
qed simp

text \<open>C7: as long as the counter does not overflow, the socket server answers every request
  with the first number of its own range: the replies are the printed starts of consecutive,
  pairwise disjoint ranges of the requested lengths, whatever the chunks in which the
  requests arrive and whichever calls of \<^verbatim>\<open>accept\<close> fail in between.\<close>

theorem seqnum_sv_disjoint_ranges:
  assumes "sv_ok st" "\<forall>c \<in> set cs. \<not> accept_ok c \<or> good_request c"
    "\<forall>c \<in> set cs. 12 \<le> write_len c"
    "uint (seqNum st) + sum_list (map requested (filter accept_ok cs)) < 2 ^ 32"
  shows "\<exists>st' ev gs. serve_all st cs = Done (st', ev) \<and>
           replies ev = map (\<lambda>g. dec_int (to_int32 (fst g)) @ [newline]) gs \<and>
           map snd gs = map requested (filter accept_ok cs) \<and>
           sorted_wrt before gs \<and>
           (\<Union>g \<in> set gs. range_of g) = {uint (seqNum st) ..< uint (seqNum st')}"
proof -
  let ?gs = "ranges_from (uint (seqNum st)) (map requested (filter accept_ok cs))"
  obtain st' ev where r: "inet.all_fit st cs" "serve_all st cs = Done (st', ev)"
    "inet.run_all st cs = (st', ?gs)"
    "replies ev = map (\<lambda>g. dec_int (to_int32 (fst g)) @ [newline]) ?gs"
    using serve_all_ranges [OF assms] by blast
  have "map snd (ranges_from v ks) = ks" for v ks by (induction ks arbitrary: v) auto
  then show ?thesis using r(2,4) inet.run_all_disjoint [OF r(1,3)] by blast
qed

definition demo_rl :: readline_state where
  "demo_rl = \<lparr>rl_fd = 0, rl_buf = replicate BUF_SIZE None, rl_buf_len = 0, rl_buf_p = 0\<rparr>"

definition demo_sv :: sv_state where
  "demo_sv = \<lparr>seqNum = 0, reqLenStr = replicate INT_LEN None, sv_rlbuf = demo_rl\<rparr>"

definition demo_conn :: "string list \<Rightarrow> conn" where
  "demo_conn chunks = \<lparr>accept_ok = True, peer_name = None, incoming = map RdBytes chunks,
     write_len = 20, conn_close_ok = True\<rparr>"

lemma demo_dec: "dec_int 15 = ''15''" "dec_int 3 = ''3''" "dec_int 12345 = ''12345''"
  by (simp_all add: dec_int_def dec_nat.simps digit_char_values)

lemma demo_good:
  "good_request (demo_conn [''1'', [CHR ''5'', newline]])" "good_request (demo_conn [[CHR ''3'', newline]])"
  "good_request (demo_conn [[CHR ''1'', CHR ''2'', CHR ''3'', CHR ''4'', CHR ''5'', newline]])"
  "requested (demo_conn [''1'', [CHR ''5'', newline]]) = 15" "requested (demo_conn [[CHR ''3'', newline]]) = 3"
proof -
  have f: "feed (incoming (demo_conn [''1'', [CHR ''5'', newline]])) = dec_int 15 @ newline # []"
    "feed (incoming (demo_conn [[CHR ''3'', newline]])) = dec_int 3 @ newline # []"
    "feed (incoming (demo_conn [[CHR ''1'', CHR ''2'', CHR ''3'', CHR ''4'', CHR ''5'', newline]]))
       = dec_int 12345 @ newline # []"
    by (simp_all add: demo_conn_def demo_dec)
  then show "requested (demo_conn [''1'', [CHR ''5'', newline]]) = 15"
    "requested (demo_conn [[CHR ''3'', newline]]) = 3"
    using requested_line(2) [OF f(1)] requested_line(2) [OF f(2)] by (simp_all add: is_int32_def)
  have pos: "(0::int) < 15" "(15::int) \<le> INT_MAX" "(0::int) < 3" "(3::int) \<le> INT_MAX"
    "(0::int) < 12345" "(12345::int) \<le> INT_MAX" by simp_all
  show "good_request (demo_conn [''1'', [CHR ''5'', newline]])"
    unfolding good_request_def
    by (intro conjI exI, simp_all only: f) (simp_all add: demo_conn_def rd_clean_def)
  show "good_request (demo_conn [[CHR ''3'', newline]])"
    unfolding good_request_def
    by (intro conjI exI, simp_all only: f) (simp_all add: demo_conn_def rd_clean_def)
  show "good_request (demo_conn [[CHR ''1'', CHR ''2'', CHR ''3'', CHR ''4'', CHR ''5'', newline]])"
    unfolding good_request_def
    by (intro conjI exI, simp_all only: f) (simp_all add: demo_conn_def rd_clean_def)
qed

theorem seqnum_sv_disjoint_ranges_witness:
  "\<exists>st' ev gs. serve_all demo_sv [demo_conn [''1'', [CHR ''5'', newline]], demo_conn [[CHR ''3'', newline]]]
       = Done (st', ev) \<and>
     replies ev = map (\<lambda>g. dec_int (to_int32 (fst g)) @ [newline]) gs \<and>
     map snd gs = [15, 3] \<and> sorted_wrt before gs \<and>
     (\<Union>g \<in> set gs. range_of g) = {0 ..< uint (seqNum st')}"
proof -
  let ?cs = "[demo_conn [''1'', [CHR ''5'', newline]], demo_conn [[CHR ''3'', newline]]]"
  have acc: "filter accept_ok ?cs = ?cs" by (simp add: demo_conn_def)
  have "sv_ok demo_sv" by (simp add: sv_ok_def demo_sv_def demo_rl_def)
  moreover have "\<forall>c \<in> set ?cs. \<not> accept_ok c \<or> good_request c" using demo_good by simp
  moreover have "\<forall>c \<in> set ?cs. 12 \<le> write_len c" by (simp add: demo_conn_def)
  moreover have "uint (seqNum demo_sv) + sum_list (map requested (filter accept_ok ?cs)) < 2 ^ 32"
    by (simp only: acc) (simp add: demo_good demo_sv_def)
  ultimately have "\<exists>st' ev gs. serve_all demo_sv ?cs = Done (st', ev) \<and>
      replies ev = map (\<lambda>g. dec_int (to_int32 (fst g)) @ [newline]) gs \<and>
      map snd gs = map requested (filter accept_ok ?cs) \<and> sorted_wrt before gs \<and>
      (\<Union>g \<in> set gs. range_of g) = {uint (seqNum demo_sv) ..< uint (seqNum st')}"
    by (rule seqnum_sv_disjoint_ranges)
  then show ?thesis by (simp only: acc) (simp add: demo_good demo_sv_def)
qed

text \<open>the request array is not terminated after a line was read into it: a client
  that sends digits without a newline is served for the number formed by its digits followed
  by what an earlier request left in the array.\<close>

theorem seqnum_sv_stale_digits:
  "\<exists>st' ev. serve_all demo_sv
       [demo_conn [[CHR ''1'', CHR ''2'', CHR ''3'', CHR ''4'', CHR ''5'', newline]], demo_conn [''7'']] =
     Done (st', ev) \<and> seqNum st' = word_of_int (12345 + 72345)"
proof -
  let ?c1 = "demo_conn [[CHR ''1'', CHR ''2'', CHR ''3'', CHR ''4'', CHR ''5'', newline]]"
  let ?c2 = "demo_conn [''7'']"
  let ?a1 = "map Some [CHR ''1'', CHR ''2'', CHR ''3'', CHR ''4'', CHR ''5'', newline] @ replicate 44 None"
  let ?a2 = "map Some [CHR ''7'', CHR ''2'', CHR ''3'', CHR ''4'', CHR ''5'', newline] @ replicate 44 None"
  have digits: "is_digit CHR ''1''" "is_digit CHR ''2''" "is_digit CHR ''3''" "is_digit CHR ''4''"
    "is_digit CHR ''5''" "is_digit CHR ''7''" "\<not> is_digit newline"
    "\<not> is_space CHR ''1''" "\<not> is_space CHR ''7''"
    by (simp_all add: is_digit_def is_space_def)
  have at: "atoi_array ?a1 = Done 12345" "atoi_array ?a2 = Done 72345"
    by (simp_all add: atoi_array_def digits digit_val_def clamp_long_def to_int32_def)
  have ok: "sv_ok demo_sv" by (simp add: sv_ok_def demo_sv_def demo_rl_def)
  have fl: "first_line (feed (incoming ?c1)) = [CHR ''1'', CHR ''2'', CHR ''3'', CHR ''4'', CHR ''5'', newline]"
    "first_line (feed (incoming ?c2)) = ''7''" by (simp_all add: demo_conn_def)
  have c: "accept_ok ?c1" "rd_clean (incoming ?c1)" "feed (incoming ?c1) \<noteq> []"
    "accept_ok ?c2" "rd_clean (incoming ?c2)" "feed (incoming ?c2) \<noteq> []"
    by (simp_all add: demo_conn_def rd_clean_def)
  have "?a1 = store_bytes (take INT_LEN (first_line (feed (incoming ?c1)))) (reqLenStr demo_sv)"
    unfolding fl by (simp add: store_bytes_def demo_sv_def)
  then obtain st1 ev1 where 1: "serve_conn demo_sv ?c1 = Done (st1, ev1)" "seqNum st1 = 12345"
    "reqLenStr st1 = ?a1" "sv_ok st1"
    using serve_conn_line [OF ok c(1-3) _ at(1)] by (auto simp: demo_sv_def)
  have "?a2 = store_bytes (take INT_LEN (first_line (feed (incoming ?c2)))) (reqLenStr st1)"
    unfolding fl 1 by (simp add: store_bytes_def)
  then obtain st2 ev2 where 2: "serve_conn st1 ?c2 = Done (st2, ev2)" "seqNum st2 = 12345 + word_of_int 72345"
    using serve_conn_line [OF 1(4) c(4-6) _ at(2)] 1(2) by auto
  show ?thesis using 1(1) 2 by simp
qed

text \<open>\<^verbatim>\<open>seqNumStr\<close> of the client is not terminated either: whatever reply the server
  sends, printing it reads indeterminate characters of the array.\<close>

theorem seqnum_cl_prints_indeterminate:
  assumes "length argv = 3" "argv ! 1 \<noteq> ''--help''"
    "cl_addrs e = Some as" "connect_any as 0 = Some i"
    "cl_write1 e = int (length (argv ! 2))" "cl_write2 e = 1"
    "rd_clean (cl_reply e)" "feed (cl_reply e) = dec_int v @ newline # r" "is_int32 v"
    "cl_stack e = replicate INT_LEN None" "length (rl_buf (cl_rl e)) = BUF_SIZE"
  shows "seqnum_cl_main argv e = Faulted Uninitialised"
proof -
  let ?rl = "readline_buf_init 3 (cl_rl e)" and ?d = "feed (cl_reply e)"
  have rl: "rl_ok ?rl" "?d = unread ?rl @ ?d"
    using assms(11) readline_buf_init_ok by simp_all
  have fl: "first_line ?d = dec_int v @ [newline]"
    using assms(8) dec_int_chars by (metis first_line_append_newline)
  have len: "length (first_line ?d) \<le> 12" "0 < length (first_line ?d)"
    using fl dec_int_length [OF assms(9)] by simp_all
  have room: "0 < INT_LEN" "INT_LEN \<le> length (cl_stack e)" using assms(10) by simp_all
  have cut: "min INT_LEN (length (first_line ?d)) = length (first_line ?d)"
    "take INT_LEN (first_line ?d) = first_line ?d" using len(1) by simp_all
  obtain rl' s' where r: "readline_buf ?rl (Some (cl_stack e)) INT_LEN (cl_reply e) =
      Done (int (length (first_line ?d)), Some (store_bytes (first_line ?d) (cl_stack e)), rl', s')"
    using readline_buf_clean [OF rl(1) assms(7) room rl(2)] unfolding cut by metis
  have n: "NUL \<notin> set (first_line ?d)" using fl dec_int_chars by fastforce
  have "store_bytes (first_line ?d) (cl_stack e) =
      map Some (first_line ?d) @ None # replicate (INT_LEN - Suc (length (first_line ?d))) None"
    using len assms(10)
    by (simp add: store_bytes_def replicate_Suc [symmetric] Suc_diff_Suc del: replicate_Suc)
  then have "print_str (store_bytes (first_line ?d) (cl_stack e)) = Faulted Uninitialised"
    using print_str_indeterminate [OF n] by simp
  then show ?thesis using assms(1-6) r len(2) by (simp add: seqnum_cl_main_def)
qed

theorem seqnum_cl_prints_indeterminate_witness:
  "seqnum_cl_main [''cl'', ''host'', ''5'']
     \<lparr>cl_addrs = Some [\<lparr>socket_ok = True, setsockopt_ok = True, bind_ok = True\<rparr>],
      cl_write1 = 1, cl_write2 = 1, cl_reply = [RdBytes ''15'', RdBytes [newline]],
      cl_stack = replicate INT_LEN None, cl_rl = demo_rl\<rparr> = Faulted Uninitialised"
  by (rule seqnum_cl_prints_indeterminate [where v = 15 and r = "[]" and i = 0
        and as = "[\<lparr>socket_ok = True, setsockopt_ok = True, bind_ok = True\<rparr>]"])
    (simp_all add: demo_dec rd_clean_def demo_rl_def is_int32_def)

end
