(* ===== verification/Seqnum_Fifo.thy ===== *)
theory Seqnum_Fifo
  imports C_Lib Seq_Alloc
begin

text \<open>
  Section 44, \<^verbatim>\<open>fifo_server.c\<close>, \<^verbatim>\<open>fifo_client.c\<close> and \<^verbatim>\<open>fifo_sercli.h\<close>: the sequence-number
  server over FIFOs, which keeps its counter in the file \<^verbatim>\<open>backup\<close>. The state holds the
  counter, the bytes of the file and the offset of its descriptor. The server is an
  interpretation of \<open>seq_allocator\<close>; two theorems describe what survives a restart.
\<close>

subsection \<open>An \<^verbatim>\<open>int\<close> as four bytes of a file\<close>

definition int_bytes :: "int \<Rightarrow> int list" where
  "int_bytes v = [v mod 256, v div 256 mod 256, v div 65536 mod 256, v div 16777216 mod 256]"

fun bytes_int :: "int list \<Rightarrow> int" where
  "bytes_int [a, b, c, d] = to_int32 (a + 256 * b + 65536 * c + 16777216 * d)"
| "bytes_int bs = 0"

lemma int_bytes_sum:
  "v mod 256 + 256 * (v div 256 mod 256) + 65536 * (v div 65536 mod 256)
     + 16777216 * (v div 16777216 mod 256) = v mod (4294967296 :: int)"
proof -
  have a: "v mod 4294967296 = 16777216 * (v div 16777216 mod 256) + v mod 16777216"
    using zmod_zmult2_eq [of 256 v 16777216] by simp
  have b: "v mod 16777216 = 65536 * (v div 65536 mod 256) + v mod 65536"
    using zmod_zmult2_eq [of 256 v 65536] by simp
  have c: "v mod 65536 = 256 * (v div 256 mod 256) + v mod 256"
    using zmod_zmult2_eq [of 256 v 256] by simp
  show ?thesis by (simp only: a b c ac_simps)
qed

lemma to_int32_mod: "to_int32 (v mod 4294967296) = to_int32 v"
  by (simp add: to_int32_def mod_add_left_eq)

lemma bytes_int_int_bytes: "is_int32 v \<Longrightarrow> bytes_int (int_bytes v) = v"
  by (simp only: bytes_int.simps int_bytes_def int_bytes_sum to_int32_mod to_int32_id)

lemma length_int_bytes [simp]: "length (int_bytes v) = 4"
  by (simp add: int_bytes_def)

text \<open>\<^verbatim>\<open>write\<close> at an offset; a gap beyond the end of the file reads as zeros.\<close>

definition file_write :: "int list \<Rightarrow> nat \<Rightarrow> int list \<Rightarrow> int list" where
  "file_write f off bs = take off (f @ replicate (off - length f) 0) @ bs @ drop (off + length bs) f"

lemma file_write_start [simp]: "file_write f 0 bs = bs @ drop (length bs) f"
  by (simp add: file_write_def)

subsection \<open>Messages and state\<close>

record request =
  req_pid :: int
  req_seq_len :: int

record fifo_state =
  seq_num :: int
  backup :: "int list"          \<comment> \<open>bytes of the file \<^verbatim>\<open>backup\<close>\<close>
  backup_off :: nat             \<comment> \<open>offset of \<^verbatim>\<open>file_fd\<close>\<close>
  server_fifo :: bool           \<comment> \<open>\<^verbatim>\<open>SERVER_FIFO\<close> exists\<close>

text \<open>What the system calls of one iteration answer.\<close>

record fifo_io =
  rq :: "request option"        \<comment> \<open>\<open>None\<close>: \<^verbatim>\<open>read\<close> did not return a whole request\<close>
  cl_open :: bool
  cl_write :: bool
  cl_close :: bool
  bk_write :: nat               \<comment> \<open>bytes the write to the backup file accepts\<close>
  bk_seek :: bool

datatype fifo_event =
    Discarded
  | ClientOpenFailed string
  | Response string int         \<comment> \<open>path of the client FIFO and \<^verbatim>\<open>resp.seq_num\<close>\<close>
  | ResponseFailed string
  | CloseFailed

text \<open>\<^verbatim>\<open>snprintf(client_fifo, CLIENT_FIFO_NAME_LEN, CLIENT_FIFO_TEMPLATE, pid)\<close>:
  \<^verbatim>\<open>sizeof\<close> of the template is 19, so at most 38 characters are kept.\<close>

definition client_fifo :: "int \<Rightarrow> string" where
  "client_fifo pid = take 38 (''/tmp/seqnum_cl.'' @ dec_int pid)"

subsection \<open>The server\<close>

definition fifo_handler :: "fifo_state \<Rightarrow> fifo_state \<times> int" where
  "fifo_handler st = (st\<lparr>server_fifo := False\<rparr>, EXIT_SUCCESS)"

record fifo_start_io =
  mkfifo_err :: "errno option"
  signals_ok :: bool            \<comment> \<open>the three calls of \<^verbatim>\<open>signal\<close>\<close>
  sv_open_ok :: bool
  dummy_open_ok :: bool
  bk_open_ok :: bool            \<comment> \<open>opening an existing backup file\<close>
  bk_read_ok :: bool

text \<open>
  The part of \<^verbatim>\<open>main\<close> before the loop; the file is absent (\<open>None\<close>) or has the bytes given.
  A file of fewer than four bytes overwrites only the low bytes of the counter.
\<close>

definition fifo_start :: "fifo_start_io \<Rightarrow> int list option \<Rightarrow> fifo_state run" where
  "fifo_start e f =
     (if mkfifo_err e \<noteq> None \<and> mkfifo_err e \<noteq> Some EEXIST then Exited EXIT_FAILURE
      else if \<not> signals_ok e then Exited EXIT_FAILURE
      else if \<not> sv_open_ok e then Exited EXIT_FAILURE
      else if \<not> dummy_open_ok e then Exited EXIT_FAILURE
      else if f \<noteq> None \<and> \<not> bk_open_ok e then Exited EXIT_FAILURE
      else if \<not> bk_read_ok e then Exited EXIT_FAILURE
      else
        let bytes = (case f of None \<Rightarrow> [] | Some b \<Rightarrow> b);
            got = take 4 bytes;
            n = (if got = [] then 0 else bytes_int (got @ drop (length got) (int_bytes 0)))
        in Done \<lparr>seq_num = n, backup = bytes, backup_off = length got, server_fifo = True\<rparr>)"

text \<open>One iteration of the service loop.\<close>

definition fifo_step :: "fifo_state \<Rightarrow> fifo_io \<Rightarrow> (fifo_state \<times> fifo_event list) run" where
  "fifo_step st io =
     (case rq io of
        None \<Rightarrow> Done (st, [Discarded])
      | Some r \<Rightarrow>
          let path = client_fifo (req_pid r) in
          if \<not> cl_open io then Done (st, [ClientOpenFailed path])
          else
            let ev = (if cl_write io then [Response path (seq_num st)] else [ResponseFailed path])
                     @ (if cl_close io then [] else [CloseFailed]);
                n = to_int32 (seq_num st + req_seq_len r);
                put = take (bk_write io) (int_bytes n)
            in if length put \<noteq> 4 then Exited EXIT_FAILURE
               else if \<not> bk_seek io then Exited EXIT_FAILURE
               else Done (st\<lparr>seq_num := n,
                             backup := file_write (backup st) (backup_off st) put,
                             backup_off := 0\<rparr>, ev))"

fun fifo_loop :: "fifo_state \<Rightarrow> fifo_io list \<Rightarrow> (fifo_state \<times> fifo_event list) run" where
  "fifo_loop st [] = Done (st, [])"
| "fifo_loop st (io # ios) =
     run_bind (fifo_step st io) (\<lambda>(st', ev).
       run_bind (fifo_loop st' ios) (\<lambda>(st'', evs). Done (st'', ev @ evs)))"

definition fifo_server_main ::
  "fifo_start_io \<Rightarrow> int list option \<Rightarrow> fifo_io list \<Rightarrow> (fifo_state \<times> fifo_event list) run" where
  "fifo_server_main e f ios = run_bind (fifo_start e f) (\<lambda>st. fifo_loop st ios)"

subsection \<open>The client\<close>

record fifo_cl_io =
  own_pid :: int
  cl_mkfifo_err :: "errno option"
  atexit_ok :: bool
  srv_open_ok :: bool
  srv_write_ok :: bool
  own_open_ok :: bool
  answer :: "int option"        \<comment> \<open>\<open>None\<close>: the response was not read completely\<close>

text \<open>\<^verbatim>\<open>remove_fifo\<close> runs at exit, once it is registered: the FIFOs that remain.\<close>

definition remove_fifo :: "int \<Rightarrow> string set \<Rightarrow> string set" where
  "remove_fifo pid fs = fs - {client_fifo pid}"

text \<open>The request that is sent and the line that is printed.\<close>

definition fifo_client_main :: "string list \<Rightarrow> fifo_cl_io \<Rightarrow> (request \<times> string) run" where
  "fifo_client_main argv e =
     (if 1 < length argv \<and> argv ! 1 = ''--help'' then Exited EXIT_SUCCESS
      else if cl_mkfifo_err e \<noteq> None \<and> cl_mkfifo_err e \<noteq> Some EEXIST then Exited EXIT_FAILURE
      else if \<not> atexit_ok e then Exited EXIT_FAILURE
      else
        let req = \<lparr>req_pid = own_pid e,
                   req_seq_len = (if 1 < length argv then atoi (argv ! 1) else 1)\<rparr> in
        if \<not> srv_open_ok e then Exited EXIT_FAILURE
        else if \<not> srv_write_ok e then Exited EXIT_FAILURE
        else if \<not> own_open_ok e then Exited EXIT_FAILURE
        else case answer e of
          None \<Rightarrow> Faulted Uninitialised
        | Some n \<Rightarrow> Done (req, dec_int n @ [newline]))"

subsection \<open>The server as an allocator of number ranges\<close>

text \<open>Calls of the server on its own file and on its own FIFO succeed.\<close>

definition io_ok :: "fifo_io \<Rightarrow> bool" where
  "io_ok io \<longleftrightarrow> 4 \<le> bk_write io \<and> bk_seek io"

definition fifo_serve :: "fifo_state \<Rightarrow> fifo_io \<Rightarrow> fifo_state \<times> grant option" where
  "fifo_serve st io =
     (case fifo_step st io of
        Done (st', ev) \<Rightarrow>
          (st', case rq io of None \<Rightarrow> None
                | Some r \<Rightarrow> if cl_open io then Some (seq_num st, req_seq_len r) else None)
      | _ \<Rightarrow> (st, None))"

definition fifo_fits :: "fifo_state \<Rightarrow> fifo_io \<Rightarrow> bool" where
  "fifo_fits st io \<longleftrightarrow> io_ok io \<and> is_int32 (seq_num st) \<and>
     (case rq io of None \<Rightarrow> True
      | Some r \<Rightarrow> 0 \<le> req_seq_len r \<and> seq_num st + req_seq_len r \<le> INT_MAX)"

definition reply_events :: "fifo_io \<Rightarrow> int \<Rightarrow> int \<Rightarrow> fifo_event list" where
  "reply_events io pid n =
     (if cl_write io then [Response (client_fifo pid) n] else [ResponseFailed (client_fifo pid)])
     @ (if cl_close io then [] else [CloseFailed])"

lemma fifo_step_serves:
  assumes "fifo_fits st io" "rq io = Some r" "cl_open io"
  shows "fifo_step st io = Done (st\<lparr>seq_num := seq_num st + req_seq_len r,
     backup := file_write (backup st) (backup_off st) (int_bytes (seq_num st + req_seq_len r)),
     backup_off := 0\<rparr>, reply_events io (req_pid r) (seq_num st))"
proof -
  have "to_int32 (seq_num st + req_seq_len r) = seq_num st + req_seq_len r"
    using assms by (simp add: fifo_fits_def is_int32_def to_int32_id)
  then show ?thesis using assms by (simp add: fifo_step_def fifo_fits_def io_ok_def reply_events_def Let_def)
qed

interpretation fifo: seq_allocator seq_num fifo_serve fifo_fits
proof
  fix st io st' g
  assume fit: "fifo_fits st io"
  { assume s: "fifo_serve st io = (st', Some g)"
    then obtain r where r: "rq io = Some r" "cl_open io"
      by (auto simp: fifo_serve_def split: run.splits option.splits if_splits)
    then show "fst g = seq_num st \<and> 0 \<le> snd g \<and> seq_num st' = seq_num st + snd g"
      using s fit fifo_step_serves [OF fit r] by (auto simp: fifo_serve_def fifo_fits_def) }
  { assume s: "fifo_serve st io = (st', None)"
    then have "rq io = None \<or> \<not> cl_open io"
      using fifo_step_serves [OF fit] by (fastforce simp: fifo_serve_def)
    then show "seq_num st' = seq_num st"
      using s by (auto simp: fifo_serve_def fifo_step_def split: option.splits) }
qed

text \<open>The requests that get a number.\<close>

fun served :: "fifo_io list \<Rightarrow> int list" where
  "served [] = []"
| "served (io # ios) =
     (case rq io of None \<Rightarrow> served ios
      | Some r \<Rightarrow> if cl_open io then req_seq_len r # served ios else served ios)"

definition fifo_calm :: "fifo_io list \<Rightarrow> bool" where
  "fifo_calm ios \<longleftrightarrow> (\<forall>io \<in> set ios. io_ok io \<and> (case rq io of None \<Rightarrow> True | Some r \<Rightarrow> 0 \<le> req_seq_len r \<and> cl_open io))"

lemma served_nonneg: "fifo_calm ios \<Longrightarrow> \<forall>n \<in> set (served ios). 0 \<le> n"
  by (induction ios) (auto simp: fifo_calm_def split: option.splits)

text \<open>What the clients are sent: the path of the client FIFO with the number in the response. It
  is compared with the requests, each with the range that is its own, of the clients whose
  FIFO accepts the response.\<close>

fun responses :: "fifo_event list \<Rightarrow> (string \<times> int) list" where
  "responses (Response path n # ev) = (path, n) # responses ev"
| "responses (_ # ev) = responses ev"
| "responses [] = []"

lemma responses_append: "responses (xs @ ys) = responses xs @ responses ys"
  by (induction xs rule: responses.induct) auto

fun requests :: "fifo_io list \<Rightarrow> (fifo_io \<times> request) list" where
  "requests [] = []"
| "requests (io # ios) =
     (case rq io of None \<Rightarrow> requests ios
      | Some r \<Rightarrow> if cl_open io then (io, r) # requests ios else requests ios)"

definition due :: "int \<Rightarrow> fifo_io list \<Rightarrow> (string \<times> int) list" where
  "due n ios = map (\<lambda>((io, r), g). (client_fifo (req_pid r), fst g))
     (filter (\<lambda>((io, r), g). cl_write io) (zip (requests ios) (ranges_from n (served ios))))"

lemma requests_lengths:
  "map (\<lambda>(io, r). req_seq_len r) (requests ios) = map snd (ranges_from n (served ios))"
  by (induction ios arbitrary: n) (auto split: option.splits)

text \<open>The file mirrors the counter once a request was served with the offset at the start.\<close>

definition mirrored :: "fifo_state \<Rightarrow> bool" where
  "mirrored st \<longleftrightarrow> backup_off st = 0 \<and> take 4 (backup st) = int_bytes (seq_num st)"

lemma fifo_loop_calm:
  assumes "fifo_calm ios" "is_int32 (seq_num st)" "seq_num st + sum_list (served ios) \<le> INT_MAX"
  shows "fifo.all_fit st ios \<and>
    (\<exists>st' ev. fifo_loop st ios = Done (st', ev) \<and>
       fifo.run_all st ios = (st', ranges_from (seq_num st) (served ios)) \<and>
       responses ev = due (seq_num st) ios \<and>
       seq_num st' = seq_num st + sum_list (served ios) \<and>
       (mirrored st \<or> backup_off st = 0 \<and> served ios \<noteq> [] \<or> 2 \<le> length (served ios) \<longrightarrow> mirrored st'))"
  using assms
proof (induction ios arbitrary: st)
  case (Cons io ios)
  have calm: "fifo_calm ios" "io_ok io" using Cons.prems(1) by (simp_all add: fifo_calm_def)
  show ?case
  proof (cases "rq io")
    case None
    then have s: "fifo_step st io = Done (st, [Discarded])" by (simp add: fifo_step_def)
    then have "fifo_serve st io = (st, None)" using None by (simp add: fifo_serve_def)
    moreover have "fifo_fits st io" using calm Cons.prems None by (simp add: fifo_fits_def)
    ultimately show ?thesis using Cons.IH [OF calm(1) Cons.prems(2)] Cons.prems(3) s None
      by (auto simp: due_def)
  next
    case (Some r)
    let ?st = "st\<lparr>seq_num := seq_num st + req_seq_len r,
      backup := file_write (backup st) (backup_off st) (int_bytes (seq_num st + req_seq_len r)),
      backup_off := 0\<rparr>"
    have r: "0 \<le> req_seq_len r" "cl_open io" using Cons.prems(1) Some by (simp_all add: fifo_calm_def)
    have nn: "0 \<le> sum_list (served ios)"
      using served_nonneg [OF calm(1)] by (simp add: sum_list_nonneg)
    have sum: "seq_num st + req_seq_len r + sum_list (served ios) \<le> INT_MAX"
      using Cons.prems(3) Some r by simp
    then have fit: "fifo_fits st io" using calm Some r nn Cons.prems(2) by (simp add: fifo_fits_def)
    note s = fifo_step_serves [OF fit Some r(2)]
    then have sv: "fifo_serve st io = (?st, Some (seq_num st, req_seq_len r))"
      using Some r by (simp add: fifo_serve_def)
    have i32: "is_int32 (seq_num ?st)" using Cons.prems(2) r(1) sum nn by (simp add: is_int32_def)
    have off: "backup_off ?st = 0" by simp
    have mir: "backup_off st = 0 \<Longrightarrow> mirrored ?st" by (simp add: mirrored_def)
    obtain st' ev' where ih: "fifo.all_fit ?st ios" "fifo_loop ?st ios = Done (st', ev')"
      "fifo.run_all ?st ios = (st', ranges_from (seq_num ?st) (served ios))"
      "responses ev' = due (seq_num ?st) ios"
      "seq_num st' = seq_num ?st + sum_list (served ios)"
      "mirrored ?st \<or> backup_off ?st = 0 \<and> served ios \<noteq> [] \<or> 2 \<le> length (served ios) \<longrightarrow> mirrored st'"
      using Cons.IH [OF calm(1) i32] sum by auto
    have "mirrored st \<or> backup_off st = 0 \<and> served (io # ios) \<noteq> [] \<or> 2 \<le> length (served (io # ios))
        \<longrightarrow> mirrored st'"
    proof (cases "served ios = []")
      case True
      then show ?thesis using ih(6) mir Some r(2) by (auto simp: mirrored_def)
    next
      case False
      then show ?thesis using ih(6) off by blast
    qed
    moreover have "responses (reply_events io (req_pid r) (seq_num st) @ ev') = due (seq_num st) (io # ios)"
      using ih(4) Some r(2) by (simp add: responses_append reply_events_def due_def)
    ultimately show ?thesis using ih(1-3,5) s sv fit Some r by (simp add: add.assoc)
  qed
qed (simp add: due_def)

text \<open>A server started on a file that mirrors a counter continues with that counter.\<close>

definition start_ok :: "fifo_start_io \<Rightarrow> bool" where
  "start_ok e \<longleftrightarrow> (mkfifo_err e = None \<or> mkfifo_err e = Some EEXIST) \<and> signals_ok e \<and> sv_open_ok e \<and>
     dummy_open_ok e \<and> bk_open_ok e \<and> bk_read_ok e"

lemma fifo_start_file:
  assumes "start_ok e" "take 4 f = int_bytes v" "is_int32 v"
  shows "fifo_start e (Some f) = Done \<lparr>seq_num = v, backup = f, backup_off = 4, server_fifo = True\<rparr>"
proof -
  have "int_bytes v \<noteq> []" "drop 4 (int_bytes 0) = []" by (simp_all add: int_bytes_def)
  moreover have "4 \<le> length f" using arg_cong [OF assms(2), of length] by simp
  ultimately show ?thesis
    using assms bytes_int_int_bytes [OF assms(3)] by (auto simp: fifo_start_def start_ok_def Let_def)
qed

lemma fifo_start_fresh:
  "start_ok e \<Longrightarrow> fifo_start e None = Done \<lparr>seq_num = 0, backup = [], backup_off = 0, server_fifo = True\<rparr>"
  by (auto simp: fifo_start_def start_ok_def)

text \<open>C8: when the calls on the own FIFO and file of the server succeed, every client FIFO can be opened, the
  requested lengths are not negative and their sum fits an \<^verbatim>\<open>int\<close>, a server started on a new backup file sends exactly
  one response to every client whose FIFO accepts it, in the order of the requests, on the FIFO
  of that client and with the first number of the client's own range; the ranges are consecutive
  and pairwise disjoint. A server that has served at least one request leaves the next server
  the number that follows the last range.\<close>

theorem fifo_server_ranges_and_backup:
  assumes "start_ok e" "start_ok e'" "fifo_calm ios" "served ios \<noteq> []" "sum_list (served ios) \<le> INT_MAX"
  shows "\<exists>st ev st'. fifo_server_main e None ios = Done (st, ev) \<and>
     responses ev = map (\<lambda>((io, r), g). (client_fifo (req_pid r), fst g))
       (filter (\<lambda>((io, r), g). cl_write io) (zip (requests ios) (ranges_from 0 (served ios)))) \<and>
     map (\<lambda>(io, r). req_seq_len r) (requests ios) = map snd (ranges_from 0 (served ios)) \<and>
     sorted_wrt before (ranges_from 0 (served ios)) \<and>
     fifo_start e' (Some (backup st)) = Done st' \<and> seq_num st' = sum_list (served ios)"
proof -
  let ?s0 = "\<lparr>seq_num = 0, backup = [], backup_off = 0, server_fifo = True\<rparr>"
  obtain st ev where r: "fifo.all_fit ?s0 ios" "fifo_loop ?s0 ios = Done (st, ev)"
    "fifo.run_all ?s0 ios = (st, ranges_from 0 (served ios))" "responses ev = due 0 ios" "seq_num st = sum_list (served ios)"
    "mirrored st"
    using fifo_loop_calm [OF assms(3), of ?s0] assms(4,5) by (auto simp: is_int32_def)
  have "is_int32 (seq_num st)"
    using r(5) assms(5) served_nonneg [OF assms(3)] sum_list_nonneg [of "served ios"]
    by (simp add: is_int32_def)
  then have "fifo_start e' (Some (backup st)) =
      Done \<lparr>seq_num = seq_num st, backup = backup st, backup_off = 4, server_fifo = True\<rparr>"
    using r(6) fifo_start_file [OF assms(2)] by (simp add: mirrored_def)
  then show ?thesis
    using r fifo.run_all_disjoint(1) [OF r(1,3)] fifo_start_fresh [OF assms(1)]
    by (simp add: fifo_server_main_def due_def requests_lengths)
qed

definition demo_start :: fifo_start_io where
  "demo_start = \<lparr>mkfifo_err = None, signals_ok = True, sv_open_ok = True, dummy_open_ok = True,
     bk_open_ok = True, bk_read_ok = True\<rparr>"

definition demo_io :: "int \<Rightarrow> fifo_io" where
  "demo_io n = \<lparr>rq = Some \<lparr>req_pid = 77, req_seq_len = n\<rparr>, cl_open = True, cl_write = True,
     cl_close = True, bk_write = 4, bk_seek = True\<rparr>"

theorem fifo_server_ranges_and_backup_witness:
  "\<exists>st ev st'. fifo_server_main demo_start None [demo_io 15, demo_io 3] = Done (st, ev) \<and>
     responses ev = [(client_fifo 77, 0), (client_fifo 77, 15)] \<and>
     sorted_wrt before [(0, 15), (15, 3)] \<and>
     fifo_start demo_start (Some (backup st)) = Done st' \<and> seq_num st' = 18"
  using fifo_server_ranges_and_backup [of demo_start demo_start "[demo_io 15, demo_io 3]"]
  by (simp add: demo_start_def start_ok_def demo_io_def fifo_calm_def io_ok_def)

text \<open>a restarted server that serves one request and is then terminated loses it: the
  counter is written behind the value that was read (offset 4), and the next server hands
  out the same numbers again.\<close>

theorem fifo_first_update_after_restart_lost:
  assumes "start_ok e" "is_int32 v" "take 4 f = int_bytes v" "length f = 4"
    "fifo_calm [io]" "served [io] = [n]" "v + n \<le> INT_MAX"
  shows "\<exists>st ev st'. fifo_server_main e (Some f) [io] = Done (st, ev) \<and> seq_num st = v + n \<and>
     fifo_start e (Some (backup st)) = Done st' \<and> seq_num st' = v"
proof -
  let ?s0 = "\<lparr>seq_num = v, backup = f, backup_off = 4, server_fifo = True\<rparr>"
  obtain r where r: "rq io = Some r" "cl_open io" "n = req_seq_len r"
    using assms(6) by (auto split: option.splits if_splits)
  have fit: "fifo_fits ?s0 io" using assms r by (simp add: fifo_fits_def fifo_calm_def)
  have s: "fifo_step ?s0 io = Done (?s0\<lparr>seq_num := v + n,
      backup := file_write f 4 (int_bytes (v + n)), backup_off := 0\<rparr>, reply_events io (req_pid r) v)"
    using fifo_step_serves [OF fit r(1,2)] r(3) by simp
  have "take 4 (file_write f 4 (int_bytes (v + n))) = int_bytes v"
    using assms(3,4) by (simp add: file_write_def)
  then show ?thesis
    using s fifo_start_file [OF assms(1) assms(3,2)] fifo_start_file [OF assms(1) _ assms(2)]
    by (simp add: fifo_server_main_def)
qed

theorem fifo_first_update_after_restart_lost_witness:
  "\<exists>st ev st'. fifo_server_main demo_start (Some (int_bytes 18)) [demo_io 5] = Done (st, ev) \<and>
     seq_num st = 18 + 5 \<and> fifo_start demo_start (Some (backup st)) = Done st' \<and> seq_num st' = 18"
  by (rule fifo_first_update_after_restart_lost)
    (simp_all add: demo_start_def start_ok_def demo_io_def fifo_calm_def io_ok_def is_int32_def)

end
