(* ===== verification/Sysv_Msg.thy ===== *)
theory Sysv_Msg
  imports C_Lib Seq_Alloc
begin

text \<open>
  Section 46: two client-server programs over System V message queues. The first
  (\<^verbatim>\<open>sysvmsgserver.c\<close>, \<^verbatim>\<open>sysvmsgclient.c\<close>, \<^verbatim>\<open>sysmsg_sc.h\<close>) hands out sequence
  numbers; the second (\<^verbatim>\<open>svmsg_file_server.c\<close>, \<^verbatim>\<open>svmsg_file_client.c\<close>, \<^verbatim>\<open>svmsg_file.h\<close>)
  sends the contents of a file as messages. A server iteration is what \<^verbatim>\<open>msgrcv\<close> and \<^verbatim>\<open>fork\<close>
  answer; the child that \<^verbatim>\<open>fork\<close> creates does its sending while the parent goes on, so the
  messages of the children are collected beside the state of the parent.
\<close>

subsection \<open>The sequence-number server\<close>

record request_msg =
  rq_client_id :: int
  rq_seq_length :: int

record response_msg =
  rs_mtype :: int
  rs_seq_num :: int

abbreviation (input) RESP_MT_FAILURE :: int where "RESP_MT_FAILURE \<equiv> 1"
abbreviation (input) RESP_MT_DATA :: int where "RESP_MT_DATA \<equiv> 2"
abbreviation (input) RESP_MT_END :: int where "RESP_MT_END \<equiv> 3"

text \<open>\<^verbatim>\<open>server_request\<close>: the message a child puts on the client's queue, if \<^verbatim>\<open>msgsnd\<close> succeeds.\<close>

definition server_request :: "bool \<Rightarrow> int \<Rightarrow> int \<Rightarrow> int \<Rightarrow> (int \<times> response_msg) list" where
  "server_request snd_ok client_id mtype seq_num =
     (if snd_ok then [(client_id, \<lparr>rs_mtype = mtype, rs_seq_num = seq_num\<rparr>)] else [])"

text \<open>
  The new counter and the type of the answer. The sum is computed in \<^verbatim>\<open>int\<close>; the model
  follows the two's complement arithmetic of the machine when it overflows.
\<close>

definition next_seq :: "int \<Rightarrow> int \<Rightarrow> int \<times> int" where
  "next_seq seq_num len =
     (if to_int32 (seq_num + len) < INT_MAX then (to_int32 (seq_num + len), RESP_MT_DATA)
      else (0, RESP_MT_FAILURE))"

record sv_io =
  rcv :: "errno + request_msg"
  fork_ok :: bool
  reply_ok :: bool              \<comment> \<open>\<^verbatim>\<open>msgsnd\<close> in the child\<close>

text \<open>
  The service loop on the answers of the system calls: the counter, the messages sent, and
  whether the loop was left (\<^verbatim>\<open>break\<close>).
\<close>

fun sysv_loop :: "int \<Rightarrow> sv_io list \<Rightarrow> int \<times> (int \<times> response_msg) list \<times> bool" where
  "sysv_loop seq [] = (seq, [], False)"
| "sysv_loop seq (io # ios) =
     (case rcv io of
        Inl e \<Rightarrow> if e = EINTR then sysv_loop seq ios else (seq, [], True)
      | Inr req \<Rightarrow>
          let client_seq = seq;
              (seq', mtype) = next_seq seq (rq_seq_length req)
          in if \<not> fork_ok io then (seq', [], True)
             else
               let (seq'', ms, left) = sysv_loop seq' ios
               in (seq'', server_request (reply_ok io) (rq_client_id req) mtype client_seq @ ms, left))"

text \<open>\<^verbatim>\<open>grim_reaper\<close> collects every terminated child and preserves \<^verbatim>\<open>errno\<close>.\<close>

fun reap_loop :: "nat list \<Rightarrow> errno \<Rightarrow> nat list \<times> errno" where
  "reap_loop [] err = ([], ECHILD)"                 \<comment> \<open>\<^verbatim>\<open>waitpid\<close> does not return a child\<close>
| "reap_loop (z # zs) err = reap_loop zs err"

definition grim_reaper :: "nat list \<Rightarrow> errno \<Rightarrow> nat list \<times> errno" where
  "grim_reaper zombies err = (let save_errno = err; (zs, e) = reap_loop zombies err in (zs, save_errno))"

lemma grim_reaper_reaps: "grim_reaper zombies err = ([], err)"
proof -
  have "fst (reap_loop zs e) = []" for zs e by (induction zs) simp_all
  then show ?thesis by (simp add: grim_reaper_def split_beta)
qed

record sysv_start =
  msgget_ok :: bool
  sigaction_ok :: bool
  rmid_ok :: bool

text \<open>\<^verbatim>\<open>main\<close>: the exit status once the loop is left, and the messages sent until then. While
  the loop is not left the server is waiting for the next request.\<close>

definition sysv_server_main ::
  "sysv_start \<Rightarrow> sv_io list \<Rightarrow> (int \<times> (int \<times> response_msg) list) run" where
  "sysv_server_main e ios =
     (if \<not> msgget_ok e then Exited EXIT_FAILURE
      else if \<not> sigaction_ok e then Exited EXIT_FAILURE
      else case sysv_loop 0 ios of (seq, ms, left) \<Rightarrow>
        if left then Exited EXIT_FAILURE else Done (seq, ms))"

text \<open>The client. The calls that can wait end with a value, with an error, or are cut short by the alarm after ten seconds. The handler is
  \<^verbatim>\<open>sig_alarm\<close>, the one the file defines.\<close>

datatype 'a waited = Returns 'a | Fails | Alarmed

record sysv_cl_io =
  srv_queue_ok :: bool
  own_queue_ok :: bool
  cl_sigaction_ok :: bool
  cl_atexit_ok :: bool
  cl_send :: "unit waited"
  cl_answer :: "response_msg waited"
  cl_rmid_ok :: bool
  own_queue_id :: int

definition sysv_client_request :: "sysv_cl_io \<Rightarrow> request_msg" where
  "sysv_client_request e = \<lparr>rq_client_id = own_queue_id e, rq_seq_length = 1\<rparr>"

text \<open>\<^verbatim>\<open>remove_queue\<close> on the set of message queues, with the status when it exits.\<close>

definition remove_queue :: "sysv_cl_io \<Rightarrow> int set \<Rightarrow> int option \<times> int set" where
  "remove_queue e qs = (if cl_rmid_ok e then (None, qs - {own_queue_id e}) else (Some EXIT_FAILURE, qs))"

definition sig_alarm :: "sysv_cl_io \<Rightarrow> int set \<Rightarrow> int \<times> int set" where
  "sig_alarm e qs = (EXIT_FAILURE, snd (remove_queue e qs))"

text \<open>\<^verbatim>\<open>exit\<close> after \<^verbatim>\<open>remove_queue\<close> was registered.\<close>

definition cl_exit :: "sysv_cl_io \<Rightarrow> int \<Rightarrow> int set \<Rightarrow> int \<times> int set" where
  "cl_exit e st qs = (case remove_queue e qs of (None, q) \<Rightarrow> (st, q) | (Some x, q) \<Rightarrow> (x, q))"

text \<open>The results: exit status, what is printed, and the message queues of the system.\<close>

definition sysv_client_main :: "sysv_cl_io \<Rightarrow> int set \<Rightarrow> (int \<times> int set) \<times> string" where
  "sysv_client_main e qs =
     (if \<not> srv_queue_ok e then ((EXIT_FAILURE, qs), [])
      else if \<not> own_queue_ok e then ((EXIT_FAILURE, qs), [])
      else
        let qs1 = insert (own_queue_id e) qs in
        if \<not> cl_sigaction_ok e then ((EXIT_FAILURE, qs1), [])
        else if \<not> cl_atexit_ok e then ((EXIT_FAILURE, qs1), [])
        else case cl_send e of
          Fails \<Rightarrow> (cl_exit e EXIT_FAILURE qs1, [])
        | Alarmed \<Rightarrow> (sig_alarm e qs1, [])
        | Returns _ \<Rightarrow>
            (case cl_answer e of
               Fails \<Rightarrow> (cl_exit e EXIT_FAILURE qs1, [])
             | Alarmed \<Rightarrow> (sig_alarm e qs1, [])
             | Returns r \<Rightarrow>
                 if rs_mtype r = RESP_MT_FAILURE then (cl_exit e EXIT_FAILURE qs1, [])
                 else (cl_exit e EXIT_SUCCESS qs1, dec_int (rs_seq_num r) @ [newline])))"

text \<open>The queue of the client is gone on every path after \<^verbatim>\<open>atexit\<close>, the alarm included; it is left in the system when \<^verbatim>\<open>sigaction\<close> or
  \<^verbatim>\<open>atexit\<close> fails.\<close>

lemma sysv_client_queue:
  assumes "own_queue_id e \<notin> qs" "cl_rmid_ok e"
  shows "snd (fst (sysv_client_main e qs)) =
    (if srv_queue_ok e \<and> own_queue_ok e \<and> (\<not> cl_sigaction_ok e \<or> \<not> cl_atexit_ok e) then insert (own_queue_id e) qs else qs)"
  using assms
  by (auto simp: sysv_client_main_def cl_exit_def sig_alarm_def remove_queue_def Let_def split: waited.splits)

subsection \<open>The number server as an allocator\<close>

definition sysv_serve :: "int \<Rightarrow> request_msg \<Rightarrow> int \<times> grant option" where
  "sysv_serve seq req =
     (let (seq', mtype) = next_seq seq (rq_seq_length req)
      in (seq', if mtype = RESP_MT_DATA then Some (seq, rq_seq_length req) else None))"

definition sysv_fits :: "int \<Rightarrow> request_msg \<Rightarrow> bool" where
  "sysv_fits seq req \<longleftrightarrow> 0 \<le> seq \<and> 0 \<le> rq_seq_length req \<and> seq + rq_seq_length req < INT_MAX"

lemma next_seq_fits:
  "sysv_fits seq req \<Longrightarrow> next_seq seq (rq_seq_length req) = (seq + rq_seq_length req, RESP_MT_DATA)"
  by (simp add: next_seq_def sysv_fits_def to_int32_id is_int32_def)

interpretation sysv: seq_allocator "\<lambda>seq. seq" sysv_serve sysv_fits
  by unfold_locales (auto simp: sysv_serve_def next_seq_fits sysv_fits_def)

definition all_sent :: "sv_io list \<Rightarrow> bool" where
  "all_sent ios \<longleftrightarrow> (\<forall>io \<in> set ios. fork_ok io \<and> reply_ok io \<and> (\<forall>e. rcv io = Inl e \<longrightarrow> e = EINTR))"

fun sysv_requests :: "sv_io list \<Rightarrow> request_msg list" where
  "sysv_requests [] = []"
| "sysv_requests (io # ios) =
     (case rcv io of Inl e \<Rightarrow> sysv_requests ios | Inr req \<Rightarrow> req # sysv_requests ios)"

lemma sysv_loop_run:
  assumes "all_sent ios" "0 \<le> seq" "\<forall>r \<in> set (sysv_requests ios). 0 \<le> rq_seq_length r"
    "seq + sum_list (map rq_seq_length (sysv_requests ios)) < INT_MAX"
  shows "sysv.all_fit seq (sysv_requests ios) \<and>
    (\<exists>seq'. sysv_loop seq ios =
        (seq', map2 (\<lambda>r g. (rq_client_id r, \<lparr>rs_mtype = RESP_MT_DATA, rs_seq_num = fst g\<rparr>))
                 (sysv_requests ios) (ranges_from seq (map rq_seq_length (sysv_requests ios))), False) \<and>
      sysv.run_all seq (sysv_requests ios) =
        (seq', ranges_from seq (map rq_seq_length (sysv_requests ios))))"
  using assms
proof (induction ios arbitrary: seq)
  case (Cons io ios)
  have sent: "all_sent ios" "fork_ok io" "reply_ok io" using Cons.prems(1) by (simp_all add: all_sent_def)
  show ?case
  proof (cases "rcv io")
    case (Inl e)
    then have "e = EINTR" using Cons.prems(1) by (simp add: all_sent_def)
    then show ?thesis using Cons.IH [OF sent(1) Cons.prems(2)] Cons.prems(3,4) Inl by simp
  next
    case (Inr req)
    let ?n = "rq_seq_length req"
    have n: "0 \<le> ?n" "\<forall>r \<in> set (sysv_requests ios). 0 \<le> rq_seq_length r"
      "seq + ?n + sum_list (map rq_seq_length (sysv_requests ios)) < INT_MAX"
      using Cons.prems(3,4) Inr by auto
    have "0 \<le> sum_list (map rq_seq_length (sysv_requests ios))"
      by (rule sum_list_nonneg) (use n(2) in auto)
    then have fit: "sysv_fits seq req" using n Cons.prems(2) by (simp add: sysv_fits_def)
    have "sysv_serve seq req = (seq + ?n, Some (seq, ?n))"
      by (simp add: sysv_serve_def next_seq_fits [OF fit])
    moreover have "0 \<le> seq + ?n" using n(1) Cons.prems(2) by simp
    ultimately show ?thesis using Cons.IH [OF sent(1) _ n(2,3)] Inr sent next_seq_fits [OF fit] fit
      by (auto simp: server_request_def)
  qed
qed simp

text \<open>C9: as long as the sum of the requests stays below \<^verbatim>\<open>INT_MAX\<close>, the message-queue server
  answers each client with the start of its own range; the ranges are disjoint and ascending,
  and interruptions by \<^verbatim>\<open>SIGCHLD\<close> change nothing.\<close>

theorem sysv_server_ranges:
  assumes "msgget_ok e" "sigaction_ok e" "all_sent ios"
    "\<forall>r \<in> set (sysv_requests ios). 0 \<le> rq_seq_length r"
    "sum_list (map rq_seq_length (sysv_requests ios)) < INT_MAX"
  shows "\<exists>seq ms gs. sysv_server_main e ios = Done (seq, ms) \<and>
     ms = map2 (\<lambda>r g. (rq_client_id r, \<lparr>rs_mtype = RESP_MT_DATA, rs_seq_num = fst g\<rparr>)) (sysv_requests ios) gs \<and>
     map snd gs = map rq_seq_length (sysv_requests ios) \<and>
     sorted_wrt before gs \<and> (\<Union>g \<in> set gs. range_of g) = {0 ..< seq}"
proof -
  let ?ns = "map rq_seq_length (sysv_requests ios)"
  obtain seq where r: "sysv.all_fit 0 (sysv_requests ios)"
    "sysv_loop 0 ios =
       (seq, map2 (\<lambda>r g. (rq_client_id r, \<lparr>rs_mtype = RESP_MT_DATA, rs_seq_num = fst g\<rparr>))
                 (sysv_requests ios) (ranges_from 0 ?ns), False)"
    "sysv.run_all 0 (sysv_requests ios) = (seq, ranges_from 0 ?ns)"
    using sysv_loop_run [OF assms(3) _ assms(4), of 0] assms(5) by auto
  have "map snd (ranges_from v ks) = ks" for v ks by (induction ks arbitrary: v) auto
  then show ?thesis
    using r(2) sysv.run_all_disjoint [OF r(1,3)] assms(1,2) by (auto simp: sysv_server_main_def)
qed

theorem sysv_server_ranges_witness:
  "\<exists>seq ms gs. sysv_server_main \<lparr>msgget_ok = True, sigaction_ok = True, rmid_ok = True\<rparr>
       [\<lparr>rcv = Inr \<lparr>rq_client_id = 7, rq_seq_length = 10\<rparr>, fork_ok = True, reply_ok = True\<rparr>,
        \<lparr>rcv = Inl EINTR, fork_ok = True, reply_ok = True\<rparr>,
        \<lparr>rcv = Inr \<lparr>rq_client_id = 8, rq_seq_length = 1\<rparr>, fork_ok = True, reply_ok = True\<rparr>] = Done (seq, ms) \<and>
     ms = map2 (\<lambda>r g. (rq_client_id r, \<lparr>rs_mtype = RESP_MT_DATA, rs_seq_num = fst g\<rparr>))
       [\<lparr>rq_client_id = 7, rq_seq_length = 10\<rparr>, \<lparr>rq_client_id = 8, rq_seq_length = 1\<rparr>] gs \<and>
     map snd gs = [10, 1] \<and> sorted_wrt before gs \<and> (\<Union>g \<in> set gs. range_of g) = {0 ..< seq}"
  using sysv_server_ranges [of "\<lparr>msgget_ok = True, sigaction_ok = True, rmid_ok = True\<rparr>"
      "[\<lparr>rcv = Inr \<lparr>rq_client_id = 7, rq_seq_length = 10\<rparr>, fork_ok = True, reply_ok = True\<rparr>,
        \<lparr>rcv = Inl EINTR, fork_ok = True, reply_ok = True\<rparr>,
        \<lparr>rcv = Inr \<lparr>rq_client_id = 8, rq_seq_length = 1\<rparr>, fork_ok = True, reply_ok = True\<rparr>]"]
  by (simp add: all_sent_def)

text \<open>the guard against overflow of the message-queue server does not work: a request
  that takes the counter beyond \<^verbatim>\<open>INT_MAX\<close> is answered as granted and leaves a negative
  counter, while the one request that is refused (the sum is exactly \<^verbatim>\<open>INT_MAX\<close>) restarts
  the numbering at 0, so that numbers already handed out are handed out again.\<close>

theorem sysv_overflow_guard:
  assumes "0 \<le> seq" "seq \<le> INT_MAX" "0 \<le> len" "len \<le> INT_MAX"
  shows "(INT_MAX < seq + len \<longrightarrow> snd (next_seq seq len) = RESP_MT_DATA \<and> fst (next_seq seq len) < 0) \<and>
    (seq + len = INT_MAX \<longrightarrow> next_seq seq len = (0, RESP_MT_FAILURE))"
proof (intro conjI impI)
  assume big: "INT_MAX < seq + len"
  then have "(seq + len + 2147483648) mod 4294967296 = (seq + len + 2147483648 - 4294967296) mod 4294967296"
    by (intro mod_pos_geq) simp_all
  also have "\<dots> = seq + len + 2147483648 - 4294967296"
    by (rule mod_pos_pos_trivial) (use assms big in linarith)+
  finally have "to_int32 (seq + len) = seq + len - 4294967296" by (simp add: to_int32_def)
  then show "snd (next_seq seq len) = RESP_MT_DATA" "fst (next_seq seq len) < 0"
    using assms by (simp_all add: next_seq_def)
next
  assume "seq + len = INT_MAX"
  then show "next_seq seq len = (0, RESP_MT_FAILURE)" by (simp add: next_seq_def to_int32_def)
qed

theorem sysv_overflow_guard_witness:
  "snd (next_seq 2147483000 1000) = RESP_MT_DATA \<and> fst (next_seq 2147483000 1000) < 0 \<and>
   next_seq 2147483000 647 = (0, RESP_MT_FAILURE)"
  using sysv_overflow_guard [of 2147483000 1000] sysv_overflow_guard [of 2147483000 647] by simp

subsection \<open>The file server\<close>

abbreviation (input) RESP_MSG_SIZE :: nat where "RESP_MSG_SIZE \<equiv> 8192"

record data_msg =
  dm_mtype :: int
  dm_data :: string

text \<open>
  The loop that sends the file. \<open>snd_ok i\<close> tells whether the \<open>i\<close>-th \<^verbatim>\<open>msgsnd\<close> succeeds; the
  result has the messages on the client's queue, the number of calls of \<^verbatim>\<open>msgsnd\<close>, and
  whether the alarm is still set when the loop is left.
\<close>

function send_loop :: "(nat \<Rightarrow> bool) \<Rightarrow> nat \<Rightarrow> rd_ans list \<Rightarrow> data_msg list \<times> nat \<times> bool" where
  "send_loop snd_ok i s =
     (case sys_read RESP_MSG_SIZE s of
        (Inl e, s') \<Rightarrow> ([], i, False)
      | (Inr b, s') \<Rightarrow>
          if b = [] then ([], i, False)
          else if \<not> snd_ok i then ([], Suc i, True)
          else let (ms, j, al) = send_loop snd_ok (Suc i) s'
               in (\<lparr>dm_mtype = RESP_MT_DATA, dm_data = b\<rparr> # ms, j, al))"
  by pat_completeness auto
termination
proof (relation "measure (\<lambda>(f, i, s). rd_weight s)", goal_cases)
  case (2 f i s a s' b)
  then have "length b + rd_weight s' \<le> rd_weight s" "0 < length b"
    using sys_read_weight [of RESP_MSG_SIZE s b s'] by auto
  then show ?case by (simp del: length_greater_0_conv)
qed simp

declare send_loop.simps [simp del]

text \<open>\<^verbatim>\<open>serverRequest\<close>: the messages sent and the exit status of the child (\<open>None\<close>: it returns).\<close>

definition serverRequest :: "(nat \<Rightarrow> bool) \<Rightarrow> rd_ans list option \<Rightarrow> data_msg list \<times> int option" where
  "serverRequest snd_ok file =
     (case file of
        None \<Rightarrow>
          ((if snd_ok 0 then [\<lparr>dm_mtype = RESP_MT_FAILURE, dm_data = ''Couldn't open'' @ [NUL]\<rparr>] else []),
           Some EXIT_FAILURE)
      | Some s \<Rightarrow>
          let (ms, j, al) = send_loop snd_ok 0 s
          in (ms @ (if snd_ok j then [\<lparr>dm_mtype = RESP_MT_END, dm_data = []\<rparr>] else []), None))"

text \<open>What the server leaves in the system: its queue and the file with its identifier.\<close>

record file_sv =
  fs_queue :: bool
  fs_id_file :: "int option"

definition rm_id_file :: "file_sv \<Rightarrow> file_sv" where
  "rm_id_file st = st\<lparr>fs_id_file := None\<rparr>"

definition sig_int_term :: "file_sv \<Rightarrow> file_sv" where
  "sig_int_term st = rm_id_file (st\<lparr>fs_queue := False\<rparr>)"

definition sig_alarm_handler :: "file_sv \<Rightarrow> file_sv" where
  "sig_alarm_handler st = rm_id_file st"

record file_io =
  frcv :: "errno + string"          \<comment> \<open>the path asked for\<close>
  ffork_ok :: bool
  ffile :: "rd_ans list option"     \<comment> \<open>the file under that path\<close>
  fsnd :: "nat \<Rightarrow> bool"

fun file_loop :: "file_io list \<Rightarrow> data_msg list list \<times> bool" where
  "file_loop [] = ([], False)"
| "file_loop (io # ios) =
     (case frcv io of
        Inl e \<Rightarrow> if e = EINTR then file_loop ios else ([], True)
      | Inr path \<Rightarrow>
          if \<not> ffork_ok io then ([], True)
          else let (mss, left) = file_loop ios in (fst (serverRequest (fsnd io) (ffile io)) # mss, left))"

record file_start =
  fmsgget :: "int option"
  fopen_ok :: bool                  \<comment> \<open>\<^verbatim>\<open>O_EXCL\<close>: no identifier file exists yet\<close>
  fatexit_ok :: bool
  fwrite_ok :: bool
  fsigaction_ok :: bool
  frmid_ok :: bool

text \<open>
  \<^verbatim>\<open>main\<close>, after it became a daemon: the exit status (\<open>None\<close> while it serves), what is left
  in the system, and the messages of each request. Once \<^verbatim>\<open>rm_id_file\<close> is registered, every
  \<^verbatim>\<open>exit\<close> runs it.
\<close>

definition file_server_main ::
  "file_start \<Rightarrow> file_sv \<Rightarrow> file_io list \<Rightarrow> int option \<times> file_sv \<times> data_msg list list" where
  "file_server_main e st ios =
     (case fmsgget e of
        None \<Rightarrow> (Some EXIT_FAILURE, st, [])
      | Some qid \<Rightarrow>
          let st1 = st\<lparr>fs_queue := True\<rparr> in
          if \<not> fopen_ok e then (Some EXIT_FAILURE, st1, [])
          else
            let st2 = st1\<lparr>fs_id_file := Some 0\<rparr> in
            if \<not> fatexit_ok e then (Some EXIT_FAILURE, st2, [])
            else if \<not> fwrite_ok e then (Some EXIT_FAILURE, rm_id_file st2, [])
            else
              let st3 = st2\<lparr>fs_id_file := Some qid\<rparr> in
              if \<not> fsigaction_ok e then (Some EXIT_FAILURE, rm_id_file st3, [])
              else case file_loop ios of (mss, left) \<Rightarrow>
                if \<not> left then (None, st3, mss)
                else if \<not> frmid_ok e then (Some EXIT_FAILURE, rm_id_file st3, mss)
                else (Some EXIT_SUCCESS, rm_id_file (st3\<lparr>fs_queue := False\<rparr>), mss))"

subsection \<open>The file client\<close>

record file_cl_io =
  id_open_ok :: bool
  id_read :: int                    \<comment> \<open>bytes read from the identifier file\<close>
  own_msgget_ok :: bool
  own_atexit_ok :: bool
  req_send_ok :: bool
  first_rcv_ok :: bool

text \<open>
  The client receives the first answer into \<^verbatim>\<open>req\<close> and then looks at \<^verbatim>\<open>resp.mtype\<close>, which no
  call has set: the comparison reads an indeterminate object.
\<close>

definition file_client_main :: "string list \<Rightarrow> file_cl_io \<Rightarrow> string run" where
  "file_client_main argv e =
     (if length argv \<noteq> 2 \<or> argv ! 1 = ''--help'' then Exited EXIT_FAILURE
      else if 4095 < length (argv ! 1) then Exited EXIT_FAILURE
      else if \<not> id_open_ok e then Exited EXIT_FAILURE
      else if id_read e \<noteq> 4 then Exited EXIT_FAILURE
      else if \<not> own_msgget_ok e then Exited EXIT_FAILURE
      else if \<not> own_atexit_ok e then Exited EXIT_FAILURE
      else if \<not> req_send_ok e then Exited EXIT_FAILURE
      else if \<not> first_rcv_ok e then Exited EXIT_FAILURE
      else Faulted Uninitialised)"

subsection \<open>What the file server sends\<close>

lemma send_loop_clean:
  assumes "rd_clean s" "\<And>i. snd_ok i"
  shows "\<exists>ms j. send_loop snd_ok i s = (ms, j, False) \<and> concat (map dm_data ms) = feed s \<and>
    (\<forall>m \<in> set ms. dm_mtype m = RESP_MT_DATA \<and> dm_data m \<noteq> [] \<and> length (dm_data m) \<le> RESP_MSG_SIZE)"
  using assms(1)
proof (induction s arbitrary: i rule: measure_induct_rule [of rd_weight])
  case (less s)
  obtain a s' where rd: "sys_read RESP_MSG_SIZE s = (a, s')" by fastforce
  obtain b where b: "a = Inr b" "feed s = b @ feed s'" "b = [] \<longleftrightarrow> s = []" "rd_clean s'"
    "length b \<le> RESP_MSG_SIZE" by (rule sys_read_clean [OF less.prems _ rd]) auto
  show ?case
  proof (cases "b = []")
    case True
    then show ?thesis using rd b feed_Nil_iff [OF b(4)] by (subst send_loop.simps) simp
  next
    case False
    have "length b + rd_weight s' \<le> rd_weight s" "0 < length b"
      using sys_read_weight [of RESP_MSG_SIZE s b s'] rd b False by auto
    then have "rd_weight s' < rd_weight s" by linarith
    then obtain ms j where "send_loop snd_ok (Suc i) s' = (ms, j, False)" "concat (map dm_data ms) = feed s'"
      "\<forall>m \<in> set ms. dm_mtype m = RESP_MT_DATA \<and> dm_data m \<noteq> [] \<and> length (dm_data m) \<le> RESP_MSG_SIZE"
      using less.IH [of s' "Suc i"] b(4) by blast
    then show ?thesis using rd b False assms(2) by (subst send_loop.simps) simp
  qed
qed

text \<open>C10: the file server sends a readable file as data messages of at most 8192 bytes whose
  concatenation is the file, in order, followed by exactly one end message.\<close>

theorem file_server_sends_file:
  assumes "rd_clean s" "\<forall>i. snd_ok i"
  shows "\<exists>ms. serverRequest snd_ok (Some s) = (ms @ [\<lparr>dm_mtype = RESP_MT_END, dm_data = []\<rparr>], None) \<and>
    concat (map dm_data ms) = feed s \<and>
    (\<forall>m \<in> set ms. dm_mtype m = RESP_MT_DATA \<and> dm_data m \<noteq> [] \<and> length (dm_data m) \<le> RESP_MSG_SIZE)"
proof -
  obtain ms j where "send_loop snd_ok 0 s = (ms, j, False)" "concat (map dm_data ms) = feed s"
    "\<forall>m \<in> set ms. dm_mtype m = RESP_MT_DATA \<and> dm_data m \<noteq> [] \<and> length (dm_data m) \<le> RESP_MSG_SIZE"
    using send_loop_clean [OF assms(1)] assms(2) by blast
  then show ?thesis using assms(2) by (simp add: serverRequest_def)
qed

theorem file_server_sends_file_witness:
  "\<exists>ms. serverRequest (\<lambda>i. True) (Some [RdBytes ''hello '', RdBytes ''world'']) =
      (ms @ [\<lparr>dm_mtype = RESP_MT_END, dm_data = []\<rparr>], None) \<and>
    concat (map dm_data ms) = ''hello world'' \<and>
    (\<forall>m \<in> set ms. dm_mtype m = RESP_MT_DATA \<and> dm_data m \<noteq> [] \<and> length (dm_data m) \<le> RESP_MSG_SIZE)"
  using file_server_sends_file [of "[RdBytes ''hello '', RdBytes ''world'']" "\<lambda>i. True"]
  by (simp add: rd_clean_def)

subsection \<open>The file client after its first answer\<close>

text \<open>What the client does with the value \<open>v\<close> that it finds in the indeterminate \<^verbatim>\<open>resp.mtype\<close>. The first message is received with the
  size of a request, 4100 bytes, and \<^verbatim>\<open>msgrcv\<close> refuses a longer one. \<open>Faulted Deadlock\<close>: the client waits for a message that does
  not come.\<close>

abbreviation (input) REQ_MSG_SIZE :: nat where "REQ_MSG_SIZE \<equiv> 4100"

fun client_recv :: "int \<Rightarrow> data_msg list \<Rightarrow> nat \<Rightarrow> nat \<Rightarrow> (nat \<times> nat) run" where
  "client_recv mtype q totBytes numMsgs =
     (if mtype \<noteq> RESP_MT_DATA then Done (totBytes, numMsgs)
      else case q of
        [] \<Rightarrow> Faulted Deadlock
      | d # r \<Rightarrow>
          if RESP_MSG_SIZE < length (dm_data d) then Exited EXIT_FAILURE
          else client_recv (dm_mtype d) r (totBytes + length (dm_data d)) (numMsgs + 1))"

declare client_recv.simps [simp del]

definition file_client_answer :: "int \<Rightarrow> data_msg list \<Rightarrow> string run" where
  "file_client_answer v q =
     (case q of
        [] \<Rightarrow> Faulted Deadlock
      | d # r \<Rightarrow>
          if REQ_MSG_SIZE < length (dm_data d) then Exited EXIT_FAILURE
          else if v = RESP_MT_FAILURE then Faulted Uninitialised
          else run_bind (client_recv v r (length (dm_data d)) 1) (\<lambda>(totBytes, numMsgs).
            Done (''Recieved '' @ dec_nat totBytes @ '' bytes ('' @ dec_nat numMsgs @ '' messages)'' @ [newline])))"

lemma client_recv_data:
  assumes "\<forall>m \<in> set ms. dm_mtype m = RESP_MT_DATA \<and> length (dm_data m) \<le> RESP_MSG_SIZE"
  shows "client_recv RESP_MT_DATA (ms @ [\<lparr>dm_mtype = RESP_MT_END, dm_data = []\<rparr>]) t n =
    Done (t + length (concat (map dm_data ms)), n + length ms + 1)"
  using assms
proof (induction ms arbitrary: t n)
  case Nil
  show ?case by (simp add: client_recv.simps [of RESP_MT_DATA] client_recv.simps [of RESP_MT_END])
next
  case (Cons d ms)
  then show ?case by (simp add: client_recv.simps [of RESP_MT_DATA "d # ms @ r" for r] add.assoc)
qed

text \<open>Server and client composed, for a file that is not empty, when the indeterminate value happens to be that of a data message: the client
  reports the size of the file and the number of messages if the first message has at most 4100 bytes, and fails otherwise. For an empty file
  the client takes the end message for the first and waits for ever.\<close>

theorem file_transfer_by_chance:
  assumes "rd_clean s" "\<forall>i. snd_ok i"
  shows "\<exists>ms. serverRequest snd_ok (Some s) = (ms @ [\<lparr>dm_mtype = RESP_MT_END, dm_data = []\<rparr>], None) \<and> concat (map dm_data ms) = feed s \<and>
    file_client_answer RESP_MT_DATA (ms @ [\<lparr>dm_mtype = RESP_MT_END, dm_data = []\<rparr>]) =
      (if feed s = [] then Faulted Deadlock
       else if REQ_MSG_SIZE < length (dm_data (hd ms)) then Exited EXIT_FAILURE
       else Done (''Recieved '' @ dec_nat (length (feed s)) @ '' bytes ('' @ dec_nat (length ms + 1) @ '' messages)'' @ [newline]))"
proof -
  obtain ms j where ms: "send_loop snd_ok 0 s = (ms, j, False)" "concat (map dm_data ms) = feed s"
    "\<forall>m \<in> set ms. dm_mtype m = RESP_MT_DATA \<and> dm_data m \<noteq> [] \<and> length (dm_data m) \<le> RESP_MSG_SIZE"
    using send_loop_clean [OF assms(1)] assms(2) by blast
  have sv: "serverRequest snd_ok (Some s) = (ms @ [\<lparr>dm_mtype = RESP_MT_END, dm_data = []\<rparr>], None)"
    using ms(1) assms(2) by (simp add: serverRequest_def)
  have "file_client_answer RESP_MT_DATA (ms @ [\<lparr>dm_mtype = RESP_MT_END, dm_data = []\<rparr>]) =
      (if feed s = [] then Faulted Deadlock
       else if REQ_MSG_SIZE < length (dm_data (hd ms)) then Exited EXIT_FAILURE
       else Done (''Recieved '' @ dec_nat (length (feed s)) @ '' bytes ('' @ dec_nat (length ms + 1) @ '' messages)'' @ [newline]))"
  proof (cases ms)
    case Nil
    then show ?thesis using ms(2) by (auto simp: file_client_answer_def client_recv.simps [of RESP_MT_DATA])
  next
    case (Cons d r)
    then have "feed s = dm_data d @ concat (map dm_data r)" "dm_data d \<noteq> []" using ms(2,3) by auto
    then show ?thesis
      using Cons ms(3) client_recv_data [of r "length (dm_data d)" 1] by (auto simp: file_client_answer_def)
  qed
  with sv ms(2) show ?thesis by blast
qed

end
