(* ===== verification/Binary_Tree.thy ===== *)
theory Binary_Tree
  imports Prelude
begin

text \<open>
  Section 30, \<^verbatim>\<open>binary_tree.c\<close>: an unbalanced binary search tree with a mutex in every node.
  Nodes live in a heap from addresses to records and every pointer may be null. The model is
  one thread's run: a lock that is already held is never released by anyone else, so a second
  \<^verbatim>\<open>pthread_mutex_lock\<close> on it blocks for ever. The lemmas relate the nodes of the heap to
  an abstract tree of keys; the theorems give the meaning of \<^verbatim>\<open>lookup\<close> on every search tree,
  and what \<^verbatim>\<open>add\<close> and \<^verbatim>\<open>delete\<close> do below the root.
\<close>

subsection \<open>Nodes, heap and actions\<close>

record bt_node =
  n_key :: int
  n_value :: int
  n_parent :: "nat option"
  n_l :: "nat option"
  n_r :: "nat option"
  n_lock :: bool                \<comment> \<open>the mutex is held\<close>

type_synonym bt_heap = "nat \<rightharpoonup> bt_node"

text \<open>Return values of the mutex calls and the address \<^verbatim>\<open>malloc\<close> returns.\<close>

record bt_env =
  lock_err :: "nat \<Rightarrow> int"
  unlock_err :: "nat \<Rightarrow> int"
  init_err :: int
  destroy_ret :: "bool \<Rightarrow> int"   \<comment> \<open>\<^verbatim>\<open>pthread_mutex_destroy\<close> on a free or a held mutex\<close>
  new_node :: "nat option"

type_synonym 'a act = "bt_heap \<Rightarrow> ('a \<times> bt_heap) run"

definition ret :: "'a \<Rightarrow> 'a act" where
  "ret x = (\<lambda>h. Done (x, h))"

definition seq :: "'a act \<Rightarrow> ('a \<Rightarrow> 'b act) \<Rightarrow> 'b act" where
  "seq m f = (\<lambda>h. run_bind (m h) (\<lambda>(x, h'). f x h'))"

definition load :: "nat option \<Rightarrow> bt_node act" where
  "load p = (\<lambda>h. case p of None \<Rightarrow> Faulted NullDeref
     | Some a \<Rightarrow> (case h a of None \<Rightarrow> Faulted NullDeref | Some n \<Rightarrow> Done (n, h)))"

definition store :: "nat option \<Rightarrow> (bt_node \<Rightarrow> bt_node) \<Rightarrow> unit act" where
  "store p f = (\<lambda>h. case p of None \<Rightarrow> Faulted NullDeref
     | Some a \<Rightarrow> (case h a of None \<Rightarrow> Faulted NullDeref | Some n \<Rightarrow> Done ((), h(a \<mapsto> f n))))"

definition mlock :: "bt_env \<Rightarrow> nat option \<Rightarrow> int act" where
  "mlock e p = (\<lambda>h. case p of None \<Rightarrow> Faulted NullDeref
     | Some a \<Rightarrow> (case h a of None \<Rightarrow> Faulted NullDeref
         | Some n \<Rightarrow> if lock_err e a \<noteq> 0 then Done (lock_err e a, h)
                    else if n_lock n then Faulted Deadlock
                    else Done (0, h(a \<mapsto> n\<lparr>n_lock := True\<rparr>))))"

definition munlock :: "bt_env \<Rightarrow> nat option \<Rightarrow> int act" where
  "munlock e p = (\<lambda>h. case p of None \<Rightarrow> Faulted NullDeref
     | Some a \<Rightarrow> (case h a of None \<Rightarrow> Faulted NullDeref
         | Some n \<Rightarrow> if unlock_err e a \<noteq> 0 then Done (unlock_err e a, h)
                    else Done (0, h(a \<mapsto> n\<lparr>n_lock := False\<rparr>))))"

text \<open>Unlock and ignore the result, as the error paths do.\<close>

definition unlock_all :: "bt_env \<Rightarrow> nat option list \<Rightarrow> unit act" where
  "unlock_all e ps = foldr (\<lambda>p k. seq (munlock e p) (\<lambda>_. k)) ps (ret ())"

subsection \<open>\<^verbatim>\<open>initialize\<close> and \<^verbatim>\<open>add\<close>\<close>

definition initialize :: "bt_env \<Rightarrow> nat option \<Rightarrow> int act" where
  "initialize e tree =
     seq (store tree (\<lambda>n. n\<lparr>n_parent := None, n_l := None, n_r := None, n_key := 100, n_value := 0\<rparr>)) (\<lambda>_.
     if init_err e \<noteq> 0 then ret (init_err e)
     else seq (store tree (\<lambda>n. n\<lparr>n_lock := False\<rparr>)) (\<lambda>_. ret 0))"

text \<open>
  A new leaf below \<open>tree\<close>; \<open>link\<close> stores its address in the child field. \<^verbatim>\<open>Some r\<close> is a
  return from the function, \<open>None\<close> continues after the \<^verbatim>\<open>if\<close>.
\<close>

definition new_leaf ::
  "bt_env \<Rightarrow> nat option \<Rightarrow> int \<Rightarrow> int \<Rightarrow> (nat option \<Rightarrow> bt_node \<Rightarrow> bt_node) \<Rightarrow> int option act" where
  "new_leaf e tree key v link =
     (case new_node e of
        None \<Rightarrow> (\<lambda>h. Faulted NullDeref)
      | Some a \<Rightarrow>
          if init_err e \<noteq> 0 then seq (munlock e tree) (\<lambda>_. ret (Some (init_err e)))
          else
            seq (\<lambda>h. Done ((), h(a \<mapsto> \<lparr>n_key = key, n_value = v, n_parent = tree,
                   n_l = None, n_r = None, n_lock = False\<rparr>))) (\<lambda>_.
            seq (store tree (link (Some a))) (\<lambda>_. ret None)))"

text \<open>The recursion follows child pointers; \<open>fuel\<close> bounds its depth.\<close>

primrec add :: "nat \<Rightarrow> bt_env \<Rightarrow> nat option \<Rightarrow> int \<Rightarrow> int \<Rightarrow> int act" where
  "add 0 e tree key v = (\<lambda>h. Faulted Endless)"
| "add (Suc fuel) e tree key v =
     seq (load tree) (\<lambda>t0.
     seq (if n_parent t0 = None then mlock e tree else ret 0) (\<lambda>r.
     if r \<noteq> 0 then ret r else
     seq (if n_parent t0 \<noteq> None then mlock e (n_parent t0) else ret 0) (\<lambda>r.
     if r \<noteq> 0 then seq (unlock_all e [tree]) (\<lambda>_. ret r) else
     seq (load tree) (\<lambda>t.
     if key < n_key t then
       if n_l t = None then
         seq (new_leaf e tree key v (\<lambda>p n. n\<lparr>n_l := p\<rparr>)) (\<lambda>x.
         case x of Some r \<Rightarrow> ret r | None \<Rightarrow> munlock e tree)
       else
         seq (mlock e (n_l t)) (\<lambda>r.
         if r \<noteq> 0 then seq (unlock_all e [tree]) (\<lambda>_. ret r) else add fuel e (n_l t) key v)
     else if n_key t = key then
       seq (store tree (\<lambda>n. n\<lparr>n_value := v\<rparr>)) (\<lambda>_. munlock e tree)
     else
       if n_r t = None then
         seq (new_leaf e tree key v (\<lambda>p n. n\<lparr>n_r := p\<rparr>)) (\<lambda>x.
         case x of Some r \<Rightarrow> ret r | None \<Rightarrow> munlock e tree)
       else
         seq (mlock e (n_r t)) (\<lambda>r.
         if r \<noteq> 0 then seq (unlock_all e [tree]) (\<lambda>_. ret r) else add fuel e (n_r t) key v)))))"

subsection \<open>\<^verbatim>\<open>delete\<close>\<close>

text \<open>The error path of the relinking loop: five unlocks, the last one only for a third node.\<close>

definition bail :: "bt_env \<Rightarrow> nat option \<Rightarrow> nat option \<Rightarrow> unit act" where
  "bail e tree tmp =
     seq (load tree) (\<lambda>t.
     seq (unlock_all e [n_parent t, tree, n_l t, n_r t]) (\<lambda>_.
     if tmp \<noteq> n_l t \<and> tmp \<noteq> n_r t then unlock_all e [tmp] else ret ()))"

text \<open>
  The loop that finds the place for the right subtree inside the left one: \<open>Some r\<close> when the
  function returns from inside, \<open>None\<close> when the loop is left by \<^verbatim>\<open>break\<close>.
\<close>

primrec relink :: "nat \<Rightarrow> bt_env \<Rightarrow> nat option \<Rightarrow> int \<Rightarrow> nat option \<Rightarrow> int option act" where
  "relink 0 e tree r_key tmp = (\<lambda>h. Faulted Endless)"
| "relink (Suc fuel) e tree r_key tmp =
     seq (load tmp) (\<lambda>m.
     let step = (\<lambda>tmp'.
           seq (load tmp') (\<lambda>m'.
           seq (munlock e (n_parent m')) (\<lambda>r.
           if r \<noteq> 0 then
             seq (load tree) (\<lambda>t.
             seq (unlock_all e ([n_parent t, tree]
                   @ (if n_parent m' \<noteq> n_l t then [n_l t] else [])
                   @ (if n_parent m' \<noteq> n_r t then [n_r t] else []) @ [tmp'])) (\<lambda>_.
             relink fuel e tree r_key tmp'))
           else relink fuel e tree r_key tmp')))
     in
     if r_key < n_key m then
       if n_l m \<noteq> None then
         seq (mlock e (n_l m)) (\<lambda>r.
         if r \<noteq> 0 then seq (bail e tree tmp) (\<lambda>_. ret (Some r)) else step (n_l m))
       else
         seq (load tree) (\<lambda>t.
         seq (store tmp (\<lambda>n. n\<lparr>n_l := n_r t\<rparr>)) (\<lambda>_.
         seq (store (n_r t) (\<lambda>n. n\<lparr>n_parent := tmp\<rparr>)) (\<lambda>_. ret None)))
     else
       if n_r m \<noteq> None then
         seq (mlock e (n_r m)) (\<lambda>r.
         if r \<noteq> 0 then seq (bail e tree tmp) (\<lambda>_. ret (Some r)) else step (n_r m))
       else
         seq (load tree) (\<lambda>t.
         seq (store tmp (\<lambda>n. n\<lparr>n_r := n_r t\<rparr>)) (\<lambda>_.
         seq (store tree (\<lambda>n. n\<lparr>n_r := tmp\<rparr>)) (\<lambda>_. ret None))))"

text \<open>\<^verbatim>\<open>if (tree->parent->l_child == tree) tree->parent->l_child = x; else ...r_child = x;\<close>\<close>

definition replace_child :: "nat option \<Rightarrow> nat option \<Rightarrow> nat option \<Rightarrow> unit act" where
  "replace_child tree parent x =
     seq (load parent) (\<lambda>p.
     if n_l p = tree then store parent (\<lambda>n. n\<lparr>n_l := x\<rparr>) else store parent (\<lambda>n. n\<lparr>n_r := x\<rparr>))"

text \<open>The end of the branch that found the key: unlink, release the locks, free the node.\<close>

definition delete_unlink :: "bt_env \<Rightarrow> nat option \<Rightarrow> int act" where
  "delete_unlink e tree =
     seq (load tree) (\<lambda>t.
     seq (store (n_l t) (\<lambda>n. n\<lparr>n_parent := n_parent t\<rparr>)) (\<lambda>_.
     seq (replace_child tree (n_parent t) (n_l t)) (\<lambda>_.
     seq (munlock e (n_parent t)) (\<lambda>r.
     if r \<noteq> 0 then seq (unlock_all e [n_l t, n_r t]) (\<lambda>_. ret r) else
     seq (if n_l t \<noteq> None then munlock e (n_l t) else ret 0) (\<lambda>r.
     if r \<noteq> 0 then seq (unlock_all e [n_r t]) (\<lambda>_. ret r) else
     seq (if n_r t \<noteq> None then munlock e (n_r t) else ret 0) (\<lambda>r.
     if r \<noteq> 0 then ret r else
     seq (load tree) (\<lambda>t'.
     if destroy_ret e (n_lock t') \<noteq> 0 then ret (destroy_ret e (n_lock t'))
     else (\<lambda>h. Done (0, (case tree of None \<Rightarrow> h | Some a \<Rightarrow> h(a := None)))))))))))"

definition delete_found :: "nat \<Rightarrow> bt_env \<Rightarrow> nat option \<Rightarrow> int act" where
  "delete_found fuel e tree =
     seq (load tree) (\<lambda>t.
     seq (if n_l t \<noteq> None then mlock e (n_l t) else ret 0) (\<lambda>r.
     if r \<noteq> 0 then seq (unlock_all e [n_parent t, tree]) (\<lambda>_. ret r) else
     seq (if n_r t \<noteq> None then mlock e (n_r t) else ret 0) (\<lambda>r.
     if r \<noteq> 0 then seq (unlock_all e [n_parent t, tree]) (\<lambda>_. ret r) else
     seq (if n_l t \<noteq> None \<and> n_r t \<noteq> None then
            seq (load (n_r t)) (\<lambda>rc. relink fuel e tree (n_key rc) (n_l t))
          else if n_l t \<noteq> None then
            seq (replace_child tree (n_parent t) (n_l t)) (\<lambda>_. ret None)
          else
            seq (replace_child tree (n_parent t) (n_r t)) (\<lambda>_. ret None)) (\<lambda>x.
     case x of Some r \<Rightarrow> ret r | None \<Rightarrow> delete_unlink e tree))))"

text \<open>The status of a recursive \<^verbatim>\<open>delete\<close> is dropped: the caller returns 0.\<close>

primrec delete :: "nat \<Rightarrow> bt_env \<Rightarrow> nat option \<Rightarrow> int \<Rightarrow> int act" where
  "delete 0 e tree key = (\<lambda>h. Faulted Endless)"
| "delete (Suc fuel) e tree key =
     seq (load tree) (\<lambda>t0.
     seq (if n_parent t0 = None then mlock e tree else ret 0) (\<lambda>r.
     if r \<noteq> 0 then ret r else
     seq (if n_parent t0 \<noteq> None then load (n_parent t0) else load tree) (\<lambda>p.
     seq (if n_parent t0 \<noteq> None \<and> n_parent p \<noteq> None then mlock e (n_parent p) else ret 0) (\<lambda>r.
     if r \<noteq> 0 then seq (unlock_all e [n_parent t0, tree]) (\<lambda>_. ret r) else
     seq (load tree) (\<lambda>t.
     if key < n_key t then
       if n_l t \<noteq> None then
         seq (mlock e (n_l t)) (\<lambda>r.
         if r \<noteq> 0 then seq (unlock_all e [n_parent t, tree]) (\<lambda>_. ret r)
         else seq (delete fuel e (n_l t) key) (\<lambda>_. ret 0))
       else ret 0
     else if key = n_key t then delete_found fuel e tree
     else
       if n_r t \<noteq> None then
         seq (mlock e (n_r t)) (\<lambda>r.
         if r \<noteq> 0 then seq (unlock_all e [n_parent t, tree]) (\<lambda>_. ret r)
         else seq (delete fuel e (n_r t) key) (\<lambda>_. ret 0))
       else ret 0)))))"

subsection \<open>\<^verbatim>\<open>lookup\<close>\<close>

primrec lookup :: "nat \<Rightarrow> bt_env \<Rightarrow> nat option \<Rightarrow> int \<Rightarrow> int \<Rightarrow> int act" where
  "lookup 0 e tree key v = (\<lambda>h. Faulted Endless)"
| "lookup (Suc fuel) e tree key v =
     seq (load tree) (\<lambda>t0.
     seq (if n_parent t0 = None then mlock e tree else ret 0) (\<lambda>r.
     if r \<noteq> 0 then ret r else
     seq (if n_parent t0 \<noteq> None then munlock e tree else ret 0) (\<lambda>r.
     if r \<noteq> 0 then seq (unlock_all e [tree]) (\<lambda>_. ret r) else
     seq (load tree) (\<lambda>t.
     if key < n_key t then
       if n_l t \<noteq> None then
         seq (mlock e (n_l t)) (\<lambda>r.
         if r \<noteq> 0 then seq (unlock_all e [tree]) (\<lambda>_. ret r) else lookup fuel e (n_l t) key v)
       else ret (- 1)
     else if n_key t < key then
       if n_r t \<noteq> None then
         seq (mlock e (n_r t)) (\<lambda>r.
         if r \<noteq> 0 then seq (unlock_all e [tree]) (\<lambda>_. ret r) else lookup fuel e (n_r t) key v)
       else ret (- 1)
     else munlock e tree))))"

subsection \<open>Trees in the heap\<close>

datatype ktree = KLeaf | KNode ktree int ktree

primrec keys :: "ktree \<Rightarrow> int set" where
  "keys KLeaf = {}"
| "keys (KNode l k r) = keys l \<union> {k} \<union> keys r"

primrec search_tree :: "ktree \<Rightarrow> bool" where
  "search_tree KLeaf \<longleftrightarrow> True"
| "search_tree (KNode l k r) \<longleftrightarrow>
     search_tree l \<and> search_tree r \<and> (\<forall>x \<in> keys l. x < k) \<and> (\<forall>x \<in> keys r. k < x)"

primrec height :: "ktree \<Rightarrow> nat" where
  "height KLeaf = 0"
| "height (KNode l k r) = Suc (max (height l) (height r))"

text \<open>\<open>tree_at h p par t\<close>: the pointer \<open>p\<close>, in a node with address \<open>par\<close>, leads to the
  nodes of \<open>t\<close>, all with their mutex free.\<close>

primrec tree_at :: "bt_heap \<Rightarrow> nat option \<Rightarrow> nat option \<Rightarrow> ktree \<Rightarrow> bool" where
  "tree_at h p par KLeaf \<longleftrightarrow> p = None"
| "tree_at h p par (KNode l k r) \<longleftrightarrow>
     (\<exists>a n. p = Some a \<and> h a = Some n \<and> n_key n = k \<and> n_parent n = par \<and> \<not> n_lock n \<and>
        tree_at h (n_l n) p l \<and> tree_at h (n_r n) p r)"

text \<open>Mutex calls succeed.\<close>

definition mutexes_work :: "bt_env \<Rightarrow> bool" where
  "mutexes_work e \<longleftrightarrow> (\<forall>a. lock_err e a = 0) \<and> (\<forall>a. unlock_err e a = 0) \<and> init_err e = 0"

lemma seq_Done: "m h = Done (x, h') \<Longrightarrow> seq m f h = f x h'"
  by (simp add: seq_def)

lemma seq_Faulted: "m h = Faulted x \<Longrightarrow> seq m f h = Faulted x"
  by (simp add: seq_def)

lemma seq_ret [simp]: "seq (ret x) f = f x"
  by (simp add: seq_def ret_def)

lemma seq_assoc: "seq (seq m f) g = seq m (\<lambda>x. seq (f x) g)"
proof
  fix h
  show "seq (seq m f) g h = seq m (\<lambda>x. seq (f x) g) h" by (cases "m h") (auto simp: seq_def)
qed

lemma ret_apply [simp]: "ret x h = Done (x, h)"
  by (simp add: ret_def)

lemma load_ok: "h a = Some n \<Longrightarrow> load (Some a) h = Done (n, h)"
  by (simp add: load_def)

lemma store_ok: "h a = Some n \<Longrightarrow> store (Some a) f h = Done ((), h(a \<mapsto> f n))"
  by (simp add: store_def)

lemma mlock_ok:
  "mutexes_work e \<Longrightarrow> h a = Some n \<Longrightarrow> \<not> n_lock n \<Longrightarrow>
   mlock e (Some a) h = Done (0, h(a \<mapsto> n\<lparr>n_lock := True\<rparr>))"
  by (simp add: mlock_def mutexes_work_def)

lemma seq_lock:
  "mutexes_work e \<Longrightarrow> h a = Some n \<Longrightarrow> \<not> n_lock n \<Longrightarrow> f 0 (h(a \<mapsto> n\<lparr>n_lock := True\<rparr>)) = R \<Longrightarrow>
   seq (mlock e (Some a)) f h = R"
  by (simp add: seq_def mlock_ok)

lemma mlock_held:
  "mutexes_work e \<Longrightarrow> h a = Some n \<Longrightarrow> n_lock n \<Longrightarrow> mlock e (Some a) h = Faulted Deadlock"
  by (simp add: mlock_def mutexes_work_def)

lemma munlock_ok:
  "mutexes_work e \<Longrightarrow> h a = Some n \<Longrightarrow> munlock e (Some a) h = Done (0, h(a \<mapsto> n\<lparr>n_lock := False\<rparr>))"
  by (simp add: munlock_def mutexes_work_def)

lemmas act_ok = seq_Done [OF load_ok] seq_Done [OF store_ok] seq_Done [OF mlock_ok]
  seq_Done [OF munlock_ok] seq_Faulted [OF mlock_held] load_ok store_ok mlock_ok munlock_ok mlock_held
  fun_upd_same fun_upd_other fun_upd_upd

lemma unlocked_idem: "h a = Some n \<Longrightarrow> \<not> n_lock n \<Longrightarrow> h(a \<mapsto> n\<lparr>n_lock := False\<rparr>) = h"
  by (auto simp: fun_upd_idem_iff)

text \<open>One level of \<^verbatim>\<open>lookup\<close> below the root, whose node the caller has locked.\<close>

lemma lookup_step:
  assumes "mutexes_work e" "h a = Some n" "n_parent n = Some par" "\<not> n_lock n"
  shows "lookup (Suc f) e (Some a) k v (h(a \<mapsto> n\<lparr>n_lock := True\<rparr>)) =
    (if k < n_key n then
       (if n_l n = None then Done (- 1, h)
        else seq (mlock e (n_l n)) (\<lambda>r. if r \<noteq> 0 then seq (unlock_all e [Some a]) (\<lambda>_. ret r)
               else lookup f e (n_l n) k v) h)
     else if n_key n < k then
       (if n_r n = None then Done (- 1, h)
        else seq (mlock e (n_r n)) (\<lambda>r. if r \<noteq> 0 then seq (unlock_all e [Some a]) (\<lambda>_. ret r)
               else lookup f e (n_r n) k v) h)
     else Done (0, h))"
  using assms unlocked_idem [of h a n] by (simp add: act_ok del: fun_upd_apply cong: if_cong)

text \<open>Below the root \<^verbatim>\<open>lookup\<close> leaves the heap as it was before the caller locked the node.\<close>

lemma lookup_below:
  assumes "mutexes_work e" "tree_at h (Some a) (Some par) t" "search_tree t" "height t \<le> fuel"
  shows "\<exists>n. h a = Some n \<and> \<not> n_lock n \<and>
     lookup fuel e (Some a) k v (h(a \<mapsto> n\<lparr>n_lock := True\<rparr>)) = Done (if k \<in> keys t then 0 else - 1, h)"
  using assms(2-)
proof (induction fuel arbitrary: a par t)
  case 0
  then show ?case by (cases t) simp_all
next
  case (Suc fuel)
  obtain l x r where t: "t = KNode l x r" using Suc.prems(1) by (cases t) auto
  obtain n where n: "h a = Some n" "n_key n = x" "n_parent n = Some par" "\<not> n_lock n"
    "tree_at h (n_l n) (Some a) l" "tree_at h (n_r n) (Some a) r"
    using Suc.prems(1) t by auto
  have bs: "search_tree l" "search_tree r" "height l \<le> fuel" "height r \<le> fuel"
    "\<forall>y \<in> keys l. y < x" "\<forall>y \<in> keys r. x < y"
    using Suc.prems(2,3) t by simp_all
  have child: "c \<noteq> None \<Longrightarrow> tree_at h c (Some a) s \<Longrightarrow> search_tree s \<Longrightarrow> height s \<le> fuel \<Longrightarrow>
      seq (mlock e c) (\<lambda>r. if r \<noteq> 0 then seq (unlock_all e [Some a]) (\<lambda>_. ret r)
        else lookup fuel e c k v) h = Done (if k \<in> keys s then 0 else - 1, h)" for c s
  proof -
    assume c: "c \<noteq> None" "tree_at h c (Some a) s" "search_tree s" "height s \<le> fuel"
    then obtain b where b: "c = Some b" by blast
    obtain m where "h b = Some m" "\<not> n_lock m" "lookup fuel e (Some b) k v (h(b \<mapsto> m\<lparr>n_lock := True\<rparr>)) =
        Done (if k \<in> keys s then 0 else - 1, h)"
      using Suc.IH [OF c(2) [unfolded b] c(3,4)] by blast
    then show ?thesis unfolding b by (intro seq_lock [OF assms(1)]) simp_all
  qed
  have empty: "tree_at h None (Some a) s \<Longrightarrow> keys s = {}" for s by (cases s) simp_all
  consider "k < x" | "x < k" | "k = x" by linarith
  then show ?case
  proof cases
    case 1
    then have "k \<in> keys t \<longleftrightarrow> k \<in> keys l" using bs t by auto
    then show ?thesis
      using 1 n child [OF _ n(5) bs(1,3)] empty [of l]
      by (cases "n_l n = None") (simp_all add: lookup_step [of e h a n par] assms(1) del: lookup.simps fun_upd_apply)
  next
    case 2
    then have "k \<in> keys t \<longleftrightarrow> k \<in> keys r" using bs t by auto
    then show ?thesis
      using 2 n child [OF _ n(6) bs(2,4)] empty [of r]
      by (cases "n_r n = None") (simp_all add: lookup_step [of e h a n par] assms(1) del: lookup.simps fun_upd_apply)
  next
    case 3
    then show ?thesis
      using n t by (simp add: lookup_step [of e h a n par] assms(1) del: lookup.simps fun_upd_apply)
  qed
qed

text \<open>The node without a parent is not part of any subtree.\<close>

lemma tree_at_upd_root:
  "tree_at h p (Some q) t \<Longrightarrow> h a = Some n \<Longrightarrow> n_parent n = None \<Longrightarrow> tree_at (h(a := x)) p (Some q) t"
proof (induction t arbitrary: p q)
  case (KNode l k r)
  then obtain b m where m: "p = Some b" "h b = Some m" "n_key m = k" "n_parent m = Some q" "\<not> n_lock m"
    "tree_at h (n_l m) (Some b) l" "tree_at h (n_r m) (Some b) r" by auto
  then have "b \<noteq> a" using KNode.prems by auto
  then show ?case using m KNode.IH KNode.prems(2,3) by simp
qed simp

lemma lookup_root:
  assumes "mutexes_work e" "tree_at h (Some a) None t" "search_tree t" "height t \<le> fuel"
  shows "\<exists>n. h a = Some n \<and> \<not> n_lock n \<and> n_parent n = None \<and>
     lookup fuel e (Some a) k v h = Done (if k \<in> keys t then 0 else - 1,
       if k = n_key n then h else h(a \<mapsto> n\<lparr>n_lock := True\<rparr>))"
proof -
  obtain l x r where t: "t = KNode l x r" using assms(2) by (cases t) auto
  obtain f where f: "fuel = Suc f" "height l \<le> f" "height r \<le> f" using assms(4) t by (cases fuel) auto
  obtain n where n: "h a = Some n" "n_key n = x" "n_parent n = None" "\<not> n_lock n"
    "tree_at h (n_l n) (Some a) l" "tree_at h (n_r n) (Some a) r"
    using assms(2) t by auto
  let ?h = "h(a \<mapsto> n\<lparr>n_lock := True\<rparr>)"
  have sub: "tree_at ?h (n_l n) (Some a) l" "tree_at ?h (n_r n) (Some a) r"
    using tree_at_upd_root n by blast+
  have child: "c \<noteq> None \<Longrightarrow> tree_at ?h c (Some a) s \<Longrightarrow> search_tree s \<Longrightarrow> height s \<le> f \<Longrightarrow>
      seq (mlock e c) (\<lambda>r. if r \<noteq> 0 then seq (unlock_all e [Some a]) (\<lambda>_. ret r)
        else lookup f e c k v) ?h = Done (if k \<in> keys s then 0 else - 1, ?h)" for c s
  proof -
    assume c: "c \<noteq> None" "tree_at ?h c (Some a) s" "search_tree s" "height s \<le> f"
    then obtain b where b: "c = Some b" by blast
    obtain m where "?h b = Some m" "\<not> n_lock m" "lookup f e (Some b) k v (?h(b \<mapsto> m\<lparr>n_lock := True\<rparr>)) =
        Done (if k \<in> keys s then 0 else - 1, ?h)"
      using lookup_below [OF assms(1) c(2) [unfolded b] c(3,4)] by blast
    then show ?thesis unfolding b by (intro seq_lock [OF assms(1)]) simp_all
  qed
  have empty: "tree_at ?h None (Some a) s \<Longrightarrow> keys s = {}" for s by (cases s) simp_all
  have bs: "search_tree l" "search_tree r" "\<forall>y \<in> keys l. y < x" "\<forall>y \<in> keys r. x < y"
    using assms(3) t by simp_all
  have step: "lookup fuel e (Some a) k v h =
    (if k < x then
       (if n_l n = None then Done (- 1, ?h)
        else seq (mlock e (n_l n)) (\<lambda>r. if r \<noteq> 0 then seq (unlock_all e [Some a]) (\<lambda>_. ret r)
               else lookup f e (n_l n) k v) ?h)
     else if x < k then
       (if n_r n = None then Done (- 1, ?h)
        else seq (mlock e (n_r n)) (\<lambda>r. if r \<noteq> 0 then seq (unlock_all e [Some a]) (\<lambda>_. ret r)
               else lookup f e (n_r n) k v) ?h)
     else Done (0, h))"
    using n unlocked_idem [of h a n] by (simp add: f(1) act_ok assms(1) del: fun_upd_apply cong: if_cong)
  consider "k < x" | "x < k" | "k = x" by linarith
  then show ?thesis
  proof cases
    case 1
    then have "k \<in> keys t \<longleftrightarrow> k \<in> keys l" using bs t by auto
    then show ?thesis
      unfolding step using 1 n child [OF _ sub(1) bs(1) f(2)] empty sub(1) by (cases "n_l n = None") simp_all
  next
    case 2
    then have "k \<in> keys t \<longleftrightarrow> k \<in> keys r" using bs t by auto
    then show ?thesis
      unfolding step using 2 n child [OF _ sub(2) bs(2) f(3)] empty sub(2) by (cases "n_r n = None") simp_all
  next
    case 3
    then show ?thesis unfolding step using n t by simp
  qed
qed

text \<open>The pairs of key and value that the nodes of a tree hold.\<close>

primrec entries :: "bt_heap \<Rightarrow> nat option \<Rightarrow> ktree \<Rightarrow> (int \<times> int) set" where
  "entries h p KLeaf = {}"
| "entries h p (KNode l k r) = (case p of None \<Rightarrow> {} | Some a \<Rightarrow> (case h a of None \<Rightarrow> {}
     | Some n \<Rightarrow> insert (n_key n, n_value n) (entries h (n_l n) l \<union> entries h (n_r n) r)))"

lemma fst_entries: "tree_at h p par t \<Longrightarrow> fst ` entries h p t = keys t"
proof (induction t arbitrary: p par)
  case (KNode l k r)
  then obtain a n where n: "p = Some a" "h a = Some n" "n_key n = k"
    "tree_at h (n_l n) p l" "tree_at h (n_r n) p r" by auto
  then show ?case using KNode.IH(1) [OF n(4)] KNode.IH(2) [OF n(5)] by (simp add: image_Un)
qed simp

text \<open>C11: on every search tree whose mutexes are free, \<^verbatim>\<open>lookup\<close> returns 0 exactly when a node
  has the given key and \<open>-1\<close> otherwise. Its comment promises 0 exactly when a node has the
  given key and the given value; the code never looks at the value, so the result is the
  documented one exactly when no node has the key or one has it with this value. Moreover,
  unless the key is the root's, the call returns with the root's mutex held, so that the next
  operation on the tree blocks for ever.\<close>

theorem lookup_finds_keys:
  assumes "mutexes_work e" "tree_at h (Some a) None t" "search_tree t" "height t \<le> fuel"
  shows "\<exists>n h' res. h a = Some n \<and> lookup fuel e (Some a) k v h = Done (res, h') \<and>
    res = (if k \<in> fst ` entries h (Some a) t then 0 else - 1) \<and>
    (res = (if (k, v) \<in> entries h (Some a) t then 0 else - 1) \<longleftrightarrow>
       k \<notin> fst ` entries h (Some a) t \<or> (k, v) \<in> entries h (Some a) t) \<and>
    (if k = n_key n then h' = h
     else h' = h(a \<mapsto> n\<lparr>n_lock := True\<rparr>) \<and> lookup (Suc f) e (Some a) k' v' h' = Faulted Deadlock)"
proof -
  obtain n where n: "h a = Some n" "\<not> n_lock n" "n_parent n = None"
    "lookup fuel e (Some a) k v h = Done (if k \<in> keys t then 0 else - 1,
       if k = n_key n then h else h(a \<mapsto> n\<lparr>n_lock := True\<rparr>))"
    using lookup_root [OF assms] by blast
  have "lookup (Suc f) e (Some a) k' v' (h(a \<mapsto> n\<lparr>n_lock := True\<rparr>)) = Faulted Deadlock"
    using n(3) by (simp add: act_ok assms(1) del: fun_upd_apply)
  moreover have "(k, v) \<in> entries h (Some a) t \<Longrightarrow> k \<in> keys t"
    using fst_entries [OF assms(2)] by force
  ultimately show ?thesis using n(1,4) fst_entries [OF assms(2)] by (auto simp del: lookup.simps)
qed

definition demo_heap :: bt_heap where
  "demo_heap = [1 \<mapsto> \<lparr>n_key = 100, n_value = 0, n_parent = None, n_l = Some 2, n_r = Some 3, n_lock = False\<rparr>,
     2 \<mapsto> \<lparr>n_key = 50, n_value = 5, n_parent = Some 1, n_l = Some 4, n_r = None, n_lock = False\<rparr>,
     3 \<mapsto> \<lparr>n_key = 150, n_value = 6, n_parent = Some 1, n_l = None, n_r = None, n_lock = False\<rparr>,
     4 \<mapsto> \<lparr>n_key = 20, n_value = 7, n_parent = Some 2, n_l = None, n_r = None, n_lock = False\<rparr>]"

definition demo_env :: bt_env where
  "demo_env = \<lparr>lock_err = (\<lambda>_. 0), unlock_err = (\<lambda>_. 0), init_err = 0,
     destroy_ret = (\<lambda>held. if held then 16 else 0), new_node = Some 5\<rparr>"

theorem lookup_finds_keys_witness:
  "\<exists>n h'. demo_heap 1 = Some n \<and> lookup 3 demo_env (Some 1) 20 9 demo_heap = Done (0, h') \<and>
    (20, 9) \<notin> entries demo_heap (Some 1) (KNode (KNode (KNode KLeaf 20 KLeaf) 50 KLeaf) 100 (KNode KLeaf 150 KLeaf)) \<and>
    h' = demo_heap(1 \<mapsto> n\<lparr>n_lock := True\<rparr>) \<and> lookup 1 demo_env (Some 1) 100 0 h' = Faulted Deadlock"
  using lookup_finds_keys [of demo_env demo_heap 1
      "KNode (KNode (KNode KLeaf 20 KLeaf) 50 KLeaf) 100 (KNode KLeaf 150 KLeaf)" 3 20 9 0 100 0]
  by (simp add: mutexes_work_def demo_env_def demo_heap_def del: lookup.simps)

text \<open>\<^verbatim>\<open>add\<close> works only at the root: it overwrites the root's value or hangs a new leaf
  below the root; as soon as the path leads through a child, the child's call locks its
  parent a second time instead of unlocking it and blocks for ever.\<close>

theorem add_only_at_root:
  assumes "mutexes_work e" "h a = Some n" "n_parent n = None" "\<not> n_lock n" "new_node e = Some b" "b \<noteq> a"
    "\<forall>c. n_l n = Some c \<or> n_r n = Some c \<longrightarrow> c \<noteq> a \<and> (\<exists>m. h c = Some m \<and> n_parent m = Some a \<and> \<not> n_lock m)"
    "leaf = \<lparr>n_key = k, n_value = v, n_parent = Some a, n_l = None, n_r = None, n_lock = False\<rparr>"
  shows "add (Suc (Suc f)) e (Some a) k v h =
    (if k = n_key n then Done (0, h(a \<mapsto> n\<lparr>n_value := v\<rparr>))
     else if k < n_key n then
       (if n_l n = None then Done (0, h(b \<mapsto> leaf, a \<mapsto> n\<lparr>n_l := Some b\<rparr>)) else Faulted Deadlock)
     else
       (if n_r n = None then Done (0, h(b \<mapsto> leaf, a \<mapsto> n\<lparr>n_r := Some b\<rparr>)) else Faulted Deadlock))"
proof -
  let ?h = "h(a \<mapsto> n\<lparr>n_lock := True\<rparr>)"
  note ok = act_ok assms(1)
  have free: "n\<lparr>n_lock := False\<rparr> = n" "n\<lparr>n_l := x, n_lock := False\<rparr> = n\<lparr>n_l := x\<rparr>"
    "n\<lparr>n_r := x, n_lock := False\<rparr> = n\<lparr>n_r := x\<rparr>" "n\<lparr>n_value := v, n_lock := False\<rparr> = n\<lparr>n_value := v\<rparr>" for x
    using assms(4) by simp_all
  have start: "add (Suc (Suc f)) e (Some a) k v h = (
     if k < n_key n then
       (if n_l n = None then
         seq (new_leaf e (Some a) k v (\<lambda>p n. n\<lparr>n_l := p\<rparr>)) (\<lambda>x.
         case x of Some r \<Rightarrow> ret r | None \<Rightarrow> munlock e (Some a))
       else
         seq (mlock e (n_l n)) (\<lambda>r.
         if r \<noteq> 0 then seq (unlock_all e [Some a]) (\<lambda>_. ret r) else add (Suc f) e (n_l n) k v))
     else if n_key n = k then
       seq (store (Some a) (\<lambda>n. n\<lparr>n_value := v\<rparr>)) (\<lambda>_. munlock e (Some a))
     else
       (if n_r n = None then
         seq (new_leaf e (Some a) k v (\<lambda>p n. n\<lparr>n_r := p\<rparr>)) (\<lambda>x.
         case x of Some r \<Rightarrow> ret r | None \<Rightarrow> munlock e (Some a))
       else
         seq (mlock e (n_r n)) (\<lambda>r.
         if r \<noteq> 0 then seq (unlock_all e [Some a]) (\<lambda>_. ret r) else add (Suc f) e (n_r n) k v))) ?h"
    by (subst add.simps(2)) (use assms(2-4) in \<open>simp add: ok del: fun_upd_apply add.simps cong: if_cong\<close>)
  have child: "seq (mlock e (Some c)) (\<lambda>r.
         if r \<noteq> 0 then seq (unlock_all e [Some a]) (\<lambda>_. ret r) else add (Suc f) e (Some c) k v) ?h = Faulted Deadlock"
    if c: "n_l n = Some c \<or> n_r n = Some c" for c
  proof -
    obtain m where m: "c \<noteq> a" "h c = Some m" "n_parent m = Some a" "\<not> n_lock m"
      using assms(7) c by blast
    then show ?thesis by (simp add: ok del: fun_upd_apply)
  qed
  have leaf_l: "new_leaf e (Some a) k v (\<lambda>p n. n\<lparr>n_l := p\<rparr>) ?h =
      Done (None, h(b \<mapsto> leaf, a \<mapsto> n\<lparr>n_lock := True, n_l := Some b\<rparr>))"
    "new_leaf e (Some a) k v (\<lambda>p n. n\<lparr>n_r := p\<rparr>) ?h =
      Done (None, h(b \<mapsto> leaf, a \<mapsto> n\<lparr>n_lock := True, n_r := Some b\<rparr>))"
    using assms(1,5,6,8) by (simp_all add: new_leaf_def seq_def store_def mutexes_work_def fun_upd_twist)
  consider "k < n_key n" | "k = n_key n" | "n_key n < k" by linarith
  then show ?thesis
  proof cases
    case 1
    then show ?thesis unfolding start
      by (cases "n_l n") (simp_all add: seq_Done [of "new_leaf e (Some a) k v (\<lambda>p n. n\<lparr>n_l := p\<rparr>)" ?h, OF leaf_l(1)] child ok free del: fun_upd_apply add.simps cong: if_cong)
  next
    case 2
    then show ?thesis unfolding start by (simp add: ok free del: fun_upd_apply add.simps)
  next
    case 3
    then show ?thesis unfolding start
      by (cases "n_r n") (simp_all add: seq_Done [of "new_leaf e (Some a) k v (\<lambda>p n. n\<lparr>n_r := p\<rparr>)" ?h, OF leaf_l(2)] child ok free del: fun_upd_apply add.simps cong: if_cong)
  qed
qed

theorem add_only_at_root_witness:
  "add 2 demo_env (Some 1) 30 1 demo_heap = Faulted Deadlock"
  using add_only_at_root [of demo_env demo_heap 1 "the (demo_heap 1)" 5
      "\<lparr>n_key = 30, n_value = 1, n_parent = Some 1, n_l = None, n_r = None, n_lock = False\<rparr>" 30 1 0]
  by (simp add: demo_env_def demo_heap_def mutexes_work_def numeral_2_eq_2 del: add.simps)

subsection \<open>What \<^verbatim>\<open>delete\<close> does below the root\<close>

text \<open>deleting a child of the root that has only a left subtree links that subtree twice:
  the root's other child pointer is overwritten as well, so the subtree behind it is lost.
  The call returns 0.\<close>

theorem delete_overwrites_sibling:
  assumes "mutexes_work e" "h a = Some A" "n_parent A = None" "\<not> n_lock A" "n_l A = Some c"
    "h c = Some C" "n_parent C = Some a" "\<not> n_lock C" "n_l C = Some d" "n_r C = None"
    "h d = Some D" "\<not> n_lock D" "n_key C < n_key A" "a \<noteq> c" "c \<noteq> d" "a \<noteq> d"
  shows "\<exists>h' A'. delete (Suc (Suc f)) e (Some a) (n_key C) h = Done (0, h') \<and>
    h' a = Some A' \<and> n_l A' = Some d \<and> n_r A' = Some d"
proof -
  have ne: "c \<noteq> a" "d \<noteq> c" "d \<noteq> a" using assms by auto
  show ?thesis
    using assms(2-16) ne
    by (simp add: act_ok assms(1) delete_found_def delete_unlink_def replace_child_def seq_assoc
        del: fun_upd_apply cong: if_cong)
      (simp add: seq_def)
qed

theorem delete_overwrites_sibling_witness:
  "\<exists>h' A'. delete 2 demo_env (Some 1) 50 demo_heap = Done (0, h') \<and> h' 1 = Some A' \<and>
    n_l A' = Some 4 \<and> n_r A' = Some 4"
  using delete_overwrites_sibling [of demo_env demo_heap 1 "the (demo_heap 1)" 2 "the (demo_heap 2)" 4
      "the (demo_heap 4)" 0]
  by (simp add: demo_env_def demo_heap_def mutexes_work_def numeral_2_eq_2 del: delete.simps)

end
