(* ===== verification/Realpath.thy ===== *)
theory Realpath
  imports Prelude
begin

text \<open>
  Section 18, \<^verbatim>\<open>my_realpath.c\<close>: resolution of a path name. The buffer is raw memory (a
  function from offsets to characters with arbitrary initial contents), the write position
  \<^verbatim>\<open>lrp_p\<close> an integer offset into it, so that a position before the buffer is a fault of the
  model. \<^verbatim>\<open>lstat\<close>, \<^verbatim>\<open>readlink\<close> and \<^verbatim>\<open>getcwd\<close> are answers of the environment. The theorems
  give the result for paths without symbolic links as an abstract stack machine over
  components, and the effect of the position arithmetic on symbolic links.
\<close>

subsection \<open>Components of a path\<close>

abbreviation (input) NAME_MAX :: nat where "NAME_MAX \<equiv> 255"
abbreviation (input) PATH_MAX_RP :: nat where "PATH_MAX_RP \<equiv> 4096"

text \<open>
  \<^verbatim>\<open>get_part_path\<close>: the list of components; \<open>cur\<close> are the characters stored in the current
  node (\<^verbatim>\<open>p_index\<close> of them). A component longer than \<^verbatim>\<open>NAME_MAX\<close> overruns its node.
\<close>

fun part_path :: "string \<Rightarrow> string \<Rightarrow> string list run" where
  "part_path [] cur =
     (if cur = [] then Done []
      else if NAME_MAX < length cur then Faulted OutOfBounds else Done [cur])"
| "part_path (c # r) cur =
     (if c \<noteq> slash then
        if NAME_MAX < length cur then Faulted OutOfBounds else part_path r (cur @ [c])
      else if cur \<noteq> [] then
        if NAME_MAX < length cur then Faulted OutOfBounds
        else run_bind (part_path r []) (\<lambda>ps. Done (cur # ps))
      else part_path r [])"

definition get_part_path :: "string option \<Rightarrow> string list run" where
  "get_part_path p = (case p of None \<Rightarrow> Done [] | Some s \<Rightarrow> part_path s [])"

subsection \<open>The buffer\<close>

type_synonym buffer = "nat \<Rightarrow> char"

definition c_str :: "buffer \<Rightarrow> string" where
  "c_str b = takeWhile (\<lambda>c. c \<noteq> NUL) (map b [0 ..< PATH_MAX_RP])"

definition put :: "buffer \<Rightarrow> int \<Rightarrow> char \<Rightarrow> buffer run" where
  "put b i c = (if i < 0 \<or> int PATH_MAX_RP \<le> i then Faulted OutOfBounds else Done (b(nat i := c)))"

text \<open>\<^verbatim>\<open>strcpy\<close> to an offset of the buffer.\<close>

fun put_str :: "buffer \<Rightarrow> int \<Rightarrow> string \<Rightarrow> buffer run" where
  "put_str b i [] = put b i NUL"
| "put_str b i (c # s) = run_bind (put b i c) (\<lambda>b'. put_str b' (i + 1) s)"

text \<open>\<^verbatim>\<open>for (; lrp_p > local_resolved_path + 1 && *lrp_p != '/'; lrp_p--);\<close>\<close>

fun roll_back :: "buffer \<Rightarrow> nat \<Rightarrow> nat" where
  "roll_back b 0 = 0"
| "roll_back b (Suc p) = (if 1 < Suc p \<and> b (Suc p) \<noteq> slash then roll_back b p else Suc p)"

subsection \<open>The resolution loop\<close>

datatype ftype = FDir | FLnk | FOther

record rp_env =
  lstat_of :: "string \<Rightarrow> errno + ftype"
  readlink_of :: "string \<Rightarrow> errno + string"
  getcwd_of :: "errno + string"
  rp_malloc :: "buffer option"      \<comment> \<open>contents of the block, \<open>None\<close> when it fails\<close>

text \<open>
  One component \<open>nm\<close> with the components \<open>rest\<close> behind it: the new buffer, position and
  remaining components, or \<open>Inl\<close> an error number with which the function returns null.
\<close>

definition rp_component ::
  "rp_env \<Rightarrow> buffer \<Rightarrow> int \<Rightarrow> string \<Rightarrow> string list \<Rightarrow> (errno + buffer \<times> int \<times> string list) run" where
  "rp_component e b lrp nm rest =
     (if nm = ''..'' then
        let p = (if 1 < lrp then lrp else 1);
            q = int (roll_back b (nat p))
        in run_bind (put b q NUL) (\<lambda>b'. Done (Inr (b', q, rest)))
      else if nm = ''.'' then Done (Inr (b, lrp, rest))
      else
        run_bind (put b lrp slash) (\<lambda>b1.
        run_bind (put_str b1 (lrp + 1) nm) (\<lambda>b2.
        case lstat_of e (c_str b2) of
          Inl err \<Rightarrow> Done (Inl err)
        | Inr FDir \<Rightarrow> Done (Inr (b2, lrp + 1 + int (length nm), rest))
        | Inr FLnk \<Rightarrow>
            (case readlink_of e (c_str b2) of
               Inl err \<Rightarrow> Done (Inl err)
             | Inr target \<Rightarrow>
                 if PATH_MAX_RP \<le> length target then Faulted OutOfBounds
                 else
                   let p = (if target \<noteq> [] \<and> hd target = slash then 1 else lrp + 1)
                   in run_bind (get_part_path (Some target)) (\<lambda>ps.
                      if ps = [] then run_bind (put b2 1 NUL) (\<lambda>b3. Done (Inr (b3, 1, rest)))
                      else
                        let q = p - int (length nm)
                        in run_bind (put b2 q NUL) (\<lambda>b3. Done (Inr (b3, q, ps @ rest)))))
        | Inr FOther \<Rightarrow>
            if rest \<noteq> [] then Done (Inl ENOTDIR) else Done (Inr (b2, lrp + 1, rest)))))"

primrec rp_loop :: "nat \<Rightarrow> rp_env \<Rightarrow> buffer \<Rightarrow> int \<Rightarrow> string list \<Rightarrow> (errno + string) run" where
  "rp_loop 0 e b lrp ps = Faulted Endless"
| "rp_loop (Suc fuel) e b lrp ps =
     (case ps of
        [] \<Rightarrow> Done (Inr (c_str b))
      | nm # rest \<Rightarrow> run_bind (rp_component e b lrp nm rest) (\<lambda>r.
          case r of Inl err \<Rightarrow> Done (Inl err) | Inr (b', lrp', ps') \<Rightarrow> rp_loop fuel e b' lrp' ps'))"

definition my_realpath ::
  "nat \<Rightarrow> rp_env \<Rightarrow> string option \<Rightarrow> buffer option \<Rightarrow> (errno + string) run" where
  "my_realpath fuel e pathname resolved =
     (case pathname of
        None \<Rightarrow> Done (Inl EINVAL)
      | Some path \<Rightarrow>
          if PATH_MAX_RP < length path then Done (Inl ENAMETOOLONG)
          else case (case resolved of Some b \<Rightarrow> Some b | None \<Rightarrow> rp_malloc e) of
            None \<Rightarrow> Done (Inl ENOMEM)
          | Some b0 \<Rightarrow>
              let b1 = b0(0 := slash, 1 := NUL) in
              if cat path 0 \<noteq> slash then
                (case getcwd_of e of
                   Inl err \<Rightarrow> Done (Inl err)
                 | Inr cwd \<Rightarrow>
                     run_bind (put_str b1 0 cwd) (\<lambda>b2.
                     run_bind (get_part_path pathname) (\<lambda>ps.
                       rp_loop fuel e b2 (int (length cwd)) ps)))
              else run_bind (get_part_path pathname) (\<lambda>ps. rp_loop fuel e b1 0 ps))"

definition realpath_main :: "nat \<Rightarrow> rp_env \<Rightarrow> string list \<Rightarrow> string run" where
  "realpath_main fuel e argv =
     (if length argv \<noteq> 2 then Exited EXIT_FAILURE
      else run_bind (my_realpath fuel e (Some (argv ! 1)) None) (\<lambda>r.
        case r of Inl err \<Rightarrow> Done [] | Inr p \<Rightarrow> Done (p @ [newline])))"

subsection \<open>Contents of the buffer\<close>

text \<open>The buffer holds the string \<open>s\<close> and its terminator.\<close>

definition holds :: "buffer \<Rightarrow> string \<Rightarrow> bool" where
  "holds b s \<longleftrightarrow> (\<forall>i < length s. b i = s ! i) \<and> b (length s) = NUL"

lemma c_str_holds:
  assumes "holds b s" "c_string s" "length s < PATH_MAX_RP"
  shows "c_str b = s"
proof -
  have "[0 ..< PATH_MAX_RP] = [0 ..< length s] @ length s # [Suc (length s) ..< PATH_MAX_RP]"
  proof -
    obtain k where "PATH_MAX_RP = length s + Suc k" using assms(3) by (metis less_iff_Suc_add add_Suc_right)
    then show ?thesis by (simp only: upt_add_eq_append [OF le0]) (simp add: upt_conv_Cons)
  qed
  moreover have "map b [0 ..< length s] = s"
    using assms(1) by (intro nth_equalityI) (simp_all add: holds_def)
  moreover have "\<forall>c \<in> set s. c \<noteq> NUL" using assms(2) by (auto simp: c_string_def)
  ultimately show ?thesis
    using assms(1) by (simp add: c_str_def holds_def takeWhile_append2)
qed

text \<open>The first characters of the buffer are \<open>p\<close>.\<close>

definition starts :: "buffer \<Rightarrow> string \<Rightarrow> bool" where
  "starts b p \<longleftrightarrow> (\<forall>i < length p. b i = p ! i)"

lemma starts_snoc: "starts b p \<Longrightarrow> starts (b(length p := c)) (p @ [c])"
  by (auto simp: starts_def nth_append less_Suc_eq)

lemma put_str_holds:
  assumes "starts b p" "length p + length s < PATH_MAX_RP"
  shows "\<exists>b'. put_str b (int (length p)) s = Done b' \<and> holds b' (p @ s)"
  using assms
proof (induction s arbitrary: b p)
  case Nil
  then show ?case by (auto simp: put_def holds_def starts_def)
next
  case (Cons c s)
  have "\<exists>b'. put_str (b(length p := c)) (int (length (p @ [c]))) s = Done b' \<and> holds b' ((p @ [c]) @ s)"
    using Cons.prems by (intro Cons.IH starts_snoc) simp_all
  then show ?case using Cons.prems by (simp add: put_def add.commute)
qed

lemma roll_back_stop:
  assumes "q \<le> p" "1 \<le> q" "q = 1 \<or> b q = slash" "\<forall>i. q < i \<and> i \<le> p \<longrightarrow> b i \<noteq> slash"
  shows "roll_back b p = q"
  using assms
proof (induction p)
  case (Suc p)
  then show ?case by (cases "q = Suc p") auto
qed simp

subsection \<open>The abstract machine\<close>

text \<open>
  The result so far is a stack of components behind a prefix that is empty at first and a
  single separator once \<^verbatim>\<open>..\<close> has led back to the root.
\<close>

definition tails :: "string list \<Rightarrow> string" where
  "tails st = concat (map (\<lambda>n. slash # n) st)"

fun render :: "string \<times> string list \<Rightarrow> string" where
  "render (pre, st) = (if st = [] then [slash] else pre @ tails st)"

fun rp_step :: "string \<times> string list \<Rightarrow> string \<Rightarrow> string \<times> string list" where
  "rp_step (pre, st) nm =
     (if nm = ''..'' then if length st \<le> 1 then ([slash], []) else (pre, butlast st)
      else if nm = ''.'' then (pre, st)
      else (pre, st @ [nm]))"

text \<open>Every component met on the way is a directory, the last one possibly another file, and
  the result fits the buffer.\<close>

fun walk_ok :: "rp_env \<Rightarrow> string \<times> string list \<Rightarrow> string list \<Rightarrow> bool" where
  "walk_ok e s [] \<longleftrightarrow> True"
| "walk_ok e s (nm # rest) \<longleftrightarrow>
     length (render (rp_step s nm)) < PATH_MAX_RP \<and>
     (nm \<noteq> ''..'' \<and> nm \<noteq> ''.'' \<longrightarrow>
        lstat_of e (render (rp_step s nm)) = Inr FDir \<or>
        lstat_of e (render (rp_step s nm)) = Inr FOther \<and> rest = []) \<and>
     walk_ok e (rp_step s nm) rest"

definition good_name :: "string \<Rightarrow> bool" where
  "good_name n \<longleftrightarrow> n \<noteq> [] \<and> slash \<notin> set n \<and> NUL \<notin> set n"

definition rep :: "buffer \<Rightarrow> int \<Rightarrow> string \<times> string list \<Rightarrow> bool" where
  "rep b lrp s \<longleftrightarrow> (case s of (pre, st) \<Rightarrow> (pre = [] \<or> pre = [slash]) \<and> (\<forall>n \<in> set st. good_name n) \<and>
     holds b (render s) \<and> lrp = int (length (pre @ tails st)) \<and> length (render s) < PATH_MAX_RP)"

lemma tails_snoc [simp]: "tails (st @ [n]) = tails st @ slash # n"
  by (simp add: tails_def)

lemma tails_Nil [simp]: "tails [] = []"
  by (simp add: tails_def)

lemma holds_starts: "holds b (p @ s) \<Longrightarrow> starts b p"
  by (auto simp: holds_def starts_def nth_append)

lemma starts_put_NUL: "starts b p \<Longrightarrow> holds (b(length p := NUL)) p"
  by (auto simp: holds_def starts_def)

lemma rep_starts: "rep b lrp (pre, st) \<Longrightarrow> starts b (pre @ tails st)"
  by (cases "st = []") (auto simp: rep_def holds_def starts_def)

lemma c_string_render:
  "rep b lrp s \<Longrightarrow> c_string (render s)"
proof (cases s)
  case (Pair pre st)
  assume r: "rep b lrp s"
  then have "NUL \<notin> set (tails st)" by (auto simp: Pair rep_def tails_def good_name_def)
  then show ?thesis using r by (auto simp: Pair rep_def c_string_def)
qed

lemma rep_c_str: "rep b lrp s \<Longrightarrow> c_str b = render s"
  using c_str_holds [of b "render s"] c_string_render [of b lrp s] by (auto simp: rep_def split: prod.splits)

text \<open>Appending a component.\<close>

lemma push_rep:
  assumes "rep b lrp (pre, st)" "good_name nm" "length (render (pre, st @ [nm])) < PATH_MAX_RP"
  obtains b1 b2 where "put b lrp slash = Done b1" "put_str b1 (lrp + 1) nm = Done b2"
    "rep b2 (lrp + 1 + int (length nm)) (pre, st @ [nm])"
proof -
  let ?p = "pre @ tails st"
  have lrp: "lrp = int (length ?p)" using assms(1) by (simp add: rep_def)
  have len: "length (?p @ [slash]) + length nm < PATH_MAX_RP" using assms(3) by simp
  have 1: "put b lrp slash = Done (b(length ?p := slash))"
    unfolding lrp put_def using len by (simp del: of_nat_add length_append) simp
  have s: "starts (b(length ?p := slash)) (?p @ [slash])"
    using rep_starts [OF assms(1)] by (rule starts_snoc)
  obtain b2 where b2: "put_str (b(length ?p := slash)) (int (length (?p @ [slash]))) nm = Done b2"
    "holds b2 ((?p @ [slash]) @ nm)"
    using put_str_holds [OF s len] by blast
  have "lrp + 1 = int (length (?p @ [slash]))" using lrp by simp
  then have 2: "put_str (b(length ?p := slash)) (lrp + 1) nm = Done b2" using b2(1) by (simp only:)
  have "rep b2 (lrp + 1 + int (length nm)) (pre, st @ [nm])"
    using assms b2(2) lrp len by (auto simp: rep_def)
  then show ?thesis using that 1 2 by blast
qed

text \<open>Going back to the parent directory.\<close>

lemma pop_rep:
  assumes "rep b lrp (pre, st)"
  defines "q \<equiv> roll_back b (nat (if 1 < lrp then lrp else 1))"
  shows "put b (int q) NUL = Done (b(q := NUL))" "rep (b(q := NUL)) (int q) (rp_step (pre, st) ''..'')"
proof -
  have pre: "pre = [] \<or> pre = [slash]" and h: "holds b (render (pre, st))"
    and lrp: "lrp = int (length (pre @ tails st))" and len: "length (render (pre, st)) < PATH_MAX_RP"
    and gn: "\<forall>n \<in> set st. good_name n"
    using assms(1) by (simp_all add: rep_def)
  have root: "rep (b(1 := NUL)) 1 ([slash], [])" if "b 0 = slash"
    using that by (auto simp: rep_def holds_def)
  have b0: "b 0 = slash"
  proof (cases "st = []")
    case False
    then obtain n st' where "st = n # st'" by (cases st) auto
    then show ?thesis using h pre by (auto simp: holds_def tails_def)
  qed (use h in \<open>simp add: holds_def\<close>)
  have q: "q = (if length st \<le> 1 then 1 else length (pre @ tails (butlast st)))"
  proof (cases st rule: rev_cases)
    case Nil
    then have "nat (if 1 < lrp then lrp else 1) = 1" using lrp pre by auto
    then show ?thesis using Nil by (simp add: q_def numeral_2_eq_2 del: One_nat_def) simp
  next
    case (snoc st' n)
    let ?p = "pre @ tails st'" and ?r = "if st' = [] then 1 else length (pre @ tails st')"
    have n: "good_name n" using gn snoc by simp
    have l: "lrp = int (length ?p + Suc (length n))" using lrp snoc by simp
    have nn: "0 < length n" using n by (simp add: good_name_def)
    have r: "?r = 1 \<or> b ?r = slash" "1 \<le> ?r" "length ?p \<le> ?r" "?r \<le> length ?p + Suc (length n)"
      using h pre nn snoc by (auto simp: holds_def nth_append tails_def neq_Nil_conv)
    have "b i \<noteq> slash" if "?r < i" "i \<le> length ?p + Suc (length n)" for i
    proof (cases "i = length ?p + Suc (length n)")
      case True
      then show ?thesis using h snoc by (simp add: holds_def add.assoc)
    next
      case False
      have "length ?p < i" using that(1) r(3) by linarith
      then obtain j where "i = Suc (length ?p + j)" using less_iff_Suc_add by blast
      then have j: "i = length ?p + Suc j" "j < length n" using False that(2) by auto
      then have "b i = n ! j" using h snoc by (simp add: holds_def nth_append)
      then show ?thesis using nth_mem [OF j(2)] n by (auto simp: good_name_def)
    qed
    then have "roll_back b (length ?p + Suc (length n)) = ?r" using roll_back_stop r by blast
    moreover have "1 < lrp" using l nn by linarith
    then have "nat (if 1 < lrp then lrp else 1) = length ?p + Suc (length n)" using l by simp
    ultimately show ?thesis using snoc by (auto simp: q_def)
  qed
  have step: "starts b (pre @ tails (butlast st))"
    using rep_starts [OF assms(1)] by (cases st rule: rev_cases) (auto simp: starts_def nth_append)
  have fit: "length (pre @ tails (butlast st)) < PATH_MAX_RP"
    using len pre by (cases st rule: rev_cases) auto
  show "put b (int q) NUL = Done (b(q := NUL))" using q fit by (simp add: put_def)
  show "rep (b(q := NUL)) (int q) (rp_step (pre, st) ''..'')"
  proof (cases "length st \<le> 1")
    case True
    then show ?thesis using q root [OF b0] by simp
  next
    case False
    then have "butlast st \<noteq> []" by (metis One_nat_def butlast.simps(1) le_numeral_extra(4) length_butlast
          list.size(3) diff_is_0_eq)
    then show ?thesis using False q fit starts_put_NUL [OF step] pre gn
      by (auto simp: rep_def dest: in_set_butlastD)
  qed
qed

lemma rp_component_step:
  assumes "rep b lrp s" "good_name nm" "walk_ok e s (nm # rest)"
  shows "\<exists>b' lrp'. rp_component e b lrp nm rest = Done (Inr (b', lrp', rest)) \<and>
     c_str b' = render (rp_step s nm) \<and> (rest \<noteq> [] \<longrightarrow> rep b' lrp' (rp_step s nm))"
proof -
  obtain pre st where s: "s = (pre, st)" by fastforce
  consider (up) "nm = ''..''" | (dot) "nm = ''.''" | (name) "nm \<noteq> ''..''" "nm \<noteq> ''.''" by blast
  then show ?thesis
  proof cases
    case up
    note p = pop_rep [OF assms(1) [unfolded s]]
    show ?thesis using p rep_c_str [OF p(2)] up s by (auto simp: rp_component_def Let_def)
  next
    case dot
    then show ?thesis using assms(1) rep_c_str [OF assms(1)] s by (simp add: rp_component_def)
  next
    case name
    then have st: "rp_step s nm = (pre, st @ [nm])" using s by simp
    then have len: "length (render (pre, st @ [nm])) < PATH_MAX_RP"
      and ls: "lstat_of e (render (pre, st @ [nm])) = Inr FDir \<or>
        lstat_of e (render (pre, st @ [nm])) = Inr FOther \<and> rest = []"
      using assms(3) name by (simp_all del: render.simps)
    obtain b1 b2 where b: "put b lrp slash = Done b1" "put_str b1 (lrp + 1) nm = Done b2"
      "rep b2 (lrp + 1 + int (length nm)) (pre, st @ [nm])"
      by (rule push_rep [OF assms(1) [unfolded s] assms(2) len])
    note c = rep_c_str [OF b(3)]
    show ?thesis using ls b name st
      by (auto simp: rp_component_def c simp del: render.simps)
  qed
qed

lemma rp_loop_walk:
  assumes "rep b lrp s" "\<forall>n \<in> set ps. good_name n" "walk_ok e s ps" "length ps < fuel"
  shows "rp_loop fuel e b lrp ps = Done (Inr (render (foldl rp_step s ps)))"
  using assms
proof (induction ps arbitrary: fuel b lrp s)
  case Nil
  then show ?case using rep_c_str by (cases fuel) auto
next
  case (Cons nm rest)
  obtain f where f: "fuel = Suc f" "length rest < f" using Cons.prems(4) by (cases fuel) auto
  obtain b' lrp' where r: "rp_component e b lrp nm rest = Done (Inr (b', lrp', rest))"
    "c_str b' = render (rp_step s nm)" "rest \<noteq> [] \<longrightarrow> rep b' lrp' (rp_step s nm)"
    using rp_component_step [OF Cons.prems(1) _ Cons.prems(3)] Cons.prems(2) by auto
  show ?case
  proof (cases "rest = []")
    case True
    then show ?thesis using r f by (cases f) simp_all
  next
    case False
    then have "rep b' lrp' (rp_step s nm)" using r(3) by simp
    then have "rp_loop f e b' lrp' rest = Done (Inr (render (foldl rp_step (rp_step s nm) rest)))"
      using Cons.IH f(2) Cons.prems(2,3) by simp
    then show ?thesis using r(1) f(1) by simp
  qed
qed

text \<open>The components of a path are non-empty and have no separator.\<close>

lemma part_path_good:
  assumes "part_path p cur = Done ps" "NUL \<notin> set p" "slash \<notin> set cur" "NUL \<notin> set cur"
  shows "\<forall>n \<in> set ps. good_name n"
  using assms
proof (induction p cur arbitrary: ps rule: part_path.induct)
  case (1 cur)
  then show ?case by (auto simp: good_name_def split: if_splits)
next
  case (2 c r cur)
  show ?case
  proof (cases "c = slash")
    case False
    then have "part_path r (cur @ [c]) = Done ps" "\<not> NAME_MAX < length cur"
      using 2(4) by (simp_all split: if_splits)
    then show ?thesis using 2(1) False 2(5-) by simp
  next
    case True
    show ?thesis
    proof (cases "cur = []")
      case c: True
      then show ?thesis using 2(3,4,5) True by simp
    next
      case c: False
      then obtain qs where "part_path r [] = Done qs" "ps = cur # qs" "\<not> NAME_MAX < length cur"
        using 2(4) True by (auto simp: run_bind_Done_iff split: if_splits)
      then show ?thesis using 2(2) True c 2(5-) by (simp add: good_name_def)
    qed
  qed
qed

text \<open>C12: for an absolute path on which every component is a directory (the last one possibly
  another file), \<^verbatim>\<open>my_realpath\<close> returns within one round per component the stack of
  components that remains after every \<^verbatim>\<open>.\<close> is dropped and every \<^verbatim>\<open>..\<close> removes its
  predecessor; when \<^verbatim>\<open>..\<close> leads back to the root, a separator stays in front of all that
  follows.\<close>

theorem realpath_without_links:
  assumes "path \<noteq> []" "hd path = slash" "NUL \<notin> set path" "length path \<le> PATH_MAX_RP"
    "part_path path [] = Done ps" "walk_ok e ([], []) ps" "length ps < fuel"
  shows "my_realpath fuel e (Some path) (Some b) = Done (Inr (render (foldl rp_step ([], []) ps)))"
proof -
  have "rep (b(0 := slash, 1 := NUL)) 0 ([], [])" by (simp add: rep_def holds_def)
  moreover have "\<forall>n \<in> set ps. good_name n" using part_path_good [OF assms(5,3)] by simp
  moreover have "cat path 0 = slash" using assms(1,2) by (simp add: cat_def hd_conv_nth)
  ultimately show ?thesis
    using assms rp_loop_walk by (simp add: my_realpath_def get_part_path_def del: render.simps)
qed

theorem realpath_without_links_witness:
  "my_realpath 6 \<lparr>lstat_of = (\<lambda>p. Inr FDir), readlink_of = (\<lambda>p. Inl EINVAL), getcwd_of = Inl ENOENT,
       rp_malloc = None\<rparr> (Some ''/a/b/../../c'') (Some (\<lambda>i. CHR ''x'')) = Done (Inr ''//c'')"
proof -
  let ?e = "\<lparr>lstat_of = (\<lambda>p. Inr FDir), readlink_of = (\<lambda>p. Inl EINVAL), getcwd_of = Inl ENOENT,
       rp_malloc = None\<rparr>"
  have "my_realpath 6 ?e (Some ''/a/b/../../c'') (Some (\<lambda>i. CHR ''x'')) =
      Done (Inr (render (foldl rp_step ([], []) [''a'', ''b'', ''..'', ''..'', ''c''])))"
    by (rule realpath_without_links) (simp_all add: tails_def)
  then show ?thesis by (simp add: tails_def)
qed

text \<open>a symbolic link of the root directory whose name has two or more characters makes
  \<^verbatim>\<open>my_realpath\<close> write in front of its buffer: the position is moved back by the length of the
  name although it already stands before the name.\<close>

theorem realpath_link_underflow:
  assumes "good_name nm" "2 \<le> length nm" "length nm \<le> NAME_MAX" "nm \<noteq> ''..''"
    "lstat_of e (slash # nm) = Inr FLnk" "readlink_of e (slash # nm) = Inr target"
    "length target < PATH_MAX_RP" "part_path target [] = Done (t # ts)"
  shows "my_realpath (Suc fuel) e (Some (slash # nm)) (Some b) = Faulted OutOfBounds"
proof -
  let ?b = "b(0 := slash, 1 := NUL)"
  have r: "rep ?b 0 ([], [])" by (simp add: rep_def holds_def)
  have dots: "nm \<noteq> ''.''" using assms(2) by auto
  have pp: "part_path s cur = Done [cur @ s]"
    if "slash \<notin> set s" "cur @ s \<noteq> []" "length (cur @ s) \<le> NAME_MAX" for s cur
    using that by (induction s arbitrary: cur) auto
  have parts: "part_path (slash # nm) [] = Done [nm]"
    using pp [of nm "[]"] assms(1,3) by (auto simp: good_name_def)
  obtain b1 b2 where w: "put ?b 0 slash = Done b1" "put_str b1 (0 + 1) nm = Done b2"
    "rep b2 (0 + 1 + int (length nm)) ([], [] @ [nm])"
    by (rule push_rep [OF r assms(1)]) (use assms(3) in \<open>auto simp: tails_def\<close>)
  have c: "c_str b2 = slash # nm" using rep_c_str [OF w(3)] by (simp add: tails_def)
  have "rp_component e ?b 0 nm [] = Faulted OutOfBounds"
    using w(1,2) c assms(2,4-) dots
    by (auto simp: rp_component_def get_part_path_def put_def Let_def)
  moreover have "cat (slash # nm) 0 = slash" by (simp add: cat_def)
  ultimately show ?thesis
    using parts assms(3) by (simp add: my_realpath_def get_part_path_def)
qed

theorem realpath_link_underflow_witness:
  "my_realpath 9 \<lparr>lstat_of = (\<lambda>p. Inr FLnk), readlink_of = (\<lambda>p. Inr ''usr/bin''), getcwd_of = Inl ENOENT,
     rp_malloc = None\<rparr> (Some ''/bin'') (Some (\<lambda>i. CHR ''x'')) = Faulted OutOfBounds"
  using realpath_link_underflow [of "''bin''" "\<lparr>lstat_of = (\<lambda>p. Inr FLnk), readlink_of = (\<lambda>p. Inr ''usr/bin''),
      getcwd_of = Inl ENOENT, rp_malloc = None\<rparr>" "''usr/bin''" "''usr''" "[''bin'']" 8 "\<lambda>i. CHR ''x''"]
  by (simp add: good_name_def)

end
