(* ===== verification/Getcwd.thy ===== *)
theory Getcwd
  imports Prelude
begin

text \<open>
  Section 18, \<^verbatim>\<open>my_getcwd.c\<close>: the working directory found by walking up through \<^verbatim>\<open>..\<close> and
  looking each directory up in its parent. The environment is the directory hierarchy: a
  directory is identified by its device and inode number, and each call that can fail has
  its error. The main theorem shows that the path that is built leads from the root to the
  working directory and that the process returns to where it was.
\<close>

type_synonym ino = "nat \<times> nat"       \<comment> \<open>\<^verbatim>\<open>st_dev\<close> and \<^verbatim>\<open>st_ino\<close>\<close>

record dir_tree =
  dt_parent :: "ino \<Rightarrow> ino"
  dt_entries :: "ino \<Rightarrow> (string \<times> (errno + ino)) list"   \<comment> \<open>name and what \<^verbatim>\<open>stat\<close> of it gives\<close>
  dt_open_err :: "ino \<Rightarrow> errno option"                   \<comment> \<open>\<^verbatim>\<open>opendir("..")\<close>\<close>
  dt_stat_err :: "ino \<Rightarrow> errno option"
  dt_chdir_err :: "ino \<Rightarrow> errno option"
  dt_read_err :: "ino \<Rightarrow> errno option"                   \<comment> \<open>\<^verbatim>\<open>readdir\<close> after the last entry\<close>
  dt_close_err :: "ino \<Rightarrow> errno option"
  dt_back_ok :: bool                                     \<comment> \<open>\<^verbatim>\<open>open(".")\<close> and \<^verbatim>\<open>fchdir\<close>\<close>

abbreviation (input) NAME_SIZE :: nat where "NAME_SIZE \<equiv> 255"

text \<open>
  The loop over the entries of the parent: the name under which \<open>son\<close> is listed, \<open>Inr None\<close>
  when the listing ends without it. A name of 255 characters overruns \<^verbatim>\<open>name[NAME_MAX]\<close>.
\<close>

fun find_entry :: "(string \<times> (errno + ino)) list \<Rightarrow> errno option \<Rightarrow> ino \<Rightarrow> (errno + string option) run" where
  "find_entry [] err son = (case err of Some x \<Rightarrow> Done (Inl x) | None \<Rightarrow> Done (Inr None))"
| "find_entry ((nm, st) # r) err son =
     (if nm = ''.'' \<or> nm = ''..'' then find_entry r err son
      else case st of
        Inl x \<Rightarrow> Done (Inl x)
      | Inr i \<Rightarrow>
          if i = son then
            if NAME_SIZE \<le> length nm then Faulted OutOfBounds else Done (Inr (Some nm))
          else find_entry r err son)"

text \<open>
  The climb: the directory the process is in when the loop ends and the names collected, or
  the error with which the function returns null. \<open>fuel\<close> bounds the depth.
\<close>

primrec climb ::
  "nat \<Rightarrow> dir_tree \<Rightarrow> ino \<Rightarrow> string list \<Rightarrow> ((errno + string list) \<times> ino) run" where
  "climb 0 t d ns = Faulted Endless"
| "climb (Suc fuel) t d ns =
     (case dt_stat_err t d of Some x \<Rightarrow> Done (Inl x, d) | None \<Rightarrow>
      let p = dt_parent t d in
      case dt_stat_err t p of Some x \<Rightarrow> Done (Inl x, d) | None \<Rightarrow>
      if p = d then Done (Inr ns, d)
      else case dt_open_err t p of Some x \<Rightarrow> Done (Inl x, d) | None \<Rightarrow>
      case dt_chdir_err t p of Some x \<Rightarrow> Done (Inl x, d) | None \<Rightarrow>
      run_bind (find_entry (dt_entries t p) (dt_read_err t p) d) (\<lambda>r.
        case r of
          Inl x \<Rightarrow> Done (Inl x, p)
        | Inr found \<Rightarrow>
            case dt_close_err t p of
              Some x \<Rightarrow> Done (Inl x, p)
            | None \<Rightarrow> climb fuel t p (case found of None \<Rightarrow> ns | Some nm \<Rightarrow> nm # ns)))"

text \<open>
  The buffer is written name by name. \<^verbatim>\<open>strlen(path_ptr->name + 1)\<close> is one less than the
  length of the name; \<open>size\<close> is also the capacity of the buffer, so a store at or beyond it
  is a fault. \<open>None\<close> is a buffer nothing was written to.
\<close>

fun build :: "nat \<Rightarrow> string list \<Rightarrow> string option \<Rightarrow> (errno + string option) run" where
  "build sz [] buf = Done (Inr buf)"
| "build sz (nm # ns) buf =
     (let ind = (case buf of None \<Rightarrow> 0 | Some s \<Rightarrow> length s) in
      if sz < ind + (length nm - 1) then Done (Inl ERANGE)
      else if sz \<le> ind + 1 + length nm then Faulted OutOfBounds
      else build sz ns (Some ((case buf of None \<Rightarrow> [] | Some s \<Rightarrow> s) @ slash # nm)))"

text \<open>The result and the directory the process is left in.\<close>

definition my_getcwd ::
  "nat \<Rightarrow> dir_tree \<Rightarrow> ino \<Rightarrow> nat \<Rightarrow> ((errno + string option) \<times> ino) run" where
  "my_getcwd fuel t d sz =
     (if \<not> dt_back_ok t then Exited EXIT_FAILURE
      else run_bind (climb fuel t d []) (\<lambda>(r, d').
        case r of
          Inl x \<Rightarrow> Done (Inl x, d')
        | Inr ns \<Rightarrow> run_bind (build sz ns None) (\<lambda>b.
            case b of Inl x \<Rightarrow> Done (Inl x, d') | Inr buf \<Rightarrow> Done (Inr buf, d))))"

definition getcwd_main :: "nat \<Rightarrow> dir_tree \<Rightarrow> ino \<Rightarrow> string run" where
  "getcwd_main fuel t d =
     run_bind (my_getcwd fuel t d 4096) (\<lambda>(r, d').
       case r of
         Inl x \<Rightarrow> Exited EXIT_FAILURE
       | Inr None \<Rightarrow> Faulted Uninitialised
       | Inr (Some s) \<Rightarrow> Done (s @ [newline]))"

subsection \<open>The path of a directory\<close>

text \<open>What the kernel does with a path: the names are looked up one after the other.\<close>

primrec resolve :: "dir_tree \<Rightarrow> ino \<Rightarrow> string list \<Rightarrow> ino option" where
  "resolve t d [] = Some d"
| "resolve t d (nm # ns) =
     (case map_of (dt_entries t d) nm of Some (Inr i) \<Rightarrow> resolve t i ns | _ \<Rightarrow> None)"

text \<open>A directory whose names are different and shorter than \<^verbatim>\<open>NAME_MAX\<close> and whose entries can
  all be examined.\<close>

definition readable_dir :: "dir_tree \<Rightarrow> ino \<Rightarrow> bool" where
  "readable_dir t p \<longleftrightarrow> distinct (map fst (dt_entries t p)) \<and>
     list_all (\<lambda>(nm, st). length nm < NAME_SIZE \<and> (case st of Inl x \<Rightarrow> False | Inr i \<Rightarrow> True)) (dt_entries t p)"

text \<open>\<open>placed t d n\<close>: \<open>d\<close> is \<open>n\<close> levels below the root, and each directory on the way is listed
  in its parent, under whatever name and at whatever place.\<close>

definition lists :: "dir_tree \<Rightarrow> ino \<Rightarrow> ino \<Rightarrow> bool" where
  "lists t p d \<longleftrightarrow> list_ex (\<lambda>(nm, st). nm \<noteq> ''.'' \<and> nm \<noteq> ''..'' \<and> st = Inr d) (dt_entries t p)"

primrec placed :: "dir_tree \<Rightarrow> ino \<Rightarrow> nat \<Rightarrow> bool" where
  "placed t d 0 \<longleftrightarrow> dt_parent t d = d"
| "placed t d (Suc n) \<longleftrightarrow> dt_parent t d \<noteq> d \<and> readable_dir t (dt_parent t d)
     \<and> lists t (dt_parent t d) d \<and> placed t (dt_parent t d) n"

definition no_errors :: "dir_tree \<Rightarrow> bool" where
  "no_errors t \<longleftrightarrow> dt_back_ok t \<and> (\<forall>d. dt_open_err t d = None \<and> dt_stat_err t d = None \<and>
     dt_chdir_err t d = None \<and> dt_close_err t d = None)"

definition joined :: "string list \<Rightarrow> string" where
  "joined ns = concat (map (\<lambda>n. slash # n) ns)"

lemma no_errorsD:
  assumes "no_errors t"
  shows "dt_back_ok t" "dt_open_err t d = None" "dt_stat_err t d = None" "dt_chdir_err t d = None"
    "dt_close_err t d = None"
  using assms unfolding no_errors_def by blast+

lemma find_entry_names:
  assumes "list_all (\<lambda>(nm, st). length nm < NAME_SIZE \<and> (case st of Inl x \<Rightarrow> False | Inr i \<Rightarrow> True)) es"
    and "list_ex (\<lambda>(nm, st). nm \<noteq> ''.'' \<and> nm \<noteq> ''..'' \<and> st = Inr d) es"
  shows "\<exists>nm. find_entry es err d = Done (Inr (Some nm)) \<and> (nm, Inr d) \<in> set es"
  using assms
proof (induction es)
  case (Cons e es)
  obtain nm st where e: "e = (nm, st)" by (cases e)
  with Cons show ?case
    by (cases "nm = ''.'' \<or> nm = ''..'' \<or> st \<noteq> Inr d") (auto split: sum.splits)
qed simp

lemma resolve_snoc:
  "resolve t r ns = Some p \<Longrightarrow> map_of (dt_entries t p) nm = Some (Inr d) \<Longrightarrow> resolve t r (ns @ [nm]) = Some d"
  by (induction ns arbitrary: r) (auto split: option.splits sum.splits)

lemma climb_placed:
  assumes "no_errors t" "placed t d n"
  shows "\<exists>ns. length ns = n \<and> resolve t ((dt_parent t ^^ n) d) ns = Some d
    \<and> (\<forall>fuel acc. n < fuel \<longrightarrow> (\<exists>r. climb fuel t d acc = Done (Inr (ns @ acc), r)))"
  using assms(2)
proof (induction n arbitrary: d)
  case 0
  have "\<exists>r. climb fuel t d acc = Done (Inr acc, r)" if "0 < fuel" for fuel acc
    using that 0 by (cases fuel) (simp_all add: no_errorsD [OF assms(1)])
  then show ?case by simp
next
  case (Suc n)
  let ?p = "dt_parent t d"
  obtain ns where ns: "length ns = n" "resolve t ((dt_parent t ^^ n) ?p) ns = Some ?p"
      "\<And>fuel acc. n < fuel \<Longrightarrow> \<exists>r. climb fuel t ?p acc = Done (Inr (ns @ acc), r)"
    using Suc.IH [of ?p] Suc.prems by auto
  obtain nm where nm: "find_entry (dt_entries t ?p) (dt_read_err t ?p) d = Done (Inr (Some nm))"
      "(nm, Inr d) \<in> set (dt_entries t ?p)"
    using find_entry_names Suc.prems unfolding placed.simps readable_dir_def lists_def by blast
  have "map_of (dt_entries t ?p) nm = Some (Inr d)"
    using nm(2) Suc.prems by (simp add: readable_dir_def)
  then have "resolve t ((dt_parent t ^^ Suc n) d) (ns @ [nm]) = Some d"
    using resolve_snoc [OF ns(2)] by (simp add: funpow_swap1)
  moreover have "\<exists>r. climb fuel t d acc = Done (Inr ((ns @ [nm]) @ acc), r)" if fu: "Suc n < fuel" for fuel acc
  proof -
    obtain f where f: "fuel = Suc f" "n < f" using fu by (cases fuel) auto
    show ?thesis using ns(3) [OF f(2), of "nm # acc"] nm(1) Suc.prems f(1)
      by (simp add: no_errorsD [OF assms(1)] Let_def)
  qed
  ultimately show ?case using ns(1) by (intro exI [of _ "ns @ [nm]"]) simp
qed

lemma climb_start:
  assumes "no_errors t" "placed t d n" "n < fuel"
  obtains ns r where "length ns = n" "resolve t ((dt_parent t ^^ n) d) ns = Some d"
    "climb fuel t d [] = Done (Inr ns, r)"
  using climb_placed [OF assms(1,2)] assms(3) by (metis append_Nil2)

lemma build_fits:
  "length (case buf of None \<Rightarrow> [] | Some s \<Rightarrow> s) + length (joined ns) < sz \<Longrightarrow>
   build sz ns buf = Done (Inr (if ns = [] then buf
     else Some ((case buf of None \<Rightarrow> [] | Some s \<Rightarrow> s) @ joined ns)))"
  by (induction ns arbitrary: buf) (auto simp: joined_def Let_def split: option.splits)

text \<open>C13: When no call fails, every entry of the directories above can be examined and the path
  fits the buffer, \<^verbatim>\<open>my_getcwd\<close> in a directory \<open>n\<close> levels below the root, listed in its parent
  at any place and under any name, ends after one round per level, leaves the process in the directory it started from and
  returns a path of \<open>n\<close> names that leads from the root to exactly that directory when the names
  are looked up again, and \<^verbatim>\<open>main\<close> prints it; in the root directory it reports success without writing to the buffer,
  and \<^verbatim>\<open>main\<close> prints it uninitialised.\<close>

theorem getcwd_path:
  assumes "no_errors t" "placed t d n" "n < fuel"
  shows "\<exists>ns. length ns = n \<and> resolve t ((dt_parent t ^^ n) d) ns = Some d \<and>
    (length (joined ns) < sz \<longrightarrow>
       my_getcwd fuel t d sz = Done (Inr (if n = 0 then None else Some (joined ns)), d)) \<and>
    (length (joined ns) < 4096 \<longrightarrow>
       getcwd_main fuel t d = (if n = 0 then Faulted Uninitialised else Done (joined ns @ [newline])))"
proof -
  obtain ns r where ns: "length ns = n" "resolve t ((dt_parent t ^^ n) d) ns = Some d"
      "climb fuel t d [] = Done (Inr ns, r)"
    by (rule climb_start [OF assms])
  have b: "dt_back_ok t" by (rule no_errorsD [OF assms(1)])
  have z: "n = 0 \<longleftrightarrow> ns = []" using ns(1) by auto
  have "build s ns None = Done (Inr (if ns = [] then None else Some (joined ns)))"
    if "length (joined ns) < s" for s
    using build_fits [of None ns s] that by simp
  then show ?thesis using b ns
    by (intro exI [of _ ns]) (auto simp: my_getcwd_def getcwd_main_def z joined_def)
qed

definition demo_tree :: dir_tree where
  "demo_tree = \<lparr>dt_parent = (\<lambda>d. if d = (0, 7) then (0, 5) else (0, 2)),
     dt_entries = (\<lambda>d. if d = (0, 2) then [(''.'', Inr (0, 2)), (''..'', Inr (0, 2)), (''home'', Inr (0, 5))]
        else [(''..'', Inr (0, 2)), (''mnt'', Inr (1, 7)), (''joe'', Inr (0, 7))]),
     dt_open_err = (\<lambda>_. None), dt_stat_err = (\<lambda>_. None), dt_chdir_err = (\<lambda>_. None),
     dt_read_err = (\<lambda>_. None), dt_close_err = (\<lambda>_. None), dt_back_ok = True\<rparr>"

lemma demo_resolve:
  "resolve demo_tree (0, 2) [a, b] = Some (0, 7) \<Longrightarrow> a = ''home'' \<and> b = ''joe''"
  by (auto simp: demo_tree_def split: if_splits)

theorem getcwd_path_witness:
  "my_getcwd 3 demo_tree (0, 7) 20 = Done (Inr (Some ''/home/joe''), (0, 7))"
proof -
  obtain ns where ns: "length ns = 2" "resolve demo_tree (0, 2) ns = Some (0, 7)"
      "length (joined ns) < 20 \<longrightarrow> my_getcwd 3 demo_tree (0, 7) 20 = Done (Inr (Some (joined ns)), (0, 7))"
    using getcwd_path [of demo_tree "(0, 7)" 2 3 20]
    by (auto simp: no_errors_def demo_tree_def numeral_2_eq_2 readable_dir_def lists_def)
  then obtain a b where "ns = [a, b]" by (cases ns; cases "tl ns") auto
  then have "ns = [''home'', ''joe'']" using ns(2) demo_resolve by blast
  then show ?thesis using ns(3) by (simp add: joined_def)
qed

text \<open>The guard against a short buffer is off by three: a name as long as the buffer passes it.\<close>

lemma getcwd_guard_too_weak:
  assumes "no_errors t" "placed t d 1"
  shows "\<exists>nm. resolve t (dt_parent t d) [nm] = Some d \<and>
    (0 < length nm \<longrightarrow> my_getcwd (Suc (Suc fuel)) t d (length nm) = Faulted OutOfBounds)"
proof -
  obtain ns r where ns: "length ns = 1" "resolve t (dt_parent t d) ns = Some d"
      "climb (Suc (Suc fuel)) t d [] = Done (Inr ns, r)"
    using climb_start [OF assms, of "Suc (Suc fuel)"] by (auto simp del: climb.simps)
  then obtain nm where "ns = [nm]" by (cases ns) auto
  then show ?thesis using ns
    by (intro exI [of _ nm]) (auto simp: my_getcwd_def no_errorsD [OF assms(1)] simp del: climb.simps)
qed

end
