(* ===== verification/Nftw.thy ===== *)
theory Nftw
  imports Prelude
begin

text \<open>
  Section 18, \<^verbatim>\<open>my_nftw.c\<close>: a file tree walk that calls a user function for every file. The
  environment answers the file system calls by path name; the state has the static variables
  of the function (the level and the device of the start) and the calls made so far. The
  theorems describe the order and the levels of the calls on every file tree, for both
  orders of traversal, and what an unreadable directory does to the walk.
\<close>

datatype fkind = KDir | KLnk | KFile

record fstat =
  fs_kind :: fkind
  fs_dev :: nat

datatype typeflag = FTW_F | FTW_D | FTW_DNR | FTW_NS | FTW_SL | FTW_DP | FTW_SLN

record ftw_flags =
  fl_phys :: bool
  fl_mount :: bool
  fl_depth :: bool
  fl_chdir :: bool

record ftw_call =
  call_path :: string
  call_flag :: typeflag
  call_base :: nat
  call_level :: nat

record ftw_env =
  f_stat :: "string \<Rightarrow> errno + fstat"
  f_lstat :: "string \<Rightarrow> errno + fstat"
  f_opendir :: "string \<Rightarrow> string list option"
  f_readdir_err :: "string \<Rightarrow> bool"
  f_closedir_ok :: "string \<Rightarrow> bool"
  f_enter_ok :: "string \<Rightarrow> bool"          \<comment> \<open>\<^verbatim>\<open>getcwd\<close>, \<^verbatim>\<open>open\<close> and \<^verbatim>\<open>chdir\<close> for \<^verbatim>\<open>FTW_CHDIR\<close>\<close>
  f_leave_ok :: "string \<Rightarrow> bool"          \<comment> \<open>\<^verbatim>\<open>fchdir\<close> back\<close>
  f_func :: "ftw_call \<Rightarrow> int"

record ftw_state =
  ft_level :: nat
  ft_devno :: nat
  ft_calls :: "ftw_call list"

text \<open>\<^verbatim>\<open>while (index > 0 && dirpath[--index] != '/');\<close> leaves the index of the last separator.\<close>

fun base_index :: "string \<Rightarrow> nat \<Rightarrow> nat" where
  "base_index p 0 = 0"
| "base_index p (Suc i) = (if cat p i \<noteq> slash then base_index p i else i)"

definition call_func :: "ftw_env \<Rightarrow> string \<Rightarrow> typeflag \<Rightarrow> nat \<Rightarrow> ftw_state \<Rightarrow> int \<times> ftw_state" where
  "call_func e path tf lvl st =
     (let c = \<lparr>call_path = path, call_flag = tf, call_base = base_index path (length path), call_level = lvl\<rparr>
      in (f_func e c, st\<lparr>ft_calls := ft_calls st @ [c]\<rparr>))"

text \<open>
  The loop over the entries of a directory; \<open>visit\<close> is the recursive call. \<open>Some r\<close> is a
  return from inside the loop. A return between \<^verbatim>\<open>level++\<close> and \<^verbatim>\<open>level--\<close> leaves the level
  incremented.
\<close>

fun walk_entries ::
  "(string \<Rightarrow> ftw_state \<Rightarrow> (int \<times> ftw_state) run) \<Rightarrow> ftw_env \<Rightarrow> ftw_flags \<Rightarrow> string \<Rightarrow> string list
   \<Rightarrow> ftw_state \<Rightarrow> (int option \<times> ftw_state) run" where
  "walk_entries visit e fl dir [] st = Done (if f_readdir_err e dir then Some (- 1) else None, st)"
| "walk_entries visit e fl dir (d # ds) st =
     (if d = ''..'' \<or> d = ''.'' then walk_entries visit e fl dir ds st
      else
        let p = dir @ slash # d in
        if 4096 \<le> length p then Faulted OutOfBounds
        else
          let st1 = st\<lparr>ft_level := ft_level st + 1\<rparr>;
              need = (case (if fl_phys fl then f_lstat e p else f_stat e p) of
                        Inl x \<Rightarrow> False | Inr k \<Rightarrow> fl_chdir fl \<and> fs_kind k = KDir)
          in if need \<and> \<not> f_enter_ok e p then Done (Some (- 1), st1)
             else run_bind (visit p st1) (\<lambda>(r, st2).
               let st3 = st2\<lparr>ft_level := ft_level st2 - 1\<rparr> in
               if need \<and> \<not> f_leave_ok e p then Done (Some (- 1), st3)
               else if r \<noteq> 0 then Done (Some r, st3)
               else walk_entries visit e fl dir ds st3))"

text \<open>The walk; \<open>fuel\<close> bounds the depth. \<^verbatim>\<open>closedir\<close> of a null pointer, which an unreadable
  directory leads to, fails.\<close>

primrec my_nftw :: "nat \<Rightarrow> ftw_env \<Rightarrow> ftw_flags \<Rightarrow> string \<Rightarrow> ftw_state \<Rightarrow> (int \<times> ftw_state) run" where
  "my_nftw 0 e fl path st = Faulted Endless"
| "my_nftw (Suc fuel) e fl path st0 =
     (let lvl = ft_level st0;
          stt = (if fl_phys fl then f_lstat e path else f_stat e path)
      in run_bind
           (if \<not> fl_mount fl then Done (True, st0)
            else case stt of
              Inl x \<Rightarrow> Faulted Uninitialised
            | Inr k \<Rightarrow>
                let st1 = (if lvl = 0 then st0\<lparr>ft_devno := fs_dev k\<rparr> else st0)
                in Done (ft_devno st1 = fs_dev k, st1))
           (\<lambda>(same, st).
         if \<not> same then Done (0, st)
         else case stt of
           Inl x \<Rightarrow> Done (0, snd (call_func e path FTW_NS lvl st))
         | Inr k \<Rightarrow>
             if fs_kind k = KDir then
               let entries = f_opendir e path;
                   tf = (if entries = None then FTW_DNR else FTW_D);
                   (r1, st1) = (if fl_depth fl then (0, st) else call_func e path tf lvl st)
               in if r1 \<noteq> 0 then Done (r1, st1)
                  else run_bind
                    (case entries of
                       None \<Rightarrow> Done (None, st1)
                     | Some ds \<Rightarrow> walk_entries (my_nftw fuel e fl) e fl path ds st1)
                    (\<lambda>(x, st2).
                      case x of
                        Some r \<Rightarrow> Done (r, st2)
                      | None \<Rightarrow>
                          let (r3, st3) = (if fl_depth fl then call_func e path tf lvl st2 else (0, st2))
                          in if r3 \<noteq> 0 then Done (r3, st3)
                             else if entries = None \<or> \<not> f_closedir_ok e path then Done (- 1, st3)
                             else Done (0, st3))
             else if fl_phys fl \<and> fs_kind k = KLnk then
               (case f_stat e path of
                  Inl x \<Rightarrow> if x = ENOENT then Done (0, snd (call_func e path FTW_SLN lvl st)) else Done (- 1, st)
                | Inr k' \<Rightarrow> Done (0, snd (call_func e path FTW_SL lvl st)))
             else Done (0, snd (call_func e path FTW_F lvl st))))"

definition nftw_main :: "nat \<Rightarrow> ftw_env \<Rightarrow> string list \<Rightarrow> (int \<times> ftw_call list) run" where
  "nftw_main fuel e argv =
     (if length argv \<noteq> 2 then Exited EXIT_FAILURE
      else run_bind (my_nftw fuel e \<lparr>fl_phys = False, fl_mount = False, fl_depth = False, fl_chdir = True\<rparr>
                (argv ! 1) \<lparr>ft_level = 0, ft_devno = 0, ft_calls = []\<rparr>)
             (\<lambda>(r, st). Done (0, ft_calls st)))"

text \<open>The line that the callback \<^verbatim>\<open>my_func\<close> prints for a call, with the working directory at that moment; it always returns 0.\<close>

definition pad_right :: "nat \<Rightarrow> string \<Rightarrow> string" where
  "pad_right n s = s @ replicate (n - length s) (CHR '' '')"

primrec flag_text :: "typeflag \<Rightarrow> string" where
  "flag_text FTW_F = ''FTW_F''" | "flag_text FTW_D = ''FTW_D''" | "flag_text FTW_DNR = ''FTW_DNR''" | "flag_text FTW_NS = ''FTW_NS''"
| "flag_text FTW_SL = ''FTW_SL''" | "flag_text FTW_DP = ''FTW_DP''" | "flag_text FTW_SLN = ''FTW_SLN''"

definition my_func :: "string \<Rightarrow> ftw_call \<Rightarrow> int \<times> string" where
  "my_func cwd c = (0, pad_right 50 (call_path c) @ '':'' @ flag_text (call_flag c) @ '':'' @ cwd @ [newline])"

text \<open>The path of a call can be read off its line: the field is filled up with blanks and never cut.\<close>

lemma my_func_path:
  "take (max 50 (length (call_path c))) (snd (my_func cwd c)) = pad_right 50 (call_path c)"
  by (simp add: my_func_def pad_right_def)

subsection \<open>The calls on a file tree\<close>

datatype ftree = File | Dir "(string \<times> ftree) list"

fun depth :: "ftree \<Rightarrow> nat" where
  "depth File = 1"
| "depth (Dir ts) = Suc (foldr max (map (\<lambda>(n, t). depth t) ts) 0)"

definition mk_call :: "string \<Rightarrow> typeflag \<Rightarrow> nat \<Rightarrow> ftw_call" where
  "mk_call path tf lvl =
     \<lparr>call_path = path, call_flag = tf, call_base = base_index path (length path), call_level = lvl\<rparr>"

text \<open>The calls in order: a directory before its entries, or behind them.\<close>

fun calls_of :: "bool \<Rightarrow> string \<Rightarrow> nat \<Rightarrow> ftree \<Rightarrow> ftw_call list" where
  "calls_of post path lvl File = [mk_call path FTW_F lvl]"
| "calls_of post path lvl (Dir ts) =
     (let below = concat (map (\<lambda>(n, t). calls_of post (path @ slash # n) (Suc lvl) t) ts);
          self = [mk_call path FTW_D lvl]
      in if post then below @ self else self @ below)"

text \<open>The tree \<open>t\<close> is what the environment shows under a path; \<open>dots\<close> lists the two special
  entries every directory also has.\<close>

fun shows_tree :: "ftw_env \<Rightarrow> string \<Rightarrow> ftree \<Rightarrow> bool" where
  "shows_tree e path File \<longleftrightarrow> (\<exists>k. f_stat e path = Inr k \<and> fs_kind k = KFile)"
| "shows_tree e path (Dir ts) \<longleftrightarrow>
     (\<exists>k. f_stat e path = Inr k \<and> fs_kind k = KDir) \<and>
     f_opendir e path = Some (''.'' # ''..'' # map fst ts) \<and> \<not> f_readdir_err e path \<and> f_closedir_ok e path \<and>
     (\<forall>(n, t) \<in> set ts. n \<noteq> ''.'' \<and> n \<noteq> ''..'' \<and> length (path @ slash # n) < 4096 \<and>
        shows_tree e (path @ slash # n) t)"

definition plain :: "bool \<Rightarrow> ftw_flags" where
  "plain post = \<lparr>fl_phys = False, fl_mount = False, fl_depth = post, fl_chdir = False\<rparr>"

lemma plain_simps [simp]:
  "\<not> fl_phys (plain post)" "\<not> fl_mount (plain post)" "fl_depth (plain post) = post" "\<not> fl_chdir (plain post)"
  by (simp_all add: plain_def)

lemma call_func_calm:
  "\<forall>c. f_func e c = 0 \<Longrightarrow>
   call_func e path tf lvl st = (0, st\<lparr>ft_calls := ft_calls st @ [mk_call path tf lvl]\<rparr>)"
  by (simp add: call_func_def mk_call_def Let_def)

lemma walk_entries_calm:
  assumes "\<forall>(n, t) \<in> set ts. n \<noteq> ''.'' \<and> n \<noteq> ''..'' \<and> length (path @ slash # n) < 4096"
    and "\<And>n t st. (n, t) \<in> set ts \<Longrightarrow> visit (path @ slash # n) st =
           Done (0, st\<lparr>ft_calls := ft_calls st @ calls_of post (path @ slash # n) (ft_level st) t\<rparr>)"
    and "\<not> f_readdir_err e path"
  shows "walk_entries visit e (plain post) path (map fst ts) st =
    Done (None, st\<lparr>ft_calls := ft_calls st @
      concat (map (\<lambda>(n, t). calls_of post (path @ slash # n) (Suc (ft_level st)) t) ts)\<rparr>)"
  using assms(1,2)
proof (induction ts arbitrary: st)
  case Nil
  then show ?case using assms(3) by simp
next
  case (Cons a ts)
  obtain n t where a: "a = (n, t)" by fastforce
  let ?st = "st\<lparr>ft_calls := ft_calls st @ calls_of post (path @ slash # n) (Suc (ft_level st)) t\<rparr>"
  have n: "n \<noteq> ''.''" "n \<noteq> ''..''" "\<not> 4096 \<le> length (path @ slash # n)" using Cons.prems(1) a by auto
  have v: "visit (path @ slash # n) (st\<lparr>ft_level := ft_level st + 1\<rparr>) =
      Done (0, st\<lparr>ft_level := ft_level st + 1,
        ft_calls := ft_calls st @ calls_of post (path @ slash # n) (Suc (ft_level st)) t\<rparr>)"
    using Cons.prems(2) [of n t] a by simp
  have need: "(case f_stat e (path @ slash # n) of Inl x \<Rightarrow> False
      | Inr k \<Rightarrow> fl_chdir (plain post) \<and> fs_kind k = KDir) = False"
    by (simp split: sum.splits)
  have "walk_entries visit e (plain post) path (map fst (a # ts)) st =
      walk_entries visit e (plain post) path (map fst ts) ?st"
    using n v need by (simp add: a Let_def del: length_append)
  moreover have "walk_entries visit e (plain post) path (map fst ts) ?st =
      Done (None, ?st\<lparr>ft_calls := ft_calls ?st @
        concat (map (\<lambda>(n, t). calls_of post (path @ slash # n) (Suc (ft_level ?st)) t) ts)\<rparr>)"
    by (rule Cons.IH) (use Cons.prems in auto)
  ultimately show ?case by (simp add: a)
qed

lemma depth_entry: "(n, t) \<in> set ts \<Longrightarrow> depth t < depth (Dir ts)"
proof -
  assume "(n, t) \<in> set ts"
  then have "depth t \<le> foldr max (map (\<lambda>(n, t). depth t) ts) 0" by (induction ts) auto
  then show ?thesis by simp
qed

text \<open>C14: on every file tree whose directories can be read, \<^verbatim>\<open>my_nftw\<close> calls the function
  once for every file and directory, each directory before its entries (behind them with
  \<^verbatim>\<open>FTW_DEPTH\<close>), with the depth below the start as the level; it returns 0, leaves the static
  level as it was and recurses no deeper than the tree.\<close>

theorem nftw_visits_tree:
  assumes "\<forall>c. f_func e c = 0" "shows_tree e path t" "depth t \<le> fuel"
  shows "my_nftw fuel e (plain post) path st =
    Done (0, st\<lparr>ft_calls := ft_calls st @ calls_of post path (ft_level st) t\<rparr>)"
  using assms(2,3)
proof (induction fuel arbitrary: path t st)
  case 0
  then show ?case by (cases t) simp_all
next
  case (Suc fuel)
  note call = call_func_calm [OF assms(1)]
  show ?case
  proof (cases t)
    case File
    then show ?thesis using Suc.prems(1) by (auto simp: call)
  next
    case (Dir ts)
    then obtain k where k: "f_stat e path = Inr k" "fs_kind k = KDir"
      and dir: "f_opendir e path = Some (''.'' # ''..'' # map fst ts)" "\<not> f_readdir_err e path" "f_closedir_ok e path"
      and sub: "\<forall>(n, t) \<in> set ts. n \<noteq> ''.'' \<and> n \<noteq> ''..'' \<and> length (path @ slash # n) < 4096 \<and>
        shows_tree e (path @ slash # n) t"
      using Suc.prems(1) by auto
    have "walk_entries (my_nftw fuel e (plain post)) e (plain post) path (map fst ts) s =
        Done (None, s\<lparr>ft_calls := ft_calls s @
          concat (map (\<lambda>(n, t). calls_of post (path @ slash # n) (Suc (ft_level s)) t) ts)\<rparr>)" for s
      by (rule walk_entries_calm) (use sub dir Suc.IH Suc.prems(2) Dir depth_entry in \<open>fastforce+\<close>)
    then show ?thesis using k dir Dir by (cases post) (simp_all add: call Let_def)
  qed
qed

definition demo_fs :: ftw_env where
  "demo_fs = \<lparr>f_stat = (\<lambda>p. if p = ''d'' \<or> p = ''d/s'' then Inr \<lparr>fs_kind = KDir, fs_dev = 0\<rparr>
        else Inr \<lparr>fs_kind = KFile, fs_dev = 0\<rparr>),
     f_lstat = (\<lambda>p. Inl ENOENT),
     f_opendir = (\<lambda>p. if p = ''d'' then Some [''.'', ''..'', ''a'', ''s''] else Some [''.'', ''..'', ''b'']),
     f_readdir_err = (\<lambda>p. False), f_closedir_ok = (\<lambda>p. True), f_enter_ok = (\<lambda>p. True),
     f_leave_ok = (\<lambda>p. True), f_func = (\<lambda>c. 0)\<rparr>"

theorem nftw_visits_tree_witness:
  "\<exists>st. my_nftw 3 demo_fs (plain True) ''d'' \<lparr>ft_level = 0, ft_devno = 0, ft_calls = []\<rparr> = Done (0, st) \<and>
     map call_path (ft_calls st) = [''d/a'', ''d/s/b'', ''d/s'', ''d''] \<and>
     map call_level (ft_calls st) = [1, 2, 1, 0]"
proof -
  have "my_nftw 3 demo_fs (plain True) ''d'' \<lparr>ft_level = 0, ft_devno = 0, ft_calls = []\<rparr> =
    Done (0, \<lparr>ft_level = 0, ft_devno = 0, ft_calls = []\<rparr>\<lparr>ft_calls := [] @
      calls_of True ''d'' 0 (Dir [(''a'', File), (''s'', Dir [(''b'', File)])])\<rparr>)"
    using nftw_visits_tree [of demo_fs "''d''" "Dir [(''a'', File), (''s'', Dir [(''b'', File)])]" 3 True
        "\<lparr>ft_level = 0, ft_devno = 0, ft_calls = []\<rparr>"]
    by (simp add: demo_fs_def)
  then show ?thesis by (simp add: mk_call_def)
qed

text \<open>An unreadable directory is reported to the function and then ends the whole walk with \<open>-1\<close>.\<close>

lemma nftw_unreadable_dir:
  assumes "\<forall>c. f_func e c = 0" "f_stat e path = Inr k" "fs_kind k = KDir" "f_opendir e path = None"
  shows "my_nftw (Suc fuel) e (plain post) path st =
    Done (- 1, st\<lparr>ft_calls := ft_calls st @ [mk_call path FTW_DNR (ft_level st)]\<rparr>)"
  using assms by (cases post) (simp_all add: call_func_calm Let_def)

end
