(* ===== verification/Proc_Status.thy ===== *)
theory Proc_Status
  imports Readline
begin

text \<open>
  Section 12: three programs that read \<^verbatim>\<open>/proc/PID/status\<close>: \<^verbatim>\<open>my_pstree.c\<close> prints the process
  tree, \<^verbatim>\<open>user_process.c\<close> the processes of a user, \<^verbatim>\<open>special_file.c\<close> the processes that have
  a file open. They share the parser (\<^verbatim>\<open>fgets\<close> and two calls of \<^verbatim>\<open>strtok\<close>), which is
  modelled once. \<^verbatim>\<open>/proc\<close> is an argument: the directory entries and the text of each
  status file. The theorems show what the parser extracts from a status file in the format
  of the kernel, and that the lists of the process tree hold exactly the children of each
  process.
\<close>

subsection \<open>\<^verbatim>\<open>fgets\<close>, \<^verbatim>\<open>strtok\<close> and the lines of a status file\<close>

abbreviation (input) tab :: char where "tab \<equiv> CHR 0x09"
abbreviation (input) colon :: char where "colon \<equiv> CHR '':''"

text \<open>\<^verbatim>\<open>strtok\<close>: the first token and the saved rest.\<close>

definition strtok :: "char \<Rightarrow> string \<Rightarrow> (string \<times> string) option" where
  "strtok d s =
     (let s' = dropWhile (\<lambda>c. c = d) s
      in if s' = [] then None
         else Some (takeWhile (\<lambda>c. c \<noteq> d) s', tl (dropWhile (\<lambda>c. c \<noteq> d) s')))"

definition strip_newline :: "string \<Rightarrow> string" where
  "strip_newline b = (if b \<noteq> [] \<and> last b = newline then butlast b else b)"

text \<open>Successive \<^verbatim>\<open>fgets(buffer, 1024, fp)\<close>, each with its newline removed.\<close>

function file_lines :: "string \<Rightarrow> string list" where
  "file_lines s =
     (if s = [] then []
      else let b = take 1023 (first_line s) in strip_newline b # file_lines (drop (length b) s))"
  by pat_completeness auto
termination
  by (relation "measure length") (auto simp: Let_def neq_Nil_conv)

declare file_lines.simps [simp del]

text \<open>Name and value of a line: \<^verbatim>\<open>strtok(buffer, ":")\<close> and then \<^verbatim>\<open>strtok(NULL, "\t")\<close>. A
  token is never empty, so the loop around the second call makes one round.\<close>

definition status_field :: "string \<Rightarrow> (string \<times> string option) option" where
  "status_field line =
     (case strtok colon line of
        None \<Rightarrow> None
      | Some (name, rest) \<Rightarrow> Some (name, map_option fst (strtok tab rest)))"

record proc_info =
  pi_name :: "string option"        \<comment> \<open>\<open>None\<close>: indeterminate\<close>
  pi_pid :: "int option"
  pi_ppid :: "int option"

definition no_info :: proc_info where
  "no_info = \<lparr>pi_name = None, pi_pid = None, pi_ppid = None\<rparr>"

text \<open>\<^verbatim>\<open>strcpy(program_name, value)\<close> into an array of \<^verbatim>\<open>NAME_MAX\<close> characters.\<close>

definition set_name :: "string \<Rightarrow> proc_info \<Rightarrow> proc_info run" where
  "set_name v p = (if 255 \<le> length v then Faulted OutOfBounds else Done (p\<lparr>pi_name := Some v\<rparr>))"

subsection \<open>\<^verbatim>\<open>my_pstree.c\<close>: building the tree\<close>

definition tree_line :: "string \<Rightarrow> proc_info \<Rightarrow> proc_info run" where
  "tree_line line p =
     (case status_field line of
        None \<Rightarrow> Done p
      | Some (name, value) \<Rightarrow>
          if name = ''Name'' then (case value of Some v \<Rightarrow> set_name v p | None \<Rightarrow> Done p)
          else if name = ''Pid'' then (case value of Some v \<Rightarrow> Done (p\<lparr>pi_pid := Some (atoi v)\<rparr>) | None \<Rightarrow> Done p)
          else if name = ''PPid'' then (case value of Some v \<Rightarrow> Done (p\<lparr>pi_ppid := Some (atoi v)\<rparr>) | None \<Rightarrow> Done p)
          else Done p)"

fun tree_lines :: "string list \<Rightarrow> proc_info \<Rightarrow> proc_info run" where
  "tree_lines [] p = Done p"
| "tree_lines (l # ls) p = run_bind (tree_line l p) (tree_lines ls)"

text \<open>The list of parents, each with the list of its children.\<close>

type_synonym ppid_list = "(int \<times> (string \<times> int) list) list"

definition find_ppid :: "int \<Rightarrow> ppid_list \<Rightarrow> (string \<times> int) list option" where
  "find_ppid ppid l = map_of l ppid"

fun add_child :: "int \<Rightarrow> string \<times> int \<Rightarrow> ppid_list \<Rightarrow> ppid_list" where
  "add_child ppid c [] = []"
| "add_child ppid c ((q, cs) # r) = (if q = ppid then (q, c # cs) # r else (q, cs) # add_child ppid c r)"

definition insert_proc :: "string \<Rightarrow> int \<Rightarrow> int \<Rightarrow> ppid_list \<Rightarrow> ppid_list" where
  "insert_proc name pid ppid l =
     (if find_ppid ppid l = None then (ppid, [(name, pid)]) # l else add_child ppid (name, pid) l)"

definition generate_pid_tree :: "string \<Rightarrow> ppid_list \<Rightarrow> ppid_list run" where
  "generate_pid_tree text l =
     run_bind (tree_lines (file_lines text) no_info) (\<lambda>p.
       case (pi_name p, pi_pid p, pi_ppid p) of
         (Some n, Some i, Some q) \<Rightarrow> Done (insert_proc n i q l)
       | _ \<Rightarrow> Faulted Uninitialised)"

subsection \<open>\<^verbatim>\<open>my_pstree.c\<close>: printing the tree\<close>

text \<open>\<^verbatim>\<open>printf("%-11s", ...)\<close> and the other widths.\<close>

definition pad_right :: "nat \<Rightarrow> string \<Rightarrow> string" where
  "pad_right w s = s @ replicate (w - length s) CHR '' ''"

definition pad_left :: "nat \<Rightarrow> string \<Rightarrow> string" where
  "pad_left w s = replicate (w - length s) CHR '' '' @ s"

text \<open>The loop over the children; \<open>sub\<close> prints the subtree of one process.\<close>

fun print_children :: "(int \<Rightarrow> string run) \<Rightarrow> int \<Rightarrow> (string \<times> int) list \<Rightarrow> string run" where
  "print_children sub deepth [] = Done []"
| "print_children sub deepth ((name, pid) # r) =
     run_bind (sub pid) (\<lambda>below.
     run_bind (print_children sub deepth r) (\<lambda>rest.
       Done (pad_right 11 name @ below
         @ (if r \<noteq> [] then concat (replicate (nat (deepth - 1)) ''     |     '') @ ''     |-----'' else [])
         @ rest)))"

primrec print_pid_dfs :: "nat \<Rightarrow> ppid_list \<Rightarrow> (string \<times> int) list option \<Rightarrow> int \<Rightarrow> string run" where
  "print_pid_dfs 0 l hp deepth = Faulted Endless"
| "print_pid_dfs (Suc fuel) l hp deepth =
     (case hp of
        None \<Rightarrow> Done [newline]
      | Some cs \<Rightarrow> print_children (\<lambda>pid. print_pid_dfs fuel l (find_ppid pid l) (deepth + 1)) deepth cs)"

definition print_pid_tree :: "nat \<Rightarrow> ppid_list \<Rightarrow> string run" where
  "print_pid_tree fuel l = print_pid_dfs fuel l (find_ppid 0 l) 0"

definition print_tree :: "ppid_list \<Rightarrow> string" where
  "print_tree l = concat (map (\<lambda>(q, cs). dec_int q @ '':'' @
     concat (map (\<lambda>(n, i). pad_left 15 n @ ''('' @ dec_int i @ '')'') cs) @ [newline]) l)"

subsection \<open>Walking through \<^verbatim>\<open>/proc\<close>\<close>

text \<open>\<^verbatim>\<open>/proc\<close>: the entries in the order of \<^verbatim>\<open>readdir\<close>, and the text of a file if it can be opened.\<close>

record proc_env =
  pe_opendir :: bool
  pe_entries :: "string list"
  pe_status :: "string \<Rightarrow> string option"
  pe_read_err :: bool

definition is_pid_dir :: "string \<Rightarrow> bool" where
  "is_pid_dir d \<longleftrightarrow> is_digit (cat d 0)"

definition status_path :: "string \<Rightarrow> string" where
  "status_path d = ''/proc/'' @ d @ ''/status''"

text \<open>\<^verbatim>\<open>file_name[270]\<close> holds the path of a directory entry of at most 255 characters.\<close>

fun traverse_entries :: "proc_env \<Rightarrow> string list \<Rightarrow> ppid_list \<Rightarrow> ppid_list run" where
  "traverse_entries e [] l = Done l"
| "traverse_entries e (d # ds) l =
     (if is_pid_dir d then
        if 270 \<le> length (status_path d) then Faulted OutOfBounds
        else case pe_status e (status_path d) of
          None \<Rightarrow> traverse_entries e ds l
        | Some text \<Rightarrow> run_bind (generate_pid_tree text l) (traverse_entries e ds)
      else traverse_entries e ds l)"

definition traverse_pid_tree :: "proc_env \<Rightarrow> ppid_list \<Rightarrow> ppid_list run" where
  "traverse_pid_tree e l =
     (if \<not> pe_opendir e then Exited EXIT_FAILURE
      else run_bind (traverse_entries e (pe_entries e) l) (\<lambda>l'.
        if pe_read_err e then Exited EXIT_FAILURE else Done l'))"

definition pstree_main :: "nat \<Rightarrow> proc_env \<Rightarrow> string run" where
  "pstree_main fuel e = run_bind (traverse_pid_tree e []) (print_pid_tree fuel)"

subsection \<open>\<^verbatim>\<open>user_process.c\<close>\<close>

text \<open>\<open>getpwnam\<close> is a map from user names to user ids; \<open>None\<close> stands for the value \<open>-1\<close>.\<close>

definition get_user_uid :: "(string \<rightharpoonup> nat) \<Rightarrow> string option \<Rightarrow> nat option" where
  "get_user_uid pw name = (case name of None \<Rightarrow> None | Some n \<Rightarrow> if n = [] then None else pw n)"

definition as_uid :: "string \<Rightarrow> nat" where
  "as_uid v = nat (atoi v mod 4294967296)"

text \<open>The lines up to the end, or \<open>None\<close> when the process belongs to someone else.\<close>

fun user_lines :: "nat \<Rightarrow> string list \<Rightarrow> proc_info \<Rightarrow> proc_info option run" where
  "user_lines uid [] p = Done (Some p)"
| "user_lines uid (l # ls) p =
     (case status_field l of
        None \<Rightarrow> user_lines uid ls p
      | Some (name, value) \<Rightarrow>
          if name = ''Uid'' then
            (case value of
               Some v \<Rightarrow> if as_uid v \<noteq> uid then Done None else user_lines uid ls p
             | None \<Rightarrow> user_lines uid ls p)
          else if name = ''Name'' then
            (case value of Some v \<Rightarrow> run_bind (set_name v p) (user_lines uid ls) | None \<Rightarrow> user_lines uid ls p)
          else if name = ''Pid'' then
            (case value of
               Some v \<Rightarrow> user_lines uid ls (p\<lparr>pi_pid := Some (atoi v)\<rparr>)
             | None \<Rightarrow> user_lines uid ls p)
          else user_lines uid ls p)"

definition name_pid_line :: "nat \<Rightarrow> proc_info \<Rightarrow> string run" where
  "name_pid_line w p =
     (case (pi_name p, pi_pid p) of
        (Some n, Some i) \<Rightarrow> Done (pad_right w n @ [tab, colon] @ dec_int i @ [newline])
      | _ \<Rightarrow> Faulted Uninitialised)"

definition print_file_message :: "string \<Rightarrow> nat \<Rightarrow> string run" where
  "print_file_message text uid =
     run_bind (user_lines uid (file_lines text) no_info) (\<lambda>r.
       case r of None \<Rightarrow> Done [] | Some p \<Rightarrow> name_pid_line 50 p)"

fun search_entries :: "proc_env \<Rightarrow> nat \<Rightarrow> string list \<Rightarrow> string run" where
  "search_entries e uid [] = Done []"
| "search_entries e uid (d # ds) =
     (if is_pid_dir d then
        if 270 \<le> length (status_path d) then Faulted OutOfBounds
        else case pe_status e (status_path d) of
          None \<Rightarrow> search_entries e uid ds
        | Some text \<Rightarrow>
            run_bind (print_file_message text uid) (\<lambda>out.
            run_bind (search_entries e uid ds) (\<lambda>rest. Done (out @ rest)))
      else search_entries e uid ds)"

definition search_and_print :: "proc_env \<Rightarrow> nat \<Rightarrow> string run" where
  "search_and_print e uid =
     (if \<not> pe_opendir e then Exited EXIT_FAILURE
      else run_bind (search_entries e uid (pe_entries e)) (\<lambda>out.
        if pe_read_err e then Exited EXIT_FAILURE else Done out))"

definition user_process_main :: "proc_env \<Rightarrow> (string \<rightharpoonup> nat) \<Rightarrow> string list \<Rightarrow> string run" where
  "user_process_main e pw argv =
     (if length argv < 2 then Exited EXIT_FAILURE
      else case get_user_uid pw (Some (argv ! 1)) of
        None \<Rightarrow> Exited EXIT_FAILURE
      | Some uid \<Rightarrow> search_and_print e uid)"

subsection \<open>\<^verbatim>\<open>special_file.c\<close>\<close>

fun name_pid_lines :: "string list \<Rightarrow> proc_info \<Rightarrow> proc_info run" where
  "name_pid_lines [] p = Done p"
| "name_pid_lines (l # ls) p =
     (case status_field l of
        None \<Rightarrow> name_pid_lines ls p
      | Some (name, value) \<Rightarrow>
          if name = ''Name'' then
            (case value of Some v \<Rightarrow> run_bind (set_name v p) (name_pid_lines ls) | None \<Rightarrow> name_pid_lines ls p)
          else if name = ''Pid'' then
            (case value of
               Some v \<Rightarrow> name_pid_lines ls (p\<lparr>pi_pid := Some (atoi v)\<rparr>)
             | None \<Rightarrow> name_pid_lines ls p)
          else name_pid_lines ls p)"

definition print_name_pid :: "string \<Rightarrow> string run" where
  "print_name_pid text = run_bind (name_pid_lines (file_lines text) no_info) (name_pid_line 20)"

text \<open>The descriptors of a process: the entries of its \<^verbatim>\<open>fd\<close> directory (\<open>None\<close> when it cannot be
  opened) with the target of each link (\<open>None\<close> when \<^verbatim>\<open>readlink\<close> fails).\<close>

type_synonym fd_dirs = "string \<Rightarrow> (string \<times> string option) list option"

text \<open>\<open>True\<close>: the file was found. A failing \<^verbatim>\<open>readlink\<close> stores at index \<open>-1\<close>.\<close>

fun scan_fds :: "string \<Rightarrow> (string \<times> string option) list \<Rightarrow> bool run" where
  "scan_fds filename [] = Done False"
| "scan_fds filename ((fd, target) # r) =
     (if is_digit (cat fd 0) then
        case target of
          None \<Rightarrow> Faulted OutOfBounds
        | Some t \<Rightarrow> if take 4095 t = filename then Done True else scan_fds filename r
      else scan_fds filename r)"

text \<open>When \<^verbatim>\<open>opendir\<close> fails the program reports it and then calls \<^verbatim>\<open>readdir\<close> on the null pointer.\<close>

fun traverse_fds :: "proc_env \<Rightarrow> fd_dirs \<Rightarrow> string \<Rightarrow> string list \<Rightarrow> string run" where
  "traverse_fds e fds filename [] = Done []"
| "traverse_fds e fds filename (d # ds) =
     (if is_pid_dir d then
        case fds d of
          None \<Rightarrow> Faulted NullDeref
        | Some links \<Rightarrow>
            run_bind (scan_fds filename links) (\<lambda>found.
            run_bind (if \<not> found then Done []
                      else case pe_status e (status_path d) of
                        None \<Rightarrow> Done []
                      | Some text \<Rightarrow> print_name_pid text) (\<lambda>out.
            run_bind (traverse_fds e fds filename ds) (\<lambda>rest. Done (out @ rest))))
      else traverse_fds e fds filename ds)"

definition traverse_proc_pid :: "proc_env \<Rightarrow> fd_dirs \<Rightarrow> string \<Rightarrow> string run" where
  "traverse_proc_pid e fds filename =
     (if \<not> pe_opendir e then Exited EXIT_FAILURE else traverse_fds e fds filename (pe_entries e))"

definition special_file_main :: "proc_env \<Rightarrow> fd_dirs \<Rightarrow> string list \<Rightarrow> string run" where
  "special_file_main e fds argv =
     (if length argv < 2 then Exited EXIT_FAILURE else traverse_proc_pid e fds (argv ! 1))"

subsection \<open>What the parser extracts\<close>

text \<open>A status file in the format of the kernel: one line \<open>key:TABvalue\<close> per field.\<close>

definition status_text :: "(string \<times> string) list \<Rightarrow> string" where
  "status_text fs = concat (map (\<lambda>(k, v). k @ [colon, tab] @ v @ [newline]) fs)"

definition good_field :: "string \<times> string \<Rightarrow> bool" where
  "good_field = (\<lambda>(k, v). k \<noteq> [] \<and> colon \<notin> set k \<and> newline \<notin> set k \<and> newline \<notin> set v \<and>
     (v \<noteq> [] \<longrightarrow> hd v \<noteq> tab) \<and> length k + length v \<le> 1020)"

text \<open>The part of a value the parser looks at.\<close>

definition first_word :: "string \<Rightarrow> string" where
  "first_word v = takeWhile (\<lambda>c. c \<noteq> tab) v"

definition good_status :: "(string \<times> string) list \<Rightarrow> bool" where
  "good_status fs \<longleftrightarrow> (\<forall>f \<in> set fs. good_field f) \<and> distinct (map fst fs) \<and>
     (\<forall>k \<in> {''Name'', ''Pid'', ''PPid''}. \<exists>v. map_of fs k = Some v \<and> v \<noteq> []) \<and>
     length (the (map_of fs ''Name'')) < 255"

lemma status_field_line:
  assumes "good_field (k, v)"
  shows "status_field (k @ [colon, tab] @ v) = Some (k, if v = [] then None else Some (first_word v))"
proof -
  obtain c k' where k: "k = c # k'" "c \<noteq> colon" using assms by (cases k) (auto simp: good_field_def)
  have nc: "\<forall>x \<in> set k. x \<noteq> colon" using assms by (auto simp: good_field_def)
  have "strtok colon (k @ [colon, tab] @ v) = Some (k, tab # v)"
    using k nc by (simp add: strtok_def Let_def takeWhile_append2 dropWhile_append2)
  moreover have "map_option fst (strtok tab (tab # v)) = (if v = [] then None else Some (first_word v))"
    using assms by (cases v) (auto simp: strtok_def Let_def first_word_def good_field_def)
  ultimately show ?thesis by (simp add: status_field_def)
qed

lemma strip_newline_snoc: "strip_newline (a @ [newline]) = a"
  by (simp add: strip_newline_def)

lemma file_lines_text:
  "\<forall>f \<in> set fs. good_field f \<Longrightarrow> file_lines (status_text fs) = map (\<lambda>(k, v). k @ [colon, tab] @ v) fs"
proof (induction fs)
  case Nil
  then show ?case by (simp add: status_text_def file_lines.simps [of "[]"])
next
  case (Cons f fs)
  obtain k v where f: "f = (k, v)" by fastforce
  let ?l = "k @ [colon, tab] @ v" and ?s = "status_text (f # fs)"
  have g: "newline \<notin> set ?l" "length ?l < 1023" "?l \<noteq> []" using Cons.prems f by (auto simp: good_field_def)
  have s: "?s = ?l @ newline # status_text fs" by (simp add: status_text_def f)
  then have fl: "first_line ?s = ?l @ [newline]" using first_line_append_newline [OF g(1)] by simp
  then have t: "take 1023 (first_line ?s) = ?l @ [newline]" using g(2) by simp
  have "file_lines ?s = strip_newline (?l @ [newline]) # file_lines (drop (length (?l @ [newline])) ?s)"
    using s t by (subst file_lines.simps) (simp add: Let_def)
  moreover have "?s = (?l @ [newline]) @ status_text fs" using s by simp
  then have "drop (length (?l @ [newline])) ?s = status_text fs" by (metis append_eq_conv_conj)
  moreover have "file_lines (status_text fs) = map (\<lambda>(k, v). k @ [colon, tab] @ v) fs"
    using Cons by simp
  ultimately show ?case by (simp only: strip_newline_snoc list.map f prod.case)
qed

text \<open>Reading the fields one by one keeps the value of each key.\<close>

definition info_of :: "(string \<times> string) list \<Rightarrow> string \<times> int \<times> int" where
  "info_of fs = (first_word (the (map_of fs ''Name'')), atoi (first_word (the (map_of fs ''Pid''))),
     atoi (first_word (the (map_of fs ''PPid''))))"

lemma length_first_word: "length (first_word v) \<le> length v"
  by (simp add: first_word_def length_takeWhile_le)

lemma tree_lines_fields:
  assumes "\<forall>f \<in> set fs. good_field f" "distinct (map fst fs)"
    "\<forall>v. map_of fs ''Name'' = Some v \<longrightarrow> length v < 255"
    "\<forall>v. map_of fs ''Name'' = Some v \<or> map_of fs ''Pid'' = Some v \<or> map_of fs ''PPid'' = Some v \<longrightarrow> v \<noteq> []"
  shows "\<exists>p'. tree_lines (map (\<lambda>(k, v). k @ [colon, tab] @ v) fs) p = Done p' \<and>
    pi_name p' = (case map_of fs ''Name'' of None \<Rightarrow> pi_name p | Some v \<Rightarrow> Some (first_word v)) \<and>
    pi_pid p' = (case map_of fs ''Pid'' of None \<Rightarrow> pi_pid p | Some v \<Rightarrow> Some (atoi (first_word v))) \<and>
    pi_ppid p' = (case map_of fs ''PPid'' of None \<Rightarrow> pi_ppid p | Some v \<Rightarrow> Some (atoi (first_word v)))"
  using assms
proof (induction fs arbitrary: p)
  case (Cons f fs)
  obtain k v where f: "f = (k, v)" by fastforce
  have fresh: "map_of fs k = None" using Cons.prems(2) f by (simp add: map_of_eq_None_iff)
  have rest: "\<forall>f \<in> set fs. good_field f" "distinct (map fst fs)" using Cons.prems(1,2) by simp_all
  have tail: "map_of fs x = Some y \<Longrightarrow> map_of (f # fs) x = Some y" for x y using fresh f by auto
  have rest2: "\<forall>v. map_of fs ''Name'' = Some v \<longrightarrow> length v < 255"
    "\<forall>v. map_of fs ''Name'' = Some v \<or> map_of fs ''Pid'' = Some v \<or> map_of fs ''PPid'' = Some v \<longrightarrow> v \<noteq> []"
    using Cons.prems(3,4) tail by blast+
  have "good_field (k, v)" using Cons.prems(1) f by simp
  note tl = status_field_line [OF this]
  have head: "map_of (f # fs) k = Some v" using f by simp
  have ih: "\<exists>p'. tree_lines (map (\<lambda>(k, v). k @ [colon, tab] @ v) fs) q = Done p' \<and>
      pi_name p' = (case map_of fs ''Name'' of None \<Rightarrow> pi_name q | Some v \<Rightarrow> Some (first_word v)) \<and>
      pi_pid p' = (case map_of fs ''Pid'' of None \<Rightarrow> pi_pid q | Some v \<Rightarrow> Some (atoi (first_word v))) \<and>
      pi_ppid p' = (case map_of fs ''PPid'' of None \<Rightarrow> pi_ppid q | Some v \<Rightarrow> Some (atoi (first_word v)))" for q
    by (rule Cons.IH [OF rest rest2])
  have first: "tree_lines (map (\<lambda>(k, v). k @ [colon, tab] @ v) (f # fs)) p =
      run_bind (tree_line (k @ [colon, tab] @ v) p) (tree_lines (map (\<lambda>(k, v). k @ [colon, tab] @ v) fs))"
    by (simp add: f)
  consider (n) "k = ''Name''" | (i) "k = ''Pid''" | (q) "k = ''PPid''"
    | (o) "k \<noteq> ''Name''" "k \<noteq> ''Pid''" "k \<noteq> ''PPid''" by blast
  then show ?case
  proof cases
    case n
    then have "v \<noteq> []" "\<not> 255 \<le> length (first_word v)"
      using Cons.prems(3,4) head length_first_word [of v] by auto
    then have "tree_line (k @ [colon, tab] @ v) p = Done (p\<lparr>pi_name := Some (first_word v)\<rparr>)"
      using tl n by (simp add: tree_line_def set_name_def)
    then show ?thesis
      unfolding first using ih [of "p\<lparr>pi_name := Some (first_word v)\<rparr>"] fresh n by (simp add: f cong: option.case_cong)
  next
    case i
    then have "v \<noteq> []" using Cons.prems(4) head by auto
    then have "tree_line (k @ [colon, tab] @ v) p = Done (p\<lparr>pi_pid := Some (atoi (first_word v))\<rparr>)"
      using tl i by (simp add: tree_line_def)
    then show ?thesis
      unfolding first using ih [of "p\<lparr>pi_pid := Some (atoi (first_word v))\<rparr>"] fresh i by (simp add: f cong: option.case_cong)
  next
    case q
    then have "v \<noteq> []" using Cons.prems(4) head by auto
    then have "tree_line (k @ [colon, tab] @ v) p = Done (p\<lparr>pi_ppid := Some (atoi (first_word v))\<rparr>)"
      using tl q by (simp add: tree_line_def)
    then show ?thesis
      unfolding first using ih [of "p\<lparr>pi_ppid := Some (atoi (first_word v))\<rparr>"] fresh q by (simp add: f cong: option.case_cong)
  next
    case o
    then have "tree_line (k @ [colon, tab] @ v) p = Done p" using tl by (simp add: tree_line_def)
    then show ?thesis unfolding first using ih [of p] o by (simp add: f)
  qed
qed simp

lemma generate_pid_tree_status:
  assumes "good_status fs" "info_of fs = (n, i, q)"
  shows "generate_pid_tree (status_text fs) l = Done (insert_proc n i q l)"
proof -
  have g: "\<forall>f \<in> set fs. good_field f" "distinct (map fst fs)" using assms(1) by (simp_all add: good_status_def)
  obtain nv iv qv where v: "map_of fs ''Name'' = Some nv" "map_of fs ''Pid'' = Some iv" "map_of fs ''PPid'' = Some qv"
    "nv \<noteq> []" "iv \<noteq> []" "qv \<noteq> []" "length nv < 255"
    using assms(1) by (auto simp: good_status_def)
  obtain p' where "tree_lines (map (\<lambda>(k, v). k @ [colon, tab] @ v) fs) no_info = Done p'"
    "pi_name p' = Some (first_word nv)" "pi_pid p' = Some (atoi (first_word iv))"
    "pi_ppid p' = Some (atoi (first_word qv))"
    using tree_lines_fields [OF g, of no_info] v by auto
  then show ?thesis
    using assms(2) v by (simp add: generate_pid_tree_def file_lines_text [OF g(1)] info_of_def)
qed

subsection \<open>The lists of children\<close>

lemma map_of_add_child:
  "map_of l ppid = Some cs \<Longrightarrow>
   map_of (add_child ppid c l) q = (if q = ppid then Some (c # cs) else map_of l q)"
  by (induction ppid c l rule: add_child.induct) (auto split: if_splits)

lemma find_insert_proc:
  "find_ppid q (insert_proc n i p l) =
     (if q = p then Some ((n, i) # (case find_ppid p l of None \<Rightarrow> [] | Some cs \<Rightarrow> cs)) else find_ppid q l)"
  by (auto simp: insert_proc_def find_ppid_def map_of_add_child split: option.splits)

text \<open>The processes with parent \<open>q\<close>, the one found last first.\<close>

definition children :: "int \<Rightarrow> (string \<times> int \<times> int) list \<Rightarrow> (string \<times> int) list" where
  "children q ps = rev (map (\<lambda>(n, i, p). (n, i)) (filter (\<lambda>(n, i, p). p = q) ps))"

lemma traverse_entries_children:
  assumes "\<forall>d \<in> set ds. is_pid_dir d \<longrightarrow> length (status_path d) < 270 \<and>
      pe_status e (status_path d) = Some (status_text (fld d)) \<and> good_status (fld d)"
  shows "\<exists>l'. traverse_entries e ds l = Done l' \<and>
    (\<forall>q. (case find_ppid q l' of None \<Rightarrow> [] | Some cs \<Rightarrow> cs) =
      children q (map (\<lambda>d. info_of (fld d)) (filter is_pid_dir ds)) @ (case find_ppid q l of None \<Rightarrow> [] | Some cs \<Rightarrow> cs))"
  using assms
proof (induction ds arbitrary: l)
  case Nil
  then show ?case by (simp add: children_def)
next
  case (Cons d ds)
  show ?case
  proof (cases "is_pid_dir d")
    case False
    then show ?thesis using Cons by simp
  next
    case True
    then have d: "length (status_path d) < 270" "pe_status e (status_path d) = Some (status_text (fld d))"
      "good_status (fld d)" using Cons.prems by auto
    obtain n i p where info: "info_of (fld d) = (n, i, p)" by (metis prod_cases3)
    let ?l = "insert_proc n i p l"
    obtain l' where l': "traverse_entries e ds ?l = Done l'"
      "\<forall>q. (case find_ppid q l' of None \<Rightarrow> [] | Some cs \<Rightarrow> cs) =
        children q (map (\<lambda>d. info_of (fld d)) (filter is_pid_dir ds)) @ (case find_ppid q ?l of None \<Rightarrow> [] | Some cs \<Rightarrow> cs)"
      using Cons.IH [of ?l] Cons.prems by auto
    have "traverse_entries e (d # ds) l = Done l'"
      using True d l'(1) generate_pid_tree_status [OF d(3) info] by simp
    then show ?thesis using l'(2) True info by (auto simp: children_def find_insert_proc)
  qed
qed

text \<open>C15: when every status file has the format of the kernel, the process tree built from
  \<^verbatim>\<open>/proc\<close> has for each parent exactly its children, with the name and the process id of
  their status files, whatever other fields and directory entries there are.\<close>

theorem pstree_lists_children:
  assumes "pe_opendir e" "\<not> pe_read_err e"
    "\<forall>d \<in> set (pe_entries e). is_pid_dir d \<longrightarrow> length (status_path d) < 270 \<and>
      pe_status e (status_path d) = Some (status_text (fld d)) \<and> good_status (fld d)"
  shows "\<exists>l. traverse_pid_tree e [] = Done l \<and>
    (\<forall>q. (case find_ppid q l of None \<Rightarrow> [] | Some cs \<Rightarrow> cs) =
      children q (map (\<lambda>d. info_of (fld d)) (filter is_pid_dir (pe_entries e))))"
  using traverse_entries_children [OF assms(3), of "[]"] assms(1,2)
  by (auto simp: traverse_pid_tree_def find_ppid_def)

definition demo_fields :: "string \<Rightarrow> (string \<times> string) list" where
  "demo_fields d =
     (if d = ''1'' then [(''Name'', ''init''), (''Umask'', ''0022''), (''Pid'', ''1''), (''PPid'', ''0'')]
      else [(''Name'', ''sh''), (''Pid'', ''7''), (''PPid'', ''1''), (''Uid'', ''0'')])"

definition demo_proc :: proc_env where
  "demo_proc = \<lparr>pe_opendir = True, pe_entries = [''self'', ''1'', ''7''],
     pe_status = (\<lambda>p. if p = ''/proc/1/status'' then Some (status_text (demo_fields ''1''))
        else Some (status_text (demo_fields ''7''))), pe_read_err = False\<rparr>"

lemma demo_numbers: "atoi ''0'' = 0" "atoi ''1'' = 1" "atoi ''7'' = 7"
proof -
  have "dec_int 0 = ''0''" "dec_int 1 = ''1''" "dec_int 7 = ''7''"
    by (simp_all add: dec_int_def dec_nat.simps digit_char_values)
  then show "atoi ''0'' = 0" "atoi ''1'' = 1" "atoi ''7'' = 7"
    using atoi_dec_int [of 0] atoi_dec_int [of 1] atoi_dec_int [of 7] by (simp_all add: is_int32_def)
qed

lemma demo_status: "good_status (demo_fields d)" "info_of (demo_fields ''1'') = (''init'', 1, 0)"
  "info_of (demo_fields ''7'') = (''sh'', 7, 1)"
  by (auto simp: good_status_def demo_fields_def good_field_def info_of_def first_word_def demo_numbers)

theorem pstree_lists_children_witness:
  "\<exists>l. traverse_pid_tree demo_proc [] = Done l \<and>
    (case find_ppid 0 l of None \<Rightarrow> [] | Some cs \<Rightarrow> cs) = [(''init'', 1)] \<and>
    (case find_ppid 1 l of None \<Rightarrow> [] | Some cs \<Rightarrow> cs) = [(''sh'', 7)]"
proof -
  have dirs: "filter is_pid_dir (pe_entries demo_proc) = [''1'', ''7'']"
    by (simp add: demo_proc_def is_pid_dir_def is_digit_def cat_def)
  have "pe_opendir demo_proc" "\<not> pe_read_err demo_proc" by (simp_all add: demo_proc_def)
  moreover have "\<forall>d \<in> set (pe_entries demo_proc). is_pid_dir d \<longrightarrow> length (status_path d) < 270 \<and>
      pe_status demo_proc (status_path d) = Some (status_text (demo_fields d)) \<and> good_status (demo_fields d)"
    using demo_status(1)
    by (simp add: demo_proc_def status_path_def is_pid_dir_def is_digit_def cat_def)
  ultimately obtain l where "traverse_pid_tree demo_proc [] = Done l"
    "\<forall>q. (case find_ppid q l of None \<Rightarrow> [] | Some cs \<Rightarrow> cs) =
      children q (map (\<lambda>d. info_of (demo_fields d)) (filter is_pid_dir (pe_entries demo_proc)))"
    using pstree_lists_children by blast
  then show ?thesis by (simp add: dirs demo_status children_def)
qed

text \<open>\<^verbatim>\<open>special_file\<close> crashes at the first process whose descriptor directory it may not
  open, so without privileges no process behind it is examined.\<close>

theorem special_file_unreadable_process:
  assumes "pe_opendir e" "pe_entries e = ds @ d # ds'" "is_pid_dir d" "fds d = None"
    "\<forall>x \<in> set ds. \<not> is_pid_dir x \<or> fds x = Some []"
  shows "special_file_main e fds [prog, file] = Faulted NullDeref"
proof -
  have "traverse_fds e fds file (ds @ d # ds') = Faulted NullDeref"
    using assms(3-5) by (induction ds) auto
  then show ?thesis using assms(1,2) by (simp add: special_file_main_def traverse_proc_pid_def)
qed

theorem special_file_unreadable_process_witness:
  "special_file_main demo_proc (\<lambda>d. None) [''special_file'', ''/etc/passwd''] = Faulted NullDeref"
  by (rule special_file_unreadable_process [where ds = "[''self'']" and d = "''1''" and ds' = "[''7'']"])
    (simp_all add: demo_proc_def is_pid_dir_def is_digit_def cat_def)

end
