(* ===== verification/Facl.thy ===== *)
theory Facl
  imports C_Lib
begin

text \<open>
  Section 17, \<^verbatim>\<open>my_getfacl.c\<close>: the permissions a user or a group has in the access control
  list of a file. The list comes from \<^verbatim>\<open>libacl\<close> and is an argument of the model: its
  entries in order, each with what the library calls on it return. The theorem states which
  permissions are printed for every list, including the lists for which the program uses
  permissions it never fetched.
\<close>

subsection \<open>Access control lists\<close>

datatype acl_tag = ACL_USER_OBJ | ACL_USER | ACL_GROUP_OBJ | ACL_GROUP | ACL_MASK | ACL_OTHER

record perms =
  perm_r :: bool
  perm_w :: bool
  perm_x :: bool

text \<open>\<open>None\<close> stands for a failing library call.\<close>

record acl_entry =
  ae_tag :: "acl_tag option"
  ae_qual :: "nat option"
  ae_perm :: "perms option"
  ae_free_ok :: bool

datatype file_type = IsReg | IsDir | IsOtherType

record facl_env =
  fa_stat :: "(file_type \<times> nat \<times> nat) option"      \<comment> \<open>type, owner and group\<close>
  fa_acl :: "acl_entry list option"
  fa_end_ok :: bool                                  \<comment> \<open>\<^verbatim>\<open>acl_get_entry\<close> ends with 0, not \<open>-1\<close>\<close>
  fa_users :: "string \<rightharpoonup> nat"
  fa_groups :: "string \<rightharpoonup> nat"

subsection \<open>Printing permissions\<close>

text \<open>\<^verbatim>\<open>acl_get_perm\<close> on a permission set that was fetched does not fail.\<close>

definition perm_convert :: "perms \<Rightarrow> perms option \<Rightarrow> string" where
  "perm_convert p msk =
     (let ok = (\<lambda>get. get p \<and> (case msk of None \<Rightarrow> True | Some m \<Rightarrow> get m))
      in [if ok perm_r then CHR ''r'' else CHR ''-'', if ok perm_w then CHR ''w'' else CHR ''-'',
          if ok perm_x then CHR ''x'' else CHR ''-''])"

text \<open>\<^verbatim>\<open>print_perm\<close>; \<open>msk\<close> is \<open>None\<close> when \<^verbatim>\<open>mask_exist\<close> is 0. The label is printed in a
  field of 20 characters.\<close>

definition print_perm :: "perms \<Rightarrow> perms option \<Rightarrow> string" where
  "print_perm p msk =
     perm_convert p None
     @ (case msk of None \<Rightarrow> [] | Some m \<Rightarrow> ''         #effictive:'' @ perm_convert p (Some m))
     @ [newline]"

subsection \<open>Names and numbers\<close>

text \<open>\<^verbatim>\<open>strtol(s, &endptr, 10)\<close>: the value and what \<^verbatim>\<open>endptr\<close> points to.\<close>

definition strtol_end :: "string \<Rightarrow> int \<times> string" where
  "strtol_end s =
     (let t = dropWhile is_space s;
          neg = (t \<noteq> [] \<and> hd t = CHR ''-'');
          u = (if t \<noteq> [] \<and> (hd t = CHR ''-'' \<or> hd t = CHR ''+'') then tl t else t);
          ds = takeWhile is_digit u;
          v = int (foldl (\<lambda>a c. a * 10 + digit_val c) 0 ds)
      in if ds = [] then (0, s) else (clamp_long (if neg then - v else v), dropWhile is_digit u))"

text \<open>The conversion both lookups share; an id has 32 bits.\<close>

definition id_from_name :: "(string \<rightharpoonup> nat) \<Rightarrow> string option \<Rightarrow> nat run" where
  "id_from_name db name =
     (case name of
        None \<Rightarrow> Exited EXIT_FAILURE
      | Some n \<Rightarrow>
          if n = [] then Exited EXIT_FAILURE
          else if snd (strtol_end n) = [] then Done (nat (fst (strtol_end n) mod 4294967296))
          else case db n of None \<Rightarrow> Exited EXIT_FAILURE | Some i \<Rightarrow> Done i)"

definition uid_from_username :: "facl_env \<Rightarrow> string option \<Rightarrow> nat run" where
  "uid_from_username e n = id_from_name (fa_users e) n"

definition gid_from_groupname :: "facl_env \<Rightarrow> string option \<Rightarrow> nat run" where
  "gid_from_groupname e n = id_from_name (fa_groups e) n"

subsection \<open>The loop over the entries\<close>

record facl_state =
  fs_perm :: "perms option"       \<comment> \<open>\<open>None\<close>: indeterminate\<close>
  fs_other :: "perms option"
  fs_mask :: "perms option"
  fs_exist :: bool
  fs_mask_exist :: bool

definition fetch_perm :: "acl_entry \<Rightarrow> (perms \<Rightarrow> facl_state) \<Rightarrow> facl_state run" where
  "fetch_perm a f = (case ae_perm a of None \<Rightarrow> Exited EXIT_FAILURE | Some p \<Rightarrow> Done (f p))"

text \<open>A named entry: the permissions are fetched only when the id matches, but the flag is set
  in any case.\<close>

definition named_entry :: "nat \<Rightarrow> acl_entry \<Rightarrow> facl_state \<Rightarrow> facl_state run" where
  "named_entry ident a st =
     (case ae_qual a of
        None \<Rightarrow> Exited EXIT_FAILURE
      | Some q \<Rightarrow>
          run_bind (if q = ident then fetch_perm a (\<lambda>p. st\<lparr>fs_perm := Some p\<rparr>) else Done st) (\<lambda>st'.
            if \<not> ae_free_ok a then Exited EXIT_FAILURE else Done (st'\<lparr>fs_exist := True\<rparr>)))"

definition facl_entry :: "bool \<Rightarrow> bool \<Rightarrow> nat \<Rightarrow> acl_entry \<Rightarrow> facl_state \<Rightarrow> facl_state run" where
  "facl_entry is_user own ident a st =
     (case ae_tag a of
        None \<Rightarrow> Exited EXIT_FAILURE
      | Some tag \<Rightarrow>
          if tag = ACL_USER_OBJ \<and> is_user \<and> own then
            fetch_perm a (\<lambda>p. st\<lparr>fs_perm := Some p, fs_exist := True\<rparr>)
          else if tag = ACL_USER \<and> is_user then named_entry ident a st
          else if tag = ACL_GROUP_OBJ \<and> \<not> is_user \<and> own then
            fetch_perm a (\<lambda>p. st\<lparr>fs_perm := Some p, fs_exist := True\<rparr>)
          else if tag = ACL_GROUP \<and> \<not> is_user then named_entry ident a st
          else if tag = ACL_MASK then
            fetch_perm a (\<lambda>p. st\<lparr>fs_mask := Some p, fs_mask_exist := True\<rparr>)
          else if tag = ACL_OTHER then fetch_perm a (\<lambda>p. st\<lparr>fs_other := Some p\<rparr>)
          else Done st)"

fun facl_loop :: "bool \<Rightarrow> bool \<Rightarrow> nat \<Rightarrow> acl_entry list \<Rightarrow> facl_state \<Rightarrow> facl_state run" where
  "facl_loop is_user own ident [] st = Done st"
| "facl_loop is_user own ident (a # as) st =
     run_bind (facl_entry is_user own ident a st) (facl_loop is_user own ident as)"

definition facl_start :: facl_state where
  "facl_start = \<lparr>fs_perm = None, fs_other = None, fs_mask = None, fs_exist = False, fs_mask_exist = False\<rparr>"

text \<open>The output at the end of \<^verbatim>\<open>main\<close>.\<close>

definition facl_output :: "bool \<Rightarrow> bool \<Rightarrow> facl_state \<Rightarrow> string run" where
  "facl_output is_user own st =
     (if fs_exist st then
        case fs_perm st of
          None \<Rightarrow> Faulted Uninitialised
        | Some p \<Rightarrow> Done (print_perm p (if is_user \<and> own \<or> \<not> fs_mask_exist st then None else fs_mask st))
      else
        case fs_other st of None \<Rightarrow> Faulted Uninitialised | Some p \<Rightarrow> Done (print_perm p None))"

definition getfacl_main :: "facl_env \<Rightarrow> string list \<Rightarrow> string run" where
  "getfacl_main e argv =
     (if length argv \<noteq> 3 \<or> (argv ! 1 \<noteq> ''u'' \<and> argv ! 1 \<noteq> ''g'') then Exited EXIT_FAILURE
      else case fa_stat e of
        None \<Rightarrow> Exited EXIT_FAILURE
      | Some (ty, owner, grp) \<Rightarrow>
          if ty = IsOtherType then Exited EXIT_FAILURE
          else
            let is_user = (argv ! 1 = ''u'') in
            run_bind (if is_user then uid_from_username e (Some (argv ! 2))
                      else gid_from_groupname e (Some (argv ! 2))) (\<lambda>ident.
            let own = (ident = (if is_user then owner else grp)) in
            case fa_acl e of
              None \<Rightarrow> Exited EXIT_FAILURE
            | Some as \<Rightarrow>
                run_bind (facl_loop is_user own ident as facl_start) (\<lambda>st.
                  if \<not> fa_end_ok e then Exited EXIT_FAILURE else facl_output is_user own st)))"

subsection \<open>Which permissions are printed\<close>

definition named_tag :: "bool \<Rightarrow> acl_tag" where
  "named_tag is_user = (if is_user then ACL_USER else ACL_GROUP)"

definition owner_tag :: "bool \<Rightarrow> acl_tag" where
  "owner_tag is_user = (if is_user then ACL_USER_OBJ else ACL_GROUP_OBJ)"

text \<open>Entries the program takes for an answer, and entries that are one.\<close>

definition seen :: "bool \<Rightarrow> bool \<Rightarrow> acl_entry \<Rightarrow> bool" where
  "seen is_user own a \<longleftrightarrow> ae_tag a = Some (owner_tag is_user) \<and> own \<or> ae_tag a = Some (named_tag is_user)"

definition applies :: "bool \<Rightarrow> bool \<Rightarrow> nat \<Rightarrow> acl_entry \<Rightarrow> bool" where
  "applies is_user own ident a \<longleftrightarrow> ae_tag a = Some (owner_tag is_user) \<and> own \<or>
     ae_tag a = Some (named_tag is_user) \<and> ae_qual a = Some ident"

text \<open>The library calls on every entry succeed.\<close>

definition entry_ok :: "acl_entry \<Rightarrow> bool" where
  "entry_ok a \<longleftrightarrow> ae_tag a \<noteq> None \<and> ae_qual a \<noteq> None \<and> ae_perm a \<noteq> None \<and> ae_free_ok a"

definition last_perm :: "(acl_entry \<Rightarrow> bool) \<Rightarrow> acl_entry list \<Rightarrow> perms option \<Rightarrow> perms option" where
  "last_perm P as d = (if filter P as = [] then d else ae_perm (last (filter P as)))"

lemma last_perm_Nil [simp]: "last_perm P [] d = d"
  by (simp add: last_perm_def)

lemma last_perm_Cons: "last_perm P (a # as) d = last_perm P as (if P a then ae_perm a else d)"
  by (simp add: last_perm_def)

lemma facl_entry_ok:
  assumes "entry_ok a"
  shows "\<exists>st'. facl_entry is_user own ident a st = Done st' \<and>
    fs_exist st' = (fs_exist st \<or> seen is_user own a) \<and>
    fs_perm st' = (if applies is_user own ident a then ae_perm a else fs_perm st) \<and>
    fs_other st' = (if ae_tag a = Some ACL_OTHER then ae_perm a else fs_other st) \<and>
    fs_mask st' = (if ae_tag a = Some ACL_MASK then ae_perm a else fs_mask st) \<and>
    fs_mask_exist st' = (fs_mask_exist st \<or> ae_tag a = Some ACL_MASK)"
proof -
  obtain tag q p where a: "ae_tag a = Some tag" "ae_qual a = Some q" "ae_perm a = Some p" "ae_free_ok a"
    using assms by (auto simp: entry_ok_def)
  show ?thesis
    by (cases tag; cases is_user; cases own)
      (simp_all add: a facl_entry_def named_entry_def fetch_perm_def seen_def applies_def owner_tag_def named_tag_def)
qed

lemma facl_loop_ok:
  assumes "\<forall>a \<in> set as. entry_ok a"
  shows "\<exists>st'. facl_loop is_user own ident as st = Done st' \<and>
    fs_exist st' = (fs_exist st \<or> (\<exists>a \<in> set as. seen is_user own a)) \<and>
    fs_perm st' = last_perm (applies is_user own ident) as (fs_perm st) \<and>
    fs_other st' = last_perm (\<lambda>a. ae_tag a = Some ACL_OTHER) as (fs_other st) \<and>
    fs_mask st' = last_perm (\<lambda>a. ae_tag a = Some ACL_MASK) as (fs_mask st) \<and>
    fs_mask_exist st' = (fs_mask_exist st \<or> (\<exists>a \<in> set as. ae_tag a = Some ACL_MASK))"
  using assms
proof (induction as arbitrary: st)
  case (Cons a as)
  then obtain st1 where 1: "facl_entry is_user own ident a st = Done st1"
    "fs_exist st1 = (fs_exist st \<or> seen is_user own a)"
    "fs_perm st1 = (if applies is_user own ident a then ae_perm a else fs_perm st)"
    "fs_other st1 = (if ae_tag a = Some ACL_OTHER then ae_perm a else fs_other st)"
    "fs_mask st1 = (if ae_tag a = Some ACL_MASK then ae_perm a else fs_mask st)"
    "fs_mask_exist st1 = (fs_mask_exist st \<or> ae_tag a = Some ACL_MASK)"
    using facl_entry_ok [of a is_user own ident st] by auto
  have ok: "\<forall>a \<in> set as. entry_ok a" using Cons.prems by simp
  obtain st2 where 2: "facl_loop is_user own ident as st1 = Done st2"
    "fs_exist st2 = (fs_exist st1 \<or> (\<exists>a \<in> set as. seen is_user own a))"
    "fs_perm st2 = last_perm (applies is_user own ident) as (fs_perm st1)"
    "fs_other st2 = last_perm (\<lambda>a. ae_tag a = Some ACL_OTHER) as (fs_other st1)"
    "fs_mask st2 = last_perm (\<lambda>a. ae_tag a = Some ACL_MASK) as (fs_mask st1)"
    "fs_mask_exist st2 = (fs_mask_exist st1 \<or> (\<exists>a \<in> set as. ae_tag a = Some ACL_MASK))"
    using Cons.IH [OF ok, of st1] by blast
  show ?case using 1 2 by (intro exI [of _ st2]) (simp add: last_perm_Cons)
qed simp

text \<open>on a list whose entries can all be read and that has an entry for others, the program
  prints the permissions of the owner entry or of the entry named after the user or group
  (restricted by the mask, except for the owner), and those of others when the list has no
  named entries at all; when it has named entries but none for the one asked for, it prints
  permissions that were never fetched.\<close>

theorem getfacl_prints:
  assumes "length argv = 3" "argv ! 1 = (if is_user then ''u'' else ''g'')"
    "fa_stat e = Some (ty, owner, grp)" "ty \<noteq> IsOtherType"
    "id_from_name (if is_user then fa_users e else fa_groups e) (Some (argv ! 2)) = Done ident"
    "own \<longleftrightarrow> ident = (if is_user then owner else grp)"
    "fa_acl e = Some as" "fa_end_ok e" "\<forall>a \<in> set as. entry_ok a" "\<exists>a \<in> set as. ae_tag a = Some ACL_OTHER"
  shows "getfacl_main e argv =
    (if \<exists>a \<in> set as. applies is_user own ident a then
       Done (print_perm (the (last_perm (applies is_user own ident) as None))
         (if is_user \<and> own then None else last_perm (\<lambda>a. ae_tag a = Some ACL_MASK) as None))
     else if \<exists>a \<in> set as. ae_tag a = Some (named_tag is_user) then Faulted Uninitialised
     else Done (print_perm (the (last_perm (\<lambda>a. ae_tag a = Some ACL_OTHER) as None)) None))"
proof -
  obtain st where st: "facl_loop is_user own ident as facl_start = Done st"
    "fs_exist st = (\<exists>a \<in> set as. seen is_user own a)"
    "fs_perm st = last_perm (applies is_user own ident) as None"
    "fs_other st = last_perm (\<lambda>a. ae_tag a = Some ACL_OTHER) as None"
    "fs_mask st = last_perm (\<lambda>a. ae_tag a = Some ACL_MASK) as None"
    "fs_mask_exist st = (\<exists>a \<in> set as. ae_tag a = Some ACL_MASK)"
    using facl_loop_ok [OF assms(9), of is_user own ident facl_start] by (auto simp: facl_start_def)
  have main: "getfacl_main e argv = facl_output is_user own st"
    using assms st(1)
    by (cases is_user) (simp_all add: getfacl_main_def uid_from_username_def gid_from_groupname_def)
  have got: "\<exists>p. last_perm P as None = Some p" if "\<exists>a \<in> set as. P a" for P
  proof -
    have "last (filter P as) \<in> set as" using that by (metis filter_empty_conv filter_is_subset last_in_set subsetD)
    then show ?thesis using that assms(9) by (auto simp: last_perm_def entry_ok_def filter_empty_conv)
  qed
  have none: "last_perm P as None = None" if "\<not> (\<exists>a \<in> set as. P a)" for P
    using that by (auto simp: last_perm_def filter_empty_conv)
  have mask: "(if is_user \<and> own \<or> \<not> fs_mask_exist st then None else fs_mask st) =
      (if is_user \<and> own then None else last_perm (\<lambda>a. ae_tag a = Some ACL_MASK) as None)"
    using st(5,6) none by auto
  show ?thesis
  proof (cases "\<exists>a \<in> set as. applies is_user own ident a")
    case True
    then have "fs_exist st" using st(2) by (auto simp: seen_def applies_def)
    then show ?thesis using True got [OF True] st(3) mask main by (auto simp: facl_output_def)
  next
    case False
    then have ex: "fs_exist st = (\<exists>a \<in> set as. ae_tag a = Some (named_tag is_user))"
      using st(2) by (auto simp: seen_def applies_def)
    show ?thesis using False ex none [OF False] st(3,4) got [OF assms(10)] main
      by (auto simp: facl_output_def)
  qed
qed

definition demo_entry :: "acl_tag \<Rightarrow> nat \<Rightarrow> acl_entry" where
  "demo_entry tag q = \<lparr>ae_tag = Some tag, ae_qual = Some q,
     ae_perm = Some \<lparr>perm_r = True, perm_w = (tag \<noteq> ACL_MASK), perm_x = False\<rparr>, ae_free_ok = True\<rparr>"

definition demo_acl :: facl_env where
  "demo_acl = \<lparr>fa_stat = Some (IsReg, 0, 0),
     fa_acl = Some [demo_entry ACL_USER_OBJ 0, demo_entry ACL_USER 1000, demo_entry ACL_GROUP_OBJ 0,
       demo_entry ACL_MASK 0, demo_entry ACL_OTHER 0],
     fa_end_ok = True, fa_users = [''joe'' \<mapsto> 1000, ''eve'' \<mapsto> 1001], fa_groups = Map.empty\<rparr>"

theorem getfacl_prints_witness:
  "getfacl_main demo_acl [''getfacl'', ''u'', ''joe''] = Done (''rw-         #effictive:r--'' @ [newline]) \<and>
   getfacl_main demo_acl [''getfacl'', ''u'', ''eve''] = Faulted Uninitialised"
proof -
  have n: "\<not> is_digit CHR ''j''" "\<not> is_digit CHR ''e''" "\<not> is_space CHR ''j''" "\<not> is_space CHR ''e''"
    by (simp_all add: is_digit_def is_space_def)
  have ids: "id_from_name (fa_users demo_acl) (Some ''joe'') = Done 1000"
    "id_from_name (fa_users demo_acl) (Some ''eve'') = Done 1001"
    by (simp_all add: id_from_name_def strtol_end_def n demo_acl_def)
  have "getfacl_main demo_acl [''getfacl'', ''u'', ''joe''] = Done (''rw-         #effictive:r--'' @ [newline])"
    by (subst getfacl_prints [of _ True demo_acl IsReg 0 0 1000 False
          "[demo_entry ACL_USER_OBJ 0, demo_entry ACL_USER 1000, demo_entry ACL_GROUP_OBJ 0,
            demo_entry ACL_MASK 0, demo_entry ACL_OTHER 0]"])
      (use ids in \<open>simp_all add: demo_acl_def demo_entry_def entry_ok_def applies_def named_tag_def owner_tag_def
          last_perm_def print_perm_def perm_convert_def\<close>)
  moreover have "getfacl_main demo_acl [''getfacl'', ''u'', ''eve''] = Faulted Uninitialised"
    by (subst getfacl_prints [of _ True demo_acl IsReg 0 0 1001 False
          "[demo_entry ACL_USER_OBJ 0, demo_entry ACL_USER 1000, demo_entry ACL_GROUP_OBJ 0,
            demo_entry ACL_MASK 0, demo_entry ACL_OTHER 0]"])
      (use ids in \<open>simp_all add: demo_acl_def demo_entry_def entry_ok_def applies_def named_tag_def owner_tag_def
          last_perm_def print_perm_def perm_convert_def\<close>)
  ultimately show ?thesis by simp
qed

end
