(* ===== verification/Execlp.thy ===== *)
theory Execlp
  imports Prelude
begin

text \<open>
  Section 27, \<^verbatim>\<open>my_execlp.c\<close>: \<^verbatim>\<open>execlp\<close> on top of \<^verbatim>\<open>execve\<close>. The kernel is a function that
  tells for a path and an argument vector whether \<^verbatim>\<open>execve\<close> succeeds (the process is
  replaced) or which error it returns. The theorems give the result of the search along
  \<^verbatim>\<open>PATH\<close> for every list of prefixes, and the effect of a file without a known format.
\<close>

subsection \<open>The argument vector\<close>

text \<open>
  The arguments are copied until the null pointer, the array growing by 100 elements whenever
  only one is left; \<open>realloc_ok\<close> tells which reallocations succeed. The vector ends with the
  null pointer, which \<^verbatim>\<open>argc\<close> counts.
\<close>

fun collect_args :: "(nat \<Rightarrow> bool) \<Rightarrow> nat \<Rightarrow> string option list \<Rightarrow> string list \<Rightarrow> (string option list \<times> nat) option" where
  "collect_args realloc_ok sz argv args =
     (if argv = [] \<or> last argv = None then Some (argv, sz)
      else
        let argc = length argv;
            sz' = (if sz \<le> argc + 1 then sz + 100 else sz)
        in if sz \<le> argc + 1 \<and> \<not> realloc_ok sz' then None
           else case args of
             [] \<Rightarrow> Some (argv @ [None], sz')
           | a # as \<Rightarrow> collect_args realloc_ok sz' (argv @ [Some a]) as)"

declare collect_args.simps [simp del]

subsection \<open>Outcome of an attempt\<close>

datatype exec_result =
    Replaced string "string option list"      \<comment> \<open>program started, with its arguments\<close>
  | ExecFailed errno

type_synonym kernel = "string \<Rightarrow> string option list \<Rightarrow> errno option"

abbreviation (input) SHELL_PATH :: string where "SHELL_PATH \<equiv> ''/bin/sh''"

text \<open>
  \<^verbatim>\<open>exec_sh_script\<close>: the array for the shell has \<^verbatim>\<open>argc + 1\<close> elements. The loop stores
  \<^verbatim>\<open>argv[j]\<close> at \<^verbatim>\<open>j + 1\<close> for all \<open>j\<close> up to \<^verbatim>\<open>argc\<close>; \<open>slot\<close> is what follows the vector in memory.
\<close>

fun copy_args :: "nat \<Rightarrow> string option list \<Rightarrow> nat \<Rightarrow> string option list \<Rightarrow> string option list run" where
  "copy_args cap [] j sh = Done sh"
| "copy_args cap (a # as) j sh =
     (if cap \<le> j + 1 then Faulted OutOfBounds else copy_args cap as (Suc j) (sh @ [a]))"

definition exec_sh_script :: "kernel \<Rightarrow> string option list \<Rightarrow> string option \<Rightarrow> exec_result run" where
  "exec_sh_script k argv slot =
     run_bind (copy_args (length argv + 1) (argv @ [slot]) 0 [Some SHELL_PATH]) (\<lambda>sh.
       case k SHELL_PATH sh of None \<Rightarrow> Done (Replaced SHELL_PATH sh) | Some err \<Rightarrow> Done (ExecFailed err))"

subsection \<open>The search along \<^verbatim>\<open>PATH\<close>\<close>

text \<open>\<^verbatim>\<open>pr_start\<close> and \<^verbatim>\<open>pr_end\<close> cut the string at the colons.\<close>

fun path_prefixes :: "string \<Rightarrow> string list" where
  "path_prefixes [] = [[]]"
| "path_prefixes (c # s) =
     (if c = CHR '':'' then [] # path_prefixes s
      else case path_prefixes s of [] \<Rightarrow> [[c]] | p # ps \<Rightarrow> (c # p) # ps)"

definition candidate :: "string \<Rightarrow> string \<Rightarrow> string" where
  "candidate prefix filename = (if prefix = [] then ''.'' else prefix) @ slash # filename"

text \<open>The loop: \<open>acc\<close> is \<^verbatim>\<open>fnd_EACCES\<close>, \<open>saved\<close> is \<^verbatim>\<open>saved_errno\<close>. After a script that the shell
  could not run either, the loop goes on.\<close>

fun try_prefixes ::
  "kernel \<Rightarrow> string \<Rightarrow> string option list \<Rightarrow> string option \<Rightarrow> string list \<Rightarrow> bool \<Rightarrow> errno \<Rightarrow> exec_result run" where
  "try_prefixes k filename argv slot [] acc saved = Done (ExecFailed (if acc then EACCES else saved))"
| "try_prefixes k filename argv slot (p # ps) acc saved =
     (let path = candidate p filename in
      case k path argv of
        None \<Rightarrow> Done (Replaced path argv)
      | Some err \<Rightarrow>
          if err = EACCES then try_prefixes k filename argv slot ps True err
          else if err = ENOEXEC then
            run_bind (exec_sh_script k argv slot) (\<lambda>r.
              case r of Replaced q v \<Rightarrow> Done (Replaced q v)
              | ExecFailed _ \<Rightarrow> try_prefixes k filename argv slot ps acc err)
          else try_prefixes k filename argv slot ps acc err)"

record exec_env =
  ex_calloc_ok :: bool
  ex_realloc_ok :: "nat \<Rightarrow> bool"
  ex_envp_ok :: bool
  ex_path :: "string option"            \<comment> \<open>\<^verbatim>\<open>getenv("PATH")\<close>\<close>
  ex_slot :: "string option"            \<comment> \<open>the element behind the argument vector\<close>

definition my_execlp ::
  "exec_env \<Rightarrow> kernel \<Rightarrow> string \<Rightarrow> string option \<Rightarrow> string list \<Rightarrow> exec_result run" where
  "my_execlp e k filename arg rest =
     (if \<not> ex_calloc_ok e then Done (ExecFailed ENOMEM)
      else case collect_args (ex_realloc_ok e) 100 [arg] rest of
        None \<Rightarrow> Done (ExecFailed ENOMEM)
      | Some (argv, sz) \<Rightarrow>
          if \<not> ex_envp_ok e then Done (ExecFailed ENOMEM)
          else if slash \<in> set filename then
            (case k filename argv of
               None \<Rightarrow> Done (Replaced filename argv)
             | Some err \<Rightarrow>
                 if err = ENOEXEC then
                   run_bind (exec_sh_script k argv (ex_slot e)) (\<lambda>r.
                     case r of Replaced q v \<Rightarrow> Done (Replaced q v) | ExecFailed _ \<Rightarrow> Done (ExecFailed err))
                 else Done (ExecFailed err))
          else
            let path = (case ex_path e of None \<Rightarrow> ''.'' | Some p \<Rightarrow> if p = [] then ''.'' else p)
            in try_prefixes k filename argv (ex_slot e) (path_prefixes path) False ENOENT)"

subsection \<open>Correctness of the search\<close>

lemma collect_args_all:
  assumes "\<forall>n. realloc_ok n" "argv \<noteq> []" "last argv \<noteq> None"
  shows "\<exists>sz'. collect_args realloc_ok sz argv args = Some (argv @ map Some args @ [None], sz')"
  using assms(2,3)
proof (induction args arbitrary: sz argv)
  case Nil
  then show ?case using assms(1) by (subst collect_args.simps) (auto simp: Let_def)
next
  case (Cons a as)
  let ?s = "if sz \<le> length argv + 1 then sz + 100 else sz"
  obtain sz' where "collect_args realloc_ok ?s (argv @ [Some a]) as =
      Some ((argv @ [Some a]) @ map Some as @ [None], sz')"
    using Cons.IH [of "argv @ [Some a]" ?s] by auto
  then show ?case using Cons.prems assms(1) by (subst collect_args.simps) (simp add: Let_def)
qed

text \<open>What the specification of \<^verbatim>\<open>execlp\<close> asks for: the first candidate that can be executed, or
  \<^verbatim>\<open>EACCES\<close> if one was refused, or else the last error.\<close>

fun first_executable :: "(string \<Rightarrow> errno option) \<Rightarrow> string list \<Rightarrow> string option" where
  "first_executable k [] = None"
| "first_executable k (c # cs) = (if k c = None then Some c else first_executable k cs)"

definition search_error :: "(string \<Rightarrow> errno option) \<Rightarrow> string list \<Rightarrow> errno" where
  "search_error k cs = (if \<exists>c \<in> set cs. k c = Some EACCES then EACCES else the (k (last cs)))"

lemma try_prefixes_search:
  assumes "\<forall>p \<in> set ps. k (candidate p f) argv \<noteq> Some ENOEXEC"
  shows "try_prefixes k f argv slot ps acc saved =
    (case first_executable (\<lambda>c. k c argv) (map (\<lambda>p. candidate p f) ps) of
       Some c \<Rightarrow> Done (Replaced c argv)
     | None \<Rightarrow> Done (ExecFailed
         (if acc \<or> (\<exists>p \<in> set ps. k (candidate p f) argv = Some EACCES) then EACCES
          else if ps = [] then saved else the (k (candidate (last ps) f) argv))))"
  using assms
proof (induction ps arbitrary: acc saved)
  case (Cons p ps)
  show ?case
  proof (cases "k (candidate p f) argv")
    case None
    then show ?thesis by (simp add: Let_def)
  next
    case (Some err)
    then have ne: "err \<noteq> ENOEXEC" using Cons.prems by auto
    have "try_prefixes k f argv slot (p # ps) acc saved = try_prefixes k f argv slot ps (acc \<or> err = EACCES) err"
      using Some ne by (auto simp: Let_def)
    then show ?thesis using Cons.IH [of "acc \<or> err = EACCES" err] Cons.prems Some
      by (auto split: option.splits)
  qed
qed simp

lemma path_prefixes_not_Nil [simp]: "path_prefixes s \<noteq> []"
  by (induction s) (auto split: list.splits)

text \<open>Joining the prefixes with colons gives the string back: no prefix is lost or changed.\<close>

fun join_colon :: "string list \<Rightarrow> string" where
  "join_colon [] = []"
| "join_colon [p] = p"
| "join_colon (p # q # ps) = p @ CHR '':'' # join_colon (q # ps)"

lemma join_path_prefixes: "join_colon (path_prefixes s) = s \<and> (\<forall>p \<in> set (path_prefixes s). CHR '':'' \<notin> set p)"
proof (induction s)
  case (Cons c s)
  obtain p ps where p: "path_prefixes s = p # ps" by (cases "path_prefixes s") auto
  have "join_colon ((c # p) # ps) = c # join_colon (p # ps)" by (cases ps) simp_all
  then show ?case using Cons p by auto
qed simp

text \<open>C16: for a file name without a separator \<^verbatim>\<open>my_execlp\<close> passes all arguments to the first
  candidate along \<^verbatim>\<open>PATH\<close> that can be executed (an empty prefix is the working directory);
  if there is none it returns \<^verbatim>\<open>EACCES\<close> when a candidate was refused, and otherwise the error
  of the last candidate. No candidate is refused with \<^verbatim>\<open>ENOEXEC\<close>, which would make the function run a shell instead. The prefixes tried are exactly the parts of \<^verbatim>\<open>PATH\<close> between colons.\<close>

theorem execlp_searches_path:
  assumes "ex_calloc_ok e" "\<forall>n. ex_realloc_ok e n" "ex_envp_ok e" "slash \<notin> set f"
    "path = (case ex_path e of None \<Rightarrow> ''.'' | Some p \<Rightarrow> if p = [] then ''.'' else p)"
    "join_colon ps = path" "ps \<noteq> []" "\<forall>p \<in> set ps. CHR '':'' \<notin> set p"
    "argv = Some a # map Some rest @ [None]"
    "cs = map (\<lambda>p. candidate p f) ps" "\<forall>c \<in> set cs. k c argv \<noteq> Some ENOEXEC"
  shows "my_execlp e k f (Some a) rest =
    (case first_executable (\<lambda>c. k c argv) cs of
       Some c \<Rightarrow> Done (Replaced c argv)
     | None \<Rightarrow> Done (ExecFailed (search_error (\<lambda>c. k c argv) cs)))"
proof -
  have uniq: "path_prefixes (join_colon qs) = qs" if "qs \<noteq> []" "\<forall>p \<in> set qs. CHR '':'' \<notin> set p" for qs
    using that
  proof (induction qs rule: join_colon.induct)
    case (2 p)
    then show ?case by (induction p) auto
  next
    case (3 p q qs)
    then have "path_prefixes (join_colon (q # qs)) = q # qs" by simp
    moreover have "path_prefixes (r @ CHR '':'' # s) = r # path_prefixes s" if "CHR '':'' \<notin> set r" for r s
      using that by (induction r) auto
    ultimately show ?case using 3 by simp
  qed simp
  have pp: "path_prefixes path = ps" using uniq [OF assms(7,8)] assms(6) by simp
  obtain sz where c: "collect_args (ex_realloc_ok e) 100 [Some a] rest = Some (argv, sz)"
    using collect_args_all [OF assms(2), of "[Some a]" 100 rest] assms(9) by auto
  have "my_execlp e k f (Some a) rest = try_prefixes k f argv (ex_slot e) ps False ENOENT"
    using assms(1,3,4,5) c pp by (simp add: my_execlp_def Let_def)
  then show ?thesis
    using try_prefixes_search [of ps k f argv "ex_slot e" False ENOENT] assms(7,10,11)
    by (auto simp: search_error_def last_map split: option.splits)
qed

theorem execlp_searches_path_witness:
  "my_execlp \<lparr>ex_calloc_ok = True, ex_realloc_ok = (\<lambda>n. True), ex_envp_ok = True,
      ex_path = Some ''/bin::/usr/bin'', ex_slot = None\<rparr>
     (\<lambda>p v. if p = ''./ls'' then Some EACCES else if p = ''/usr/bin/ls'' then None else Some ENOENT)
     ''ls'' (Some ''ls'') [''-l''] = Done (Replaced ''/usr/bin/ls'' [Some ''ls'', Some ''-l'', None])"
  by (subst execlp_searches_path [where ps = "[''/bin'', [], ''/usr/bin'']"
        and cs = "[''/bin/ls'', ''./ls'', ''/usr/bin/ls'']" and path = "''/bin::/usr/bin''"
        and argv = "[Some ''ls'', Some ''-l'', None]"]) (simp_all add: candidate_def)

text \<open>a file without a known format makes \<^verbatim>\<open>my_execlp\<close> overrun the argument vector it builds
  for the shell, which is one element too short for the copied arguments.\<close>

theorem execlp_script_overruns:
  assumes "ex_calloc_ok e" "\<forall>n. ex_realloc_ok e n" "ex_envp_ok e" "slash \<in> set f"
    "k f (Some a # map Some rest @ [None]) = Some ENOEXEC"
  shows "my_execlp e k f (Some a) rest = Faulted OutOfBounds"
proof -
  have over: "copy_args cap as j sh = Faulted OutOfBounds" if "cap < length as + j + 1" "as \<noteq> []" for cap as j sh
    using that
  proof (induction as arbitrary: j sh)
    case (Cons x as)
    then show ?case by (cases as) auto
  qed simp
  obtain sz where c: "collect_args (ex_realloc_ok e) 100 [Some a] rest = Some (Some a # map Some rest @ [None], sz)"
    using collect_args_all [OF assms(2), of "[Some a]" 100 rest] by auto
  show ?thesis using assms c by (simp add: my_execlp_def exec_sh_script_def over)
qed

theorem execlp_script_overruns_witness:
  "my_execlp \<lparr>ex_calloc_ok = True, ex_realloc_ok = (\<lambda>n. True), ex_envp_ok = True, ex_path = None, ex_slot = None\<rparr>
     (\<lambda>p v. if p = ''./run.sh'' then Some ENOEXEC else None) ''./run.sh'' (Some ''run.sh'') [] = Faulted OutOfBounds"
  by (rule execlp_script_overruns) simp_all

end
