(* ===== verification/Signals.thy ===== *)
theory Signals
  imports Prelude
begin

text \<open>
  The signal interface of a process and the programs built on it: \<^verbatim>\<open>SystemVapi.c\<close> of Section 22
  (the System V calls on top of the POSIX ones), \<^verbatim>\<open>my_abort.c\<close> of Section 21 and
  \<^verbatim>\<open>my_system.c\<close> of Section 61. The state is the signal mask and the disposition of each
  signal. The locale \<open>mask_ops\<close> is the contract of holding and releasing a signal; its lemmas
  are used through the interpretation on \<^verbatim>\<open>my_sighold\<close> and \<^verbatim>\<open>my_sigrelse\<close>.
\<close>

subsection \<open>The signal state of a process\<close>

datatype handler = SIG_DFL | SIG_IGN | SIG_HOLD | Handler nat

record sigaction =
  sa_handler :: handler
  sa_flags :: nat
  sa_mask :: "nat set"

record sig_state =
  blocked :: "nat set"
  disp :: "nat \<Rightarrow> sigaction"

abbreviation (input) SIGINT :: nat where "SIGINT \<equiv> 2"
abbreviation (input) SIGQUIT :: nat where "SIGQUIT \<equiv> 3"
abbreviation (input) SIGABRT :: nat where "SIGABRT \<equiv> 6"
abbreviation (input) SIGKILL :: nat where "SIGKILL \<equiv> 9"
abbreviation (input) SIGCHLD :: nat where "SIGCHLD \<equiv> 17"
abbreviation (input) SIGSTOP :: nat where "SIGSTOP \<equiv> 19"

definition valid_sig :: "nat \<Rightarrow> bool" where
  "valid_sig s \<longleftrightarrow> 1 \<le> s \<and> s \<le> 64"

text \<open>The disposition of \<^verbatim>\<open>SIGKILL\<close> and \<^verbatim>\<open>SIGSTOP\<close> cannot be set and they cannot be blocked.\<close>

definition settable :: "nat \<Rightarrow> bool" where
  "settable s \<longleftrightarrow> valid_sig s \<and> s \<noteq> SIGKILL \<and> s \<noteq> SIGSTOP"

definition sigaction_get :: "nat \<Rightarrow> sig_state \<Rightarrow> sigaction option" where
  "sigaction_get s st = (if valid_sig s then Some (disp st s) else None)"

definition sigaction_set :: "nat \<Rightarrow> sigaction \<Rightarrow> sig_state \<Rightarrow> sig_state option" where
  "sigaction_set s a st = (if settable s then Some (st\<lparr>disp := (disp st)(s := a)\<rparr>) else None)"

definition setmask :: "nat set \<Rightarrow> sig_state \<Rightarrow> sig_state" where
  "setmask m st = st\<lparr>blocked := m - {SIGKILL, SIGSTOP}\<rparr>"

definition sigaddset :: "nat \<Rightarrow> nat set \<Rightarrow> nat set option" where
  "sigaddset s m = (if valid_sig s then Some (insert s m) else None)"

definition sigdelset :: "nat \<Rightarrow> nat set \<Rightarrow> nat set option" where
  "sigdelset s m = (if valid_sig s then Some (m - {s}) else None)"

subsection \<open>\<^verbatim>\<open>SystemVapi.c\<close>\<close>

text \<open>\<^verbatim>\<open>my_sigset\<close>: the old disposition, \<open>None\<close> for \<^verbatim>\<open>(void ( * )(int)) -1\<close>. A step that fails after
  the disposition was set leaves it set.\<close>

definition my_sigset :: "nat \<Rightarrow> handler \<Rightarrow> sig_state \<Rightarrow> handler option \<times> sig_state" where
  "my_sigset sig h st =
     (case sigaction_get sig st of
        None \<Rightarrow> (None, st)
      | Some sigact \<Rightarrow>
          let old_handler = sa_handler sigact;
              block_set = blocked st
          in if h \<noteq> SIG_HOLD then
               (case sigaction_set sig (sigact\<lparr>sa_handler := h\<rparr>) st of
                  None \<Rightarrow> (None, st)
                | Some st1 \<Rightarrow>
                    (case sigdelset sig block_set of
                       None \<Rightarrow> (None, st1)
                     | Some m \<Rightarrow> (Some old_handler, setmask m st1)))
             else if sig \<in> block_set then (Some SIG_HOLD, st)
             else
               (case sigaddset sig block_set of
                  None \<Rightarrow> (None, st)
                | Some m \<Rightarrow> (Some (sa_handler sigact), setmask m st)))"

definition my_sighold :: "nat \<Rightarrow> sig_state \<Rightarrow> int \<times> sig_state" where
  "my_sighold sig st =
     (case sigaddset sig (blocked st) of None \<Rightarrow> (- 1, st) | Some m \<Rightarrow> (0, setmask m st))"

definition my_sigrelse :: "nat \<Rightarrow> sig_state \<Rightarrow> int \<times> sig_state" where
  "my_sigrelse sig st =
     (case sigdelset sig (blocked st) of None \<Rightarrow> (- 1, st) | Some m \<Rightarrow> (0, setmask m st))"

definition my_sigignore :: "nat \<Rightarrow> sig_state \<Rightarrow> int \<times> sig_state" where
  "my_sigignore sig st =
     (case sigaction_get sig st of
        None \<Rightarrow> (- 1, st)
      | Some sigact \<Rightarrow>
          (case sigaction_set sig (sigact\<lparr>sa_handler := SIG_IGN\<rparr>) st of
             None \<Rightarrow> (- 1, st)
           | Some st' \<Rightarrow> (0, st')))"

text \<open>\<^verbatim>\<open>my_sigpause\<close>: the mask in force while the process is suspended (\<open>None\<close> when it is not
  suspended at all); the call returns \<open>-1\<close> and the mask before the call is restored.\<close>

definition my_sigpause :: "nat \<Rightarrow> sig_state \<Rightarrow> (nat set option \<times> int) \<times> sig_state" where
  "my_sigpause sig st =
     (case sigdelset sig {s. valid_sig s} of
        None \<Rightarrow> ((None, - 1), st)
      | Some m \<Rightarrow> ((Some (m - {SIGKILL, SIGSTOP}), - 1), st))"

subsection \<open>Holding and releasing as a contract\<close>

locale mask_ops =
  fixes hold :: "nat \<Rightarrow> 's \<Rightarrow> 's"
    and release :: "nat \<Rightarrow> 's \<Rightarrow> 's"
    and masked :: "'s \<Rightarrow> nat set"
    and ok :: "nat \<Rightarrow> bool"
  assumes masked_hold: "ok s \<Longrightarrow> masked (hold s x) = insert s (masked x)"
    and masked_release: "ok s \<Longrightarrow> masked (release s x) = masked x - {s}"
begin

lemma hold_release_restores: "ok s \<Longrightarrow> s \<notin> masked x \<Longrightarrow> masked (release s (hold s x)) = masked x"
  by (simp add: masked_hold masked_release)

lemma hold_release_other:
  "ok s \<Longrightarrow> ok t \<Longrightarrow> s \<noteq> t \<Longrightarrow> masked (release s (hold t x)) = masked (hold t (release s x))"
  by (auto simp: masked_hold masked_release)

text \<open>A critical section: signals held in turn and released in any order leave the mask alone.\<close>

lemma bracket:
  assumes "\<forall>s \<in> set ss. ok s" "set ss \<inter> masked x = {}" "set rs = set ss"
  shows "masked (fold release rs (fold hold ss x)) = masked x"
proof -
  have h: "masked (fold hold us y) = set us \<union> masked y" if "\<forall>s \<in> set us. ok s" for us y
    using that by (induction us arbitrary: y) (auto simp: masked_hold)
  have r: "masked (fold release us y) = masked y - set us" if "\<forall>s \<in> set us. ok s" for us y
    using that by (induction us arbitrary: y) (auto simp: masked_release)
  show ?thesis using assms h r by auto
qed

end

interpretation sysv_mask: mask_ops "\<lambda>s st. snd (my_sighold s st)" "\<lambda>s st. snd (my_sigrelse s st)"
  "\<lambda>st. blocked st - {SIGKILL, SIGSTOP}" settable
  by unfold_locales
    (auto simp: my_sighold_def my_sigrelse_def sigaddset_def sigdelset_def setmask_def settable_def)

lemma my_sighold_blocked:
  "settable s \<Longrightarrow> fst (my_sighold s st) = 0 \<and> disp (snd (my_sighold s st)) = disp st"
  "settable s \<Longrightarrow> fst (my_sigrelse s st) = 0 \<and> disp (snd (my_sigrelse s st)) = disp st"
  by (auto simp: my_sighold_def my_sigrelse_def sigaddset_def sigdelset_def setmask_def settable_def)

text \<open>signals held one after the other by \<^verbatim>\<open>my_sighold\<close> and released in any order by
  \<^verbatim>\<open>my_sigrelse\<close> leave the signal mask as it was, and in between exactly these signals are
  blocked in addition.\<close>

theorem sighold_sigrelse_bracket:
  assumes "\<forall>s \<in> set ss. settable s" "set ss \<inter> blocked st = {}" "set rs = set ss"
    "blocked st \<inter> {SIGKILL, SIGSTOP} = {}"
  shows "blocked (fold (\<lambda>s st. snd (my_sigrelse s st)) rs (fold (\<lambda>s st. snd (my_sighold s st)) ss st))
       = blocked st"
proof -
  let ?inner = "fold (\<lambda>s st. snd (my_sighold s st)) ss st"
  have clean: "blocked (fold (\<lambda>s st. snd (my_sigrelse s st)) rs x) \<inter> {SIGKILL, SIGSTOP} = {}"
    if "blocked x \<inter> {SIGKILL, SIGSTOP} = {}" for x rs
    using that
    by (induction rs arbitrary: x) (auto simp: my_sigrelse_def sigdelset_def setmask_def split: option.splits)
  have clean': "blocked (fold (\<lambda>s st. snd (my_sighold s st)) ss x) \<inter> {SIGKILL, SIGSTOP} = {}"
    if "blocked x \<inter> {SIGKILL, SIGSTOP} = {}" for x ss
    using that
    by (induction ss arbitrary: x) (auto simp: my_sighold_def sigaddset_def setmask_def split: option.splits)
  have "blocked (fold (\<lambda>s st. snd (my_sigrelse s st)) rs ?inner) - {SIGKILL, SIGSTOP} =
      blocked st - {SIGKILL, SIGSTOP}"
    using sysv_mask.bracket [OF assms(1) _ assms(3), of st] assms(2) by blast
  then show ?thesis using clean [OF clean' [OF assms(4)]] assms(4) by blast
qed

definition demo_sigs :: sig_state where
  "demo_sigs = \<lparr>blocked = {SIGCHLD}, disp = (\<lambda>_. \<lparr>sa_handler = SIG_DFL, sa_flags = 0, sa_mask = {}\<rparr>)\<rparr>"

theorem sighold_sigrelse_bracket_witness:
  "blocked (fold (\<lambda>s st. snd (my_sigrelse s st)) [SIGQUIT, SIGINT]
     (fold (\<lambda>s st. snd (my_sighold s st)) [SIGINT, SIGQUIT] demo_sigs)) = {SIGCHLD}"
  using sighold_sigrelse_bracket [of "[SIGINT, SIGQUIT]" demo_sigs "[SIGQUIT, SIGINT]"]
  by (simp add: demo_sigs_def settable_def valid_sig_def insert_commute)

text \<open>\<^verbatim>\<open>my_sigset\<close> installs the disposition and unblocks the signal, or blocks it for \<^verbatim>\<open>SIG_HOLD\<close>.\<close>

lemma my_sigset_installs:
  assumes "settable sig" "h \<noteq> SIG_HOLD"
  shows "my_sigset sig h st = (Some (sa_handler (disp st sig)),
    \<lparr>blocked = blocked st - {sig, SIGKILL, SIGSTOP}, disp = (disp st)(sig := (disp st sig)\<lparr>sa_handler := h\<rparr>)\<rparr>)"
  using assms
  by (cases st) (auto simp: my_sigset_def sigaction_get_def sigaction_set_def sigdelset_def setmask_def settable_def Let_def)

lemma my_sigset_hold:
  assumes "settable sig"
  shows "my_sigset sig SIG_HOLD st =
    (if sig \<in> blocked st then (Some SIG_HOLD, st)
     else (Some (sa_handler (disp st sig)), setmask (insert sig (blocked st)) st))"
  using assms by (simp add: my_sigset_def sigaction_get_def sigaddset_def settable_def Let_def)

text \<open>while \<^verbatim>\<open>my_sigpause\<close> waits, every other signal is blocked, also the signals that were
  not blocked before: unlike \<^verbatim>\<open>sigpause\<close>, which only removes the signal from the current mask,
  it is not ended by any of them.\<close>

theorem sigpause_blocks_all_others:
  assumes "settable sig" "settable t" "t \<noteq> sig" "t \<notin> blocked st"
  shows "\<exists>m. my_sigpause sig st = ((Some m, - 1), st) \<and> sig \<notin> m \<and> t \<in> m \<and> t \<notin> blocked st - {sig}"
  using assms by (auto simp: my_sigpause_def sigdelset_def settable_def)

theorem sigpause_blocks_all_others_witness:
  "\<exists>m. my_sigpause 10 demo_sigs = ((Some m, - 1), demo_sigs) \<and> 10 \<notin> m \<and> SIGINT \<in> m \<and>
     SIGINT \<notin> blocked demo_sigs - {10}"
  by (rule sigpause_blocks_all_others) (simp_all add: settable_def valid_sig_def demo_sigs_def)

subsection \<open>\<^verbatim>\<open>my_abort\<close>\<close>

datatype raised = Terminated nat | Returned sig_state | Pending sig_state

text \<open>
  \<^verbatim>\<open>raise\<close> of a signal: a blocked signal stays pending, an ignored one is discarded, the
  default of \<^verbatim>\<open>SIGABRT\<close> terminates, and a handler may return (\<open>ret h\<close>) or leave the process in
  another way, which ends the model as a termination.
\<close>

definition raise_sig :: "(nat \<Rightarrow> bool) \<Rightarrow> nat \<Rightarrow> sig_state \<Rightarrow> raised" where
  "raise_sig ret s st =
     (if s \<in> blocked st then Pending st
      else case sa_handler (disp st s) of
        SIG_DFL \<Rightarrow> Terminated s
      | SIG_IGN \<Rightarrow> Returned st
      | SIG_HOLD \<Rightarrow> Returned st
      | Handler h \<Rightarrow> if ret h then Returned st else Terminated s)"

definition my_abort :: "(nat \<Rightarrow> bool) \<Rightarrow> sig_state \<Rightarrow> raised" where
  "my_abort ret st =
     (case raise_sig ret SIGABRT st of
        Terminated s \<Rightarrow> Terminated s
      | r \<Rightarrow>
          (case sigaction_get SIGABRT st of
             None \<Rightarrow> Terminated 0
           | Some a \<Rightarrow>
               (case sigaction_set SIGABRT (a\<lparr>sa_handler := SIG_DFL\<rparr>) st of
                  None \<Rightarrow> Terminated 0
                | Some st' \<Rightarrow> raise_sig ret SIGABRT st')))"

text \<open>\<^verbatim>\<open>my_abort\<close> terminates the process whatever handler is installed, unless \<^verbatim>\<open>SIGABRT\<close> is blocked.\<close>

lemma my_abort_terminates:
  "SIGABRT \<notin> blocked st \<Longrightarrow> my_abort ret st = Terminated SIGABRT"
  by (auto simp: my_abort_def raise_sig_def sigaction_get_def sigaction_set_def settable_def valid_sig_def
      split: handler.splits)

lemma my_abort_blocked_returns:
  "SIGABRT \<in> blocked st \<Longrightarrow> \<exists>st'. my_abort ret st = Pending st'"
  by (auto simp: my_abort_def raise_sig_def sigaction_get_def sigaction_set_def settable_def valid_sig_def)

subsection \<open>\<^verbatim>\<open>my_system\<close>\<close>

text \<open>What \<^verbatim>\<open>fork\<close> and the successive calls of \<^verbatim>\<open>waitpid\<close> return.\<close>

record sys_io =
  sy_fork_ok :: bool
  sy_wait :: "(errno + int) list"

text \<open>The loop around \<^verbatim>\<open>waitpid\<close>; with no answer left the parent is still waiting.\<close>

fun wait_loop :: "(errno + int) list \<Rightarrow> int option" where
  "wait_loop [] = None"
| "wait_loop (Inr status # r) = Some status"
| "wait_loop (Inl e # r) = (if e \<noteq> EINTR then Some (- 1) else wait_loop r)"

definition ignore_action :: sigaction where
  "ignore_action = \<lparr>sa_handler = SIG_IGN, sa_flags = 0, sa_mask = {}\<rparr>"

definition default_action :: sigaction where
  "default_action = \<lparr>sa_handler = SIG_DFL, sa_flags = 0, sa_mask = {}\<rparr>"

text \<open>The signal state of the parent while the child runs.\<close>

definition sys_prepare :: "sig_state \<Rightarrow> sig_state" where
  "sys_prepare st =
     (let st1 = setmask (blocked st \<union> {SIGCHLD}) st
      in st1\<lparr>disp := (disp st1)(SIGINT := ignore_action, SIGQUIT := ignore_action)\<rparr>)"

text \<open>The signal state in which the child executes the shell.\<close>

definition sys_child :: "sig_state \<Rightarrow> sig_state" where
  "sys_child st =
     (let orig_int = disp st SIGINT; orig_quit = disp st SIGQUIT;
          c0 = sys_prepare st;
          c1 = (if sa_handler orig_int \<noteq> SIG_IGN then c0\<lparr>disp := (disp c0)(SIGINT := default_action)\<rparr> else c0);
          c2 = (if sa_handler orig_quit \<noteq> SIG_IGN then c1\<lparr>disp := (disp c1)(SIGQUIT := default_action)\<rparr> else c1)
      in setmask (blocked st) c2)"

definition sys_restore :: "sig_state \<Rightarrow> sig_state \<Rightarrow> sig_state" where
  "sys_restore st now =
     (let st1 = setmask (blocked st) now
      in st1\<lparr>disp := (disp st1)(SIGINT := disp st SIGINT, SIGQUIT := disp st SIGQUIT)\<rparr>)"

record sys_result =
  sr_status :: int
  sr_state :: sig_state                              \<comment> \<open>of the caller, afterwards\<close>
  sr_child :: "(string list \<times> sig_state) option"     \<comment> \<open>command executed and its signal state\<close>

definition my_system :: "sys_io \<Rightarrow> string option \<Rightarrow> sig_state \<Rightarrow> sys_result option" where
  "my_system io command st =
     (let cmd = (case command of None \<Rightarrow> '':'' | Some c \<Rightarrow> c);
          now = sys_prepare st
      in if \<not> sy_fork_ok io then
           Some \<lparr>sr_status = - 1, sr_state = sys_restore st now, sr_child = None\<rparr>
         else
           map_option (\<lambda>status. \<lparr>sr_status = status, sr_state = sys_restore st now,
               sr_child = Some ([''sh'', ''-c'', cmd], sys_child st)\<rparr>) (wait_loop (sy_wait io)))"

lemma wait_loop_eintr: "wait_loop (replicate n (Inl EINTR) @ Inr status # r) = Some status"
  by (induction n) simp_all

text \<open>C17: \<^verbatim>\<open>my_system\<close> returns the status of the child however often its wait is interrupted; it
  gives the caller back its signal mask and its dispositions of \<^verbatim>\<open>SIGINT\<close> and \<^verbatim>\<open>SIGQUIT\<close>, which
  are ignored (and \<^verbatim>\<open>SIGCHLD\<close> blocked) only meanwhile; the shell runs with the caller's mask and
  with the default action for each of the two signals the caller did not ignore.\<close>

theorem system_restores_signals:
  assumes "sy_fork_ok io" "sy_wait io = replicate n (Inl EINTR) @ Inr status # rest"
    "blocked st \<inter> {SIGKILL, SIGSTOP} = {}"
  shows "\<exists>child. my_system io (Some cmd) st =
      Some \<lparr>sr_status = status, sr_state = st, sr_child = Some ([''sh'', ''-c'', cmd], child)\<rparr> \<and>
    blocked child = blocked st \<and>
    (\<forall>s. s \<noteq> SIGINT \<and> s \<noteq> SIGQUIT \<longrightarrow> disp child s = disp st s) \<and>
    (\<forall>s \<in> {SIGINT, SIGQUIT}. sa_handler (disp child s) = (if sa_handler (disp st s) = SIG_IGN then SIG_IGN else SIG_DFL))"
proof -
  have m: "blocked st - {SIGKILL, SIGSTOP} = blocked st" using assms(3) by blast
  have r: "sys_restore st (sys_prepare st) = st"
    by (rule sig_state.equality)
      (simp_all add: sys_restore_def sys_prepare_def setmask_def Let_def m fun_eq_iff)
  have c: "blocked (sys_child st) = blocked st"
    by (simp add: sys_child_def setmask_def Let_def m)
  show ?thesis
    using assms(1,2) r c
    by (simp add: my_system_def Let_def wait_loop_eintr)
      (simp add: sys_child_def sys_prepare_def setmask_def Let_def ignore_action_def default_action_def)
qed

theorem system_restores_signals_witness:
  "\<exists>child. my_system \<lparr>sy_fork_ok = True, sy_wait = [Inl EINTR, Inr 256]\<rparr> (Some ''ls'') demo_sigs =
      Some \<lparr>sr_status = 256, sr_state = demo_sigs, sr_child = Some ([''sh'', ''-c'', ''ls''], child)\<rparr> \<and>
    blocked child = {SIGCHLD}"
proof -
  have "\<exists>child. my_system \<lparr>sy_fork_ok = True, sy_wait = [Inl EINTR, Inr 256]\<rparr> (Some ''ls'') demo_sigs =
      Some \<lparr>sr_status = 256, sr_state = demo_sigs, sr_child = Some ([''sh'', ''-c'', ''ls''], child)\<rparr> \<and>
    blocked child = blocked demo_sigs \<and>
    (\<forall>s. s \<noteq> SIGINT \<and> s \<noteq> SIGQUIT \<longrightarrow> disp child s = disp demo_sigs s) \<and>
    (\<forall>s \<in> {SIGINT, SIGQUIT}. sa_handler (disp child s) =
       (if sa_handler (disp demo_sigs s) = SIG_IGN then SIG_IGN else SIG_DFL))"
    by (rule system_restores_signals [where n = 1 and rest = "[]"]) (simp_all add: demo_sigs_def)
  then show ?thesis by (auto simp: demo_sigs_def)
qed

end
