(* ===== verification/Fd_Table.thy ===== *)
theory Fd_Table
  imports C_Lib
begin

text \<open>
  Programs that rearrange file descriptors: \<^verbatim>\<open>mydup.c\<close> and \<^verbatim>\<open>mydup2.c\<close> of Section 5, \<^verbatim>\<open>my_popen\<close>
  and \<^verbatim>\<open>my_pclose\<close> of Section 44, and \<^verbatim>\<open>become_daemon\<close> of Sections 46 and 60. A descriptor table
  maps numbers below a limit to open files; the calls of the kernel are functions on it. The
  theorems compare \<^verbatim>\<open>mydup2\<close> with \<^verbatim>\<open>dup2\<close>, and follow a stream from \<^verbatim>\<open>my_popen\<close> to
  \<^verbatim>\<open>my_pclose\<close>.
\<close>

subsection \<open>The descriptor table and the calls on it\<close>

type_synonym fds = "nat \<rightharpoonup> nat"          \<comment> \<open>descriptor to open file\<close>

definition is_open :: "fds \<Rightarrow> int \<Rightarrow> bool" where
  "is_open t fd \<longleftrightarrow> 0 \<le> fd \<and> t (nat fd) \<noteq> None"

definition sys_close :: "fds \<Rightarrow> int \<Rightarrow> int \<times> fds" where
  "sys_close t fd = (if is_open t fd then (0, t(nat fd := None)) else (- 1, t))"

text \<open>The lowest free descriptor from \<open>lo\<close> on.\<close>

definition lowest_free :: "nat \<Rightarrow> fds \<Rightarrow> nat \<Rightarrow> nat option" where
  "lowest_free lim t lo = find (\<lambda>i. t i = None) [lo ..< lim]"

text \<open>\<^verbatim>\<open>fcntl(fd, F_DUPFD, lo)\<close>.\<close>

definition sys_dupfd :: "nat \<Rightarrow> fds \<Rightarrow> int \<Rightarrow> int \<Rightarrow> (errno + nat) \<times> fds" where
  "sys_dupfd lim t fd lo =
     (if \<not> is_open t fd then (Inl EBADF, t)
      else if lo < 0 \<or> int lim \<le> lo then (Inl EINVAL, t)
      else case lowest_free lim t (nat lo) of
        None \<Rightarrow> (Inl EMFILE, t)
      | Some n \<Rightarrow> (Inr n, t(n := t (nat fd))))"

text \<open>\<^verbatim>\<open>dup2\<close> of the kernel.\<close>

definition sys_dup2 :: "nat \<Rightarrow> fds \<Rightarrow> int \<Rightarrow> int \<Rightarrow> (errno + nat) \<times> fds" where
  "sys_dup2 lim t old new =
     (if \<not> is_open t old \<or> new < 0 \<or> int lim \<le> new then (Inl EBADF, t)
      else (Inr (nat new), t(nat new := t (nat old))))"

lemma lowest_free_at: "lo < lim \<Longrightarrow> t lo = None \<Longrightarrow> lowest_free lim t lo = Some lo"
  by (simp add: lowest_free_def upt_conv_Cons)

lemma lowest_free_SomeD:
  assumes "lowest_free lim t lo = Some n"
  shows "lo \<le> n \<and> n < lim \<and> t n = None \<and> (\<forall>i. lo \<le> i \<and> i < n \<longrightarrow> t i \<noteq> None)"
proof -
  obtain k where k: "k < length [lo ..< lim]" "t ([lo ..< lim] ! k) = None" "n = [lo ..< lim] ! k"
    "\<forall>j < k. t ([lo ..< lim] ! j) \<noteq> None"
    using assms unfolding lowest_free_def find_Some_iff by blast
  have "t i \<noteq> None" if "lo \<le> i" "i < n" for i
    using k(4) [rule_format, of "i - lo"] k(1,3) that by simp
  then show ?thesis using k by simp
qed

subsection \<open>\<^verbatim>\<open>mydup\<close> and \<^verbatim>\<open>mydup2\<close>\<close>

definition mydup :: "nat \<Rightarrow> fds \<Rightarrow> int \<Rightarrow> (errno + nat) \<times> fds" where
  "mydup lim t oldfd = sys_dupfd lim t oldfd 0"

definition mydup2 :: "nat \<Rightarrow> fds \<Rightarrow> int \<Rightarrow> int \<Rightarrow> (errno + nat) \<times> fds" where
  "mydup2 lim t oldfd newfd =
     (let t1 = (if is_open t newfd then snd (sys_close t newfd) else t)
      in if oldfd = newfd \<and> is_open t1 oldfd then (Inl EBADF, t1)
         else sys_dupfd lim t1 oldfd newfd)"

text \<open>The two programs print both numbers; \<open>file\<close> is the descriptor of the opened file.\<close>

definition dup_report :: "nat \<Rightarrow> (errno + nat) \<times> fds \<Rightarrow> string run" where
  "dup_report oldfd r =
     (case fst r of
        Inl e \<Rightarrow> Exited EXIT_FAILURE
      | Inr n \<Rightarrow> Done (''Success with oldfd('' @ dec_nat oldfd @ '') and newfd('' @ dec_nat n @ '')'' @ [newline]))"

definition mydup_main :: "nat \<Rightarrow> fds \<Rightarrow> nat option \<Rightarrow> string run" where
  "mydup_main lim t file =
     (case file of None \<Rightarrow> Exited EXIT_FAILURE | Some fd \<Rightarrow> dup_report fd (mydup lim t (int fd)))"

definition mydup2_main :: "nat \<Rightarrow> fds \<Rightarrow> nat option \<Rightarrow> string run" where
  "mydup2_main lim t file =
     (case file of None \<Rightarrow> Exited EXIT_FAILURE | Some fd \<Rightarrow> dup_report fd (mydup2 lim t (int fd) 25))"

text \<open>C35: \<^verbatim>\<open>mydup2\<close> agrees with \<^verbatim>\<open>dup2\<close> for two different descriptors when the old one is open
  and the new one is within the limit; with two equal open descriptors, which \<^verbatim>\<open>dup2\<close> returns
  unchanged, it fails and leaves the descriptor closed.\<close>

theorem mydup2_versus_dup2:
  assumes "is_open t oldfd" "0 \<le> newfd" "newfd < int lim"
  shows "(oldfd \<noteq> newfd \<longrightarrow> mydup2 lim t oldfd newfd = sys_dup2 lim t oldfd newfd) \<and>
    (oldfd = newfd \<longrightarrow> mydup2 lim t oldfd newfd = (Inl EBADF, t(nat oldfd := None)) \<and>
       sys_dup2 lim t oldfd newfd = (Inr (nat oldfd), t))"
proof (intro conjI impI)
  assume ne: "oldfd \<noteq> newfd"
  let ?t = "if is_open t newfd then snd (sys_close t newfd) else t"
  have t: "?t = t(nat newfd := None)"
    using assms(2) by (auto simp: sys_close_def is_open_def)
  have old: "is_open ?t oldfd" "?t (nat oldfd) = t (nat oldfd)"
    using assms ne t by (auto simp: is_open_def nat_eq_iff)
  have "lowest_free lim ?t (nat newfd) = Some (nat newfd)"
    unfolding t using assms by (intro lowest_free_at) auto
  then show "mydup2 lim t oldfd newfd = sys_dup2 lim t oldfd newfd"
    using assms ne old t by (simp add: mydup2_def sys_dupfd_def sys_dup2_def Let_def)
next
  assume eq: "oldfd = newfd"
  then show "mydup2 lim t oldfd newfd = (Inl EBADF, t(nat oldfd := None))"
    using assms by (simp add: mydup2_def sys_close_def sys_dupfd_def is_open_def)
  show "sys_dup2 lim t oldfd newfd = (Inr (nat oldfd), t)"
    using assms eq by (simp add: sys_dup2_def fun_upd_idem)
qed

theorem mydup2_versus_dup2_witness:
  "mydup2 64 [0 \<mapsto> 10, 1 \<mapsto> 11, 3 \<mapsto> 12] 3 25 = sys_dup2 64 [0 \<mapsto> 10, 1 \<mapsto> 11, 3 \<mapsto> 12] 3 25 \<and>
   mydup2 64 [0 \<mapsto> 10, 1 \<mapsto> 11, 3 \<mapsto> 12] 3 3 = (Inl EBADF, [0 \<mapsto> 10, 1 \<mapsto> 11, 3 \<mapsto> 12](nat 3 := None))"
  using mydup2_versus_dup2 [of "[0 \<mapsto> 10, 1 \<mapsto> 11, 3 \<mapsto> 12]" 3 25 64]
    mydup2_versus_dup2 [of "[0 \<mapsto> 10, 1 \<mapsto> 11, 3 \<mapsto> 12]" 3 3 64]
  by (simp add: is_open_def)

subsection \<open>\<^verbatim>\<open>become_daemon\<close>\<close>

record daemon_flags =
  no_umask :: bool              \<comment> \<open>\<^verbatim>\<open>BD_NO_UMASKD\<close>\<close>
  no_close :: bool              \<comment> \<open>\<^verbatim>\<open>BD_NO_CLOSE_FILES\<close>\<close>
  no_reopen :: bool             \<comment> \<open>\<^verbatim>\<open>BD_NO_REOPEN_STD_FDS\<close>\<close>

record daemon_state =
  d_fds :: fds
  d_umask :: nat
  d_cwd :: string
  d_leader :: bool              \<comment> \<open>session leader\<close>

record daemon_io =
  d_fork1_ok :: bool
  d_setsid_ok :: bool
  d_fork2_ok :: bool
  d_open_max :: "nat option"    \<comment> \<open>\<^verbatim>\<open>sysconf(_SC_OPEN_MAX)\<close>\<close>
  d_null :: nat                 \<comment> \<open>the open file of \<^verbatim>\<open>/dev/null\<close>\<close>

definition close_below :: "nat \<Rightarrow> fds \<Rightarrow> fds" where
  "close_below n t = foldl (\<lambda>t fd. snd (sys_close t (int fd))) t [0 ..< n]"

text \<open>
  The grandchild's view: the parents exit. The umask flag also guards the change of directory.
\<close>

definition become_daemon :: "nat \<Rightarrow> daemon_io \<Rightarrow> daemon_flags \<Rightarrow> daemon_state \<Rightarrow> int \<times> daemon_state" where
  "become_daemon lim io fl st =
     (if \<not> d_fork1_ok io then (- 1, st)
      else if \<not> d_setsid_ok io then (- 1, st)
      else
        let st1 = st\<lparr>d_leader := True\<rparr> in
        if \<not> d_fork2_ok io then (- 1, st1)
        else
          let st2 = st1\<lparr>d_leader := False\<rparr>;
              st3 = (if no_umask fl then st2 else st2\<lparr>d_umask := 0, d_cwd := ''/''\<rparr>);
              maxfd = (case d_open_max io of None \<Rightarrow> 8192 | Some n \<Rightarrow> n);
              st4 = (if no_close fl then st3 else st3\<lparr>d_fds := close_below maxfd (d_fds st3)\<rparr>)
          in if no_reopen fl then (0, st4)
             else
               let t1 = snd (sys_close (d_fds st4) 0) in
               (case lowest_free lim t1 0 of
                  None \<Rightarrow> (- 1, st4\<lparr>d_fds := t1\<rparr>)
                | Some fd \<Rightarrow>
                    let t2 = t1(fd \<mapsto> d_null io) in
                    if fd \<noteq> 0 then (- 1, st4\<lparr>d_fds := t2\<rparr>)
                    else
                      let (r1, t3) = sys_dup2 lim t2 0 1 in
                      if r1 \<noteq> Inr 1 then (- 1, st4\<lparr>d_fds := t3\<rparr>)
                      else
                        let (r2, t4) = sys_dup2 lim t3 0 2 in
                        if r2 \<noteq> Inr 2 then (- 1, st4\<lparr>d_fds := t4\<rparr>) else (0, st4\<lparr>d_fds := t4\<rparr>)))"

lemma close_below_closed: "close_below n t = (\<lambda>fd. if fd < n then None else t fd)"
  by (induction n) (auto simp: close_below_def sys_close_def is_open_def fun_eq_iff less_Suc_eq)

text \<open>Without flags the daemon has exactly the three standard descriptors, all on \<^verbatim>\<open>/dev/null\<close>.\<close>

lemma become_daemon_descriptors:
  assumes "d_fork1_ok io" "d_setsid_ok io" "d_fork2_ok io" "3 \<le> lim" "\<forall>fd. d_fds st fd \<noteq> None \<longrightarrow> fd < maxfd"
    "d_open_max io = Some maxfd"
  shows "\<exists>st'. become_daemon lim io \<lparr>no_umask = False, no_close = False, no_reopen = False\<rparr> st = (0, st') \<and>
    d_fds st' = (\<lambda>fd. if fd < 3 then Some (d_null io) else None) \<and> d_cwd st' = ''/'' \<and> d_umask st' = 0 \<and> \<not> d_leader st'"
proof -
  have all: "close_below maxfd (d_fds st) = Map.empty"
    unfolding close_below_closed using assms(5) by (intro ext) (metis option.exhaust)
  have lf: "lowest_free lim Map.empty 0 = Some 0" using assms(4) by (simp add: lowest_free_at)
  show ?thesis
    using assms lf by (auto simp: become_daemon_def all sys_close_def sys_dup2_def is_open_def Let_def fun_eq_iff)
qed

subsection \<open>\<^verbatim>\<open>my_popen\<close> and \<^verbatim>\<open>my_pclose\<close>\<close>

text \<open>
  The registry \<^verbatim>\<open>fd_pid\<close> is an array of process ids indexed by descriptor, allocated with the
  first stream (\<open>None\<close> before) with indeterminate elements; \<^verbatim>\<open>fd_pid_sum\<close> counts the streams.
\<close>

record popen_state =
  po_fds :: fds
  po_reg :: "(nat \<rightharpoonup> int) option"
  po_sum :: int

text \<open>The calls of one \<^verbatim>\<open>my_popen\<close>: the two open files of the pipe (\<open>None\<close>: \<^verbatim>\<open>pipe\<close> fails), the child
  (\<open>None\<close>: \<^verbatim>\<open>fork\<close> fails), \<^verbatim>\<open>malloc\<close> and \<^verbatim>\<open>fdopen\<close>.\<close>

record popen_io =
  io_pipe :: "(nat \<times> nat) option"
  io_fork :: "int option"
  io_malloc :: bool
  io_fdopen :: bool

definition sys_pipe :: "nat \<Rightarrow> (nat \<times> nat) option \<Rightarrow> fds \<Rightarrow> (nat \<times> nat \<times> fds) option" where
  "sys_pipe lim files t =
     (case files of
        None \<Rightarrow> None
      | Some (rd, wr) \<Rightarrow>
          (case lowest_free lim t 0 of
             None \<Rightarrow> None
           | Some a \<Rightarrow>
               (case lowest_free lim (t(a \<mapsto> rd)) 0 of
                  None \<Rightarrow> None
                | Some b \<Rightarrow> Some (a, b, t(a \<mapsto> rd, b \<mapsto> wr)))))"

text \<open>The descriptors of the child when it executes the shell; \<open>Exited\<close> when a step fails.\<close>

definition popen_child :: "nat \<Rightarrow> bool \<Rightarrow> nat \<Rightarrow> nat \<Rightarrow> fds \<Rightarrow> fds run" where
  "popen_child lim is_pw a b t =
     (let step = (\<lambda>f k. case f of (r, t') \<Rightarrow> if r = (- 1 :: int) then Exited EXIT_FAILURE else k t');
          as_int = (\<lambda>f. case f of (Inl e, t') \<Rightarrow> (- 1, t') | (Inr n, t') \<Rightarrow> (int n, t'))
      in if is_pw then
           step (sys_close t (int b)) (\<lambda>t1.
           step (as_int (sys_dup2 lim t1 (int a) 0)) (\<lambda>t2.
           step (sys_close t2 (int a)) (\<lambda>t3. Done t3)))
         else
           step (sys_close t (int a)) (\<lambda>t1.
           step (as_int (sys_dup2 lim t1 (int b) 1)) (\<lambda>t2.
           step (as_int (sys_dup2 lim t2 (int b) 2)) (\<lambda>t3.
           step (sys_close t3 (int b)) (\<lambda>t4. Done t4)))))"

text \<open>\<^verbatim>\<open>my_popen\<close> in the parent: the descriptor of the stream, \<open>None\<close> for a null pointer.\<close>

definition my_popen :: "nat \<Rightarrow> popen_io \<Rightarrow> string \<Rightarrow> popen_state \<Rightarrow> nat option \<times> popen_state" where
  "my_popen lim io mode st =
     (if mode \<noteq> ''w'' \<and> mode \<noteq> ''r'' then (None, st)
      else
        let is_pw = (mode \<noteq> ''r'') in
        case sys_pipe lim (io_pipe io) (po_fds st) of
          None \<Rightarrow> (None, st)
        | Some (a, b, t) \<Rightarrow>
            (case io_fork io of
               None \<Rightarrow> (None, st\<lparr>po_fds := snd (sys_close (snd (sys_close t (int a))) (int b))\<rparr>)
             | Some pid \<Rightarrow>
                 if po_sum st = 0 \<and> \<not> io_malloc io then (None, st\<lparr>po_fds := t\<rparr>)
                 else
                   let reg = (if po_sum st = 0 then Map.empty else (case po_reg st of None \<Rightarrow> Map.empty | Some r \<Rightarrow> r));
                       (mine, other) = (if is_pw then (b, a) else (a, b));
                       st1 = st\<lparr>po_reg := Some reg, po_sum := po_sum st + 1\<rparr>;
                       t1 = snd (sys_close t (int other))
                   in if \<not> io_fdopen io then (None, st1\<lparr>po_fds := snd (sys_close t1 (int mine))\<rparr>)
                      else (Some mine, st1\<lparr>po_fds := t1, po_reg := Some (reg(mine \<mapsto> pid))\<rparr>)))"

text \<open>\<^verbatim>\<open>my_pclose\<close>: \<open>wait pid\<close> is what \<^verbatim>\<open>waitpid\<close> reports for the child (\<open>None\<close>: an error).\<close>

definition my_pclose :: "(int \<Rightarrow> int option) \<Rightarrow> bool \<Rightarrow> nat \<Rightarrow> popen_state \<Rightarrow> (int \<times> popen_state) run" where
  "my_pclose wait fclose_ok fd st =
     (case po_reg st of
        None \<Rightarrow> Faulted NullDeref
      | Some reg \<Rightarrow>
          (case reg fd of
             None \<Rightarrow> Faulted Uninitialised
           | Some pid \<Rightarrow>
               let st1 = st\<lparr>po_sum := po_sum st - 1\<rparr>;
                   st2 = (if po_sum st1 = 0 then st1\<lparr>po_reg := None\<rparr> else st1);
                   st3 = st2\<lparr>po_fds := snd (sys_close (po_fds st2) (int fd))\<rparr>
               in if \<not> fclose_ok then Done (- 1, st3)
                  else case wait pid of None \<Rightarrow> Done (- 1, st3) | Some s \<Rightarrow> Done (s, st3)))"

lemma sys_pipe_SomeD:
  assumes "sys_pipe lim files t = Some (a, b, t')"
  shows "\<exists>rd wr. files = Some (rd, wr) \<and> a \<noteq> b \<and> t a = None \<and> t b = None \<and> t' = t(a \<mapsto> rd, b \<mapsto> wr) \<and> a < lim \<and> b < lim"
  using assms lowest_free_SomeD
  by (fastforce simp: sys_pipe_def split: option.splits if_splits)

text \<open>The descriptors a stream leaves in the parent.\<close>

lemma my_popen_success:
  assumes "my_popen lim io mode st = (Some fd, st')"
  obtains ofl pid reg where "po_fds st fd = None" "po_fds st' = (po_fds st)(fd \<mapsto> ofl)"
    "io_fork io = Some pid" "po_reg st' = Some (reg(fd \<mapsto> pid))" "po_sum st' = po_sum st + 1"
    "reg = (if po_sum st = 0 then Map.empty else (case po_reg st of None \<Rightarrow> Map.empty | Some r \<Rightarrow> r))"
proof -
  have mode: "mode = ''w'' \<or> mode = ''r''" using assms by (auto simp: my_popen_def split: if_splits)
  obtain a b t where p: "sys_pipe lim (io_pipe io) (po_fds st) = Some (a, b, t)"
    using assms by (fastforce simp: my_popen_def Let_def split: if_splits option.splits)
  obtain rd wr where ab: "a \<noteq> b" "po_fds st a = None" "po_fds st b = None" "t = (po_fds st)(a \<mapsto> rd, b \<mapsto> wr)"
    using sys_pipe_SomeD [OF p] by blast
  obtain pid where f: "io_fork io = Some pid"
    using assms mode p by (auto simp: my_popen_def Let_def split: option.splits)
  have c: "snd (sys_close t (int a)) = (po_fds st)(b \<mapsto> wr)" "snd (sys_close t (int b)) = (po_fds st)(a \<mapsto> rd)"
    using ab by (auto simp: sys_close_def is_open_def fun_eq_iff)
  let ?reg = "if po_sum st = 0 then Map.empty else (case po_reg st of None \<Rightarrow> Map.empty | Some r \<Rightarrow> r)"
  show ?thesis
  proof (cases "mode = ''r''")
    case True
    then have "fd = a" "po_fds st' = (po_fds st)(a \<mapsto> rd)" "po_reg st' = Some (?reg(a \<mapsto> pid))" "po_sum st' = po_sum st + 1"
      using assms p f c by (auto simp: my_popen_def Let_def split: if_splits)
    then show ?thesis using that [of rd pid ?reg] ab f by simp
  next
    case False
    then have "fd = b" "po_fds st' = (po_fds st)(b \<mapsto> wr)" "po_reg st' = Some (?reg(b \<mapsto> pid))" "po_sum st' = po_sum st + 1"
      using assms p f c mode by (auto simp: my_popen_def Let_def split: if_splits)
    then show ?thesis using that [of wr pid ?reg] ab f by simp
  qed
qed

text \<open>C18: a stream opened by \<^verbatim>\<open>my_popen\<close> and closed by \<^verbatim>\<open>my_pclose\<close>, with any number of other
  streams open, waits for exactly the child of that stream and returns its status; the
  descriptors, the number of streams and the registry entries of the other streams are as
  before.\<close>

theorem popen_pclose_roundtrip:
  assumes "my_popen lim io mode st = (Some fd, st1)" "0 \<le> po_sum st"
    "io_fork io = Some pid" "wait pid = Some status"
  shows "\<exists>st2. my_pclose wait True fd st1 = Done (status, st2) \<and>
    po_fds st2 = po_fds st \<and> po_sum st2 = po_sum st \<and>
    (0 < po_sum st \<longrightarrow> (\<forall>g reg. po_reg st = Some reg \<and> g \<noteq> fd \<longrightarrow> map_option (\<lambda>r. r g) (po_reg st2) = Some (reg g)))"
proof -
  obtain ofl reg where p: "po_fds st fd = None" "po_fds st1 = (po_fds st)(fd \<mapsto> ofl)"
    "po_reg st1 = Some (reg(fd \<mapsto> pid))" "po_sum st1 = po_sum st + 1"
    "reg = (if po_sum st = 0 then Map.empty else (case po_reg st of None \<Rightarrow> Map.empty | Some r \<Rightarrow> r))"
    by (rule my_popen_success [OF assms(1)]) (use assms(3) in auto)
  have "snd (sys_close (po_fds st1) (int fd)) = po_fds st"
    using p(1,2) by (auto simp: sys_close_def is_open_def fun_eq_iff)
  then show ?thesis
    using p assms(2,4) by (auto simp: my_pclose_def Let_def)
qed

definition demo_po :: popen_state where
  "demo_po = \<lparr>po_fds = [0 \<mapsto> 1, 1 \<mapsto> 1, 2 \<mapsto> 1], po_reg = None, po_sum = 0\<rparr>"

definition demo_po_io :: popen_io where
  "demo_po_io = \<lparr>io_pipe = Some (7, 8), io_fork = Some 4711, io_malloc = True, io_fdopen = True\<rparr>"

lemma demo_popen: "\<exists>st1. my_popen 8 demo_po_io ''r'' demo_po = (Some 3, st1)"
  by (simp add: my_popen_def sys_pipe_def lowest_free_def demo_po_def demo_po_io_def upt_rec [of _ 8] Let_def)

theorem popen_pclose_roundtrip_witness:
  "\<exists>st1 st2. my_popen 8 demo_po_io ''r'' demo_po = (Some 3, st1) \<and>
     my_pclose (\<lambda>p. if p = 4711 then Some 0 else None) True 3 st1 = Done (0, st2) \<and> po_fds st2 = po_fds demo_po"
proof -
  obtain st1 where p: "my_popen 8 demo_po_io ''r'' demo_po = (Some 3, st1)" using demo_popen by blast
  then show ?thesis
    using popen_pclose_roundtrip [OF p, of 4711 "\<lambda>p. if p = 4711 then Some 0 else None" 0]
    by (auto simp: demo_po_def demo_po_io_def)
qed

text \<open>The child of a reading stream has the pipe as its standard output and standard error and no
  other copy of it, provided the standard descriptors were open.\<close>

lemma popen_child_output:
  assumes "sys_pipe lim (Some (rd, wr)) t = Some (a, b, t')" "\<forall>i < 3. t i \<noteq> None"
  shows "popen_child lim False a b t' = Done (t(1 \<mapsto> wr, 2 \<mapsto> wr))"
proof -
  have ab: "a \<noteq> b" "t a = None" "t b = None" "t' = t(a \<mapsto> rd, b \<mapsto> wr)" "a < lim" "b < lim"
    using sys_pipe_SomeD [OF assms(1)] by auto
  have "3 \<le> a" "3 \<le> b" using assms(2) ab(2,3) by (metis not_less)+
  then show ?thesis using ab
    by (auto simp: popen_child_def sys_close_def sys_dup2_def is_open_def Let_def fun_eq_iff)
qed

text \<open>The program: a reading and a writing stream, closed in the order in which they were opened. Using a stream that could not be opened is a
  null dereference. Its exit status is that of a failure.\<close>

definition popen_main :: "nat \<Rightarrow> popen_io \<Rightarrow> popen_io \<Rightarrow> (int \<Rightarrow> int option) \<Rightarrow> popen_state \<Rightarrow> (int \<times> popen_state) run" where
  "popen_main lim io1 io2 wait st =
     (case my_popen lim io1 ''r'' st of
        (None, _) \<Rightarrow> Faulted NullDeref
      | (Some fp1, st1) \<Rightarrow>
          (case my_popen lim io2 ''w'' st1 of
             (None, _) \<Rightarrow> Faulted NullDeref
           | (Some fp2, st2) \<Rightarrow>
               run_bind (my_pclose wait True fp1 st2) (\<lambda>(_, st3).
                 run_bind (my_pclose wait True fp2 st3) (\<lambda>(_, st4). Done (EXIT_FAILURE, st4)))))"

text \<open>Closing in another order than the reverse of opening leaves nothing behind either.\<close>

lemma popen_main_restores:
  assumes "my_popen lim io1 ''r'' st = (Some fp1, st1)" "my_popen lim io2 ''w'' st1 = (Some fp2, st2)" "po_sum st = 0"
  shows "\<exists>st4. popen_main lim io1 io2 wait st = Done (EXIT_FAILURE, st4) \<and> po_fds st4 = po_fds st \<and> po_sum st4 = 0 \<and> po_reg st4 = None"
proof -
  obtain o1 p1 where 1: "po_fds st fp1 = None" "po_fds st1 = (po_fds st)(fp1 \<mapsto> o1)" "po_reg st1 = Some [fp1 \<mapsto> p1]" "po_sum st1 = 1"
    by (rule my_popen_success [OF assms(1)]) (use assms(3) in auto)
  obtain o2 p2 where 2: "po_fds st1 fp2 = None" "po_fds st2 = (po_fds st1)(fp2 \<mapsto> o2)" "po_reg st2 = Some ([fp1 \<mapsto> p1, fp2 \<mapsto> p2])"
      "po_sum st2 = 2"
    by (rule my_popen_success [OF assms(2)]) (use 1 in auto)
  have ne: "fp1 \<noteq> fp2" using 1(2) 2(1) by auto
  have c1: "snd (sys_close (po_fds st2) (int fp1)) = (po_fds st)(fp2 \<mapsto> o2)"
    using 1 2 ne by (auto simp: sys_close_def is_open_def fun_eq_iff)
  have c2: "snd (sys_close ((po_fds st)(fp2 \<mapsto> o2)) (int fp2)) = po_fds st"
    using 1 2 ne by (auto simp: sys_close_def is_open_def fun_eq_iff)
  show ?thesis
    using assms 1 2 ne c1 c2 by (auto simp: popen_main_def my_pclose_def Let_def split: option.splits)
qed

end
