(* ===== verification/Environ.thy ===== *)
theory Environ
  imports Prelude "HOL-Library.Sublist"
begin

text \<open>
  Section 6, \<^verbatim>\<open>my_setenv_unsetenv.c\<close>: \<^verbatim>\<open>setenv\<close> and \<^verbatim>\<open>unsetenv\<close> on the list \<^verbatim>\<open>environ\<close>. The
  environment is the list of its strings; \<^verbatim>\<open>getenv\<close> and \<^verbatim>\<open>putenv\<close> of the C library are
  functions on it. The theorems show that a variable that was set is read back, and which
  entries the removal loop takes away.
\<close>

abbreviation (input) eq_sign :: char where "eq_sign \<equiv> CHR ''=''"

subsection \<open>\<^verbatim>\<open>getenv\<close> and \<^verbatim>\<open>putenv\<close>\<close>

definition def_of :: "string \<Rightarrow> string \<Rightarrow> bool" where
  "def_of name s \<longleftrightarrow> prefix (name @ [eq_sign]) s"

fun c_getenv :: "string \<Rightarrow> string list \<Rightarrow> string option" where
  "c_getenv name [] = None"
| "c_getenv name (s # r) = (if def_of name s then Some (drop (Suc (length name)) s) else c_getenv name r)"

text \<open>\<^verbatim>\<open>putenv("name=value")\<close> replaces the first definition of the name or appends the string.\<close>

fun c_putenv :: "string \<Rightarrow> string \<Rightarrow> string list \<Rightarrow> string list" where
  "c_putenv name str [] = [str]"
| "c_putenv name str (s # r) = (if def_of name s then str # r else s # c_putenv name str r)"

subsection \<open>The program\<close>

text \<open>Results of \<^verbatim>\<open>malloc\<close> and \<^verbatim>\<open>putenv\<close>.\<close>

record env_io =
  ev_malloc_ok :: bool
  ev_putenv_ok :: bool

text \<open>\<^verbatim>\<open>my_setenv\<close>: the return value and the new environment. The name is non-empty and has no
  \<^verbatim>\<open>=\<close> when \<^verbatim>\<open>putenv\<close> takes the part before the first \<^verbatim>\<open>=\<close> for the name.\<close>

definition my_setenv :: "env_io \<Rightarrow> string \<Rightarrow> string \<Rightarrow> int \<Rightarrow> string list \<Rightarrow> int \<times> string list" where
  "my_setenv io name v overwrite env =
     (if \<not> ev_malloc_ok io then (- 1, env)
      else
        let str = name @ eq_sign # v in
        if c_getenv name env \<noteq> None \<and> overwrite = 0 then (0, env)
        else if \<not> ev_putenv_ok io then (- 1, env)
        else (0, c_putenv (takeWhile (\<lambda>c. c \<noteq> eq_sign) str) str env))"

text \<open>
  The loop of \<^verbatim>\<open>my_unsetenv\<close>: a matching entry is overwritten by shifting the rest down, and the
  loop then steps over the entry that took its place.
\<close>

fun unset_loop :: "string \<Rightarrow> string list \<Rightarrow> string list" where
  "unset_loop name [] = []"
| "unset_loop name [s] = (if prefix name s then [] else [s])"
| "unset_loop name (s # n # r) =
     (if prefix name s then n # unset_loop name r else s # unset_loop name (n # r))"

definition my_unsetenv :: "string \<Rightarrow> string list option \<Rightarrow> int \<times> string list option" where
  "my_unsetenv name env =
     (case env of None \<Rightarrow> (- 1, None) | Some e \<Rightarrow> (0, Some (unset_loop name e)))"

definition print_env :: "string list \<Rightarrow> string" where
  "print_env env = concat (map (\<lambda>s. s @ [newline]) env)"

definition env_main :: "env_io \<Rightarrow> string list \<Rightarrow> string list list" where
  "env_main io e0 =
     (let e1 = snd (my_setenv io ''MyName'' ''Bangduo Chen'' 0 e0);
          e2 = snd (my_setenv io ''MyName'' ''Jack Moriarty'' 1 e1);
          e3 = unset_loop ''MyName'' e2
      in [e0, e1, e2, e3])"

subsection \<open>Setting a variable\<close>

lemma def_of_self: "def_of name (name @ eq_sign # v)"
  by (simp add: def_of_def prefix_def)

lemma takeWhile_name: "eq_sign \<notin> set name \<Longrightarrow> takeWhile (\<lambda>c. c \<noteq> eq_sign) (name @ eq_sign # v) = name"
  by (induction name) auto

lemma def_of_other:
  assumes "def_of a s" "def_of b s" "eq_sign \<notin> set a" "eq_sign \<notin> set b"
  shows "a = b"
proof -
  have "takeWhile (\<lambda>c. c \<noteq> eq_sign) s = n" if "def_of n s" "eq_sign \<notin> set n" for n
    using that takeWhile_name by (auto simp: def_of_def prefix_def)
  then show ?thesis using assms by metis
qed

lemma getenv_putenv_same: "c_getenv name (c_putenv name (name @ eq_sign # v) env) = Some v"
  by (induction env) (auto simp: def_of_self)

lemma getenv_putenv_other:
  assumes "eq_sign \<notin> set name" "eq_sign \<notin> set other" "other \<noteq> name"
  shows "c_getenv other (c_putenv name (name @ eq_sign # v) env) = c_getenv other env"
proof -
  have "\<not> def_of other (name @ eq_sign # v)" using def_of_other def_of_self assms by blast
  then show ?thesis using def_of_other [of other _ name] assms by (induction env) auto
qed

text \<open>C19: after a successful \<^verbatim>\<open>my_setenv\<close> the variable has the new value, or keeps its old value when
  it existed and overwriting was not asked for; all other variables keep theirs.\<close>

theorem setenv_getenv:
  assumes "eq_sign \<notin> set name" "ev_malloc_ok io" "ev_putenv_ok io" "my_setenv io name v ow env = (r, env')"
  shows "r = 0 \<and>
    c_getenv name env' = (if ow = 0 \<and> c_getenv name env \<noteq> None then c_getenv name env else Some v) \<and>
    (\<forall>other. eq_sign \<notin> set other \<and> other \<noteq> name \<longrightarrow> c_getenv other env' = c_getenv other env)"
  using assms getenv_putenv_same getenv_putenv_other [OF assms(1)]
  by (auto simp: my_setenv_def takeWhile_name Let_def split: if_splits)

theorem setenv_getenv_witness:
  "c_getenv ''A'' (snd (my_setenv \<lparr>ev_malloc_ok = True, ev_putenv_ok = True\<rparr> ''A'' ''2'' 1 [''B=7'', ''A=1'']))
     = Some ''2''"
  using setenv_getenv [of "''A''" "\<lparr>ev_malloc_ok = True, ev_putenv_ok = True\<rparr>" "''2''" 1 "[''B=7'', ''A=1'']"
      0 "[''B=7'', ''A=2'']"]
  by (simp add: my_setenv_def def_of_def)

subsection \<open>Removing a variable\<close>

text \<open>No two neighbouring entries start with the name.\<close>

fun apart_names :: "string \<Rightarrow> string list \<Rightarrow> bool" where
  "apart_names name [] \<longleftrightarrow> True"
| "apart_names name [s] \<longleftrightarrow> True"
| "apart_names name (s # n # r) \<longleftrightarrow> \<not> (prefix name s \<and> prefix name n) \<and> apart_names name (n # r)"

lemma apart_names_tl: "apart_names name (s # r) \<Longrightarrow> apart_names name r"
  by (cases r) auto

lemma unset_loop_filter: "apart_names name env \<Longrightarrow> unset_loop name env = filter (\<lambda>s. \<not> prefix name s) env"
proof (induction name env rule: unset_loop.induct)
  case (3 name s n r)
  then show ?case using apart_names_tl [of name n r] by auto
qed auto

text \<open>\<^verbatim>\<open>my_unsetenv\<close> removes the variable, and with it every other variable whose definition
  merely starts with the same characters; of two neighbouring entries that start with the
  name the second survives.\<close>

theorem unsetenv_removes_prefixes:
  "(apart_names name env \<longrightarrow> my_unsetenv name (Some env) = (0, Some (filter (\<lambda>s. \<not> prefix name s) env))) \<and>
   (prefix name a \<and> prefix name b \<longrightarrow> my_unsetenv name (Some [a, b]) = (0, Some [b]))"
  by (simp add: my_unsetenv_def unset_loop_filter)

theorem unsetenv_removes_prefixes_witness:
  "my_unsetenv ''HOME'' (Some [''HOME=/root'', ''PATH=/bin'', ''HOMEPAGE=x'']) = (0, Some [''PATH=/bin'']) \<and>
   my_unsetenv ''HOME'' (Some [''HOME=/root'', ''HOMEPAGE=x'']) = (0, Some [''HOMEPAGE=x''])"
  using unsetenv_removes_prefixes [of "''HOME''" "[''HOME=/root'', ''PATH=/bin'', ''HOMEPAGE=x'']"
      "''HOME=/root''" "''HOMEPAGE=x''"]
  by simp

end
