(* ===== verification/Transitions.thy ===== *)
theory Transitions
  imports Main
begin

text \<open>
  Transition systems, for the programs that are modelled as interleaved steps: a locale that
  carries an invariant to the reachable states, and one that adds a rank and the absence of
  deadlock, from which every run ends in a final state.
\<close>

locale invariant_system =
  fixes init :: "'s \<Rightarrow> bool"
    and step :: "'s \<Rightarrow> 's \<Rightarrow> bool"
    and inv :: "'s \<Rightarrow> bool"
  assumes inv_init: "init s \<Longrightarrow> inv s"
    and inv_step: "inv s \<Longrightarrow> step s s' \<Longrightarrow> inv s'"
begin

lemma inv_steps: "step\<^sup>*\<^sup>* s s' \<Longrightarrow> inv s \<Longrightarrow> inv s'"
  by (induction rule: rtranclp_induct) (auto intro: inv_step)

lemma inv_reachable: "init s \<Longrightarrow> step\<^sup>*\<^sup>* s s' \<Longrightarrow> inv s'"
  by (blast intro: inv_init inv_steps)

end

text \<open>With a rank that every step decreases and no step missing before the final states, every run
  can be completed, whatever the scheduler chose so far, and none has more steps than the rank.\<close>

locale terminating_system = invariant_system +
  fixes final :: "'s \<Rightarrow> bool"
    and rank :: "'s \<Rightarrow> nat"
  assumes progress: "inv s \<Longrightarrow> \<not> final s \<Longrightarrow> \<exists>s'. step s s'"
    and decreases: "inv s \<Longrightarrow> step s s' \<Longrightarrow> rank s' < rank s"
begin

lemma reaches_final: "inv s \<Longrightarrow> \<exists>s'. step\<^sup>*\<^sup>* s s' \<and> final s'"
proof (induction "rank s" arbitrary: s rule: less_induct)
  case less
  show ?case
  proof (cases "final s")
    case False
    with progress less.prems obtain t where t: "step s t" by blast
    with less obtain s' where "step\<^sup>*\<^sup>* t s'" "final s'"
      by (blast intro: inv_step decreases)
    with t show ?thesis by (meson converse_rtranclp_into_rtranclp)
  qed blast
qed

lemma bounded_run: "inv s \<Longrightarrow> (step ^^ n) s s' \<Longrightarrow> n + rank s' \<le> rank s"
proof (induction n arbitrary: s')
  case (Suc n)
  then obtain t where t: "(step ^^ n) s t" "step t s'" by auto
  with Suc.prems have "inv t" by (blast intro: inv_steps relpowp_imp_rtranclp)
  with Suc.IH [OF Suc.prems(1) t(1)] decreases [OF _ t(2)] show ?case by simp
qed simp

lemma stuck_final: "inv s \<Longrightarrow> step\<^sup>*\<^sup>* s s' \<Longrightarrow> \<nexists>t. step s' t \<Longrightarrow> final s'"
  using inv_steps progress by blast

end

end
