(* ===== verification/Shm_Xfr.thy ===== *)
theory Shm_Xfr
  imports C_Lib Transitions "HOL-Library.Sublist"
begin

text \<open>
  Section 48, \<^verbatim>\<open>svshm_xfr_write.c\<close>, \<^verbatim>\<open>svshm_xfr_read.c\<close> and \<^verbatim>\<open>svshm_xfr.h\<close>: two processes that
  hand blocks of data through shared memory, taking turns by two semaphores. Each process is a
  function that makes the next step of its program, or \<open>None\<close> while it is blocked; the system
  interleaves them. The locale \<open>terminating_system\<close> is interpreted on this system, and the
  theorem states that all data arrive in order and that the two never block each other.
\<close>

subsection \<open>The two programs\<close>

text \<open>Program points between operations on shared objects, and how the system answers the call
  made there. A short write transfers only some bytes.\<close>

datatype writer_pc = W_Wait | W_Read | W_Post | W_Test | W_Final | W_Remove | W_Done | W_Failed
datatype reader_pc = R_Wait | R_Test | R_Write | R_Post | R_Last | R_Done | R_Failed

datatype xfr_ans = Ok | Short nat | Fail

record xfr =
  sems :: bool                  \<comment> \<open>the semaphore set exists\<close>
  write_sem :: nat
  read_sem :: nat
  shm_cnt :: int                \<comment> \<open>\<^verbatim>\<open>struct shmseg\<close>\<close>
  shm_buf :: string
  inp :: "string list"          \<comment> \<open>blocks the next calls of \<^verbatim>\<open>read\<close> deliver; then end of file\<close>
  out :: string                 \<comment> \<open>standard output of the reader\<close>
  wpc :: writer_pc
  w_bytes :: int                \<comment> \<open>32-bit counters, which wrap\<close>
  w_xfrs :: int
  rpc :: reader_pc
  r_bytes :: int
  r_xfrs :: int

text \<open>\<^verbatim>\<open>read(STDIN_FILENO, shmp->buf, BUF_SIZE)\<close> overwrites the start of the buffer only.\<close>

definition fill :: "string \<Rightarrow> string \<Rightarrow> string" where
  "fill b old = b @ drop (length b) old"

text \<open>The writer. \<open>None\<close>: it is blocked in \<^verbatim>\<open>semop\<close>, or has ended. The last program point
  stands for \<^verbatim>\<open>semctl\<close>, \<^verbatim>\<open>shmdt\<close> and \<^verbatim>\<open>shmctl\<close>, which remove the shared objects.\<close>

definition writer_step :: "xfr_ans \<Rightarrow> xfr \<Rightarrow> xfr option" where
  "writer_step a s =
     (case wpc s of
        W_Wait \<Rightarrow> if a = Fail then Some (s\<lparr>wpc := W_Failed\<rparr>)
                  else if write_sem s = 0 then None
                  else Some (s\<lparr>write_sem := write_sem s - 1, wpc := W_Read\<rparr>)
      | W_Read \<Rightarrow> if a = Fail then Some (s\<lparr>shm_cnt := -1, wpc := W_Failed\<rparr>)
                  else (case inp s of
                          [] \<Rightarrow> Some (s\<lparr>shm_cnt := 0, wpc := W_Post\<rparr>)
                        | b # bs \<Rightarrow> Some (s\<lparr>shm_cnt := int (length b), shm_buf := fill b (shm_buf s),
                                           inp := bs, wpc := W_Post\<rparr>))
      | W_Post \<Rightarrow> if a = Fail then Some (s\<lparr>wpc := W_Failed\<rparr>)
                  else Some (s\<lparr>read_sem := read_sem s + 1, wpc := W_Test\<rparr>)
      | W_Test \<Rightarrow> if shm_cnt s = 0 then Some (s\<lparr>wpc := W_Final\<rparr>)
                  else Some (s\<lparr>w_xfrs := to_int32 (w_xfrs s + 1), w_bytes := to_int32 (w_bytes s + shm_cnt s), wpc := W_Wait\<rparr>)
      | W_Final \<Rightarrow> if a = Fail then Some (s\<lparr>wpc := W_Failed\<rparr>)
                   else if write_sem s = 0 then None
                   else Some (s\<lparr>write_sem := write_sem s - 1, wpc := W_Remove\<rparr>)
      | W_Remove \<Rightarrow> if a = Fail then Some (s\<lparr>wpc := W_Failed\<rparr>)
                    else Some (s\<lparr>sems := False, wpc := W_Done\<rparr>)
      | W_Done \<Rightarrow> None
      | W_Failed \<Rightarrow> None)"

text \<open>The reader. A write that fails or is short is reported, and the loop goes on. \<^verbatim>\<open>semop\<close>
  fails once the set is removed.\<close>

definition reader_step :: "xfr_ans \<Rightarrow> xfr \<Rightarrow> xfr option" where
  "reader_step a s =
     (case rpc s of
        R_Wait \<Rightarrow> if a = Fail \<or> \<not> sems s then Some (s\<lparr>rpc := R_Failed\<rparr>)
                  else if read_sem s = 0 then None
                  else Some (s\<lparr>read_sem := read_sem s - 1, rpc := R_Test\<rparr>)
      | R_Test \<Rightarrow> if shm_cnt s = 0 then Some (s\<lparr>rpc := R_Last\<rparr>)
                  else Some (s\<lparr>r_bytes := to_int32 (r_bytes s + shm_cnt s), rpc := R_Write\<rparr>)
      | R_Write \<Rightarrow>
          let n = (case a of Ok \<Rightarrow> nat (shm_cnt s) | Short k \<Rightarrow> min k (nat (shm_cnt s)) | Fail \<Rightarrow> 0)
          in Some (s\<lparr>out := out s @ take n (shm_buf s), rpc := R_Post\<rparr>)
      | R_Post \<Rightarrow> if a = Fail \<or> \<not> sems s then Some (s\<lparr>rpc := R_Failed\<rparr>)
                  else Some (s\<lparr>write_sem := write_sem s + 1, r_xfrs := to_int32 (r_xfrs s + 1), rpc := R_Wait\<rparr>)
      | R_Last \<Rightarrow> if a = Fail \<or> \<not> sems s then Some (s\<lparr>rpc := R_Failed\<rparr>)
                  else Some (s\<lparr>write_sem := write_sem s + 1, rpc := R_Done\<rparr>)
      | R_Done \<Rightarrow> None
      | R_Failed \<Rightarrow> None)"

text \<open>The two processes interleaved, on a system where every call succeeds in full.\<close>

inductive xfr_step :: "xfr \<Rightarrow> xfr \<Rightarrow> bool" where
  writer: "writer_step Ok s = Some s' \<Longrightarrow> xfr_step s s'"
| reader: "reader_step Ok s = Some s' \<Longrightarrow> xfr_step s s'"

inductive_cases xfr_stepE: "xfr_step s s'"

text \<open>The final messages of the two programs.\<close>

definition writer_message :: "xfr \<Rightarrow> string" where
  "writer_message s = ''Sent '' @ dec_int (w_bytes s) @ '' bytes ('' @ dec_int (w_xfrs s) @ '' xfrs)'' @ [newline]"

definition reader_message :: "xfr \<Rightarrow> string" where
  "reader_message s =
     ''Receieved '' @ dec_int (r_bytes s) @ '' bytes ('' @ dec_int (r_xfrs s) @ '' xfrs)'' @ [newline]"

text \<open>The start of the writer, which creates and initialises the shared objects; the new segment
  is zero-filled.\<close>

record xfr_start =
  xs_semget :: bool
  xs_setval :: "bool \<times> bool"
  xs_shmget :: bool
  xs_shmat :: bool

definition writer_start :: "xfr_start \<Rightarrow> string list \<Rightarrow> xfr run" where
  "writer_start e blocks =
     (if \<not> xs_semget e then Exited EXIT_FAILURE
      else if \<not> fst (xs_setval e) then Exited EXIT_FAILURE
      else if \<not> snd (xs_setval e) then Exited EXIT_FAILURE
      else if \<not> xs_shmget e then Exited EXIT_FAILURE
      else if \<not> xs_shmat e then Exited EXIT_FAILURE
      else Done \<lparr>sems = True, write_sem = 1, read_sem = 0, shm_cnt = 0, shm_buf = replicate 1024 NUL,
        inp = blocks, out = [], wpc = W_Wait, w_bytes = 0, w_xfrs = 0, rpc = R_Wait, r_bytes = 0, r_xfrs = 0\<rparr>)"

text \<open>The start of the reader, which finds the semaphores only between the start of a writer and the end of its transfer.\<close>

definition reader_start :: "bool \<Rightarrow> bool \<Rightarrow> xfr \<Rightarrow> xfr run" where
  "reader_start shmget_ok shmat_ok s =
     (if \<not> sems s then Exited EXIT_FAILURE
      else if \<not> shmget_ok then Exited EXIT_FAILURE
      else if \<not> shmat_ok then Exited EXIT_FAILURE
      else Done s)"

lemma reader_start_finds: "writer_start e blocks = Done s \<Longrightarrow> reader_start True True s = Done s"
  by (auto simp: writer_start_def reader_start_def split: if_splits)

subsection \<open>The invariant\<close>

text \<open>One token is handed round: a semaphore unit, or the right to use the shared memory.\<close>

definition token :: "xfr \<Rightarrow> nat" where
  "token s = write_sem s + read_sem s + (if wpc s \<in> {W_Read, W_Post, W_Remove, W_Done} then 1 else 0)
     + (if rpc s \<in> {R_Test, R_Write, R_Post, R_Last} then 1 else 0)"

text \<open>A block is in the shared memory and not yet written.\<close>

definition in_flight :: "xfr \<Rightarrow> bool" where
  "in_flight s \<longleftrightarrow> wpc s = W_Post \<or> read_sem s = 1 \<or> rpc s \<in> {R_Test, R_Write}"

definition data_ok :: "string list \<Rightarrow> xfr \<Rightarrow> bool" where
  "data_ok all s \<longleftrightarrow> concat all =
     out s @ (if in_flight s then take (nat (shm_cnt s)) (shm_buf s) else []) @ concat (inp s)"

text \<open>The counters hold the exact numbers of bytes and transfers modulo \<open>2 ^ 32\<close>.\<close>

definition exact_counts :: "string list \<Rightarrow> xfr \<Rightarrow> int \<Rightarrow> int \<Rightarrow> int \<Rightarrow> int \<Rightarrow> bool" where
  "exact_counts all s wb wx rb rx \<longleftrightarrow>
     rb = int (length (out s)) + (if rpc s = R_Write then shm_cnt s else 0) \<and>
     wb + (if wpc s \<in> {W_Post, W_Test} then shm_cnt s else 0) + int (length (concat (inp s)))
       = int (length (concat all)) \<and>
     wx + (if wpc s \<in> {W_Post, W_Test} \<and> shm_cnt s \<noteq> 0 then 1 else 0) + int (length (inp s))
       = int (length all) \<and>
     rx + (if (in_flight s \<or> rpc s = R_Post) \<and> shm_cnt s \<noteq> 0 then 1 else 0) + int (length (inp s))
       = int (length all)"

definition counts_ok :: "string list \<Rightarrow> xfr \<Rightarrow> bool" where
  "counts_ok all s \<longleftrightarrow> (\<exists>wb wx rb rx. exact_counts all s wb wx rb rx \<and> w_bytes s = to_int32 wb \<and>
     w_xfrs s = to_int32 wx \<and> r_bytes s = to_int32 rb \<and> r_xfrs s = to_int32 rx)"

definition ends_ok :: "xfr \<Rightarrow> bool" where
  "ends_ok s \<longleftrightarrow>
     wpc s \<noteq> W_Failed \<and> rpc s \<noteq> R_Failed \<and> (sems s \<longleftrightarrow> wpc s \<noteq> W_Done) \<and>
     0 \<le> shm_cnt s \<and> shm_cnt s \<le> 1024 \<and> length (shm_buf s) = 1024 \<and>
     (\<forall>b \<in> set (inp s). b \<noteq> [] \<and> length b \<le> 1024) \<and>
     (shm_cnt s = 0 \<and> (wpc s \<in> {W_Post, W_Test, W_Final, W_Remove, W_Done}) \<longrightarrow> inp s = []) \<and>
     (wpc s \<in> {W_Final, W_Remove, W_Done} \<longrightarrow> shm_cnt s = 0) \<and>
     (rpc s \<in> {R_Last, R_Done} \<longrightarrow> shm_cnt s = 0 \<and> read_sem s = 0) \<and>
     (rpc s \<in> {R_Write, R_Post} \<longrightarrow> shm_cnt s \<noteq> 0) \<and>
     ((read_sem s = 1 \<or> rpc s \<in> {R_Test, R_Last, R_Done}) \<and> shm_cnt s = 0 \<longrightarrow>
        wpc s \<in> {W_Test, W_Final, W_Remove, W_Done}) \<and>
     (wpc s \<in> {W_Test, W_Final} \<and> shm_cnt s = 0 \<and> rpc s = R_Wait \<longrightarrow> read_sem s = 1) \<and>
     (wpc s = W_Test \<and> rpc s = R_Wait \<and> shm_cnt s \<noteq> 0 \<longrightarrow> write_sem s + read_sem s = 1) \<and>
     (wpc s \<in> {W_Remove, W_Done} \<longrightarrow> rpc s = R_Done)"

definition xfr_inv :: "string list \<Rightarrow> xfr \<Rightarrow> bool" where
  "xfr_inv all s \<longleftrightarrow> token s = 1 \<and> data_ok all s \<and> counts_ok all s \<and> ends_ok s"

lemmas xfr_defs = xfr_inv_def token_def data_ok_def counts_ok_def exact_counts_def ends_ok_def in_flight_def

lemma take_fill [simp]: "take (length b) (fill b old) = b"
  by (simp add: fill_def)

lemma length_fill [simp]: "length (fill b old) = max (length b) (length old)"
  by (simp add: fill_def)

lemma token_units: "xfr_inv all s \<Longrightarrow>
    write_sem s = 0 \<and> read_sem s = 0 \<or> write_sem s = 1 \<and> read_sem s = 0 \<or> write_sem s = 0 \<and> read_sem s = 1"
  by (auto simp: xfr_inv_def token_def split: if_splits)

lemma writer_stepE:
  assumes "writer_step Ok s = Some s'"
  obtains
    (wait) "wpc s = W_Wait" "write_sem s \<noteq> 0" "s' = s\<lparr>write_sem := write_sem s - 1, wpc := W_Read\<rparr>"
  | (eof) "wpc s = W_Read" "inp s = []" "s' = s\<lparr>shm_cnt := 0, wpc := W_Post\<rparr>"
  | (block) b bs where "wpc s = W_Read" "inp s = b # bs"
      "s' = s\<lparr>shm_cnt := int (length b), shm_buf := fill b (shm_buf s), inp := bs, wpc := W_Post\<rparr>"
  | (post) "wpc s = W_Post" "s' = s\<lparr>read_sem := read_sem s + 1, wpc := W_Test\<rparr>"
  | (last) "wpc s = W_Test" "shm_cnt s = 0" "s' = s\<lparr>wpc := W_Final\<rparr>"
  | (again) "wpc s = W_Test" "shm_cnt s \<noteq> 0"
      "s' = s\<lparr>w_xfrs := to_int32 (w_xfrs s + 1), w_bytes := to_int32 (w_bytes s + shm_cnt s), wpc := W_Wait\<rparr>"
  | (final) "wpc s = W_Final" "write_sem s \<noteq> 0" "s' = s\<lparr>write_sem := write_sem s - 1, wpc := W_Remove\<rparr>"
  | (remove) "wpc s = W_Remove" "s' = s\<lparr>sems := False, wpc := W_Done\<rparr>"
proof (cases "wpc s")
  case W_Wait
  with assms have "write_sem s \<noteq> 0" "s' = s\<lparr>write_sem := write_sem s - 1, wpc := W_Read\<rparr>"
    by (simp_all add: writer_step_def split: if_splits)
  with W_Wait show thesis by (rule wait)
next
  case W_Read
  with assms show thesis by (cases "inp s") (simp_all add: writer_step_def eof block)
next
  case W_Post
  with assms have "s' = s\<lparr>read_sem := read_sem s + 1, wpc := W_Test\<rparr>" by (simp add: writer_step_def)
  with W_Post show thesis by (rule post)
next
  case W_Test
  with assms show thesis by (cases "shm_cnt s = 0") (simp_all add: writer_step_def last again)
next
  case W_Final
  with assms have "write_sem s \<noteq> 0" "s' = s\<lparr>write_sem := write_sem s - 1, wpc := W_Remove\<rparr>"
    by (simp_all add: writer_step_def split: if_splits)
  with W_Final show thesis by (rule final)
next
  case W_Remove
  with assms have "s' = s\<lparr>sems := False, wpc := W_Done\<rparr>" by (simp add: writer_step_def)
  with W_Remove show thesis by (rule remove)
next
  case W_Done
  with assms have False by (simp add: writer_step_def)
  then show thesis ..
next
  case W_Failed
  with assms have False by (simp add: writer_step_def)
  then show thesis ..
qed

lemma reader_stepE:
  assumes "reader_step Ok s = Some s'" "sems s"
  obtains
    (wait) "rpc s = R_Wait" "read_sem s \<noteq> 0" "s' = s\<lparr>read_sem := read_sem s - 1, rpc := R_Test\<rparr>"
  | (last) "rpc s = R_Test" "shm_cnt s = 0" "s' = s\<lparr>rpc := R_Last\<rparr>"
  | (count) "rpc s = R_Test" "shm_cnt s \<noteq> 0" "s' = s\<lparr>r_bytes := to_int32 (r_bytes s + shm_cnt s), rpc := R_Write\<rparr>"
  | (emit) "rpc s = R_Write" "s' = s\<lparr>out := out s @ take (nat (shm_cnt s)) (shm_buf s), rpc := R_Post\<rparr>"
  | (post) "rpc s = R_Post" "s' = s\<lparr>write_sem := write_sem s + 1, r_xfrs := to_int32 (r_xfrs s + 1), rpc := R_Wait\<rparr>"
  | (final) "rpc s = R_Last" "s' = s\<lparr>write_sem := write_sem s + 1, rpc := R_Done\<rparr>"
proof (cases "rpc s")
  case R_Wait
  with assms have "read_sem s \<noteq> 0" "s' = s\<lparr>read_sem := read_sem s - 1, rpc := R_Test\<rparr>"
    by (simp_all add: reader_step_def split: if_splits)
  with R_Wait show thesis by (rule wait)
next
  case R_Test
  with assms show thesis
    by (cases "shm_cnt s = 0") (auto simp: reader_step_def intro: last count)
next
  case R_Write
  with assms have "s' = s\<lparr>out := out s @ take (nat (shm_cnt s)) (shm_buf s), rpc := R_Post\<rparr>"
    by (simp add: reader_step_def Let_def)
  with R_Write show thesis by (rule emit)
next
  case R_Post
  with assms have "s' = s\<lparr>write_sem := write_sem s + 1, r_xfrs := to_int32 (r_xfrs s + 1), rpc := R_Wait\<rparr>"
    by (simp add: reader_step_def)
  with R_Post show thesis by (rule post)
next
  case R_Last
  with assms have "s' = s\<lparr>write_sem := write_sem s + 1, rpc := R_Done\<rparr>"
    by (simp add: reader_step_def)
  with R_Last show thesis by (rule final)
next
  case R_Done
  with assms(1) have False by (simp add: reader_step_def)
  then show thesis ..
next
  case R_Failed
  with assms(1) have False by (simp add: reader_step_def)
  then show thesis ..
qed

lemma writer_token: "writer_step Ok s = Some s' \<Longrightarrow> token s' = token s"
  by (erule writer_stepE) (auto simp: token_def)

lemma reader_token: "reader_step Ok s = Some s' \<Longrightarrow> sems s \<Longrightarrow> token s' = token s"
  by (erule (1) reader_stepE) (auto simp: token_def)

lemma writer_ends:
  assumes "token s = 1" "ends_ok s" "writer_step Ok s = Some s'"
  shows "ends_ok s'"
  using assms(3,1,2)
  by (elim writer_stepE) (auto simp: token_def ends_ok_def split: if_splits, cases "rpc s", simp_all)

lemma reader_ends:
  assumes "token s = 1" "ends_ok s" "sems s" "reader_step Ok s = Some s'"
  shows "ends_ok s'"
  using assms(4,3,1,2)
  by (elim reader_stepE; cases "wpc s") (auto simp: token_def ends_ok_def split: if_splits)

lemma writer_data:
  assumes "token s = 1" "ends_ok s" "data_ok all s" "writer_step Ok s = Some s'"
  shows "data_ok all s'"
  using assms(4,1,2,3)
  by (elim writer_stepE) (auto simp: token_def data_ok_def in_flight_def ends_ok_def split: if_splits)

lemma reader_data:
  assumes "token s = 1" "ends_ok s" "sems s" "data_ok all s" "reader_step Ok s = Some s'"
  shows "data_ok all s'"
  using assms(5,3,1,2,4)
  by (elim reader_stepE) (auto simp: token_def data_ok_def in_flight_def ends_ok_def split: if_splits)

definition again :: "xfr \<Rightarrow> bool" where
  "again s \<longleftrightarrow> wpc s = W_Test \<and> shm_cnt s \<noteq> 0"

lemma writer_exact:
  assumes "token s = 1" "ends_ok s" "exact_counts all s wb wx rb rx" "writer_step Ok s = Some s'"
  shows "exact_counts all s' (if again s then wb + shm_cnt s else wb) (if again s then wx + 1 else wx) rb rx"
  using assms(4,1,2,3)
  by (elim writer_stepE) (auto simp: token_def exact_counts_def again_def in_flight_def ends_ok_def split: if_splits)

lemma writer_adds:
  "writer_step Ok s = Some s' \<Longrightarrow>
     w_bytes s' = (if again s then to_int32 (w_bytes s + shm_cnt s) else w_bytes s)
     \<and> w_xfrs s' = (if again s then to_int32 (w_xfrs s + 1) else w_xfrs s)
     \<and> r_bytes s' = r_bytes s \<and> r_xfrs s' = r_xfrs s"
  by (elim writer_stepE) (simp_all add: again_def)

lemma writer_counts:
  assumes "token s = 1" "ends_ok s" "counts_ok all s" "writer_step Ok s = Some s'"
  shows "counts_ok all s'"
proof -
  obtain wb wx rb rx where c: "exact_counts all s wb wx rb rx" "w_bytes s = to_int32 wb"
      "w_xfrs s = to_int32 wx" "r_bytes s = to_int32 rb" "r_xfrs s = to_int32 rx"
    using assms(3) by (auto simp: counts_ok_def)
  show ?thesis
    unfolding counts_ok_def using writer_exact [OF assms(1,2) c(1) assms(4)] writer_adds [OF assms(4)] c(2-5)
    by (intro exI [of _ "if again s then wb + shm_cnt s else wb"] exI [of _ "if again s then wx + 1 else wx"]
        exI [of _ rb] exI [of _ rx]) (simp add: to_int32_add)
qed

lemma reader_exact:
  assumes "token s = 1" "ends_ok s" "sems s" "exact_counts all s wb wx rb rx" "reader_step Ok s = Some s'"
  shows "exact_counts all s' wb wx (if rpc s = R_Test \<and> shm_cnt s \<noteq> 0 then rb + shm_cnt s else rb)
    (if rpc s = R_Post then rx + 1 else rx)"
  using assms(5,3,1,2,4)
  by (elim reader_stepE) (auto simp: token_def exact_counts_def in_flight_def ends_ok_def split: if_splits)

lemma reader_adds:
  "reader_step Ok s = Some s' \<Longrightarrow> sems s \<Longrightarrow>
     r_bytes s' = (if rpc s = R_Test \<and> shm_cnt s \<noteq> 0 then to_int32 (r_bytes s + shm_cnt s) else r_bytes s)
     \<and> r_xfrs s' = (if rpc s = R_Post then to_int32 (r_xfrs s + 1) else r_xfrs s)
     \<and> w_bytes s' = w_bytes s \<and> w_xfrs s' = w_xfrs s"
  by (elim reader_stepE) simp_all

lemma reader_counts:
  assumes "token s = 1" "ends_ok s" "sems s" "counts_ok all s" "reader_step Ok s = Some s'"
  shows "counts_ok all s'"
proof -
  obtain wb wx rb rx where c: "exact_counts all s wb wx rb rx" "w_bytes s = to_int32 wb"
      "w_xfrs s = to_int32 wx" "r_bytes s = to_int32 rb" "r_xfrs s = to_int32 rx"
    using assms(4) by (auto simp: counts_ok_def)
  show ?thesis
    unfolding counts_ok_def using reader_exact [OF assms(1-3) c(1) assms(5)] reader_adds [OF assms(5,3)] c(2-5)
    by (intro exI [of _ wb] exI [of _ wx]
        exI [of _ "if rpc s = R_Test \<and> shm_cnt s \<noteq> 0 then rb + shm_cnt s else rb"]
        exI [of _ "if rpc s = R_Post then rx + 1 else rx"]) (simp add: to_int32_add)
qed

lemma ends_sems: "ends_ok s \<Longrightarrow> reader_step Ok s = Some s' \<Longrightarrow> sems s"
  by (cases "wpc s = W_Done") (simp_all add: ends_ok_def reader_step_def)

lemma xfr_step_inv: "xfr_inv all s \<Longrightarrow> xfr_step s s' \<Longrightarrow> xfr_inv all s'"
  unfolding xfr_inv_def
  using writer_token writer_ends writer_data writer_counts
    reader_token reader_ends reader_data reader_counts ends_sems
  by (elim xfr_stepE conjE) (metis, metis)

text \<open>No step is possible only when both programs have ended.\<close>

lemma xfr_progress:
  assumes "xfr_inv all s" "wpc s \<noteq> W_Done \<or> rpc s \<noteq> R_Done"
  shows "\<exists>s'. xfr_step s s'"
proof -
  have "(\<exists>s'. writer_step Ok s = Some s') \<or> (\<exists>s'. reader_step Ok s = Some s')"
    using assms unfolding xfr_inv_def
    by (cases "wpc s"; cases "rpc s")
      (auto simp: writer_step_def reader_step_def Let_def token_def ends_ok_def split: list.split)
  then show ?thesis by (auto intro: xfr_step.intros)
qed

text \<open>Every step uses up part of a budget.\<close>

primrec wrank :: "writer_pc \<Rightarrow> nat" where
  "wrank W_Wait = 7" | "wrank W_Read = 6" | "wrank W_Post = 5" | "wrank W_Test = 4"
| "wrank W_Final = 3" | "wrank W_Remove = 2" | "wrank W_Done = 1" | "wrank W_Failed = 0"

primrec rrank :: "reader_pc \<Rightarrow> nat" where
  "rrank R_Wait = 6" | "rrank R_Test = 5" | "rrank R_Write = 4" | "rrank R_Post = 3"
| "rrank R_Last = 2" | "rrank R_Done = 1" | "rrank R_Failed = 0"

text \<open>Blocks the writer, and the reader, have still to handle.\<close>

definition xfr_rank :: "xfr \<Rightarrow> nat" where
  "xfr_rank s = 10 * length (inp s) + (if wpc s \<in> {W_Post, W_Test} \<and> shm_cnt s \<noteq> 0 then 10 else 0) + wrank (wpc s)
     + (10 * length (inp s) + (if in_flight s \<and> shm_cnt s \<noteq> 0 then 10 else 0)
        + (if rpc s = R_Post then 10 else 0) + rrank (rpc s))"

lemma writer_rank:
  assumes "token s = 1" "ends_ok s" "writer_step Ok s = Some s'"
  shows "xfr_rank s' < xfr_rank s"
  using assms(3,1,2)
  by (elim writer_stepE) (auto simp: token_def xfr_rank_def in_flight_def ends_ok_def split: if_splits)

lemma reader_rank:
  assumes "token s = 1" "ends_ok s" "sems s" "reader_step Ok s = Some s'"
  shows "xfr_rank s' < xfr_rank s"
  using assms(4,3,1,2)
  by (elim reader_stepE) (auto simp: token_def xfr_rank_def in_flight_def ends_ok_def split: if_splits)

definition xfr_init :: "string list \<Rightarrow> xfr \<Rightarrow> bool" where
  "xfr_init all s \<longleftrightarrow> (\<exists>e. writer_start e all = Done s) \<and> (\<forall>b \<in> set all. b \<noteq> [] \<and> length b \<le> 1024)"

definition xfr_final :: "xfr \<Rightarrow> bool" where
  "xfr_final s \<longleftrightarrow> wpc s = W_Done \<and> rpc s = R_Done"

lemma xfr_init_inv: "xfr_init all s \<Longrightarrow> xfr_inv all s"
  by (auto simp: xfr_init_def writer_start_def split: if_splits) (simp add: xfr_defs)

interpretation xfr: terminating_system "xfr_init all" xfr_step "xfr_inv all" xfr_final xfr_rank
proof
  show "xfr_rank s' < xfr_rank s" if "xfr_inv all s" "xfr_step s s'" for s s'
    using that writer_rank reader_rank ends_sems unfolding xfr_inv_def
    by (elim xfr_stepE conjE) (blast, metis)
  show "\<exists>s'. xfr_step s s'" if "xfr_inv all s" "\<not> xfr_final s" for s
    using that xfr_progress unfolding xfr_final_def by blast
qed (fact xfr_init_inv, fact xfr_step_inv)

lemma xfr_final_result:
  "xfr_inv all s \<Longrightarrow> xfr_final s \<Longrightarrow>
     out s = concat all \<and> w_bytes s = to_int32 (int (length (concat all))) \<and> r_bytes s = w_bytes s \<and>
     w_xfrs s = to_int32 (int (length all)) \<and> r_xfrs s = w_xfrs s \<and> \<not> sems s"
  by (clarsimp simp: xfr_inv_def xfr_final_def token_def data_ok_def counts_ok_def exact_counts_def ends_ok_def in_flight_def)

lemma length_blocks: "\<forall>b \<in> set bs. b \<noteq> [] \<Longrightarrow> length bs \<le> length (concat bs)"
  by (induction bs) (auto simp: Suc_le_eq length_greater_0_conv add_strict_increasing)

text \<open>The example: one block of two bytes; the reader waits while the writer fills the buffer.\<close>

definition xfr_demo :: "xfr run" where
  "xfr_demo = writer_start \<lparr>xs_semget = True, xs_setval = (True, True), xs_shmget = True, xs_shmat = True\<rparr> [''ab'']"

text \<open>C20: In every state the two programs can reach, whatever the interleaving, what the reader has
  written is a prefix of the input, and the two can go on to the end: both end, the
  output is the input, whatever its size, and the semaphores are removed; both programs count the same
  bytes and transfers, in counters of type \<^verbatim>\<open>int\<close>, which are exact for inputs of up to
  \<open>2 ^ 31 - 1\<close> bytes and overflow beyond (here: wrap modulo \<open>2 ^ 32\<close>).
  A state in which neither can move is such an end, and the number of steps is bounded.\<close>

theorem xfr_delivers:
  assumes "writer_start e blocks = Done s0" "\<forall>b \<in> set blocks. b \<noteq> [] \<and> length b \<le> 1024"
    and "xfr_step\<^sup>*\<^sup>* s0 s"
  shows "prefix (out s) (concat blocks) \<and> length (shm_buf s) = 1024 \<and>
    (\<exists>t. xfr_step\<^sup>*\<^sup>* s t \<and> xfr_final t) \<and>
    ((\<nexists>t. xfr_step s t) \<longrightarrow> xfr_final s) \<and>
    (xfr_final s \<longrightarrow> out s = concat blocks \<and> \<not> sems s \<and>
       w_bytes s = to_int32 (int (length (concat blocks))) \<and> w_xfrs s = to_int32 (int (length blocks)) \<and>
       r_bytes s = w_bytes s \<and> r_xfrs s = w_xfrs s \<and>
       (int (length (concat blocks)) \<le> INT_MAX \<longrightarrow>
          w_bytes s = int (length (concat blocks)) \<and> w_xfrs s = int (length blocks))) \<and>
    (\<forall>n t. (xfr_step ^^ n) s0 t \<longrightarrow> n \<le> xfr_rank s0)"
proof -
  have init: "xfr_init blocks s0" using assms(1,2) by (auto simp: xfr_init_def)
  then have inv0: "xfr_inv blocks s0" by (rule xfr_init_inv)
  with assms(3) have inv: "xfr_inv blocks s" by (blast intro: xfr.inv_steps)
  then have pre: "prefix (out s) (concat blocks)" "length (shm_buf s) = 1024"
    by (simp_all add: xfr_inv_def data_ok_def ends_ok_def)
  have bound: "n \<le> xfr_rank s0" if "(xfr_step ^^ n) s0 t" for n t
    using xfr.bounded_run [OF inv0 that] by simp
  have stuck: "xfr_final s" if "\<nexists>t. xfr_step s t"
    using xfr.progress [OF inv] that by blast
  have exact: "to_int32 (int (length (concat blocks))) = int (length (concat blocks))
      \<and> to_int32 (int (length blocks)) = int (length blocks)" if "int (length (concat blocks)) \<le> INT_MAX"
    using that length_blocks [of blocks] assms(2) by (simp add: to_int32_id is_int32_def)
  from pre xfr.reaches_final [OF inv] stuck xfr_final_result [OF inv] bound exact show ?thesis by metis
qed

theorem xfr_delivers_witness:
  "\<exists>s0. xfr_demo = Done s0 \<and> (\<exists>t. xfr_step\<^sup>*\<^sup>* s0 t \<and> xfr_final t)"
proof -
  obtain s0 where "xfr_demo = Done s0" by (simp add: xfr_demo_def writer_start_def)
  then show ?thesis
    using xfr_delivers [of _ "[''ab'']" s0 s0] by (auto simp: xfr_demo_def)
qed

end
