(* ===== verification/Copy_Loops.thy ===== *)
theory Copy_Loops
  imports C_Lib "HOL-Library.Sublist"
begin

text \<open>
  Programs that copy a stream in chunks: \<^verbatim>\<open>mycp.c\<close> and \<^verbatim>\<open>mytee.c\<close> of Section 4 and the pair
  \<^verbatim>\<open>us_xfr_cl.c\<close>, \<^verbatim>\<open>us_xfr_sv.c\<close> of Section 57. The loops differ in their buffer size and in what
  follows them; the locale \<open>copy_program\<close> holds what such a loop guarantees and is
  interpreted on each of them. The theorems state that the copy is exact for every division of
  the input into chunks, and what happens when a call fails.
\<close>

subsection \<open>One round of the loop\<close>

record cp =
  cp_in :: "rd_ans list"        \<comment> \<open>what the next reads of the source find\<close>
  cp_room :: "wr_ans list"      \<comment> \<open>what the next writes to the target find\<close>
  cp_out :: string              \<comment> \<open>bytes the target has received\<close>

datatype copy_end = At_End | Read_Failed errno | Write_Failed

text \<open>\<^verbatim>\<open>while ((n = read(src, buf, size)) > 0) if (write(dst, buf, n) != n) ...\<close>: \<open>None\<close> when the
  loop goes on.\<close>

definition copy_round :: "nat \<Rightarrow> cp \<Rightarrow> copy_end option \<times> cp" where
  "copy_round n s =
     (case sys_read n (cp_in s) of
        (Inl e, r) \<Rightarrow> (Some (Read_Failed e), s\<lparr>cp_in := r\<rparr>)
      | (Inr b, r) \<Rightarrow>
          if b = [] then (Some At_End, s\<lparr>cp_in := r\<rparr>)
          else case sys_write b (cp_room s) of
            (Inl e, a) \<Rightarrow> (Some Write_Failed, s\<lparr>cp_in := r, cp_room := a\<rparr>)
          | (Inr k, a) \<Rightarrow>
              (if k \<noteq> length b then Some Write_Failed else None,
               s\<lparr>cp_in := r, cp_room := a, cp_out := cp_out s @ take k b\<rparr>))"

lemma copy_round_weight:
  "copy_round n s = (None, s') \<Longrightarrow> rd_weight (cp_in s') < rd_weight (cp_in s)"
  by (auto simp: copy_round_def split: prod.splits sum.splits if_splits dest!: sys_read_weight_less)

lemma prefix_take_append: "prefix (take n b) (b @ c)"
  by (simp add: prefix_prefix take_is_prefix)

subsection \<open>What such a loop guarantees\<close>

locale copy_program =
  fixes bufsize :: nat
    and loop :: "cp \<Rightarrow> copy_end \<times> cp"
  assumes bufsize: "0 < bufsize"
    and loop_unfold: "loop s = (case copy_round bufsize s of (Some e, s') \<Rightarrow> (e, s') | (None, s') \<Rightarrow> loop s')"
begin

lemma round_induct:
  assumes "\<And>s. (\<And>s'. copy_round bufsize s = (None, s') \<Longrightarrow> P s') \<Longrightarrow> P s"
  shows "P s"
proof (induction "rd_weight (cp_in s)" arbitrary: s rule: less_induct)
  case less
  then show ?case by (meson assms copy_round_weight)
qed

lemma copies_all:
  "rd_clean (cp_in s) \<Longrightarrow> wr_clean bufsize (cp_room s) \<Longrightarrow>
     \<exists>s'. loop s = (At_End, s') \<and> cp_out s' = cp_out s @ feed (cp_in s) \<and> cp_in s' = []"
proof (induction s rule: round_induct)
  case (1 s)
  obtain a r where ar: "sys_read bufsize (cp_in s) = (a, r)" by fastforce
  then obtain b where b: "a = Inr b" "feed (cp_in s) = b @ feed r" "b = [] \<longleftrightarrow> cp_in s = []" "rd_clean r"
      "length b \<le> bufsize"
    using sys_read_clean [OF 1(2) bufsize] by metis
  show ?case
  proof (cases "b = []")
    case True
    with b ar have "copy_round bufsize s = (Some At_End, s\<lparr>cp_in := []\<rparr>)"
      by (simp add: copy_round_def)
    then show ?thesis using loop_unfold [of s] b True by simp
  next
    case False
    obtain w where w: "sys_write b (cp_room s) = (Inr (length b), w)" "wr_clean bufsize w"
      using sys_write_clean [OF 1(3) b(5)] by blast
    define t where "t = s\<lparr>cp_in := r, cp_room := w, cp_out := cp_out s @ b\<rparr>"
    have t: "copy_round bufsize s = (None, t)"
      using False b ar w by (simp add: copy_round_def t_def)
    obtain s' where "loop t = (At_End, s')" "cp_out s' = cp_out t @ feed (cp_in t)" "cp_in s' = []"
      using 1(1) [OF t] b(4) w(2) by (auto simp: t_def)
    then show ?thesis using loop_unfold [of s] t b by (simp add: t_def)
  qed
qed

text \<open>An error of \<^verbatim>\<open>read\<close> ends the loop; what came before it is copied.\<close>

lemma stops_at_error:
  "cp_in s = r @ RdErr e # rest \<Longrightarrow> rd_clean r \<Longrightarrow> cp_room s = [] \<Longrightarrow>
     \<exists>s'. loop s = (Read_Failed e, s') \<and> cp_out s' = cp_out s @ feed r"
proof (induction s arbitrary: r rule: round_induct)
  case (1 s)
  show ?case
  proof (cases r)
    case Nil
    then show ?thesis using loop_unfold [of s] 1(2) by (simp add: copy_round_def)
  next
    case (Cons x q)
    then obtain b where b: "x = RdBytes b" "b \<noteq> []" "rd_clean q" using 1(3) by (auto simp: rd_clean_def)
    define q' where "q' = (if length b \<le> bufsize then q else RdBytes (drop bufsize b) # q)"
    define t where "t = s\<lparr>cp_in := q' @ RdErr e # rest, cp_room := [], cp_out := cp_out s @ take bufsize b\<rparr>"
    have t: "copy_round bufsize s = (None, t)"
      using 1(2,4) Cons b bufsize by (simp add: copy_round_def t_def q'_def)
    have "rd_clean q'" "feed r = take bufsize b @ feed q'"
      using b Cons by (auto simp: q'_def rd_clean_def)
    then show ?thesis using 1(1) [OF t, of q'] loop_unfold [of s] t by (auto simp: t_def)
  qed
qed

text \<open>A loop that did not complain about a write has copied everything.\<close>

lemma complete_unless_failed:
  "rd_clean (cp_in s) \<Longrightarrow> loop s = (e, s') \<Longrightarrow> e \<noteq> Write_Failed \<Longrightarrow>
     e = At_End \<and> cp_out s' = cp_out s @ feed (cp_in s)"
proof (induction s rule: round_induct)
  case (1 s)
  obtain a r where ar: "sys_read bufsize (cp_in s) = (a, r)" by fastforce
  then obtain b where b: "a = Inr b" "feed (cp_in s) = b @ feed r" "b = [] \<longleftrightarrow> cp_in s = []" "rd_clean r"
    using sys_read_clean [OF 1(2) bufsize] by metis
  show ?case
  proof (cases "copy_round bufsize s")
    case (Pair x t)
    show ?thesis
    proof (cases x)
      case None
      with Pair ar b have t: "cp_in t = r" "cp_out t = cp_out s @ b"
        by (auto simp: copy_round_def split: prod.splits sum.splits if_splits)
      moreover have "loop t = (e, s')" using None Pair 1(3) loop_unfold [of s] by simp
      ultimately show ?thesis using 1(1) [of t] None Pair b 1(4) by simp
    next
      case (Some y)
      with Pair 1(3) loop_unfold [of s] have "y = e" "t = s'" by simp_all
      with Some Pair ar b 1(4) show ?thesis
        by (auto simp: copy_round_def split: prod.splits sum.splits if_splits)
    qed
  qed
qed

text \<open>Whatever fails, the target holds a prefix of the source.\<close>

lemma writes_prefix: "loop s = (e, s') \<Longrightarrow> \<exists>p. cp_out s' = cp_out s @ p \<and> prefix p (feed (cp_in s))"
proof (induction s rule: round_induct)
  case (1 s)
  show ?case
  proof (cases "copy_round bufsize s")
    case (Pair x t)
    have step: "\<exists>p. cp_out t = cp_out s @ p \<and> prefix p (feed (cp_in s)) \<and>
        (x = None \<longrightarrow> feed (cp_in s) = p @ feed (cp_in t))"
      using Pair
      by (cases "cp_in s" rule: feed.cases)
        (auto simp: copy_round_def split: prod.splits sum.splits if_splits
          intro: prefix_take_append)
    show ?thesis
    proof (cases x)
      case None
      then obtain q where "cp_out s' = cp_out t @ q" "prefix q (feed (cp_in t))"
        using 1 Pair loop_unfold [of s] by fastforce
      with step None show ?thesis by fastforce
    next
      case (Some y)
      then have "s' = t" using 1(2) Pair loop_unfold [of s] by simp
      then show ?thesis using step by blast
    qed
  qed
qed

end

subsection \<open>The programs\<close>

function mycp_loop :: "cp \<Rightarrow> copy_end \<times> cp" where
  "mycp_loop s = (case copy_round 1024 s of (Some e, s') \<Rightarrow> (e, s') | (None, s') \<Rightarrow> mycp_loop s')"
  by pat_completeness auto
termination
  by (relation "measure (\<lambda>s. rd_weight (cp_in s))") (use copy_round_weight in auto)

function us_xfr_loop :: "cp \<Rightarrow> copy_end \<times> cp" where
  "us_xfr_loop s = (case copy_round 100 s of (Some e, s') \<Rightarrow> (e, s') | (None, s') \<Rightarrow> us_xfr_loop s')"
  by pat_completeness auto
termination
  by (relation "measure (\<lambda>s. rd_weight (cp_in s))") (use copy_round_weight in auto)

declare mycp_loop.simps [simp del] us_xfr_loop.simps [simp del]

interpretation mycp: copy_program 1024 mycp_loop
  by unfold_locales (simp_all add: mycp_loop.simps)

interpretation us_xfr: copy_program 100 us_xfr_loop
  by unfold_locales (simp_all add: us_xfr_loop.simps)

text \<open>How a program ends: its exit status and the text on its standard output.\<close>

text \<open>\<^verbatim>\<open>mycp.c\<close>. \<open>src\<close>: what reading the source finds, \<open>None\<close> when it cannot be opened; \<open>dst\<close>: the same
  for writing the target, which is truncated.\<close>

definition mycp_main :: "string list \<Rightarrow> rd_ans list option \<Rightarrow> wr_ans list option \<Rightarrow> int \<times> string \<times> string option" where
  "mycp_main argv src dst =
     (if length argv < 3 then (EXIT_FAILURE, [], None)
      else case src of
        None \<Rightarrow> (EXIT_FAILURE, [], None)
      | Some r \<Rightarrow>
          case dst of
            None \<Rightarrow> (EXIT_FAILURE, [], None)
          | Some w \<Rightarrow>
              case mycp_loop \<lparr>cp_in = r, cp_room = w, cp_out = []\<rparr> of
                (Write_Failed, s) \<Rightarrow> (EXIT_FAILURE, [], Some (cp_out s))
              | (_, s) \<Rightarrow> (EXIT_SUCCESS, ''Copy Success!'' @ [newline], Some (cp_out s)))"

text \<open>\<^verbatim>\<open>us_xfr_cl.c\<close>: the exit status and the bytes sent on the connection.\<close>

definition us_xfr_cl_main :: "bool \<Rightarrow> bool \<Rightarrow> rd_ans list \<Rightarrow> wr_ans list \<Rightarrow> int \<times> string" where
  "us_xfr_cl_main socket_ok connect_ok stdin_reads room =
     (if \<not> socket_ok then (EXIT_FAILURE, [])
      else if \<not> connect_ok then (EXIT_FAILURE, [])
      else case us_xfr_loop \<lparr>cp_in = stdin_reads, cp_room = room, cp_out = []\<rparr> of
        (Write_Failed, s) \<Rightarrow> (EXIT_FAILURE, cp_out s)
      | (Read_Failed e, s) \<Rightarrow> (EXIT_FAILURE, cp_out s)
      | (At_End, s) \<Rightarrow> (EXIT_SUCCESS, cp_out s))"

text \<open>\<^verbatim>\<open>us_xfr_sv.c\<close>: each \<^verbatim>\<open>accept\<close> fails or gives a connection, described by its reads and by the
  answer of \<^verbatim>\<open>close\<close>. \<open>None\<close>: the server is waiting in \<^verbatim>\<open>accept\<close>.\<close>

fun us_xfr_serve :: "(rd_ans list \<times> bool) option list \<Rightarrow> wr_ans list \<Rightarrow> string \<Rightarrow> int option \<times> string" where
  "us_xfr_serve [] room out = (None, out)"
| "us_xfr_serve (None # cs) room out = (Some EXIT_FAILURE, out)"
| "us_xfr_serve (Some (reads, close_ok) # cs) room out =
     (case us_xfr_loop \<lparr>cp_in = reads, cp_room = room, cp_out = out\<rparr> of
        (Write_Failed, s) \<Rightarrow> (Some EXIT_FAILURE, cp_out s)
      | (Read_Failed e, s) \<Rightarrow> (Some EXIT_FAILURE, cp_out s)
      | (At_End, s) \<Rightarrow>
          if \<not> close_ok then (Some EXIT_FAILURE, cp_out s)
          else us_xfr_serve cs (cp_room s) (cp_out s))"

record us_env =
  us_socket :: bool
  us_bind :: bool
  us_listen :: bool

definition us_xfr_sv_main :: "us_env \<Rightarrow> (rd_ans list \<times> bool) option list \<Rightarrow> wr_ans list \<Rightarrow> int option \<times> string" where
  "us_xfr_sv_main e conns room =
     (if \<not> us_socket e then (Some EXIT_FAILURE, [])
      else if \<not> us_bind e then (Some EXIT_FAILURE, [])
      else if \<not> us_listen e then (Some EXIT_FAILURE, [])
      else us_xfr_serve conns room [])"

lemma us_xfr_serve_all:
  assumes "\<forall>c \<in> set cs. \<exists>r. c = Some (r, True) \<and> rd_clean r"
  shows "us_xfr_serve cs [] out = (None, out @ concat (map (\<lambda>c. feed (fst (the c))) cs))"
  using assms
proof (induction cs arbitrary: out)
  case (Cons c cs)
  then obtain r where r: "c = Some (r, True)" "rd_clean r" by auto
  define s where "s = \<lparr>cp_in = r, cp_room = [], cp_out = out\<rparr>"
  have room: "cp_room s' = []" if "us_xfr_loop t = (e, s')" "cp_room t = []" for t e s'
    using that
  proof (induction t rule: us_xfr.round_induct)
    case (1 t)
    then show ?case
      using us_xfr.loop_unfold [of t]
      by (auto simp: copy_round_def split: prod.splits sum.splits if_splits option.splits)
  qed
  obtain s' where s': "us_xfr_loop s = (At_End, s')" "cp_out s' = out @ feed r"
    using us_xfr.copies_all [of s] r by (auto simp: s_def wr_clean_def)
  have "cp_room s' = []" using room [OF s'(1)] by (simp add: s_def)
  then show ?case using s' r Cons by (simp add: s_def)
qed simp

text \<open>\<^verbatim>\<open>mycp\<close> copies the source exactly, however the reads divide it, when no call fails. Whatever
  the writes do, the target holds a prefix of the source, and all of it when the status is
  success. An error while reading is not noticed: the program reports success with what
  it had read before.\<close>

theorem mycp_copies:
  assumes "2 < length argv" "rd_clean r"
  shows "(wr_clean 1024 w \<longrightarrow>
       mycp_main argv (Some r) (Some w) = (EXIT_SUCCESS, ''Copy Success!'' @ [newline], Some (feed r))) \<and>
     (\<forall>st msg f. mycp_main argv (Some r) (Some w) = (st, msg, Some f) \<longrightarrow>
        prefix f (feed r) \<and> (st = EXIT_SUCCESS \<longrightarrow> f = feed r)) \<and>
     mycp_main argv (Some (r @ RdErr e # rest)) (Some []) =
       (EXIT_SUCCESS, ''Copy Success!'' @ [newline], Some (feed r))"
proof (intro conjI impI allI)
  let ?s = "\<lparr>cp_in = r, cp_room = w, cp_out = []\<rparr>"
  show "mycp_main argv (Some r) (Some w) = (EXIT_SUCCESS, ''Copy Success!'' @ [newline], Some (feed r))"
    if "wr_clean 1024 w"
    using mycp.copies_all [of ?s] that assms by (auto simp: mycp_main_def)
  show "mycp_main argv (Some (r @ RdErr e # rest)) (Some []) =
       (EXIT_SUCCESS, ''Copy Success!'' @ [newline], Some (feed r))"
    using mycp.stops_at_error [of "\<lparr>cp_in = r @ RdErr e # rest, cp_room = [], cp_out = []\<rparr>" r] assms
    by (auto simp: mycp_main_def)
  fix st msg f
  assume m: "mycp_main argv (Some r) (Some w) = (st, msg, Some f)"
  obtain x s' where x: "mycp_loop ?s = (x, s')" by fastforce
  have f: "f = cp_out s'" "st = EXIT_SUCCESS \<longleftrightarrow> x \<noteq> Write_Failed"
    using m x assms(1) by (auto simp: mycp_main_def split: copy_end.splits)
  show "prefix f (feed r)" using mycp.writes_prefix [OF x] f by simp
  show "f = feed r" if "st = EXIT_SUCCESS"
    using mycp.complete_unless_failed [OF _ x] assms that f by simp
qed

theorem mycp_copies_witness:
  "mycp_main [''mycp'', ''a'', ''b''] (Some [RdBytes ''ab'', RdBytes ''c'']) (Some [WrRoom 2000]) =
     (EXIT_SUCCESS, ''Copy Success!'' @ [newline], Some ''abc'')"
  using mycp_copies [of "[''mycp'', ''a'', ''b'']" "[RdBytes ''ab'', RdBytes ''c'']" "[WrRoom 2000]", THEN conjunct1]
  by (simp add: rd_clean_def wr_clean_def)

text \<open>C21: Client and server composed: when the clients of a server read their input without error and their
  writes are complete, each exits with success, and the server writes the inputs of its
  clients one after the other, whatever the division into chunks on either side, and waits for
  the next client.\<close>

theorem us_xfr_end_to_end:
  assumes "us_socket e" "us_bind e" "us_listen e"
    and "\<forall>(i, c) \<in> set sessions. rd_clean i \<and> rd_clean c \<and>
           feed c = snd (us_xfr_cl_main True True i [])"
  shows "(\<forall>(i, c) \<in> set sessions. us_xfr_cl_main True True i [] = (EXIT_SUCCESS, feed i)) \<and>
    us_xfr_sv_main e (map (\<lambda>(i, c). Some (c, True)) sessions) [] =
      (None, concat (map (\<lambda>(i, c). feed i) sessions))"
proof -
  have cl: "us_xfr_cl_main True True i [] = (EXIT_SUCCESS, feed i)" if "rd_clean i" for i
    using us_xfr.copies_all [of "\<lparr>cp_in = i, cp_room = [], cp_out = []\<rparr>"] that
    by (auto simp: us_xfr_cl_main_def wr_clean_def)
  then have same: "feed c = feed i" if "(i, c) \<in> set sessions" for i c
    using assms(4) that by fastforce
  let ?cs = "map (\<lambda>(i, c). Some (c, True)) sessions"
  have "us_xfr_serve ?cs [] [] = (None, [] @ concat (map (\<lambda>c. feed (fst (the c))) ?cs))"
    by (rule us_xfr_serve_all) (use assms(4) in auto)
  also have "map (\<lambda>c. feed (fst (the c))) ?cs = map (\<lambda>(i, c). feed i) sessions"
    using same by auto
  finally have "us_xfr_serve ?cs [] [] = (None, concat (map (\<lambda>(i, c). feed i) sessions))" by simp
  moreover have "us_xfr_cl_main True True i [] = (EXIT_SUCCESS, feed i)" if "(i, c) \<in> set sessions" for i c
    using cl assms(4) that by blast
  ultimately show ?thesis using assms(1-3) by (auto simp: us_xfr_sv_main_def)
qed

theorem us_xfr_end_to_end_witness:
  "us_xfr_sv_main \<lparr>us_socket = True, us_bind = True, us_listen = True\<rparr>
     [Some ([RdBytes ''h'', RdBytes ''i''], True)] [] = (None, ''hi'')"
proof -
  have cl: "snd (us_xfr_cl_main True True [RdBytes ''hi''] []) = ''hi''"
    by (simp add: us_xfr_cl_main_def us_xfr_loop.simps copy_round_def)
  show ?thesis
    using us_xfr_end_to_end [of "\<lparr>us_socket = True, us_bind = True, us_listen = True\<rparr>"
        "[([RdBytes ''hi''], [RdBytes ''h'', RdBytes ''i''])]"] cl
    by (simp add: rd_clean_def)
qed

subsection \<open>\<^verbatim>\<open>mytee.c\<close>\<close>

text \<open>\<^verbatim>\<open>getopt\<close> with the option string \<^verbatim>\<open>":a"\<close>: the option letters in order, and the operands,
  which come last after permutation.\<close>

fun getopt_flags :: "string list \<Rightarrow> string \<times> string list" where
  "getopt_flags [] = ([], [])"
| "getopt_flags (a # as) =
     (if a = ''--'' then ([], as)
      else let (os, rest) = getopt_flags as in
        if length a > 1 \<and> hd a = CHR ''-'' then (tl a @ os, rest) else (os, a # rest))"

record tee =
  t_in :: "rd_ans list"
  t_room1 :: "wr_ans list"      \<comment> \<open>standard output\<close>
  t_room2 :: "wr_ans list"      \<comment> \<open>the file\<close>
  t_out :: string
  t_file :: string

text \<open>One round. After a failed read \<^verbatim>\<open>read_num\<close> is -1, and a \<^verbatim>\<open>write\<close> of \<open>2 ^ 64 - 1\<close> bytes
  is refused by the kernel.\<close>

definition mytee_round :: "tee \<Rightarrow> int option \<times> tee" where
  "mytee_round s =
     (case sys_read 1024 (t_in s) of
        (Inl e, r) \<Rightarrow> (Some EXIT_FAILURE, s\<lparr>t_in := r\<rparr>)
      | (Inr b, r) \<Rightarrow>
          case sys_write b (t_room1 s) of
            (Inl e, a1) \<Rightarrow> (Some EXIT_FAILURE, s\<lparr>t_in := r, t_room1 := a1\<rparr>)
          | (Inr k, a1) \<Rightarrow>
              let s1 = s\<lparr>t_in := r, t_room1 := a1, t_out := t_out s @ take k b\<rparr> in
              case sys_write b (t_room2 s) of
                (Inl e, a2) \<Rightarrow> (Some EXIT_FAILURE, s1\<lparr>t_room2 := a2\<rparr>)
              | (Inr j, a2) \<Rightarrow> (None, s1\<lparr>t_room2 := a2, t_file := t_file s @ take j b\<rparr>))"

text \<open>\<^verbatim>\<open>while (TRUE)\<close>, for a number of rounds: \<open>None\<close> while the program is still running.\<close>

fun mytee_loop :: "nat \<Rightarrow> tee \<Rightarrow> int option \<times> tee" where
  "mytee_loop 0 s = (None, s)"
| "mytee_loop (Suc n) s = (case mytee_round s of (None, s') \<Rightarrow> mytee_loop n s' | (Some x, s') \<Rightarrow> (Some x, s'))"

text \<open>\<open>old\<close>: the present contents of the file, when it can be opened.\<close>

definition mytee_main :: "nat \<Rightarrow> string list \<Rightarrow> (string \<Rightarrow> string option) \<Rightarrow> rd_ans list \<Rightarrow> wr_ans list \<Rightarrow> wr_ans list
    \<Rightarrow> int option \<times> tee option" where
  "mytee_main n argv old reads room1 room2 =
     (if length argv < 2 then (Some EXIT_FAILURE, None)
      else let (os, operands) = getopt_flags (tl argv) in
        if \<exists>c \<in> set os. c \<noteq> CHR ''a'' then (Some EXIT_FAILURE, None)
        else case operands of
          [] \<Rightarrow> (Some EXIT_FAILURE, None)
        | name # _ \<Rightarrow>
            case old name of
              None \<Rightarrow> (Some EXIT_FAILURE, None)
            | Some contents \<Rightarrow>
                (case mytee_loop n \<lparr>t_in = reads, t_room1 = room1, t_room2 = room2, t_out = [],
                    t_file = (if os = [] then [] else contents)\<rparr> of (x, s) \<Rightarrow> (x, Some s)))"

lemma mytee_loop_clean:
  assumes "rd_clean (t_in s)" "wr_clean 1024 (t_room1 s)" "wr_clean 1024 (t_room2 s)"
  shows "\<exists>s'. mytee_loop n s = (None, s') \<and>
    (rd_weight (t_in s) \<le> n \<longrightarrow> t_out s' = t_out s @ feed (t_in s) \<and> t_file s' = t_file s @ feed (t_in s))"
  using assms
proof (induction n arbitrary: s)
  case 0
  then show ?case by (cases "t_in s" rule: feed.cases) auto
next
  case (Suc n)
  obtain a r where ar: "sys_read 1024 (t_in s) = (a, r)" by fastforce
  then obtain b where b: "a = Inr b" "feed (t_in s) = b @ feed r" "b = [] \<longleftrightarrow> t_in s = []" "rd_clean r"
      "length b \<le> 1024"
    using sys_read_clean [OF Suc.prems(1)] by (metis zero_less_numeral)
  obtain w1 where w1: "sys_write b (t_room1 s) = (Inr (length b), w1)" "wr_clean 1024 w1"
    using sys_write_clean [OF Suc.prems(2) b(5)] by blast
  obtain w2 where w2: "sys_write b (t_room2 s) = (Inr (length b), w2)" "wr_clean 1024 w2"
    using sys_write_clean [OF Suc.prems(3) b(5)] by blast
  have weight: "rd_weight r \<le> n" if "rd_weight (t_in s) \<le> Suc n"
  proof (cases "b = []")
    case True
    with b(3) ar show ?thesis by auto
  next
    case False
    with sys_read_weight_less ar b(1) have "rd_weight r < rd_weight (t_in s)" by blast
    then show ?thesis using that by simp
  qed
  define t where "t = s\<lparr>t_in := r, t_room1 := w1, t_out := t_out s @ b, t_room2 := w2, t_file := t_file s @ b\<rparr>"
  have "mytee_round s = (None, t)" using ar b w1 w2 by (simp add: mytee_round_def t_def Let_def)
  moreover have "\<exists>s'. mytee_loop n t = (None, s') \<and>
    (rd_weight (t_in t) \<le> n \<longrightarrow> t_out s' = t_out t @ feed (t_in t) \<and> t_file s' = t_file t @ feed (t_in t))"
    by (rule Suc.IH) (use b w1 w2 in \<open>simp_all add: t_def\<close>)
  ultimately show ?case using b weight by (auto simp: t_def)
qed

text \<open>\<^verbatim>\<open>mytee\<close> writes its input to the standard output and, behind the old contents with option
  \<^verbatim>\<open>-a\<close>, to the file, within as many rounds as the input has bytes and chunks; but it never
  ends, since the loop does not test for the end of the input.\<close>

theorem mytee_copies_for_ever:
  assumes "rd_clean r" "wr_clean 1024 w1" "wr_clean 1024 w2" "old name = Some contents"
    and "length name \<noteq> 0" "hd name \<noteq> CHR ''-''"
  shows "(\<forall>n. fst (mytee_main n [prog, name] old r w1 w2) = None) \<and>
    (\<forall>n \<ge> rd_weight r. \<exists>s. mytee_main n [prog, name] old r w1 w2 = (None, Some s) \<and>
       t_out s = feed r \<and> t_file s = feed r) \<and>
    (\<forall>n \<ge> rd_weight r. \<exists>s. mytee_main n [prog, ''-a'', name] old r w1 w2 = (None, Some s) \<and>
       t_out s = feed r \<and> t_file s = contents @ feed r)"
proof -
  define s where "s = (\<lambda>c. \<lparr>t_in = r, t_room1 = w1, t_room2 = w2, t_out = [], t_file = c\<rparr>)"
  have loop: "\<exists>s'. mytee_loop n (s c) = (None, s') \<and>
      (rd_weight r \<le> n \<longrightarrow> t_out s' = feed r \<and> t_file s' = c @ feed r)" for n c
    using mytee_loop_clean [of "s c" n] assms by (simp add: s_def)
  have name: "name \<noteq> ''--''" using assms(6) by auto
  have main: "mytee_main n [prog, name] old r w1 w2 = (case mytee_loop n (s []) of (x, s) \<Rightarrow> (x, Some s))"
    "mytee_main n [prog, ''-a'', name] old r w1 w2 = (case mytee_loop n (s contents) of (x, s) \<Rightarrow> (x, Some s))" for n
    using name assms(4,6) by (simp_all add: mytee_main_def s_def)
  show ?thesis
  proof (intro conjI allI impI)
    fix n
    show "fst (mytee_main n [prog, name] old r w1 w2) = None" using loop [of n "[]"] main by auto
  next
    fix n assume "rd_weight r \<le> n"
    then show "\<exists>s. mytee_main n [prog, name] old r w1 w2 = (None, Some s) \<and> t_out s = feed r \<and> t_file s = feed r"
      using loop [of n "[]"] main by auto
  next
    fix n assume "rd_weight r \<le> n"
    then show "\<exists>s. mytee_main n [prog, ''-a'', name] old r w1 w2 = (None, Some s) \<and>
       t_out s = feed r \<and> t_file s = contents @ feed r"
      using loop [of n contents] main by auto
  qed
qed

theorem mytee_copies_for_ever_witness:
  "\<forall>n. fst (mytee_main n [''mytee'', ''f''] (\<lambda>_. Some ''old'') [RdBytes ''hello''] [] []) = None"
  using mytee_copies_for_ever [of "[RdBytes ''hello'']" "[]" "[]" "\<lambda>_. Some ''old''" "''f''" "''old''" "''mytee''",
      THEN conjunct1]
  by (simp add: rd_clean_def wr_clean_def)

end
