(* ===== verification/Sendfile.thy ===== *)
theory Sendfile
  imports C_Lib
begin

text \<open>
  Transfers between files: \<^verbatim>\<open>my_sendfile\<close> of Section 61 and \<^verbatim>\<open>myreadv\<close>, \<^verbatim>\<open>mywritev\<close> of Section 5.
  The input of \<^verbatim>\<open>my_sendfile\<close> is a seekable file with its offset; its buffer keeps what earlier
  rounds left in it. The theorems state which bytes arrive, what the functions return, and what
  short writes and interrupted reads do.
\<close>

subsection \<open>\<^verbatim>\<open>my_sendfile\<close>\<close>

record sf =
  sf_seekable :: bool
  sf_data :: string             \<comment> \<open>the input file\<close>
  sf_pos :: nat                 \<comment> \<open>its offset\<close>
  sf_rd :: "wr_ans list"        \<comment> \<open>the next reads: an error, or a limit on the bytes delivered\<close>
  sf_wr :: "wr_ans list"        \<comment> \<open>the next writes\<close>
  sf_out :: string

definition sys_fread :: "nat \<Rightarrow> sf \<Rightarrow> (errno + string) \<times> sf" where
  "sys_fread n s =
     (let avail = take n (drop (sf_pos s) (sf_data s)) in
      case sf_rd s of
        [] \<Rightarrow> (Inr avail, s\<lparr>sf_pos := sf_pos s + length avail\<rparr>)
      | WrErr e # r \<Rightarrow> (Inl e, s\<lparr>sf_rd := r\<rparr>)
      | WrRoom k # r \<Rightarrow> (Inr (take k avail), s\<lparr>sf_rd := r, sf_pos := sf_pos s + length (take k avail)\<rparr>))"

definition sys_lseek_cur :: "int \<Rightarrow> sf \<Rightarrow> int \<times> sf" where
  "sys_lseek_cur d s =
     (if \<not> sf_seekable s \<or> int (sf_pos s) + d < 0 then (- 1, s)
      else (int (sf_pos s) + d, s\<lparr>sf_pos := nat (int (sf_pos s) + d)\<rparr>))"

definition sys_lseek_set :: "int \<Rightarrow> sf \<Rightarrow> int \<times> sf" where
  "sys_lseek_set p s = (if \<not> sf_seekable s \<or> p < 0 then (- 1, s) else (p, s\<lparr>sf_pos := nat p\<rparr>))"

definition retry :: "errno \<Rightarrow> bool" where
  "retry e \<longleftrightarrow> e = EINTR \<or> e = EAGAIN"

text \<open>The loop that writes the \<open>n\<close> bytes read. Each call passes \<open>n\<close> bytes from the present
  position of the buffer on, not only those that are left. \<open>None\<close>: the function returns -1.\<close>

function sf_write_loop :: "chars \<Rightarrow> nat \<Rightarrow> nat \<Rightarrow> sf \<Rightarrow> (nat option \<times> sf) run" where
  "sf_write_loop buf n tot s =
     (if tot < n then
        if length buf < tot + n then Faulted OutOfBounds
        else if None \<in> set (take n (drop tot buf)) then Faulted Uninitialised
        else
          let bytes = map the (take n (drop tot buf)) in
          case sys_write bytes (sf_wr s) of
            (Inl e, a) \<Rightarrow> if retry e then sf_write_loop buf n tot (s\<lparr>sf_wr := a\<rparr>) else Done (None, s\<lparr>sf_wr := a\<rparr>)
          | (Inr k, a) \<Rightarrow> sf_write_loop buf n (tot + k) (s\<lparr>sf_wr := a, sf_out := sf_out s @ take k bytes\<rparr>)
      else Done (Some tot, s))"
  by pat_completeness auto
termination
proof (relation "measure (\<lambda>(buf, n, tot, s). length (sf_wr s) + (n - tot))", goal_cases)
  case (2 buf n tot s bytes x a e)
  then show ?case by (cases "sf_wr s" rule: list.exhaust; cases "hd (sf_wr s)") auto
next
  case (3 buf n tot s bytes x a k)
  then show ?case by (cases "sf_wr s" rule: list.exhaust; cases "hd (sf_wr s)") auto
qed simp

declare sf_write_loop.simps [simp del]

lemma sf_write_loop_keeps:
  "sf_write_loop buf n tot s = Done (r, s') \<Longrightarrow>
     sf_rd s' = sf_rd s \<and> sf_pos s' = sf_pos s \<and> sf_data s' = sf_data s \<and> sf_seekable s' = sf_seekable s"
proof (induction buf n tot s rule: sf_write_loop.induct)
  case (1 buf n tot s)
  from 1(3) show ?case
    by (subst (asm) sf_write_loop.simps)
      (auto simp: Let_def split: if_splits prod.splits sum.splits dest!: 1(1) [rotated -1] 1(2) [rotated -1])
qed

text \<open>The type \<^verbatim>\<open>size_t\<close>, to which the signed counter is converted for the comparison.\<close>

definition to_size :: "int \<Rightarrow> nat" where
  "to_size v = nat (v mod 2 ^ 64)"

text \<open>The transfer loop. \<^verbatim>\<open>continue\<close> after an interrupted read still executes
  \<^verbatim>\<open>trans_num += num_read\<close> with \<^verbatim>\<open>num_read\<close> = -1. \<open>tot\<close> is \<open>None\<close> while \<^verbatim>\<open>tot_writen\<close> is indeterminate.\<close>

function sf_loop :: "nat \<Rightarrow> chars \<Rightarrow> int \<Rightarrow> nat option \<Rightarrow> sf \<Rightarrow> (nat option option \<times> sf) run" where
  "sf_loop count buf tn tot s =
     (if to_size tn < count then
        case sys_fread (min 1024 (to_size (int count - tn))) s of
          (Inl e, s1) \<Rightarrow> if retry e then sf_loop count buf (tn - 1) tot s1 else Done (None, s1)
        | (Inr b, s1) \<Rightarrow>
            if b = [] then Done (Some tot, s1)
            else
              let buf1 = map Some b @ drop (length b) buf in
              case sf_write_loop buf1 (length b) 0 s1 of
                Done (Some t, s2) \<Rightarrow> sf_loop count buf1 (tn + int (length b)) (Some t) s2
              | Done (None, s2) \<Rightarrow> Done (None, s2)
              | Exited x \<Rightarrow> Exited x
              | Faulted f \<Rightarrow> Faulted f
      else Done (Some tot, s))"
  by pat_completeness auto
termination
proof (relation "measure (\<lambda>(count, buf, tn, tot, s). length (sf_rd s) + (length (sf_data s) - sf_pos s))", goal_cases)
  case (2 count buf tn tot s x s1 e)
  then show ?case
    by (auto simp: sys_fread_def Let_def split: list.splits wr_ans.splits)
next
  case (3 count buf tn tot s x s1 b buf1 y r s2 t)
  then have "sf_rd s2 = sf_rd s1 \<and> sf_pos s2 = sf_pos s1 \<and> sf_data s2 = sf_data s1"
    using sf_write_loop_keeps by metis
  with 3 show ?case
    by (auto simp: sys_fread_def Let_def min_def split: list.splits wr_ans.splits)
qed simp

declare sf_loop.simps [simp del]

definition my_sendfile :: "int option \<Rightarrow> nat \<Rightarrow> sf \<Rightarrow> ((int \<times> int option) \<times> sf) run" where
  "my_sendfile offset count s =
     (let (origin, s1) = sys_lseek_cur 0 s in
      if origin = - 1 then Done ((- 1, offset), s1)
      else
        let (file_offset, s2) = (case offset of None \<Rightarrow> (0, s1) | Some d \<Rightarrow> sys_lseek_cur d s1) in
        if file_offset = - 1 then Done ((- 1, offset), s2)
        else run_bind (sf_loop count (replicate 1024 None) 0 None s2) (\<lambda>(r, s3).
          case r of
            None \<Rightarrow> Done ((- 1, offset), s3)
          | Some tot \<Rightarrow>
              let (off1, s4) = (case offset of None \<Rightarrow> (0, s3) | Some _ \<Rightarrow> sys_lseek_cur 0 s3);
                  offset1 = (case offset of None \<Rightarrow> None | Some _ \<Rightarrow> Some off1) in
              if off1 = - 1 then Done ((- 1, offset1), s4)
              else
                let (p, s5) = sys_lseek_set origin s4 in
                if p = - 1 then Done ((- 1, offset1), s5)
                else case tot of
                  None \<Rightarrow> Faulted Uninitialised
                | Some t \<Rightarrow> Done ((int t, offset1), s5)))"

subsection \<open>What is transferred\<close>

lemma to_size_id: "0 \<le> v \<Longrightarrow> v < 2 ^ 64 \<Longrightarrow> to_size v = nat v"
  by (simp add: to_size_def)

lemma sf_write_loop_full:
  assumes "sf_wr s = []" "b \<noteq> []"
  shows "sf_write_loop (map Some b @ rest) (length b) 0 s = Done (Some (length b), s\<lparr>sf_out := sf_out s @ b\<rparr>)"
  using assms by (simp add: sf_write_loop.simps [of _ _ 0] sf_write_loop.simps [of _ _ "length b"] comp_def)

lemma last_chunk:
  assumes "b \<noteq> []" "length b = min 1024 (length (b @ m))"
  shows "(if m = [] then length b else (length m - 1) mod 1024 + 1) = (length (b @ m) - 1) mod 1024 + 1"
proof (cases m)
  case Nil
  then show ?thesis using assms by (simp add: min_def split: if_splits)
next
  case (Cons x l)
  then have "length b = 1024" using assms by (simp add: min_def split: if_splits)
  then show ?thesis using Cons by simp
qed

lemma sf_loop_clean:
  assumes "sf_rd s = []" "sf_wr s = []" "0 \<le> tn" "tn \<le> int count" "count < 2 ^ 63"
    and "moved = take (count - nat tn) (drop (sf_pos s) (sf_data s))"
  shows "sf_loop count buf tn tot s =
    Done (Some (if moved = [] then tot else Some ((length moved - 1) mod 1024 + 1)),
      s\<lparr>sf_pos := sf_pos s + length moved, sf_out := sf_out s @ moved\<rparr>)"
  using assms
proof (induction "length (sf_data s) - sf_pos s" arbitrary: s buf tn tot moved rule: less_induct)
  case less
  have size: "to_size tn = nat tn" "to_size (int count - tn) = count - nat tn"
    using less.prems by (simp_all add: to_size_id nat_diff_distrib)
  show ?case
  proof (cases "tn = int count")
    case True
    then show ?thesis using less.prems size by (simp add: sf_loop.simps [of count buf "int count"])
  next
    case False
    define b where "b = take (min 1024 (count - nat tn)) (drop (sf_pos s) (sf_data s))"
    define s1 where "s1 = s\<lparr>sf_pos := sf_pos s + length b\<rparr>"
    define s2 where "s2 = s1\<lparr>sf_out := sf_out s1 @ b\<rparr>"
    define m where "m = take (count - nat (tn + int (length b))) (drop (sf_pos s2) (sf_data s2))"
    have lt: "nat tn < count" using False less.prems by simp
    have rd: "sys_fread (min 1024 (to_size (int count - tn))) s = (Inr b, s1)"
      using less.prems(1) size by (simp add: sys_fread_def b_def s1_def)
    have unf: "sf_loop count buf tn tot s =
        (if b = [] then Done (Some tot, s1)
         else sf_loop count (map Some b @ drop (length b) buf) (tn + int (length b)) (Some (length b)) s2)"
      using rd lt size sf_write_loop_full [of s1 b] less.prems(2)
      by (simp add: sf_loop.simps [of count buf tn] s1_def s2_def Let_def)
    have split: "moved = b @ m"
    proof -
      have "moved = take (length b) moved @ drop (length b) moved" by simp
      moreover have "take (length b) moved = b"
        using less.prems(6) by (simp add: b_def min_def)
      moreover have "drop (length b) moved = m"
        using less.prems(3,6) by (simp add: m_def s2_def s1_def drop_take nat_add_distrib add.commute)
      ultimately show ?thesis by simp
    qed
    show ?thesis
    proof (cases "b = []")
      case True
      then have "moved = []" using less.prems(6) lt by (auto simp: b_def)
      then show ?thesis using unf True by (simp add: s1_def)
    next
      case False
      then have shorter: "length (sf_data s2) - sf_pos s2 < length (sf_data s) - sf_pos s"
        by (auto simp: s2_def s1_def b_def)
      have bl: "length b \<le> count - nat tn" by (simp add: b_def)
      have "sf_loop count (map Some b @ drop (length b) buf) (tn + int (length b)) (Some (length b)) s2 =
        Done (Some (if m = [] then Some (length b) else Some ((length m - 1) mod 1024 + 1)),
          s2\<lparr>sf_pos := sf_pos s2 + length m, sf_out := sf_out s2 @ m\<rparr>)"
        by (rule less.hyps [OF shorter _ _ _ _ _ m_def])
          (use less.prems bl lt in \<open>simp_all add: s2_def s1_def\<close>)
      moreover have "length b = min 1024 (length moved)" by (simp add: b_def less.prems(6) min.left_commute)
      then have "(if m = [] then Some (length b) else Some ((length m - 1) mod 1024 + 1)) =
          Some ((length moved - 1) mod 1024 + 1)"
        using last_chunk [OF False, of m] split by (cases "m = []") auto
      moreover have "moved \<noteq> []" using split False by simp
      ultimately show ?thesis
        using unf False split by (simp add: s2_def s1_def add.assoc)
    qed
  qed
qed

definition sf_start :: "int option \<Rightarrow> sf \<Rightarrow> nat" where
  "sf_start offset s = (case offset of None \<Rightarrow> sf_pos s | Some d \<Rightarrow> sf_pos s + nat d)"

text \<open>Without errors and short writes \<^verbatim>\<open>my_sendfile\<close> sends exactly the requested bytes, from the present
  position advanced by the offset, in chunks of 1024, leaves the position of the input as it
  was and stores the position behind the last byte in the offset. What it returns is the
  size of the last chunk only, which is the number of bytes sent just when that is at most 1024.\<close>

theorem sendfile_transfers:
  assumes "sf_seekable s" "sf_rd s = []" "sf_wr s = []" "count < 2 ^ 63"
    and "moved = take count (drop (sf_start offset s) (sf_data s))" "moved \<noteq> []"
    and "\<forall>d. offset = Some d \<longrightarrow> 0 \<le> d"
  shows "my_sendfile offset count s =
      Done ((int ((length moved - 1) mod 1024 + 1), map_option (\<lambda>_. int (sf_start offset s + length moved)) offset),
        s\<lparr>sf_out := sf_out s @ moved\<rparr>) \<and>
    ((length moved - 1) mod 1024 + 1 = length moved \<longleftrightarrow> length moved \<le> 1024)"
proof
  have loop: "sf_loop count (replicate 1024 None) 0 None t =
    Done (Some (Some ((length moved - 1) mod 1024 + 1)),
      t\<lparr>sf_pos := sf_pos t + length moved, sf_out := sf_out t @ moved\<rparr>)"
    if "t = s\<lparr>sf_pos := sf_start offset s\<rparr>" for t
    using sf_loop_clean [of t 0 count moved "replicate 1024 None" None] that assms by simp
  show "my_sendfile offset count s =
      Done ((int ((length moved - 1) mod 1024 + 1), map_option (\<lambda>_. int (sf_start offset s + length moved)) offset),
        s\<lparr>sf_out := sf_out s @ moved\<rparr>)"
  proof (cases offset)
    case None
    then show ?thesis using loop [of s] assms(1)
      by (simp add: my_sendfile_def sys_lseek_cur_def sys_lseek_set_def sf_start_def)
  next
    case (Some d)
    then have "nat (int (sf_pos s) + d) = sf_start offset s" using assms(7) by (simp add: sf_start_def nat_add_distrib)
    then show ?thesis using loop [of "s\<lparr>sf_pos := sf_start offset s\<rparr>"] assms(1,7) Some
      by (simp add: my_sendfile_def sys_lseek_cur_def sys_lseek_set_def)
  qed
  show "(length moved - 1) mod 1024 + 1 = length moved \<longleftrightarrow> length moved \<le> 1024"
  proof (cases "length moved \<le> 1024")
    case True
    then show ?thesis using assms(6) by (cases moved) auto
  next
    case False
    have "(length moved - 1) mod 1024 < 1024" by simp
    then show ?thesis using False by linarith
  qed
qed

definition sf_demo :: "string \<Rightarrow> sf" where
  "sf_demo d = \<lparr>sf_seekable = True, sf_data = d, sf_pos = 1, sf_rd = [], sf_wr = [], sf_out = []\<rparr>"

theorem sendfile_transfers_witness:
  "my_sendfile (Some 3) 5 (sf_demo ''abcdefghijk'') =
     Done ((5, Some 9), (sf_demo ''abcdefghijk'')\<lparr>sf_out := ''efghi''\<rparr>)"
proof -
  have "''efghi'' = take 5 (drop (sf_start (Some 3) (sf_demo ''abcdefghijk'')) (sf_data (sf_demo ''abcdefghijk'')))"
    by (simp add: sf_start_def sf_demo_def)
  from sendfile_transfers [OF _ _ _ _ this] show ?thesis
    by (simp add: sf_demo_def sf_start_def)
qed

text \<open>An interrupted first read ends \<^verbatim>\<open>my_sendfile\<close> at once with an indeterminate value, since the counter
  becomes -1, which compares as the largest \<^verbatim>\<open>size_t\<close>. A short write of the first chunk makes the
  function pass bytes behind the data to \<^verbatim>\<open>write\<close>, since the count is not reduced. A
  request for no bytes, or at the end of the file, returns an indeterminate value.\<close>

theorem sendfile_faults:
  assumes "sf_seekable s" "count < 2 ^ 63"
  shows "(sf_rd s = WrErr e # r \<and> retry e \<and> 0 < count \<longrightarrow> my_sendfile None count s = Faulted Uninitialised) \<and>
    (sf_rd s = [] \<and> sf_wr s = WrRoom k # w \<and> 0 < k \<and> k < count \<and> k < length (sf_data s) - sf_pos s \<and> k < 1024
       \<longrightarrow> (\<exists>f. my_sendfile None count s = Faulted f)) \<and>
    (sf_rd s = [] \<and> (count = 0 \<or> length (sf_data s) \<le> sf_pos s) \<longrightarrow> my_sendfile None count s = Faulted Uninitialised)"
proof (intro conjI impI)
  have size: "to_size 0 = 0" "to_size (int count) = count" "to_size (- 1) = 2 ^ 64 - 1"
    using assms(2) by (simp_all add: to_size_def)
  let ?buf = "replicate 1024 None :: chars"
  have main: "my_sendfile None count s = Faulted f" if "sf_loop count ?buf 0 None s = Faulted f" for f
    using that assms(1) by (simp add: my_sendfile_def sys_lseek_cur_def)
  have indet: "my_sendfile None count s = Faulted Uninitialised"
    if "sf_loop count ?buf 0 None s = Done (Some None, t)" "sf_seekable t" for t
    using that assms(1) by (simp add: my_sendfile_def sys_lseek_cur_def sys_lseek_set_def)
  show "my_sendfile None count s = Faulted Uninitialised" if "sf_rd s = WrErr e # r \<and> retry e \<and> 0 < count"
    by (rule indet [of "s\<lparr>sf_rd := r\<rparr>"])
      (use that size assms in \<open>simp_all add: sf_loop.simps [of count _ 0] sf_loop.simps [of count _ "- 1"]
         sys_fread_def\<close>)
  show "my_sendfile None count s = Faulted Uninitialised"
    if "sf_rd s = [] \<and> (count = 0 \<or> length (sf_data s) \<le> sf_pos s)"
    by (rule indet [of s]) (use that size assms in \<open>auto simp: sf_loop.simps [of count _ 0] sys_fread_def\<close>)
  assume a: "sf_rd s = [] \<and> sf_wr s = WrRoom k # w \<and> 0 < k \<and> k < count \<and> k < length (sf_data s) - sf_pos s \<and> k < 1024"
  define b where "b = take (min 1024 count) (drop (sf_pos s) (sf_data s))"
  define s1 where "s1 = s\<lparr>sf_pos := sf_pos s + length b\<rparr>"
  have b: "k < length b" "length b \<le> 1024" using a by (simp_all add: b_def)
  have buf: "length (map Some b @ drop (length b) ?buf) = 1024" using b by simp
  have none: "None \<in> set (take (length b) (drop k (map Some b @ drop (length b) ?buf)))" if "k + length b \<le> 1024"
  proof -
    have "0 < length b - (length b - k)" "length b < 1024" using a b that by auto
    then show ?thesis using b a by (auto simp: take_Cons' take_append min_def)
  qed
  have "b \<noteq> []" using b by auto
  with a b none have "\<exists>f. sf_write_loop (map Some b @ drop (length b) ?buf) (length b) 0 s1 = Faulted f"
    by (simp add: sf_write_loop.simps [of _ _ 0] sf_write_loop.simps [of _ _ k] s1_def comp_def)
  then obtain f where f: "sf_write_loop (map Some b @ drop (length b) ?buf) (length b) 0 s1 = Faulted f" ..
  have "sys_fread (min 1024 count) s = (Inr b, s1)" using a by (simp add: sys_fread_def b_def s1_def)
  then have "sf_loop count ?buf 0 None s = Faulted f"
    using size a b f by (auto simp: sf_loop.simps [of count _ 0] Let_def)
  then show "\<exists>f. my_sendfile None count s = Faulted f" using main by blast
qed

theorem sendfile_faults_witness:
  "my_sendfile None 5 ((sf_demo ''abc'')\<lparr>sf_rd := [WrErr EINTR]\<rparr>) = Faulted Uninitialised"
  using sendfile_faults [of "(sf_demo ''abc'')\<lparr>sf_rd := [WrErr EINTR]\<rparr>" 5 EINTR "[]"]
  by (simp add: sf_demo_def retry_def)

subsection \<open>\<^verbatim>\<open>myreadv\<close> and \<^verbatim>\<open>mywritev\<close>\<close>

text \<open>The buffers of the vector are given by their contents. \<open>None\<close> for the result -1; the buffers
  already filled stay filled.\<close>

fun myreadv :: "nat list \<Rightarrow> rd_ans list \<Rightarrow> nat option \<times> string list \<times> rd_ans list" where
  "myreadv [] r = (Some 0, [], r)"
| "myreadv (len # lens) r =
     (case sys_read len r of
        (Inl e, r1) \<Rightarrow> (None, [], r1)
      | (Inr b, r1) \<Rightarrow>
          case myreadv lens r1 of
            (n, bs, r2) \<Rightarrow> (map_option (\<lambda>k. length b + k) n, b # bs, r2))"

fun mywritev :: "string list \<Rightarrow> wr_ans list \<Rightarrow> nat option \<times> string \<times> wr_ans list" where
  "mywritev [] a = (Some 0, [], a)"
| "mywritev (b # bs) a =
     (case sys_write b a of
        (Inl e, a1) \<Rightarrow> (None, [], a1)
      | (Inr k, a1) \<Rightarrow>
          case mywritev bs a1 of (n, out, a2) \<Rightarrow> (map_option (\<lambda>j. k + j) n, take k b @ out, a2))"

lemma mywritev_full: "mywritev bs [] = (Some (length (concat bs)), concat bs, [])"
  by (induction bs) auto

lemma myreadv_one_chunk:
  "length d = sum_list lens \<Longrightarrow> \<forall>l \<in> set lens. 0 < l \<Longrightarrow>
     \<exists>bs. myreadv lens (if d = [] then [] else [RdBytes d]) = (Some (length d), bs, []) \<and>
       concat bs = d \<and> map length bs = lens"
proof (induction lens arbitrary: d)
  case (Cons l lens)
  then have l: "0 < l" "l \<le> length d" "d \<noteq> []" by auto
  obtain bs where bs: "myreadv lens (if drop l d = [] then [] else [RdBytes (drop l d)]) = (Some (length (drop l d)), bs, [])"
      "concat bs = drop l d" "map length bs = lens"
    using Cons.IH [of "drop l d"] Cons.prems by auto
  have "sys_read l [RdBytes d] = (Inr (take l d), if drop l d = [] then [] else [RdBytes (drop l d)])"
    using l by simp
  then show ?case using bs l by (auto simp del: sys_read.simps)
qed simp

lemma concat_same_lengths: "map length cs = map length bs \<Longrightarrow> concat cs = concat bs \<Longrightarrow> cs = bs"
  by (induction cs arbitrary: bs) (auto simp: append_eq_append_conv)

text \<open>What \<^verbatim>\<open>mywritev\<close> gathers from non-empty buffers \<^verbatim>\<open>myreadv\<close> scatters to buffers of the same sizes
  unchanged, and both return the total; \<^verbatim>\<open>myreadv\<close> returns -1 after an error although earlier buffers
  have been filled, and goes on to the next buffer after a short read.\<close>

theorem readv_writev_roundtrip:
  assumes "\<forall>b \<in> set bs. b \<noteq> []"
  shows "(\<exists>n out. mywritev bs [] = (Some n, out, []) \<and> n = length (concat bs) \<and>
       myreadv (map length bs) (if out = [] then [] else [RdBytes out]) = (Some n, bs, [])) \<and>
    (x \<noteq> [] \<and> y \<noteq> [] \<longrightarrow>
       myreadv [length x, length y] [RdBytes x, RdErr e] = (None, [x], []) \<and>
       myreadv [length x + 1, length y] [RdBytes x, RdBytes y] = (Some (length x + length y), [x, y], []))"
proof
  define d where "d = concat bs"
  have len: "length d = sum_list (map length bs)" by (simp add: d_def length_concat)
  obtain cs where cs: "myreadv (map length bs) (if d = [] then [] else [RdBytes d]) = (Some (length d), cs, [])"
      "concat cs = d" "map length cs = map length bs"
    using myreadv_one_chunk [OF len] assms by auto
  then have "cs = bs" unfolding d_def by (blast intro: concat_same_lengths)
  then show "\<exists>n out. mywritev bs [] = (Some n, out, []) \<and> n = length (concat bs) \<and>
       myreadv (map length bs) (if out = [] then [] else [RdBytes out]) = (Some n, bs, [])"
    using cs(1) mywritev_full [of bs] unfolding d_def by blast
qed simp

theorem readv_writev_roundtrip_witness:
  "\<exists>n out. mywritev [''ab'', ''c''] [] = (Some n, out, []) \<and> n = length (concat [''ab'', ''c'']) \<and>
       myreadv (map length [''ab'', ''c'']) (if out = [] then [] else [RdBytes out]) = (Some n, [''ab'', ''c''], [])"
  by (rule readv_writev_roundtrip [THEN conjunct1]) simp

end
