(* ===== verification/Tail.thy ===== *)
theory Tail
  imports C_Lib "HOL-Library.Sublist"
begin

text \<open>
  \<^verbatim>\<open>my_tail.c\<close> of Section 13: the file is read backwards in blocks of 4096 bytes while newlines are
  counted. The element behind the bytes read into a block is examined as well; it comes from
  \<^verbatim>\<open>malloc\<close> and is a parameter of the model. The theorems state which lines are printed for files of
  one block, whatever that element is, and that the output is a suffix of the file for all
  files.
\<close>

subsection \<open>The program\<close>

text \<open>\<^verbatim>\<open>for (index = buffer_len; index >= 0; index--)\<close>, entered with \<open>i\<close> = \<^verbatim>\<open>index\<close> + 1; the results
  are \<^verbatim>\<open>space_num\<close> and \<^verbatim>\<open>index\<close>.\<close>

fun count_back :: "string \<Rightarrow> nat \<Rightarrow> nat \<Rightarrow> nat \<Rightarrow> nat \<times> int" where
  "count_back cs line_size 0 sp = (sp, - 1)"
| "count_back cs line_size (Suc i) sp =
     (if cs ! i = newline then
        if sp + 1 = line_size + 1 then (sp + 1, int i) else count_back cs line_size i (sp + 1)
      else count_back cs line_size i sp)"

text \<open>A node of the list: its contents and \<^verbatim>\<open>buffer_len\<close>, the number of bytes to print.\<close>

type_synonym tail_block = "string \<times> int"

text \<open>What is behind the bytes of the k-th block, and whether its read succeeds.\<close>

record tail_env =
  te_junk :: "nat \<Rightarrow> char"
  te_read_ok :: "nat \<Rightarrow> bool"

text \<open>\<^verbatim>\<open>write\<close> with a negative length fails, and the result is ignored.\<close>

definition tail_output :: "int \<Rightarrow> tail_block list \<Rightarrow> string" where
  "tail_output index bs =
     (case bs of
        [] \<Rightarrow> []
      | (c, len) # rest \<Rightarrow>
          take (nat len) (drop (nat (index + 1)) c) @ concat (map (\<lambda>(c, len). take (nat len) c) rest))"

text \<open>\<^verbatim>\<open>do ... while\<close>: \<open>pos\<close> is the file offset at the start of a round, \<open>k\<close> the number of the block.\<close>

function tail_loop :: "tail_env \<Rightarrow> nat \<Rightarrow> string \<Rightarrow> nat \<Rightarrow> nat \<Rightarrow> nat \<Rightarrow> tail_block list \<Rightarrow> string" where
  "tail_loop e line_size data pos k sp bs =
     (let step = min 4096 pos;
          content = take step (drop (pos - step) data)
      in if \<not> te_read_ok e k then []
         else
           let sp1 = (if te_junk e k \<noteq> newline then sp + 1 else sp);
               (sp2, index) = count_back (content @ [te_junk e k]) line_size (step + 1) sp1;
               bs1 = (content, int step - index - 1) # bs;
               pos1 = pos - step
           in if 0 < pos1 \<and> sp2 < line_size + 1 then tail_loop e line_size data pos1 (k + 1) sp2 bs1
              else tail_output index bs1)"
  by pat_completeness auto
termination
  by (relation "measure (\<lambda>(e, n, data, pos, k, sp, bs). pos)") auto

declare tail_loop.simps [simp del]

text \<open>The file is \<open>None\<close> when it cannot be opened.\<close>

definition read_file_and_output :: "tail_env \<Rightarrow> string option \<Rightarrow> nat \<Rightarrow> string run" where
  "read_file_and_output e file_data line_size =
     (case file_data of
        None \<Rightarrow> Exited EXIT_FAILURE
      | Some data \<Rightarrow> Done (tail_loop e line_size data (length data) 0 0 []))"

text \<open>\<^verbatim>\<open>getopt\<close> with \<^verbatim>\<open>"n:"\<close>: the arguments of \<^verbatim>\<open>-n\<close> in order and the operands, \<open>None\<close> for an
  unknown option or a missing argument.\<close>

fun getopt_n :: "string list \<Rightarrow> (string list \<times> string list) option" where
  "getopt_n [] = Some ([], [])"
| "getopt_n (a # as) =
     (if a = ''--'' then Some ([], as)
      else if length a > 1 \<and> hd a = CHR ''-'' then
        if a ! 1 \<noteq> CHR ''n'' then None
        else if length a > 2 then map_option (\<lambda>(ns, r). (drop 2 a # ns, r)) (getopt_n as)
        else case as of [] \<Rightarrow> None | v # rest \<Rightarrow> map_option (\<lambda>(ns, r). (v # ns, r)) (getopt_n rest)
      else map_option (\<lambda>(ns, r). (ns, a # r)) (getopt_n as))"

definition tail_main :: "tail_env \<Rightarrow> (string \<Rightarrow> string option) \<Rightarrow> string list \<Rightarrow> string run" where
  "tail_main e files argv =
     (if length argv < 2 then Exited EXIT_FAILURE
      else case getopt_n (tl argv) of
        None \<Rightarrow> Exited EXIT_FAILURE
      | Some (ns, operands) \<Rightarrow>
          let line_size = (if ns = [] then 10 else nat \<bar>atoi (last ns)\<bar>) in
          read_file_and_output e (case operands of [] \<Rightarrow> None | f # _ \<Rightarrow> files f) line_size)"

subsection \<open>What is printed\<close>

text \<open>The characters, from the last one backwards, up to the n-th newline.\<close>

fun upto_newlines :: "nat \<Rightarrow> string \<Rightarrow> string" where
  "upto_newlines n [] = []"
| "upto_newlines n (c # cs) =
     (if c = newline then if n \<le> 1 then [] else c # upto_newlines (n - 1) cs else c # upto_newlines n cs)"

lemma count_back_drop:
  assumes "i \<le> length cs" "sp \<le> n" "count_back cs n i sp = (sp', idx)"
  shows "- 1 \<le> idx \<and> idx < int i \<and>
    drop (nat (idx + 1)) (take i cs) = rev (upto_newlines (Suc n - sp) (rev (take i cs)))"
  using assms
proof (induction i arbitrary: sp)
  case (Suc i)
  have t: "take (Suc i) cs = take i cs @ [cs ! i]" using Suc.prems(1) by (simp add: take_Suc_conv_app_nth)
  show ?case
  proof (cases "cs ! i = newline")
    case nl: True
    show ?thesis
    proof (cases "sp = n")
      case True
      then show ?thesis using Suc.prems nl t by (auto simp: nat_add_distrib)
    next
      case False
      then have "- 1 \<le> idx \<and> idx < int i \<and>
          drop (nat (idx + 1)) (take i cs) = rev (upto_newlines (Suc n - (sp + 1)) (rev (take i cs)))"
        using Suc.IH [of "sp + 1"] Suc.prems nl by simp
      moreover have "Suc n - sp \<noteq> 0" "Suc n - sp \<noteq> 1" "Suc n - sp - 1 = Suc n - (sp + 1)" using False Suc.prems by auto
      ultimately show ?thesis using t nl Suc.prems(1) by auto
    qed
  next
    case False
    then have "- 1 \<le> idx \<and> idx < int i \<and>
        drop (nat (idx + 1)) (take i cs) = rev (upto_newlines (Suc n - sp) (rev (take i cs)))"
      using Suc by simp
    then show ?thesis using t False Suc.prems(1) by auto
  qed
qed simp

lemma count_back_range: "count_back cs n i sp = (sp', idx) \<Longrightarrow> - 1 \<le> idx \<and> idx < int i \<and> (idx \<noteq> - 1 \<longrightarrow> sp' = n + 1)"
  by (induction i arbitrary: sp) (auto split: if_splits, fastforce+)

text \<open>The bytes printed from the block in which the scan stopped.\<close>

lemma block_output:
  assumes "count_back (content @ [j]) n (length content + 1) sp = (sp', idx)"
  shows "take (nat (int (length content) - idx - 1)) (drop (nat (idx + 1)) content) = drop (nat (idx + 1)) content"
  using count_back_range [OF assms] by simp

lemma count_back_junk:
  assumes "0 < n" "count_back (content @ [j]) n (length content + 1) (if j \<noteq> newline then 1 else 0) = (sp', idx)"
  shows "drop (nat (idx + 1)) content = rev (upto_newlines n (rev content))"
proof -
  have "drop (nat (idx + 1)) (content @ [j]) =
      rev (upto_newlines (Suc n - (if j \<noteq> newline then 1 else 0)) (j # rev content)) \<and> idx < int (length content + 1)"
    using count_back_drop [OF _ _ assms(2)] assms(1) by auto
  then have *: "drop (nat (idx + 1)) (content @ [j]) = rev (upto_newlines n (rev content)) @ [j]"
    and le: "nat (idx + 1) \<le> length content + 1"
    using assms(1) by (auto split: if_splits)
  show ?thesis
  proof (cases "nat (idx + 1) \<le> length content")
    case True
    then show ?thesis using * by simp
  next
    case False
    then have "drop (nat (idx + 1)) (content @ [j]) = []" using le by simp
    then show ?thesis using * by simp
  qed
qed

lemma tail_loop_unfold:
  assumes "te_read_ok e k" "pos \<le> length data" "content = take (min 4096 pos) (drop (pos - min 4096 pos) data)"
    and "count_back (content @ [te_junk e k]) n (length content + 1) (if te_junk e k \<noteq> newline then sp + 1 else sp) = (sp2, idx)"
    and "bs1 = (content, int (length content) - idx - 1) # bs"
  shows "tail_loop e n data pos k sp bs =
    (if 0 < pos - length content \<and> sp2 < n + 1 then tail_loop e n data (pos - length content) (k + 1) sp2 bs1
     else tail_output idx bs1)"
proof -
  have "length content = min 4096 pos" using assms(2,3) by simp
  then show ?thesis
    using assms by (subst tail_loop.simps) (simp add: Let_def del: count_back.simps cong: if_cong)
qed

lemma tail_one_block:
  assumes "length data \<le> 4096" "0 < n" "te_read_ok e 0"
  shows "tail_loop e n data (length data) 0 0 [] = rev (upto_newlines n (rev data))"
proof -
  let ?j = "te_junk e 0"
  obtain sp' idx where c: "count_back (data @ [?j]) n (length data + 1) (if ?j \<noteq> newline then 1 else 0) = (sp', idx)"
    by fastforce
  have "tail_loop e n data (length data) 0 0 [] = tail_output idx [(data, int (length data) - idx - 1)]"
    by (subst tail_loop_unfold [of e 0 _ _ data n 0 sp' idx])
      (use assms c in \<open>simp_all del: count_back.simps split: if_splits\<close>)
  then show ?thesis
    using block_output [OF c] count_back_junk [OF assms(2) c] by (simp add: tail_output_def)
qed

text \<open>In terms of lines.\<close>

definition lines_text :: "string list \<Rightarrow> string" where
  "lines_text ls = concat (map (\<lambda>l. l @ [newline]) ls)"

lemma upto_newlines_plain: "newline \<notin> set l \<Longrightarrow> upto_newlines n (l @ r) = l @ upto_newlines n r"
  by (induction l) auto

lemma upto_newlines_lines:
  "\<forall>l \<in> set ls. newline \<notin> set l \<Longrightarrow> newline \<notin> set t \<Longrightarrow> 0 < n \<Longrightarrow>
     rev (upto_newlines n (rev (lines_text ls @ t))) = lines_text (drop (length ls - (n - 1)) ls) @ t"
proof (induction ls arbitrary: n t rule: rev_induct)
  case Nil
  then show ?case using upto_newlines_plain [of "rev t" n "[]"] by (simp add: lines_text_def)
next
  case (snoc l ls)
  have "rev (lines_text (ls @ [l]) @ t) = rev t @ newline # rev (lines_text ls @ l)"
    by (simp add: lines_text_def)
  then have u: "upto_newlines n (rev (lines_text (ls @ [l]) @ t)) =
      rev t @ (if n \<le> 1 then [] else newline # upto_newlines (n - 1) (rev (lines_text ls @ l)))"
    using upto_newlines_plain [of "rev t" n] snoc.prems(2) by simp
  show ?case
  proof (cases "n \<le> 1")
    case True
    then show ?thesis using u snoc.prems(3) by (simp add: lines_text_def)
  next
    case False
    have "rev (upto_newlines (n - 1) (rev (lines_text ls @ l))) = lines_text (drop (length ls - (n - 1 - 1)) ls) @ l"
      using snoc.IH [of l "n - 1"] snoc.prems False by simp
    moreover have "drop (length (ls @ [l]) - (n - 1)) (ls @ [l]) = drop (length ls - (n - 1 - 1)) ls @ [l]"
      using False by (simp add: Suc_diff_le)
    ultimately show ?thesis using u False by (simp add: lines_text_def)
  qed
qed

text \<open>The output of any run is a suffix: only the last block read is cut.\<close>

lemma tail_loop_suffix:
  assumes "pos \<le> length data" "\<forall>k. te_read_ok e k"
    and "concat (map (\<lambda>(c, len). take (nat len) c) bs) = drop pos data"
  shows "suffix (tail_loop e n data pos k sp bs) data"
  using assms(1,3)
proof (induction pos arbitrary: k sp bs rule: less_induct)
  case (less pos)
  define content where "content = take (min 4096 pos) (drop (pos - min 4096 pos) data)"
  have len: "length content = min 4096 pos" using less.prems(1) by (simp add: content_def)
  obtain sp2 idx where c: "count_back (content @ [te_junk e k]) n (length content + 1)
      (if te_junk e k \<noteq> newline then sp + 1 else sp) = (sp2, idx)"
    by fastforce
  define bs1 where "bs1 = (content, int (length content) - idx - 1) # bs"
  have unf: "tail_loop e n data pos k sp bs =
    (if 0 < pos - length content \<and> sp2 < n + 1 then tail_loop e n data (pos - length content) (k + 1) sp2 bs1
     else tail_output idx bs1)"
    by (rule tail_loop_unfold [OF _ less.prems(1) content_def c bs1_def]) (use assms(2) in simp)
  have join: "content @ drop pos data = drop (pos - length content) data"
    using less.prems(1) len by (metis append_take_drop_id content_def diff_add drop_drop le_add_diff_inverse min.cobounded2)
  show ?case
  proof (cases "0 < pos - length content \<and> sp2 < n + 1")
    case True
    then have "idx = - 1" using count_back_range [OF c] by auto
    then have "concat (map (\<lambda>(c, len). take (nat len) c) bs1) = drop (pos - length content) data"
      using less.prems(2) join by (simp add: bs1_def)
    moreover have "pos - length content < pos" using True len by auto
    ultimately show ?thesis using less.IH unf True less.prems(1) by simp
  next
    case False
    have "tail_output idx bs1 = drop (nat (idx + 1)) content @ drop pos data"
      using block_output [OF c] less.prems(2) by (simp add: bs1_def tail_output_def)
    moreover have "suffix (drop (nat (idx + 1)) content @ drop pos data) (content @ drop pos data)"
      by (simp add: suffix_drop)
    ultimately show ?thesis
      using unf False join by (metis suffix_drop suffix_order.trans)
  qed
qed

text \<open>C22: For a file of at most 4096 bytes and at least one line asked for, whatever the memory of the block
  held before, \<^verbatim>\<open>my_tail\<close> prints the last n lines when the last line is not terminated
  by a newline, but only the last n - 1 lines when it is, so nothing for n = 1. For every file,
  the output is a suffix of it.\<close>

theorem my_tail_prints:
  assumes "\<forall>k. te_read_ok e k" "\<forall>l \<in> set ls. newline \<notin> set l" "newline \<notin> set t" "0 < n"
  shows "(length (lines_text ls @ t) \<le> 4096 \<longrightarrow>
      read_file_and_output e (Some (lines_text ls @ t)) n =
        Done (lines_text (drop (length ls - (n - 1)) ls) @ t)) \<and>
    (\<exists>out. read_file_and_output e (Some data) m = Done out \<and> suffix out data)"
proof
  show "length (lines_text ls @ t) \<le> 4096 \<longrightarrow>
      read_file_and_output e (Some (lines_text ls @ t)) n = Done (lines_text (drop (length ls - (n - 1)) ls) @ t)"
    using tail_one_block [of "lines_text ls @ t" n e] assms upto_newlines_lines [OF assms(2-4)]
    by (simp add: read_file_and_output_def)
  show "\<exists>out. read_file_and_output e (Some data) m = Done out \<and> suffix out data"
    using tail_loop_suffix [of "length data" data e "[]" m 0 0] assms(1) by (simp add: read_file_and_output_def)
qed

theorem my_tail_prints_witness:
  "read_file_and_output \<lparr>te_junk = \<lambda>_. CHR ''x'', te_read_ok = \<lambda>_. True\<rparr> (Some (''a'' @ [newline] @ ''b'' @ [newline])) 1 = Done []"
  using my_tail_prints [of "\<lparr>te_junk = \<lambda>_. CHR ''x'', te_read_ok = \<lambda>_. True\<rparr>" "[''a'', ''b'']" "[]" 1, THEN conjunct1]
  by (simp add: lines_text_def)

end
