(* ===== verification/Once.thy ===== *)
theory Once
  imports Prelude Transitions
begin

text \<open>
  \<^verbatim>\<open>one_time_init.c\<close> of Section 31: any number of threads call \<^verbatim>\<open>one_time_init\<close> on one control
  object. A thread is at a program point between two accesses to the shared object; the result
  of the mutex calls is chosen by the environment. The theorems state that the function is
  run at most once under every interleaving, and that a caller may return before
  it has run.
\<close>

subsection \<open>The threads\<close>

datatype once_pc =
    At_Lock | At_Copy | At_Test | At_Unlock | At_Check | At_Init | Returned int

record once =
  o_owner :: "nat option"         \<comment> \<open>the mutex \<^verbatim>\<open>control->lock\<close>\<close>
  o_status :: int                 \<comment> \<open>\<^verbatim>\<open>control->status\<close>\<close>
  o_pc :: "nat \<Rightarrow> once_pc"
  o_local :: "nat \<Rightarrow> int"          \<comment> \<open>the local variable \<^verbatim>\<open>status\<close> of each thread\<close>
  o_inits :: nat                  \<comment> \<open>completed calls of \<^verbatim>\<open>init\<close>\<close>

definition goto :: "nat \<Rightarrow> once_pc \<Rightarrow> once \<Rightarrow> once" where
  "goto t p s = s\<lparr>o_pc := (o_pc s)(t := p)\<rparr>"

text \<open>The next step of thread \<open>t\<close>; \<open>r\<close> is the result of the mutex call made there. \<open>None\<close>: the thread is
  blocked or has returned.\<close>

definition one_time_init :: "int \<Rightarrow> nat \<Rightarrow> once \<Rightarrow> once option" where
  "one_time_init r t s =
     (case o_pc s t of
        At_Lock \<Rightarrow>
          if r \<noteq> 0 then Some (goto t (Returned r) s)
          else if o_owner s \<noteq> None then None
          else Some (goto t At_Copy (s\<lparr>o_owner := Some t\<rparr>))
      | At_Copy \<Rightarrow> Some (goto t At_Test (s\<lparr>o_local := (o_local s)(t := o_status s)\<rparr>))
      | At_Test \<Rightarrow> Some (goto t At_Unlock (if o_status s = 0 then s\<lparr>o_status := 1\<rparr> else s))
      | At_Unlock \<Rightarrow>
          if r \<noteq> 0 then Some (goto t (Returned r) s)
          else Some (goto t At_Check (s\<lparr>o_owner := None\<rparr>))
      | At_Check \<Rightarrow> Some (goto t (if o_local s t = 0 then At_Init else Returned 0) s)
      | At_Init \<Rightarrow> Some (goto t (Returned 0) (s\<lparr>o_inits := o_inits s + 1\<rparr>))
      | Returned v \<Rightarrow> None)"

inductive once_step :: "once \<Rightarrow> once \<Rightarrow> bool" where
  "one_time_init r t s = Some s' \<Longrightarrow> once_step s s'"

inductive_cases once_stepE: "once_step s s'"

definition once_start :: "once \<Rightarrow> bool" where
  "once_start s \<longleftrightarrow> o_owner s = None \<and> o_status s = 0 \<and> o_pc s = (\<lambda>_. At_Lock) \<and> o_inits s = 0"

subsection \<open>The invariant\<close>

definition in_critical :: "once \<Rightarrow> nat \<Rightarrow> bool" where
  "in_critical s t \<longleftrightarrow> o_pc s t \<in> {At_Copy, At_Test, At_Unlock}"

text \<open>The threads that have taken it upon them to call \<^verbatim>\<open>init\<close>.\<close>

definition chosen :: "once \<Rightarrow> nat \<Rightarrow> bool" where
  "chosen s t \<longleftrightarrow> o_pc s t = At_Init \<or> o_pc s t \<in> {At_Unlock, At_Check} \<and> o_local s t = 0"

definition once_inv :: "once \<Rightarrow> bool" where
  "once_inv s \<longleftrightarrow>
     (\<forall>t. in_critical s t \<longrightarrow> o_owner s = Some t) \<and>
     (\<forall>t. o_pc s t = At_Test \<longrightarrow> o_local s t = o_status s) \<and>
     (\<forall>t u. chosen s t \<and> chosen s u \<longrightarrow> t = u) \<and>
     (\<forall>t. chosen s t \<longrightarrow> o_inits s = 0) \<and>
     (o_status s = 0 \<longrightarrow> o_inits s = 0 \<and> (\<forall>t. \<not> chosen s t)) \<and>
     o_inits s \<le> 1"

lemmas once_inv_defs = once_inv_def in_critical_def chosen_def goto_def

lemma once_inv_mutex: "once_inv s \<Longrightarrow> in_critical s t \<Longrightarrow> in_critical s u \<Longrightarrow> t = u"
  unfolding once_inv_def by (metis option.inject)

lemma once_inv_owner: "once_inv s \<Longrightarrow> in_critical s t \<Longrightarrow> o_owner s = Some t"
  by (simp add: once_inv_def)

text \<open>A step that chooses nobody and changes neither the status nor the number of calls.\<close>

lemma once_inv_mono:
  assumes "once_inv s" "\<And>u. chosen s' u \<Longrightarrow> chosen s u" "o_inits s' = o_inits s" "o_status s' = o_status s"
    and "\<And>u. in_critical s' u \<Longrightarrow> o_owner s' = Some u"
    and "\<And>u. o_pc s' u = At_Test \<Longrightarrow> o_local s' u = o_status s'"
  shows "once_inv s'"
  using assms unfolding once_inv_def by metis

text \<open>The three steps that do: the status is set, and \<^verbatim>\<open>init\<close> is called.\<close>

lemma set_status_inv:
  assumes inv: "once_inv s" and test: "o_pc s t = At_Test" and zero: "o_status s = 0"
  shows "once_inv (goto t At_Unlock (s\<lparr>o_status := 1\<rparr>))" (is "once_inv ?s'")
proof -
  have t: "in_critical s t" using test by (simp add: in_critical_def)
  have crit: "in_critical ?s' u \<Longrightarrow> u = t" for u
    using once_inv_mutex [OF inv t, of u] by (cases "u = t") (auto simp: in_critical_def goto_def)
  have "\<not> chosen s u" for u using inv zero by (simp add: once_inv_def)
  then have ch: "chosen ?s' u \<Longrightarrow> u = t" for u by (cases "u = t") (auto simp: chosen_def goto_def)
  have "o_pc ?s' u \<noteq> At_Test" for u
    using crit [of u] by (cases "u = t") (simp add: goto_def, metis in_critical_def insertI1 insertI2)
  moreover have "o_inits ?s' = 0" "o_status ?s' = 1" "o_owner ?s' = Some t"
    using inv zero once_inv_owner [OF inv t] by (simp_all add: once_inv_def goto_def)
  ultimately show ?thesis using crit ch unfolding once_inv_def by (metis le_numeral_extra(1) zero_neq_one)
qed

lemma call_init_inv:
  assumes "once_inv s" "o_pc s t = At_Init"
  shows "once_inv (goto t (Returned 0) (s\<lparr>o_inits := o_inits s + 1\<rparr>))"
proof -
  have t: "chosen s t" using assms(2) by (simp add: chosen_def)
  then have none: "\<not> chosen s u" if "u \<noteq> t" for u using assms(1) that unfolding once_inv_def by blast
  have "o_inits s = 0" "o_status s \<noteq> 0" using assms(1) t unfolding once_inv_def by blast+
  moreover have "\<not> chosen (goto t (Returned 0) (s\<lparr>o_inits := o_inits s + 1\<rparr>)) u" for u
    using none [of u] by (simp add: chosen_def goto_def)
  moreover have "in_critical (goto t (Returned 0) (s\<lparr>o_inits := o_inits s + 1\<rparr>)) u \<Longrightarrow> o_owner s = Some u" for u
    using once_inv_owner [OF assms(1), of u] by (simp add: in_critical_def goto_def split: if_splits)
  moreover have "o_local s u = o_status s" if "o_pc s u = At_Test" for u
    using assms(1) that unfolding once_inv_def by blast
  ultimately show ?thesis unfolding once_inv_def by (simp add: goto_def)
qed

lemma one_time_init_inv:
  assumes inv: "once_inv s" and step: "one_time_init r t s = Some s'"
  shows "once_inv s'"
proof (cases "o_pc s t = At_Init \<or> o_pc s t = At_Test \<and> o_status s = 0")
  case True
  then show ?thesis using inv step set_status_inv [OF inv] call_init_inv [OF inv] by (auto simp: one_time_init_def)
next
  case False
  have loc: "o_local s u = o_status s" if "o_pc s u = At_Test" for u using inv that unfolding once_inv_def by blast
  have own: "o_pc s u = At_Copy \<Longrightarrow> o_owner s = Some u" "o_pc s u = At_Test \<Longrightarrow> o_owner s = Some u"
    "o_pc s u = At_Unlock \<Longrightarrow> o_owner s = Some u" for u
    using once_inv_owner [OF inv, of u] by (simp_all add: in_critical_def)
  show ?thesis
    using False step
    by (intro once_inv_mono [OF inv])
      (auto simp: one_time_init_def chosen_def in_critical_def goto_def loc
        split: once_pc.splits if_splits dest: own, (metis own option.inject option.distinct(1))+)
qed

interpretation once: invariant_system once_start once_step once_inv
proof
  show "once_inv s" if "once_start s" for s
    using that by (simp add: once_start_def once_inv_defs)
  show "once_inv s'" if "once_inv s" "once_step s s'" for s s'
    using that by (blast elim: once_stepE intro: one_time_init_inv)
qed

text \<open>C23: Under every interleaving of any number of threads, and whatever the mutex calls return, \<^verbatim>\<open>init\<close> is
  called at most once, and at most one thread is inside the critical section.\<close>

theorem one_time_init_at_most_once:
  assumes "once_start s0" "once_step\<^sup>*\<^sup>* s0 s"
  shows "o_inits s \<le> 1 \<and> (\<forall>t u. in_critical s t \<and> in_critical s u \<longrightarrow> t = u) \<and>
    (o_inits s = 1 \<longrightarrow> (\<forall>t. o_pc s t \<noteq> At_Init))"
proof -
  have inv: "once_inv s" using once.inv_reachable [OF assms] .
  then have "\<forall>t u. in_critical s t \<and> in_critical s u \<longrightarrow> t = u" by (blast intro: once_inv_mutex)
  with inv show ?thesis unfolding once_inv_def chosen_def by (metis One_nat_def n_not_Suc_n)
qed

definition once_zero :: once where
  "once_zero = \<lparr>o_owner = None, o_status = 0, o_pc = (\<lambda>_. At_Lock), o_local = (\<lambda>_. 0), o_inits = 0\<rparr>"

text \<open>A schedule names the thread that makes the next step; all mutex calls succeed.\<close>

fun run_threads :: "nat list \<Rightarrow> once \<Rightarrow> once option" where
  "run_threads [] s = Some s"
| "run_threads (t # ts) s = (case one_time_init 0 t s of None \<Rightarrow> None | Some s' \<Rightarrow> run_threads ts s')"

lemma run_threads_steps: "run_threads ts s = Some s' \<Longrightarrow> once_step\<^sup>*\<^sup>* s s'"
proof (induction ts arbitrary: s)
  case (Cons t ts)
  then obtain u where u: "one_time_init 0 t s = Some u" "run_threads ts u = Some s'"
    by (auto split: option.splits)
  then show ?case using Cons.IH [OF u(2)] by (meson converse_rtranclp_into_rtranclp once_step.intros)
qed simp

theorem one_time_init_at_most_once_witness:
  "\<exists>s. run_threads [0, 0, 0, 0, 0, 0, 1, 1, 1, 1, 1] once_zero = Some s \<and> o_inits s \<le> 1 \<and> o_inits s = 1"
proof -
  obtain s where s: "run_threads [0, 0, 0, 0, 0, 0, 1, 1, 1, 1, 1] once_zero = Some s" "o_inits s = 1"
    by (simp add: once_zero_def one_time_init_def goto_def)
  moreover have "o_inits s \<le> 1"
    using one_time_init_at_most_once [of once_zero s] run_threads_steps [OF s(1)]
    by (simp add: once_start_def once_zero_def)
  ultimately show ?thesis by blast
qed

text \<open>Unlike with \<^verbatim>\<open>pthread_once\<close>, a caller can return success before \<^verbatim>\<open>init\<close> has run: the status is
  set before the call.\<close>

lemma one_time_init_returns_early:
  "\<exists>s. once_step\<^sup>*\<^sup>* once_zero s \<and> o_pc s 1 = Returned 0 \<and> o_inits s = 0"
proof -
  obtain s where s: "run_threads [0, 0, 0, 0, 1, 1, 1, 1, 1] once_zero = Some s"
      "o_pc s 1 = Returned 0" "o_inits s = 0"
    by (simp add: once_zero_def one_time_init_def goto_def)
  then show ?thesis using run_threads_steps by blast
qed

text \<open>When the unlock of the first caller fails, \<^verbatim>\<open>init\<close> is never called: the status is set, and nobody
  can take the lock any more.\<close>

lemma one_time_init_unlock_failure:
  assumes "o_status s = 0" "o_pc s t = At_Copy" "o_owner s = Some t" "r \<noteq> 0"
  shows "\<exists>s1 s2 s3. one_time_init 0 t s = Some s1 \<and> one_time_init 0 t s1 = Some s2 \<and> one_time_init r t s2 = Some s3 \<and>
    o_pc s3 t = Returned r \<and> o_status s3 = 1 \<and> (\<forall>u. o_pc s3 u = At_Lock \<longrightarrow> one_time_init 0 u s3 = None)"
  using assms by (auto simp: one_time_init_def goto_def)

end
