(* ===== verification/Echo_Server.thy ===== *)
theory Echo_Server
  imports Copy_Loops Transitions
begin

text \<open>
  The concurrent echo server \<^verbatim>\<open>is_echo_sv.c\<close> of Section 60 and the address helpers
  \<^verbatim>\<open>inet_sockets.c\<close>, which Sections 60, 61 and 64 contain with the same text. The handler of a client
  is another copying loop. The parent counts its children in an unsigned variable that the handler
  of \<^verbatim>\<open>SIGCHLD\<close> decrements; loading and storing it are separate steps, between which the
  handler may run. The theorems state that the limit on clients holds, and that an
  unlucky interleaving closes the service for ever.
\<close>

subsection \<open>\<^verbatim>\<open>inet_sockets.c\<close>\<close>

text \<open>An entry of the list that \<^verbatim>\<open>getaddrinfo\<close> returns, with the answers of the calls made for it.\<close>

record ai =
  ai_fd :: "nat option"         \<comment> \<open>\<^verbatim>\<open>socket\<close>\<close>
  ai_connect :: bool
  ai_setsockopt :: bool
  ai_bind :: bool
  ai_listen :: bool
  ai_addrlen :: nat

text \<open>The results are the value returned and the descriptors left open.\<close>

fun connect_first :: "ai list \<Rightarrow> nat option \<times> nat list" where
  "connect_first [] = (None, [])"
| "connect_first (a # as) =
     (case ai_fd a of
        None \<Rightarrow> connect_first as
      | Some fd \<Rightarrow> if ai_connect a then (Some fd, [fd]) else connect_first as)"

definition inetConnect :: "ai list option \<Rightarrow> nat option \<times> nat list" where
  "inetConnect addrs = (case addrs of None \<Rightarrow> (None, []) | Some as \<Rightarrow> connect_first as)"

fun bind_first :: "bool \<Rightarrow> ai list \<Rightarrow> (ai \<times> nat) option option" where
  "bind_first doListen [] = Some None"
| "bind_first doListen (a # as) =
     (case ai_fd a of
        None \<Rightarrow> bind_first doListen as
      | Some fd \<Rightarrow>
          if doListen \<and> \<not> ai_setsockopt a then None
          else if ai_bind a then Some (Some (a, fd))
          else bind_first doListen as)"

definition inetPassiveSocket :: "ai list option \<Rightarrow> bool \<Rightarrow> bool \<Rightarrow> nat option \<times> nat list \<times> nat option" where
  "inetPassiveSocket addrs want_len doListen =
     (case addrs of
        None \<Rightarrow> (None, [], None)
      | Some as \<Rightarrow>
          case bind_first doListen as of
            None \<Rightarrow> (None, [], None)
          | Some None \<Rightarrow> (None, [], None)
          | Some (Some (a, fd)) \<Rightarrow>
              if doListen \<and> \<not> ai_listen a then (None, [fd], None)
              else (Some fd, [fd], if want_len then Some (ai_addrlen a) else None))"

definition inetListen :: "ai list option \<Rightarrow> bool \<Rightarrow> nat option \<times> nat list \<times> nat option" where
  "inetListen addrs want_len = inetPassiveSocket addrs want_len True"

definition inetBind :: "ai list option \<Rightarrow> bool \<Rightarrow> nat option \<times> nat list \<times> nat option" where
  "inetBind addrs want_len = inetPassiveSocket addrs want_len False"

text \<open>\<^verbatim>\<open>snprintf\<close> stores at most \<open>n - 1\<close> characters; the last element of the array is then set to the
  terminator. The result is the string in the array, for an array of at least one element.\<close>

definition inetAddressStr :: "(string \<times> string) option \<Rightarrow> nat \<Rightarrow> string" where
  "inetAddressStr names n =
     take (n - 1) (case names of
        Some (host, service) \<Rightarrow> ''('' @ host @ '', '' @ service @ '')''
      | None \<Rightarrow> ''(?UNKNOW?)'')"

lemma bind_first_usable:
  assumes "bind_first d as = Some (Some (a, fd))"
  shows "a \<in> set as \<and> ai_fd a = Some fd \<and> ai_bind a \<and> (d \<longrightarrow> ai_setsockopt a)"
  using assms by (induction as) (auto split: option.splits if_splits)

lemma bind_first_finds:
  assumes "\<forall>a \<in> set as. ai_setsockopt a" "a \<in> set as" "ai_fd a \<noteq> None" "ai_bind a"
  shows "\<exists>b fd. bind_first d as = Some (Some (b, fd))"
  using assms by (induction as) (auto split: option.splits if_splits)

text \<open>The listening socket is the first address that can be bound; of a failing call of \<^verbatim>\<open>listen\<close> a
  descriptor is left open.\<close>

lemma inetListen_result:
  assumes "inetListen (Some as) w = (r, fds, len)"
  shows "(\<forall>fd. r = Some fd \<longrightarrow> fds = [fd] \<and> (\<exists>a \<in> set as. ai_fd a = Some fd \<and> ai_bind a \<and> ai_listen a)) \<and>
    (r = None \<and> fds \<noteq> [] \<longrightarrow> (\<exists>a \<in> set as. ai_bind a \<and> \<not> ai_listen a))"
  using assms bind_first_usable
  by (fastforce simp: inetListen_def inetPassiveSocket_def split: option.splits if_splits)

subsection \<open>The handler of a client\<close>

function handleRequest_loop :: "cp \<Rightarrow> copy_end \<times> cp" where
  "handleRequest_loop s =
     (case copy_round 4096 s of (Some e, s') \<Rightarrow> (e, s') | (None, s') \<Rightarrow> handleRequest_loop s')"
  by pat_completeness auto
termination
  by (relation "measure (\<lambda>s. rd_weight (cp_in s))") (use copy_round_weight in auto)

declare handleRequest_loop.simps [simp del]

interpretation echo: copy_program 4096 handleRequest_loop
  by unfold_locales (simp_all add: handleRequest_loop.simps)

text \<open>\<open>None\<close> when the function returns; its caller then exits with failure in every case.\<close>

definition handleRequest :: "rd_ans list \<Rightarrow> wr_ans list \<Rightarrow> int option \<times> string" where
  "handleRequest reads room =
     (case handleRequest_loop \<lparr>cp_in = reads, cp_room = room, cp_out = []\<rparr> of
        (At_End, s) \<Rightarrow> (None, cp_out s)
      | (_, s) \<Rightarrow> (Some EXIT_FAILURE, cp_out s))"

subsection \<open>The parent\<close>

datatype echo_pc = P_Accept | P_Forked | P_Loaded "32 word"

record echo_sv =
  connect_num :: "32 word"
  e_pc :: echo_pc
  e_live :: nat                 \<comment> \<open>children that run\<close>
  e_zombies :: nat              \<comment> \<open>children that have ended and were not waited for\<close>
  e_refused :: nat              \<comment> \<open>connections closed at once\<close>

abbreviation (input) MAX_CONNECT_NUM :: "32 word" where "MAX_CONNECT_NUM \<equiv> 2"

text \<open>\<^verbatim>\<open>while (waitpid(-1, NULL, WNOHANG) > 0) connect_num--\<close>.\<close>

fun grimReaper :: "nat \<Rightarrow> 32 word \<Rightarrow> 32 word" where
  "grimReaper 0 n = n"
| "grimReaper (Suc z) n = grimReaper z (n - 1)"

text \<open>A client is accepted; \<open>fork_ok\<close> is the answer of \<^verbatim>\<open>fork\<close>.\<close>

definition echo_accept :: "bool \<Rightarrow> echo_sv \<Rightarrow> echo_sv" where
  "echo_accept fork_ok s =
     (if MAX_CONNECT_NUM \<le> connect_num s then s\<lparr>e_refused := e_refused s + 1\<rparr>
      else if \<not> fork_ok then s
      else s\<lparr>e_live := e_live s + 1, e_pc := P_Forked\<rparr>)"

text \<open>The calls of \<^verbatim>\<open>sigaction\<close> change the mask used during the handler only, so the signal can arrive
  between the load and the store of \<^verbatim>\<open>connect_num++\<close>.\<close>

inductive echo_step :: "echo_sv \<Rightarrow> echo_sv \<Rightarrow> bool" where
  accept: "e_pc s = P_Accept \<Longrightarrow> echo_step s (echo_accept ok s)"
| load: "e_pc s = P_Forked \<Longrightarrow> echo_step s (s\<lparr>e_pc := P_Loaded (connect_num s)\<rparr>)"
| store: "e_pc s = P_Loaded v \<Longrightarrow> echo_step s (s\<lparr>connect_num := v + 1, e_pc := P_Accept\<rparr>)"
| child_ends: "0 < e_live s \<Longrightarrow> echo_step s (s\<lparr>e_live := e_live s - 1, e_zombies := e_zombies s + 1\<rparr>)"
| sigchld: "0 < e_zombies s \<Longrightarrow>
    echo_step s (s\<lparr>connect_num := grimReaper (e_zombies s) (connect_num s), e_zombies := 0\<rparr>)"

inductive_cases echo_stepE: "echo_step s s'"

definition echo_start :: "echo_sv \<Rightarrow> bool" where
  "echo_start s \<longleftrightarrow> s = \<lparr>connect_num = 0, e_pc = P_Accept, e_live = 0, e_zombies = 0, e_refused = 0\<rparr>"

subsection \<open>The limit holds\<close>

lemma grimReaper_eq: "grimReaper z n = n - of_nat z"
  by (induction z arbitrary: n) (auto simp: algebra_simps)

text \<open>The value the counter has, or will have after the store under way.\<close>

definition counted :: "echo_sv \<Rightarrow> 32 word" where
  "counted s = (case e_pc s of P_Accept \<Rightarrow> connect_num s | P_Forked \<Rightarrow> connect_num s + 1 | P_Loaded v \<Rightarrow> v + 1)"

definition echo_inv :: "echo_sv \<Rightarrow> bool" where
  "echo_inv s \<longleftrightarrow> e_live s + e_zombies s \<le> unat (counted s) \<and> unat (counted s) \<le> 2"

lemma unat_minus_of_nat: "z \<le> unat (w :: 32 word) \<Longrightarrow> unat (w - of_nat z) = unat w - z"
  by (metis le_unat_uoi unat_sub word_le_nat_alt)

lemma echo_step_inv: "echo_step s s' \<Longrightarrow> echo_inv s \<Longrightarrow> echo_inv s'"
proof (induction rule: echo_step.induct)
  case (accept s ok)
  have "unat (connect_num s + 1) = unat (connect_num s) + 1" if "connect_num s < 2"
    using that by (simp add: unat_word_ariths(1) word_less_nat_alt)
  with accept show ?case
    by (auto simp: echo_accept_def echo_inv_def counted_def not_le word_less_nat_alt)
next
  case (sigchld s)
  let ?s' = "s\<lparr>connect_num := grimReaper (e_zombies s) (connect_num s), e_zombies := 0\<rparr>"
  have "counted ?s' = counted s \<or> counted ?s' = counted s - of_nat (e_zombies s)"
    by (cases "e_pc s") (auto simp: counted_def grimReaper_eq)
  with sigchld show ?case by (auto simp: echo_inv_def unat_minus_of_nat)
qed (auto simp: echo_inv_def counted_def split: echo_pc.splits)

interpretation echo_sys: invariant_system echo_start echo_step echo_inv
proof
  show "echo_inv s" if "echo_start s" for s using that by (simp add: echo_start_def echo_inv_def counted_def)
qed (blast intro: echo_step_inv)

text \<open>The count is exact as long as the handler does not run between load and store.\<close>

lemma echo_count_exact:
  assumes "echo_step s s'" "counted s = of_nat (e_live s + e_zombies s)"
    and "\<forall>v. e_pc s = P_Loaded v \<longrightarrow> e_zombies s \<le> e_zombies s'"
  shows "counted s' = of_nat (e_live s' + e_zombies s')"
  using assms
proof (induction rule: echo_step.induct)
  case (sigchld s)
  then show ?case by (cases "e_pc s") (auto simp: counted_def grimReaper_eq algebra_simps)
next
  case (accept s ok)
  then show ?case by (simp add: counted_def echo_accept_def)
qed (auto simp: counted_def split: echo_pc.splits)

text \<open>The service is closed: the counter is at the limit, and there is no child whose end could
  lower it.\<close>

definition echo_closed :: "echo_sv \<Rightarrow> bool" where
  "echo_closed s \<longleftrightarrow> e_pc s = P_Accept \<and> connect_num s = 2 \<and> e_live s = 0 \<and> e_zombies s = 0"

lemma echo_closed_step: "echo_step s s' \<Longrightarrow> echo_closed s \<Longrightarrow> echo_closed s'"
  by (induction rule: echo_step.induct) (auto simp: echo_closed_def echo_accept_def)

lemma echo_closed_steps: "echo_step\<^sup>*\<^sup>* s s' \<Longrightarrow> echo_closed s \<Longrightarrow> echo_closed s'"
  by (induction rule: rtranclp_induct) (auto intro: echo_closed_step)

text \<open>One client whose child ends, and is waited for, while the parent holds the old value.\<close>

lemma echo_leaks_one:
  assumes "e_pc s = P_Accept" "connect_num s < 2" "e_live s = 0" "e_zombies s = 0"
  shows "echo_step\<^sup>*\<^sup>* s (s\<lparr>connect_num := connect_num s + 1\<rparr>)"
proof -
  let ?c = "connect_num s"
  let ?s1 = "s\<lparr>e_live := 1, e_pc := P_Forked\<rparr>"
  let ?s2 = "?s1\<lparr>e_pc := P_Loaded ?c\<rparr>"
  let ?s3 = "?s2\<lparr>e_live := 0, e_zombies := 1\<rparr>"
  let ?s4 = "?s3\<lparr>connect_num := ?c - 1, e_zombies := 0\<rparr>"
  have "echo_accept True s = ?s1" using assms by (simp add: echo_accept_def not_le)
  then have "echo_step\<^sup>*\<^sup>* s ?s1" using echo_step.accept [OF assms(1), of True] by auto
  also have "echo_step ?s1 ?s2" using echo_step.load [of ?s1] by simp
  also have "echo_step ?s2 ?s3" using echo_step.child_ends [of ?s2] assms by simp
  also have "echo_step ?s3 ?s4" using echo_step.sigchld [of ?s3] by simp
  also have "echo_step ?s4 (?s4\<lparr>connect_num := ?c + 1, e_pc := P_Accept\<rparr>)"
    using echo_step.store [of ?s4 ?c] by simp
  also have "?s4\<lparr>connect_num := ?c + 1, e_pc := P_Accept\<rparr> = s\<lparr>connect_num := ?c + 1\<rparr>"
    using assms by (cases s) simp
  finally show ?thesis .
qed

text \<open>C24: The echo server never has more than two clients, counting children that have ended but were not
  waited for, under every interleaving of accepting, counting, ends of children and the signal
  handler.\<close>

theorem echo_limit:
  assumes "echo_start s0" "echo_step\<^sup>*\<^sup>* s0 s"
  shows "e_live s + e_zombies s \<le> 2"
  using echo_sys.inv_reachable [OF assms] by (simp add: echo_inv_def)

theorem echo_limit_witness:
  "\<exists>s0 s. echo_start s0 \<and> echo_step s0 s \<and> e_live s + e_zombies s \<le> 2 \<and> e_live s = 1"
proof -
  define s0 where "s0 = \<lparr>connect_num = 0, e_pc = P_Accept, e_live = 0, e_zombies = 0, e_refused = 0\<rparr>"
  have st: "echo_start s0" by (simp add: echo_start_def s0_def)
  have "echo_step s0 (echo_accept True s0)" by (rule echo_step.accept) (simp add: s0_def)
  moreover from this have "e_live (echo_accept True s0) + e_zombies (echo_accept True s0) \<le> 2"
    using echo_limit [OF st] by blast
  moreover have "e_live (echo_accept True s0) = 1" by (simp add: echo_accept_def s0_def)
  ultimately show ?thesis using st by blast
qed

text \<open>Two children that end while the parent is between load and store close the service: a state
  without any child is reachable from which every later connection is refused, for ever.\<close>

theorem echo_service_lost:
  assumes "echo_start s0"
  shows "\<exists>s. echo_step\<^sup>*\<^sup>* s0 s \<and> e_live s = 0 \<and>
    (\<forall>s'. echo_step\<^sup>*\<^sup>* s s' \<longrightarrow> e_live s' = 0 \<and> (\<forall>ok. echo_accept ok s' = s'\<lparr>e_refused := e_refused s' + 1\<rparr>))"
proof -
  have s0: "e_pc s0 = P_Accept" "connect_num s0 = 0" "e_live s0 = 0" "e_zombies s0 = 0"
    using assms by (simp_all add: echo_start_def)
  let ?s1 = "s0\<lparr>connect_num := connect_num s0 + 1\<rparr>"
  let ?s2 = "?s1\<lparr>connect_num := connect_num ?s1 + 1\<rparr>"
  have "echo_step\<^sup>*\<^sup>* s0 ?s1" using echo_leaks_one [of s0] s0 by simp
  also have "echo_step\<^sup>*\<^sup>* ?s1 ?s2" using echo_leaks_one [of ?s1] s0 by simp
  finally have reach: "echo_step\<^sup>*\<^sup>* s0 ?s2" .
  have closed: "echo_closed ?s2" using s0 by (simp add: echo_closed_def)
  have "e_live s' = 0 \<and> (\<forall>ok. echo_accept ok s' = s'\<lparr>e_refused := e_refused s' + 1\<rparr>)" if "echo_step\<^sup>*\<^sup>* ?s2 s'" for s'
    using echo_closed_steps [OF that closed] by (simp add: echo_closed_def echo_accept_def)
  then show ?thesis using reach s0 by (intro exI [of _ ?s2]) simp
qed

theorem echo_service_lost_witness:
  "\<exists>s0 s. echo_start s0 \<and> echo_step\<^sup>*\<^sup>* s0 s \<and> e_live s = 0 \<and> (\<forall>ok. e_refused (echo_accept ok s) = e_refused s + 1)"
proof -
  obtain s0 where s0: "echo_start s0" by (simp add: echo_start_def)
  from echo_service_lost [OF s0] obtain s where s: "echo_step\<^sup>*\<^sup>* s0 s" "e_live s = 0"
      "\<And>s' ok. echo_step\<^sup>*\<^sup>* s s' \<Longrightarrow> echo_accept ok s' = s'\<lparr>e_refused := e_refused s' + 1\<rparr>"
    by blast
  have "e_refused (echo_accept ok s) = e_refused s + 1" for ok using s(3) [of s ok] by simp
  then show ?thesis using s0 s(1,2) by blast
qed

text \<open>A client gets back what it sent.\<close>

lemma handleRequest_echoes:
  assumes "rd_clean r"
  shows "handleRequest r [] = (None, feed r)"
  using echo.copies_all [of "\<lparr>cp_in = r, cp_room = [], cp_out = []\<rparr>"] assms
  by (auto simp: handleRequest_def wr_clean_def)

end
