(* ===== verification/File_Modes.thy ===== *)
theory File_Modes
  imports C_Lib
begin

text \<open>
  Programs of Sections 15 and 45 that work on the bits of file attributes, kept at the width of
  the C types: \<^verbatim>\<open>my_t_stat.c\<close>, \<^verbatim>\<open>my_chmod.c\<close>, \<^verbatim>\<open>my_chattr.c\<close>, \<^verbatim>\<open>my_access.c\<close> and \<^verbatim>\<open>my_ftok.c\<close>. The
  theorems read the permission bits back from the printed string, follow the attribute flags over
  several files, and recover the parts of a key.
\<close>

subsection \<open>Permission strings\<close>

abbreviation (input) S_ISUID :: "32 word" where "S_ISUID \<equiv> 0x800"
abbreviation (input) S_ISGID :: "32 word" where "S_ISGID \<equiv> 0x400"
abbreviation (input) S_ISVTX :: "32 word" where "S_ISVTX \<equiv> 0x200"
abbreviation (input) S_IRUSR :: "32 word" where "S_IRUSR \<equiv> 0x100"
abbreviation (input) S_IWUSR :: "32 word" where "S_IWUSR \<equiv> 0x80"
abbreviation (input) S_IXUSR :: "32 word" where "S_IXUSR \<equiv> 0x40"
abbreviation (input) S_IRGRP :: "32 word" where "S_IRGRP \<equiv> 0x20"
abbreviation (input) S_IWGRP :: "32 word" where "S_IWGRP \<equiv> 0x10"
abbreviation (input) S_IXGRP :: "32 word" where "S_IXGRP \<equiv> 0x8"
abbreviation (input) S_IROTH :: "32 word" where "S_IROTH \<equiv> 0x4"
abbreviation (input) S_IWOTH :: "32 word" where "S_IWOTH \<equiv> 0x2"
abbreviation (input) S_IXOTH :: "32 word" where "S_IXOTH \<equiv> 0x1"
abbreviation (input) S_IFMT :: "32 word" where "S_IFMT \<equiv> 0xF000"

definition has :: "32 word \<Rightarrow> 32 word \<Rightarrow> bool" where
  "has w m \<longleftrightarrow> w AND m \<noteq> 0"

definition perm_char :: "bool \<Rightarrow> char \<Rightarrow> char" where
  "perm_char b c = (if b then c else CHR ''-'')"

text \<open>The character for an execute bit and the special bit that shares its place.\<close>

definition exec_char :: "bool \<Rightarrow> bool \<Rightarrow> char \<Rightarrow> char \<Rightarrow> char" where
  "exec_char x special low up =
     (if x then if special then low else CHR ''x'' else if special then up else CHR ''-'')"

definition file_perm_str :: "32 word \<Rightarrow> int \<Rightarrow> string" where
  "file_perm_str perm flags =
     [perm_char (has perm S_IRUSR) CHR ''r'',
      perm_char (has perm S_IWUSR) CHR ''w'',
      exec_char (has perm S_IXUSR) (has perm S_ISUID \<and> flags \<noteq> 0) CHR ''s'' CHR ''S'',
      perm_char (has perm S_IRGRP) CHR ''r'',
      perm_char (has perm S_IWGRP) CHR ''w'',
      exec_char (has perm S_IXGRP) (has perm S_ISGID \<and> flags \<noteq> 0) CHR ''s'' CHR ''S'',
      perm_char (has perm S_IROTH) CHR ''r'',
      perm_char (has perm S_IWOTH) CHR ''w'',
      exec_char (has perm S_IXOTH) (has perm S_ISVTX \<and> flags \<noteq> 0) CHR ''t'' CHR ''T'']"

lemma has_bit: "n < 32 \<Longrightarrow> has w (push_bit n 1) \<longleftrightarrow> bit w n"
  by (simp add: has_def bit_iff_and_push_bit_not_eq_0)

lemma has_bits:
  "has w S_ISUID \<longleftrightarrow> bit w 11" "has w S_ISGID \<longleftrightarrow> bit w 10" "has w S_ISVTX \<longleftrightarrow> bit w 9"
  "has w S_IRUSR \<longleftrightarrow> bit w 8" "has w S_IWUSR \<longleftrightarrow> bit w 7" "has w S_IXUSR \<longleftrightarrow> bit w 6"
  "has w S_IRGRP \<longleftrightarrow> bit w 5" "has w S_IWGRP \<longleftrightarrow> bit w 4" "has w S_IXGRP \<longleftrightarrow> bit w 3"
  "has w S_IROTH \<longleftrightarrow> bit w 2" "has w S_IWOTH \<longleftrightarrow> bit w 1" "has w S_IXOTH \<longleftrightarrow> bit w 0"
  using has_bit [of 11 w] has_bit [of 10 w] has_bit [of 9 w] has_bit [of 8 w] has_bit [of 7 w] has_bit [of 6 w]
    has_bit [of 5 w] has_bit [of 4 w] has_bit [of 3 w] has_bit [of 2 w] has_bit [of 1 w] has_bit [of 0 w]
  by (simp_all add: push_bit_eq_mult)

text \<open>The bits a permission string shows, most significant first.\<close>

definition shown_bits :: "string \<Rightarrow> bool list" where
  "shown_bits str =
     [str ! 2 \<in> {CHR ''s'', CHR ''S''}, str ! 5 \<in> {CHR ''s'', CHR ''S''}, str ! 8 \<in> {CHR ''t'', CHR ''T''},
      str ! 0 = CHR ''r'', str ! 1 = CHR ''w'', str ! 2 \<in> {CHR ''x'', CHR ''s''},
      str ! 3 = CHR ''r'', str ! 4 = CHR ''w'', str ! 5 \<in> {CHR ''x'', CHR ''s''},
      str ! 6 = CHR ''r'', str ! 7 = CHR ''w'', str ! 8 \<in> {CHR ''x'', CHR ''t''}]"

text \<open>The permission string fits its array of ten characters; with the special bits asked for, all twelve
  bits can be read back from it, without them the nine permission bits, and the special bits
  are not shown.\<close>

theorem file_perm_str_roundtrip:
  "length (file_perm_str perm flags) = 9 \<and>
   shown_bits (file_perm_str perm flags) =
     map (\<lambda>i. if 8 < i \<and> flags = 0 then False else bit perm i) [11, 10, 9, 8, 7, 6, 5, 4, 3, 2, 1, 0]"
  by (simp add: file_perm_str_def shown_bits_def has_bits perm_char_def exec_char_def)

subsection \<open>\<^verbatim>\<open>my_t_stat.c\<close>\<close>

record stat =
  st_dev :: "nat \<times> nat"         \<comment> \<open>major and minor number\<close>
  st_ino :: int
  st_mode :: "32 word"
  st_nlink :: int
  st_uid :: int
  st_gid :: int
  st_rdev :: "nat \<times> nat"
  st_size :: int
  st_blksize :: int
  st_blocks :: int
  st_times :: "(string \<times> int) list"   \<comment> \<open>access, modification, status change: text of \<^verbatim>\<open>ctime\<close>, nanoseconds\<close>

fun oct_nat :: "nat \<Rightarrow> string" where
  "oct_nat n = (if n < 8 then [digit_char n] else oct_nat (n div 8) @ [digit_char (n mod 8)])"

declare oct_nat.simps [simp del]

definition file_type_name :: "32 word \<Rightarrow> string" where
  "file_type_name mode =
     (let ty = mode AND S_IFMT in
      if ty = 0x8000 then ''regular file''
      else if ty = 0x4000 then ''directory''
      else if ty = 0x2000 then ''character device''
      else if ty = 0x6000 then ''block device''
      else if ty = 0xA000 then ''symbolic (soft) link''
      else if ty = 0x1000 then ''FIFO or pipe''
      else if ty = 0xC000 then ''socket''
      else ''unknown file type?'')"

definition time_line :: "string \<Rightarrow> string \<times> int \<Rightarrow> string" where
  "time_line label tm = label @ fst tm @ dec_int (snd tm) @ ''(ns)'' @ [newline]"

definition display_stat_info :: "stat \<Rightarrow> string" where
  "display_stat_info sb =
     ''file type:              '' @ file_type_name (st_mode sb) @ [newline] @
     ''Device containing i-node: major='' @ dec_nat (fst (st_dev sb)) @ '' minor='' @ dec_nat (snd (st_dev sb)) @ [newline] @
     ''I-node number:            '' @ dec_int (st_ino sb) @
     ''Mode:                     '' @ oct_nat (unat (st_mode sb)) @ '' ('' @ file_perm_str (st_mode sb) 0 @ '')'' @ [newline] @
     (if has (st_mode sb) (S_ISUID OR S_ISGID OR S_ISVTX) then
        ''    special bits set:   '' @ (if has (st_mode sb) S_ISUID then ''set-UID '' else []) @
        (if has (st_mode sb) S_ISGID then ''set-GID '' else []) @
        (if has (st_mode sb) S_ISVTX then ''sticky '' else []) @ [newline]
      else []) @
     ''Number of (hard) links:   '' @ dec_int (st_nlink sb) @ [newline] @
     ''Ownership:                UID='' @ dec_int (st_uid sb) @ ''   GID='' @ dec_int (st_gid sb) @ [newline] @
     (if st_mode sb AND S_IFMT = 0x2000 \<or> st_mode sb AND S_IFMT = 0x6000 then
        ''Device number (st_rdev): major='' @ dec_nat (fst (st_rdev sb)) @ ''; minor='' @ dec_nat (snd (st_rdev sb)) @ [newline]
      else []) @
     ''File size:                '' @ dec_int (st_size sb) @ '' bytes'' @ [newline] @
     ''Optimal I/O block size:   '' @ dec_int (st_blksize sb) @ '' bytes'' @ [newline] @
     ''512B blocks allocated:    '' @ dec_int (st_blocks sb) @ [newline] @
     concat (map2 time_line [''Last file access:         '', ''Last file modification:   '', ''Last status change:       ''] (st_times sb))"

definition t_stat_main :: "(string \<Rightarrow> stat option) \<Rightarrow> (string \<Rightarrow> stat option) \<Rightarrow> string list \<Rightarrow> string run" where
  "t_stat_main stat_of lstat_of argv =
     (let stat_link = length argv > 1 \<and> argv ! 1 = ''-l'';
          fname = (if stat_link then 2 else 1)
      in if length argv \<le> fname \<or> (length argv > 1 \<and> argv ! 1 = ''--help'') then Exited EXIT_FAILURE
         else case (if stat_link then lstat_of else stat_of) (argv ! fname) of
           None \<Rightarrow> Exited EXIT_FAILURE
         | Some sb \<Rightarrow> Done (display_stat_info sb))"

subsection \<open>\<^verbatim>\<open>my_chmod.c\<close>\<close>

definition new_mode :: "32 word \<Rightarrow> 32 word" where
  "new_mode mode =
     (let m = mode OR (S_IRUSR OR S_IRGRP OR S_IROTH) in
      if m AND S_IFMT = 0x4000 \<or> has m (S_IXUSR OR S_IXGRP OR S_IXOTH)
      then m OR (S_IXUSR OR S_IXGRP OR S_IXOTH) else m)"

text \<open>The result is the mode passed to \<^verbatim>\<open>chmod\<close>, whose failure is only reported.\<close>

definition chmod_main :: "(string \<Rightarrow> 32 word option) \<Rightarrow> string list \<Rightarrow> (string \<times> 32 word) run" where
  "chmod_main mode_of argv =
     (if length argv < 2 then Exited EXIT_FAILURE
      else case mode_of (argv ! 1) of
        None \<Rightarrow> Exited EXIT_FAILURE
      | Some mode \<Rightarrow> Done (argv ! 1, new_mode mode))"

lemma has_or_exec: "has m (S_IXUSR OR S_IXGRP OR S_IXOTH) \<longleftrightarrow> bit m 6 \<or> bit m 3 \<or> bit m 0"
proof -
  have "has m (a OR b) \<longleftrightarrow> has m a \<or> has m b" for a b
    by (simp add: has_def bit.conj_disj_distrib or_eq_0_iff)
  then show ?thesis by (simp only: has_bits)
qed

lemma bit_const: "n < 32 \<Longrightarrow> bit (push_bit n 1 :: 32 word) i \<longleftrightarrow> i = n"
  by (auto simp: bit_exp_iff)

lemma bit_consts:
  "bit S_IRUSR i \<longleftrightarrow> i = 8" "bit S_IRGRP i \<longleftrightarrow> i = 5" "bit S_IROTH i \<longleftrightarrow> i = 2"
  "bit S_IXUSR i \<longleftrightarrow> i = 6" "bit S_IXGRP i \<longleftrightarrow> i = 3" "bit S_IXOTH i \<longleftrightarrow> i = 0"
  using bit_const [of 8 i] bit_const [of 5 i] bit_const [of 2 i] bit_const [of 6 i] bit_const [of 3 i] bit_const [of 0 i]
  by (simp_all add: push_bit_eq_mult)

definition gives_exec :: "32 word \<Rightarrow> bool" where
  "gives_exec m \<longleftrightarrow> m AND S_IFMT = 0x4000 \<or> bit m 6 \<or> bit m 3 \<or> bit m 0"

lemma read_keeps_type: "(m OR (S_IRUSR OR S_IRGRP OR S_IROTH)) AND S_IFMT = m AND S_IFMT"
  by (simp add: bit.conj_disj_distrib2 and.commute)

lemma bit_new_mode:
  "bit (new_mode m) i \<longleftrightarrow> bit m i \<or> i \<in> {8, 5, 2} \<or> gives_exec m \<and> i \<in> {6, 3, 0}"
proof -
  define r where "r = S_IRUSR OR S_IRGRP OR S_IROTH"
  have r: "bit r i \<longleftrightarrow> i \<in> {8, 5, 2}" for i unfolding r_def bit_or_iff bit_consts by auto
  define x where "x = S_IXUSR OR S_IXGRP OR S_IXOTH"
  have x: "bit x i \<longleftrightarrow> i \<in> {6, 3, 0}" for i unfolding x_def bit_or_iff bit_consts by auto
  have "has (m OR r) x \<longleftrightarrow> bit m 6 \<or> bit m 3 \<or> bit m 0"
    unfolding x_def has_or_exec bit_or_iff r by simp
  moreover have "(m OR r) AND S_IFMT = m AND S_IFMT" unfolding r_def by (rule read_keeps_type)
  ultimately have "new_mode m = (if gives_exec m then m OR r OR x else m OR r)"
    unfolding new_mode_def Let_def r_def [symmetric] x_def [symmetric] gives_exec_def by (simp add: or.assoc)
  then show ?thesis by (auto simp: bit_or_iff r x)
qed

lemma gives_exec_new_mode: "gives_exec (new_mode m) \<longleftrightarrow> gives_exec m"
proof -
  have "new_mode m AND S_IFMT = m AND S_IFMT"
    unfolding new_mode_def Let_def by (simp add: bit.conj_disj_distrib2)
  then show ?thesis by (auto simp: gives_exec_def bit_new_mode)
qed

text \<open>\<^verbatim>\<open>my_chmod\<close> adds read permission for all, adds execute permission for all just for directories and
  files that somebody may execute, changes nothing else, and a second run changes nothing.\<close>

theorem chmod_adds_permissions:
  "(\<forall>i. bit (new_mode m) i = (bit m i \<or> i \<in> {8, 5, 2} \<or> gives_exec m \<and> i \<in> {6, 3, 0})) \<and>
   new_mode (new_mode m) = new_mode m"
proof
  show "new_mode (new_mode m) = new_mode m"
    by (rule bit_word_eqI) (auto simp: bit_new_mode gives_exec_new_mode)
qed (simp only: bit_new_mode simp_thms)

subsection \<open>\<^verbatim>\<open>my_chattr.c\<close>\<close>

definition attr_flag :: "char \<Rightarrow> 32 word option" where
  "attr_flag c =
     (if c = CHR ''a'' then Some 0x20 else if c = CHR ''c'' then Some 0x4
      else if c = CHR ''D'' then Some 0x10000 else if c = CHR ''i'' then Some 0x10
      else if c = CHR ''j'' then Some 0x4000 else if c = CHR ''A'' then Some 0x80
      else if c = CHR ''d'' then Some 0x40 else if c = CHR ''t'' then Some 0x8000
      else if c = CHR ''s'' then Some 0x1 else if c = CHR ''S'' then Some 0x8
      else if c = CHR ''T'' then Some 0x20000 else if c = CHR ''u'' then Some 0x2
      else None)"

text \<open>The loop over the letters; \<open>None\<close> for an unknown one.\<close>

fun parse_attr :: "32 word \<Rightarrow> string \<Rightarrow> 32 word option" where
  "parse_attr attr [] = Some attr"
| "parse_attr attr (c # cs) = (case attr_flag c of None \<Rightarrow> None | Some f \<Rightarrow> parse_attr (attr OR f) cs)"

text \<open>The flags of the files, \<open>None\<close> for a file that cannot be opened. The variable \<^verbatim>\<open>attr\<close> is overwritten
  in each round. The result is the exit status and the flags afterwards.\<close>

fun chattr_files :: "(string \<Rightarrow> bool \<times> bool \<times> bool) \<Rightarrow> char \<Rightarrow> 32 word \<Rightarrow> string list \<Rightarrow> (string \<rightharpoonup> 32 word)
    \<Rightarrow> int \<times> (string \<rightharpoonup> 32 word)" where
  "chattr_files io op attr [] fs = (0, fs)"
| "chattr_files io op attr (f # rest) fs =
     (case fs f of
        None \<Rightarrow> (EXIT_FAILURE, fs)
      | Some old_attr \<Rightarrow>
          (case io f of (get_ok, set_ok, close_ok) \<Rightarrow>
             if op \<in> {CHR ''+'', CHR ''-''} \<and> \<not> get_ok then (EXIT_FAILURE, fs)
             else
               let attr1 = (if op = CHR ''+'' then old_attr OR attr
                            else if op = CHR ''-'' then old_attr AND NOT attr
                            else attr)
               in if \<not> set_ok then (EXIT_FAILURE, fs)
                  else if \<not> close_ok then (EXIT_FAILURE, fs(f \<mapsto> attr1))
                  else chattr_files io op attr1 rest (fs(f \<mapsto> attr1))))"

definition chattr_main :: "(string \<Rightarrow> bool \<times> bool \<times> bool) \<Rightarrow> string list \<Rightarrow> (string \<rightharpoonup> 32 word) \<Rightarrow> (int \<times> (string \<rightharpoonup> 32 word)) run" where
  "chattr_main io argv fs =
     (if length argv < 3 then Exited EXIT_FAILURE
      else if argv ! 1 = [] then Faulted OutOfBounds
      else if hd (argv ! 1) \<notin> set ''+-='' \<or> argv ! 1 = ''--help'' then Exited EXIT_FAILURE
      else case parse_attr 0 (tl (argv ! 1)) of
        None \<Rightarrow> Exited EXIT_FAILURE
      | Some attr \<Rightarrow> Done (chattr_files io (hd (argv ! 1)) attr (drop 2 argv) fs))"

text \<open>Files behind one that fails are not changed, and neither are the files not named.\<close>

lemma chattr_files_frame: "chattr_files io op attr names fs = (r, fs') \<Longrightarrow> g \<notin> set names \<Longrightarrow> fs' g = fs g"
proof (induction names arbitrary: attr fs)
  case (Cons f rest)
  then show ?case by (fastforce simp: Let_def split: option.splits if_splits prod.splits)
qed simp

text \<open>For one file \<^verbatim>\<open>my_chattr\<close> adds, removes or sets the requested flags. With several files the result of
  one file becomes the request for the next: with \<^verbatim>\<open>+\<close> a file also gets the flags of the files before it,
  with \<^verbatim>\<open>-\<close> the second file loses the flags the first one has kept.\<close>

theorem chattr_single_and_leak:
  assumes "op \<in> {CHR ''+'', CHR ''-'', CHR ''=''}" "parse_attr 0 letters = Some req" "op # letters \<noteq> ''--help''"
    and "fs f = Some x" "fs g = Some y" "f \<noteq> g" "io f = (True, True, True)" "io g = (True, True, True)"
  shows "chattr_main io [prog, op # letters, f] fs =
      Done (0, fs(f \<mapsto> (if op = CHR ''+'' then x OR req else if op = CHR ''-'' then x AND NOT req else req))) \<and>
    (op = CHR ''+'' \<longrightarrow> chattr_main io [prog, op # letters, f, g] fs = Done (0, fs(f \<mapsto> x OR req, g \<mapsto> y OR x OR req))) \<and>
    (op = CHR ''-'' \<longrightarrow> chattr_main io [prog, op # letters, f, g] fs =
       Done (0, fs(f \<mapsto> x AND NOT req, g \<mapsto> y AND NOT (x AND NOT req))))"
  using assms by (auto simp: chattr_main_def Let_def)

theorem chattr_single_and_leak_witness:
  "chattr_main (\<lambda>_. (True, True, True)) [''c'', ''-i'', ''f'', ''g''] [''f'' \<mapsto> 0x50, ''g'' \<mapsto> 0x50] =
     Done (0, [''f'' \<mapsto> 0x50 AND NOT 0x10, ''g'' \<mapsto> 0x50 AND NOT (0x50 AND NOT 0x10)])"
  using chattr_single_and_leak [of "CHR ''-''" "''i''" "0x10" "[''f'' \<mapsto> 0x50, ''g'' \<mapsto> 0x50]" "''f''" "0x50" "''g''" "0x50"
      "\<lambda>_. (True, True, True)" "''c''"]
  by (simp add: attr_flag_def fun_upd_twist)

subsection \<open>\<^verbatim>\<open>my_access.c\<close>\<close>

text \<open>The function returns what \<^verbatim>\<open>access\<close> returns; the check of the effective ids below that is never
  reached.\<close>

definition my_access :: "(string \<Rightarrow> nat \<Rightarrow> int) \<Rightarrow> string \<Rightarrow> nat \<Rightarrow> int" where
  "my_access access pathname mode = access pathname mode"

definition access_main :: "(string \<Rightarrow> nat \<Rightarrow> int) \<Rightarrow> string list" where
  "access_main access = map (\<lambda>m. if my_access access ''test_file'' m = 0 then ''YES!!!'' else ''NO!!!'') [0, 4, 2, 1]"

subsection \<open>\<^verbatim>\<open>my_ftok.c\<close>\<close>

text \<open>\<^verbatim>\<open>key_t\<close> and \<^verbatim>\<open>int\<close> have 32 bits; the inode and the minor device number are \<^verbatim>\<open>long\<close>.\<close>

definition ftok_key :: "64 word \<Rightarrow> 64 word \<Rightarrow> 32 word \<Rightarrow> 32 word" where
  "ftok_key inode_id dev_min proj_d =
     ucast (inode_id AND 0xFFFF) OR ucast (push_bit 16 (dev_min AND 0xFF)) OR push_bit 24 (proj_d AND 0xFF)"

definition my_ftok :: "(string \<Rightarrow> (64 word \<times> 64 word) option) \<Rightarrow> string \<Rightarrow> 32 word \<Rightarrow> 32 word" where
  "my_ftok stat_of pathname proj_d =
     (case stat_of pathname of None \<Rightarrow> - 1 | Some (ino, dev_min) \<Rightarrow> ftok_key ino dev_min proj_d)"

text \<open>The key holds the low 16 bits of the inode number, the low 8 bits of the minor device number and the low 8
  bits of the project id in separate places, so each can be read back from it.\<close>

theorem ftok_key_parts:
  "map (bit (ftok_key ino dev proj)) [0..<16] = map (bit ino) [0..<16] \<and>
   map (bit (ftok_key ino dev proj)) [16..<24] = map (bit dev) [0..<8] \<and>
   map (bit (ftok_key ino dev proj)) [24..<32] = map (bit proj) [0..<8]"
proof -
  have masks: "(0xFFFF :: 64 word) = mask 16" "(0xFF :: 64 word) = mask 8" "(0xFF :: 32 word) = mask 8"
    by (simp_all add: mask_eq_exp_minus_1)
  have key: "bit (ftok_key ino dev proj) i \<longleftrightarrow>
      i < 32 \<and> (bit ino i \<and> i < 16 \<or> 16 \<le> i \<and> bit dev (i - 16) \<and> i - 16 < 8 \<or> 24 \<le> i \<and> bit proj (i - 24) \<and> i - 24 < 8)" for i
    unfolding ftok_key_def masks
    by (auto simp: bit_or_iff bit_unsigned_iff bit_and_iff bit_push_bit_iff bit_mask_iff)
  show ?thesis by (simp add: key upt_rec eval_nat_numeral)
qed

end
