(* ===== verification/Messages.thy ===== *)
theory Messages
  imports C_Lib
begin

text \<open>
  Small message protocols: \<^verbatim>\<open>p_c_pipe.c\<close> (Section 44; that of Section 61 is in \<open>Socket_Pipe\<close>), the datagram
  pair \<^verbatim>\<open>ud_ucase_sv.c\<close>, \<^verbatim>\<open>ud_ucase_cl.c\<close> of Section 57, and the request handler of \<^verbatim>\<open>tcp_udp_echo.c\<close> of
  Section 63. The theorems state what the two sides exchange and print.
\<close>

subsection \<open>\<^verbatim>\<open>p_c_pipe.c\<close>\<close>

text \<open>The loop of the child: the bounds of the alphabet themselves are excluded.\<close>

definition child_upper :: "char \<Rightarrow> char" where
  "child_upper c =
     (if (of_char CHR ''a'' :: nat) < of_char c \<and> (of_char c :: nat) < of_char CHR ''z''
      then char_of ((of_char c :: nat) - 32) else c)"

text \<open>What the calls answer, on the way of each process.\<close>

record pc_env =
  pe_pipe :: "bool \<times> bool"
  pe_fork :: bool
  pe_child_close :: "bool \<times> bool"       \<comment> \<open>before the message\<close>
  pe_child_read :: "errno option"
  pe_child_write :: "wr_ans list"
  pe_child_close2 :: "bool \<times> bool"
  pe_parent_close :: "bool \<times> bool"
  pe_parent_write :: "wr_ans list"
  pe_parent_read :: "errno option"
  pe_parent_close2 :: "bool \<times> bool"

text \<open>The child: its exit status, and what it puts into the second pipe. \<open>m\<close> is what the first pipe
  holds, which is empty when the parent has closed it.\<close>

definition pc_child :: "pc_env \<Rightarrow> string \<Rightarrow> int \<times> string" where
  "pc_child e m =
     (if \<not> fst (pe_child_close e) then (EXIT_FAILURE, [])
      else if \<not> snd (pe_child_close e) then (EXIT_FAILURE, [])
      else if pe_child_read e \<noteq> None then (EXIT_FAILURE, [])
      else
        let recv_mesg = take 1024 m in
        if recv_mesg = [] then (EXIT_FAILURE, [])
        else
          let up = map child_upper recv_mesg in
          case sys_write up (pe_child_write e) of
            (Inl _, _) \<Rightarrow> (EXIT_FAILURE, [])
          | (Inr k, _) \<Rightarrow>
              if k \<noteq> length up then (EXIT_FAILURE, take k up)
              else if \<not> fst (pe_child_close2 e) then (EXIT_FAILURE, up)
              else if \<not> snd (pe_child_close2 e) then (EXIT_FAILURE, up)
              else (EXIT_SUCCESS, up))"

text \<open>The parent, up to its last message: \<open>Inl\<close> its exit status, with what it wrote before.\<close>

definition pc_parent_send :: "pc_env \<Rightarrow> string \<Rightarrow> string \<times> bool" where
  "pc_parent_send e msg =
     (if \<not> fst (pe_parent_close e) then ([], False)
      else if \<not> snd (pe_parent_close e) then ([], False)
      else case sys_write msg (pe_parent_write e) of
        (Inl _, _) \<Rightarrow> ([], False)
      | (Inr k, _) \<Rightarrow> (take k msg, k = length msg))"

text \<open>The buffer of the parent is not initialised; the bytes read are stored at its start.\<close>

definition pc_parent_print :: "pc_env \<Rightarrow> string \<Rightarrow> string run" where
  "pc_parent_print e reply =
     (if pe_parent_read e \<noteq> None then Exited EXIT_FAILURE
      else
        let got = take 1024 reply in
        if got = [] then Exited EXIT_FAILURE
        else run_bind (print_str (map Some got @ replicate (1024 - length got) None)) (\<lambda>s.
          if \<not> fst (pe_parent_close2 e) then Exited EXIT_FAILURE
          else if \<not> snd (pe_parent_close2 e) then Exited EXIT_FAILURE
          else Done (''parent get mesg: '' @ s @ [newline])))"

text \<open>Nothing is in the pipe after an empty message, and both processes wait: the parent keeps the write end of the first pipe open
  and the child that of the second.\<close>

definition p_c_pipe_main :: "pc_env \<Rightarrow> string list \<Rightarrow> string run" where
  "p_c_pipe_main e argv =
     (if length argv \<noteq> 2 \<or> argv ! 1 = ''--help'' then Exited EXIT_FAILURE
      else if \<not> fst (pe_pipe e) then Exited EXIT_FAILURE
      else if \<not> snd (pe_pipe e) then Exited EXIT_FAILURE
      else if \<not> pe_fork e then Exited EXIT_FAILURE
      else
        let (sent, ok) = pc_parent_send e (argv ! 1);
            (status, reply) = pc_child e sent
        in if \<not> ok then Exited EXIT_FAILURE
           else if sent = [] \<and> pe_child_close e = (True, True) \<and> pe_child_read e = None \<and> pe_parent_read e = None
             then Faulted Deadlock
           else pc_parent_print e reply)"

definition pc_good :: "pc_env \<Rightarrow> bool" where
  "pc_good e \<longleftrightarrow> pe_pipe e = (True, True) \<and> pe_fork e \<and> pe_child_close e = (True, True) \<and>
     pe_child_read e = None \<and> pe_child_write e = [] \<and> pe_child_close2 e = (True, True) \<and>
     pe_parent_close e = (True, True) \<and> pe_parent_write e = [] \<and> pe_parent_read e = None \<and>
     pe_parent_close2 e = (True, True)"

lemma print_str_open_end: "NUL \<notin> set s \<Longrightarrow> print_str (map Some s) = Faulted OutOfBounds"
  by (induction s) auto

lemma child_upper_NUL: "child_upper c = NUL \<longleftrightarrow> c = NUL"
proof (cases "97 < (of_char c :: nat) \<and> (of_char c :: nat) < 122")
  case True
  then have "(of_char (child_upper c) :: nat) = of_char c - 32"
    using of_char_upper [of "of_char c"] by (simp add: child_upper_def)
  with True have "(of_char (child_upper c) :: nat) \<noteq> 0" by linarith
  with True show ?thesis by auto
next
  case False
  then have "child_upper c = c" by (auto simp: child_upper_def)
  then show ?thesis by simp
qed

lemma child_upper_c_string: "NUL \<notin> set s \<Longrightarrow> NUL \<notin> set (map child_upper s)"
proof (induction s)
  case (Cons c s)
  then have "child_upper c \<noteq> NUL" using child_upper_NUL [of c] by auto
  with Cons show ?case by auto
qed simp

text \<open>When no call fails the child sends back the first 1024 characters of the message in upper case, except
  that the letters a and z stay as they are; printing the reply then reads behind it, since
  the buffer of the parent is not terminated.\<close>

theorem p_c_pipe_exchange:
  assumes "pc_good e" "c_string msg" "msg \<noteq> []" "msg \<noteq> ''--help''"
  shows "pc_child e (fst (pc_parent_send e msg)) = (EXIT_SUCCESS, map child_upper (take 1024 msg)) \<and>
    (\<forall>c. child_upper c = (if c \<in> {CHR ''a'', CHR ''z''} then c else c_toupper c)) \<and>
    p_c_pipe_main e [prog, msg] = Faulted (if length msg < 1024 then Uninitialised else OutOfBounds)"
proof (intro conjI allI)
  show "pc_child e (fst (pc_parent_send e msg)) = (EXIT_SUCCESS, map child_upper (take 1024 msg))"
    using assms by (simp add: pc_child_def pc_parent_send_def pc_good_def Let_def)
  fix c
  have az: "c = CHR ''a'' \<longleftrightarrow> (of_char c :: nat) = 97" "c = CHR ''z'' \<longleftrightarrow> (of_char c :: nat) = 122"
    using of_char_eq_iff [where ?'a = nat, of c "CHR ''a''"] of_char_eq_iff [where ?'a = nat, of c "CHR ''z''"]
    by simp_all
  show "child_upper c = (if c \<in> {CHR ''a'', CHR ''z''} then c else c_toupper c)"
    using az by (auto simp: child_upper_def c_toupper_def)
next
  let ?up = "map child_upper (take 1024 msg)"
  have "NUL \<notin> set (take 1024 msg)" using assms(2) by (auto simp: c_string_def dest: in_set_takeD)
  then have up: "NUL \<notin> set ?up" by (rule child_upper_c_string)
  have ne: "?up \<noteq> []" using assms(3) by simp
  have "pc_parent_print e ?up = Faulted (if length msg < 1024 then Uninitialised else OutOfBounds)"
  proof (cases "length msg < 1024")
    case True
    then have "replicate (1024 - length ?up) None = (None :: char option) # replicate (1023 - length msg) None"
      by (simp add: replicate_Suc [symmetric] Suc_diff_Suc del: replicate_Suc)
    with True ne show ?thesis using assms(1) print_str_indeterminate [OF up]
      by (simp add: pc_parent_print_def pc_good_def Let_def)
  next
    case False
    with ne show ?thesis using assms(1) print_str_open_end [OF up]
      by (simp add: pc_parent_print_def pc_good_def Let_def)
  qed
  then show "p_c_pipe_main e [prog, msg] = Faulted (if length msg < 1024 then Uninitialised else OutOfBounds)"
    using assms by (simp add: p_c_pipe_main_def pc_good_def pc_parent_send_def pc_child_def Let_def)
qed

definition pc_demo :: pc_env where
  "pc_demo = \<lparr>pe_pipe = (True, True), pe_fork = True, pe_child_close = (True, True), pe_child_read = None,
     pe_child_write = [], pe_child_close2 = (True, True), pe_parent_close = (True, True), pe_parent_write = [],
     pe_parent_read = None, pe_parent_close2 = (True, True)\<rparr>"

theorem p_c_pipe_exchange_witness:
  "p_c_pipe_main pc_demo [''p'', ''abc''] = Faulted Uninitialised \<and>
   map child_upper ''abc'' = ''aBC''"
proof
  have "c_string ''abc''" "pc_good pc_demo" by (simp_all add: c_string_def pc_good_def pc_demo_def)
  then show "p_c_pipe_main pc_demo [''p'', ''abc''] = Faulted Uninitialised"
    using p_c_pipe_exchange [of pc_demo "''abc''" "''p''"] by simp
qed (code_simp)

subsection \<open>\<^verbatim>\<open>ud_ucase_sv.c\<close> and \<^verbatim>\<open>ud_ucase_cl.c\<close>\<close>

text \<open>A datagram longer than the buffer of ten bytes is truncated by \<^verbatim>\<open>recvfrom\<close>. The server has for each
  call of \<^verbatim>\<open>recvfrom\<close> an error or a datagram with its sender, and the answer of \<^verbatim>\<open>sendto\<close>. \<open>None\<close>: it is
  waiting.\<close>

type_synonym dgram = "string \<times> string"     \<comment> \<open>address, contents\<close>

definition ud_reply :: "string \<Rightarrow> string" where
  "ud_reply msg = map c_toupper (take 10 msg)"

fun ud_sv_loop :: "(dgram option \<times> bool) list \<Rightarrow> int option \<times> string list \<times> dgram list" where
  "ud_sv_loop [] = (None, [], [])"
| "ud_sv_loop ((None, ok) # rest) = (Some EXIT_FAILURE, [], [])"
| "ud_sv_loop ((Some (addr, msg), ok) # rest) =
     (let log = ''Server received '' @ dec_nat (length (take 10 msg)) @ '' bytes from '' @ addr in
      if \<not> ok then (Some EXIT_FAILURE, [log], [])
      else case ud_sv_loop rest of (st, logs, sent) \<Rightarrow> (st, log # logs, (addr, ud_reply msg) # sent))"

record ud_env =
  ud_socket :: bool
  ud_remove :: "errno option"
  ud_bind :: bool

definition ud_ucase_sv_main :: "ud_env \<Rightarrow> (dgram option \<times> bool) list \<Rightarrow> int option \<times> string list \<times> dgram list" where
  "ud_ucase_sv_main e ms =
     (if \<not> ud_socket e then (Some EXIT_FAILURE, [], [])
      else if ud_remove e \<noteq> None \<and> ud_remove e \<noteq> Some ENOENT then (Some EXIT_FAILURE, [], [])
      else if \<not> ud_bind e then (Some EXIT_FAILURE, [], [])
      else ud_sv_loop ms)"

text \<open>\<^verbatim>\<open>printf("Response %d: %.*s\n", j, (int) numBytes, resp)\<close> stops at a terminator as well.\<close>

definition response_line :: "nat \<Rightarrow> string \<Rightarrow> string" where
  "response_line j resp = ''Response '' @ dec_nat j @ '': '' @ takeWhile (\<lambda>c. c \<noteq> NUL) (take 10 resp) @ [newline]"

text \<open>The client: for each message the answer of \<^verbatim>\<open>sendto\<close> and the reply, if it comes. The results are the
  exit status, the messages sent and the lines printed.\<close>

fun ud_cl_loop :: "nat \<Rightarrow> string list \<Rightarrow> (bool \<times> string option) list \<Rightarrow> int \<times> string list \<times> string list" where
  "ud_cl_loop j [] ans = (EXIT_FAILURE, [], [])"
| "ud_cl_loop j (m # ms) [] = (EXIT_FAILURE, [], [])"
| "ud_cl_loop j (m # ms) ((ok, reply) # ans) =
     (if \<not> ok then (EXIT_FAILURE, [], [])
      else case reply of
        None \<Rightarrow> (EXIT_FAILURE, [m], [])
      | Some r \<Rightarrow>
          (case ud_cl_loop (j + 1) ms ans of (st, sent, out) \<Rightarrow> (st, m # sent, response_line j r # out)))"

definition ud_ucase_cl_main :: "bool \<Rightarrow> bool \<Rightarrow> string list \<Rightarrow> (bool \<times> string option) list \<Rightarrow> int \<times> string list \<times> string list" where
  "ud_ucase_cl_main socket_ok bind_ok argv ans =
     (if length argv < 2 \<or> argv ! 1 = ''--help'' then (EXIT_FAILURE, [], [])
      else if \<not> socket_ok then (EXIT_FAILURE, [], [])
      else if \<not> bind_ok then (EXIT_FAILURE, [], [])
      else ud_cl_loop 1 (tl argv) ans)"

lemma ud_cl_loop_replies:
  "length rs = length ms \<Longrightarrow>
     ud_cl_loop j ms (map (\<lambda>r. (True, Some r)) rs) = (EXIT_FAILURE, ms, map2 response_line [j ..< j + length ms] rs)"
proof (induction ms arbitrary: rs j)
  case (Cons m ms)
  then obtain r rs' where "rs = r # rs'" "length rs' = length ms" by (cases rs) auto
  moreover have "[j ..< j + length (m # ms)] = j # [Suc j ..< Suc j + length ms]" by (simp add: upt_conv_Cons del: upt_Suc)
  ultimately show ?case using Cons.IH [of rs' "Suc j"] by simp
qed simp

lemma ud_sv_loop_replies:
  "ud_sv_loop (map (\<lambda>m. (Some (addr, m), True)) ms) =
     (None, map (\<lambda>m. ''Server received '' @ dec_nat (length (take 10 m)) @ '' bytes from '' @ addr) ms,
      map (\<lambda>m. (addr, ud_reply m)) ms)"
  by (induction ms) simp_all

text \<open>Client and server composed: the client sends its arguments, the server returns the first ten characters
  of each in upper case to the address of the client, and the client prints the replies in order
  with their numbers; its exit status is failure all the same.\<close>

theorem ud_ucase_end_to_end:
  assumes "ms \<noteq> []" "hd ms \<noteq> ''--help''" "ud_socket e" "ud_remove e = Some ENOENT" "ud_bind e"
    and "snd (snd (ud_ucase_sv_main e (map (\<lambda>m. (Some (addr, m), True)) ms))) = replies"
  shows "map fst replies = map (\<lambda>_. addr) ms \<and>
    ud_ucase_cl_main True True (prog # ms) (map (\<lambda>(a, r). (True, Some r)) replies) =
      (EXIT_FAILURE, ms, map2 response_line [1 ..< 1 + length ms] (map (\<lambda>m. map c_toupper (take 10 m)) ms))"
proof -
  have up: "ud_reply = (\<lambda>m. map c_toupper (take 10 m))" by (simp add: fun_eq_iff ud_reply_def)
  have r: "replies = map (\<lambda>m. (addr, ud_reply m)) ms"
    using assms(3-6) by (simp add: ud_ucase_sv_main_def ud_sv_loop_replies)
  have "map (\<lambda>(a, r). (True, Some r)) replies = map (\<lambda>r. (True, Some r)) (map ud_reply ms)"
    by (simp add: r comp_def)
  then have "ud_cl_loop 1 ms (map (\<lambda>(a, r). (True, Some r)) replies) =
      (EXIT_FAILURE, ms, map2 response_line [1 ..< 1 + length ms] (map ud_reply ms))"
    using ud_cl_loop_replies [of "map ud_reply ms" ms 1] by simp
  then show ?thesis
    using r assms(1,2) unfolding up by (cases ms) (simp_all add: ud_ucase_cl_main_def comp_def del: upt_Suc)
qed

theorem ud_ucase_end_to_end_witness:
  "ud_ucase_cl_main True True [''p'', ''hi''] [(True, Some ''HI'')] =
     (EXIT_FAILURE, [''hi''], map2 response_line [1 ..< 1 + 1] [map c_toupper (take 10 ''hi'')])"
proof -
  let ?e = "\<lparr>ud_socket = True, ud_remove = Some ENOENT, ud_bind = True\<rparr>"
  have up: "map c_toupper (take 10 ''hi'') = ''HI''" by code_simp
  have "snd (snd (ud_ucase_sv_main ?e (map (\<lambda>m. (Some (''c'', m), True)) [''hi'']))) = [(''c'', ''HI'')]"
    using up by (simp add: ud_ucase_sv_main_def ud_reply_def)
  from ud_ucase_end_to_end [OF _ _ _ _ _ this, of "''p''"] show ?thesis by simp
qed

subsection \<open>\<^verbatim>\<open>tcp_udp_echo.c\<close>\<close>

text \<open>The sending loop: the pieces handed over, and whether the loop was left by \<^verbatim>\<open>break\<close>.\<close>

function te_send_loop :: "string \<Rightarrow> wr_ans list \<Rightarrow> string list \<times> bool" where
  "te_send_loop b a =
     (case sys_write b a of
        (Inl e, a1) \<Rightarrow> if e = EINTR then te_send_loop b a1 else ([], False)
      | (Inr k, a1) \<Rightarrow>
          if k < length b then (case te_send_loop (drop k b) a1 of (ps, done) \<Rightarrow> (take k b # ps, done))
          else ([take k b], True))"
  by pat_completeness auto
termination
proof (relation "measure (\<lambda>(b, a). length a)", goal_cases)
  case (2 b a x a1 e)
  then show ?case by (cases a rule: list.exhaust; cases "hd a") auto
next
  case (3 b a x a1 k)
  then show ?case by (cases a rule: list.exhaust; cases "hd a") auto
qed simp

declare te_send_loop.simps [simp del]

definition handler_request :: "errno + string \<Rightarrow> wr_ans list \<Rightarrow> string list \<times> bool" where
  "handler_request received a =
     (case received of Inl e \<Rightarrow> ([], False) | Inr m \<Rightarrow> te_send_loop (take 1024 m) a)"

text \<open>One round of the main loop: the descriptors found ready, and the answer of \<^verbatim>\<open>accept\<close>. The result is
  the descriptor passed to \<^verbatim>\<open>handler_request\<close>; \<open>lfd\<close> keeps its value from round to round, \<open>None\<close> at first.\<close>

datatype sel = Sel_Error errno | Sel_Ready bool bool "nat option"

definition te_round :: "nat \<Rightarrow> sel \<Rightarrow> nat option \<Rightarrow> nat option option run" where
  "te_round udp_fd s lfd =
     (case s of
        Sel_Error e \<Rightarrow> if e = EINTR then Done None else Exited EXIT_FAILURE
      | Sel_Ready tcp udp acc \<Rightarrow>
          if tcp \<and> acc = None then Exited EXIT_FAILURE
          else
            let lfd1 = (if tcp then acc else lfd);
                lfd2 = (if udp then Some udp_fd else lfd1)
            in case lfd2 of None \<Rightarrow> Faulted Uninitialised | Some f \<Rightarrow> Done (Some (Some f)))"

text \<open>A connection accepted while a datagram is waiting is never served.\<close>

lemma te_round_drops_connection:
  "te_round udp_fd (Sel_Ready True True (Some c)) lfd = Done (Some (Some udp_fd))"
  by (simp add: te_round_def)

definition te_interrupts :: "wr_ans list \<Rightarrow> bool" where
  "te_interrupts a \<longleftrightarrow> (\<forall>x \<in> set a. x = WrErr EINTR \<or> (\<exists>k. x = WrRoom k))"

text \<open>However the sending of a reply is interrupted or cut into pieces, the handler sends all bytes of the
  request, up to 1024, in order and exactly once.\<close>

theorem handler_request_echoes:
  assumes "te_interrupts a"
  shows "\<exists>ps. handler_request (Inr m) a = (ps, True) \<and> concat ps = take 1024 m"
proof -
  have "\<exists>ps. te_send_loop b a = (ps, True) \<and> concat ps = b" for b
    using assms
  proof (induction b a rule: te_send_loop.induct)
    case (1 b a)
    show ?case
    proof (cases a)
      case Nil
      then show ?thesis by (simp add: te_send_loop.simps [of b "[]"])
    next
      case (Cons x r)
      then have r: "te_interrupts r" using "1.prems" by (simp add: te_interrupts_def)
      show ?thesis
      proof (cases x)
        case (WrErr e)
        then have "e = EINTR" using "1.prems" Cons by (simp add: te_interrupts_def)
        then show ?thesis using "1.IH"(1) r Cons WrErr by (simp add: te_send_loop.simps [of b "WrErr EINTR # r"])
      next
        case (WrRoom k)
        then show ?thesis
          using "1.IH"(2) [of _ r "min k (length b)"] r Cons WrRoom
          by (cases "k < length b") (auto simp: te_send_loop.simps [of b "WrRoom k # r"] min_def)
      qed
    qed
  qed
  then show ?thesis by (simp add: handler_request_def)
qed

theorem handler_request_echoes_witness:
  "\<exists>ps. handler_request (Inr ''hello'') [WrErr EINTR, WrRoom 2] = (ps, True) \<and> concat ps = ''hello''"
  using handler_request_echoes [of "[WrErr EINTR, WrRoom 2]" "''hello''"] by (simp add: te_interrupts_def)

end
