(* ===== verification/Relay.thy ===== *)
theory Relay
  imports C_Lib
begin

text \<open>
  Programs of Section 64 that relay data between two descriptors with \<^verbatim>\<open>select\<close>: \<^verbatim>\<open>script.c\<close>,
  \<^verbatim>\<open>my_telnet_client.c\<close> and \<^verbatim>\<open>my_telnet_server.c\<close>. A round of the loop is given by what \<^verbatim>\<open>select\<close> and the
  reads of the ready descriptors answer. The locale \<open>relay_loop\<close> holds what the loops of client and
  server guarantee in both directions and is interpreted on each; the theorem on \<^verbatim>\<open>script\<close> gives the
  contents of both files it writes.
\<close>

subsection \<open>Rounds and targets\<close>

text \<open>For each of the two descriptors: \<open>None\<close> when it is not ready, otherwise the answer of \<^verbatim>\<open>read\<close>.\<close>

datatype sel_round = Sel_Err errno | Sel_Set "rd_ans option" "rd_ans option"

text \<open>A target: what it has received, and what the next writes to it find. A short or failed write is
  reported on the standard error stream and the loop goes on.\<close>

type_synonym chan = "string \<times> wr_ans list"

definition chan_write :: "string \<Rightarrow> chan \<Rightarrow> chan" where
  "chan_write b c =
     (case sys_write b (snd c) of
        (Inl e, a) \<Rightarrow> (fst c, a)
      | (Inr k, a) \<Rightarrow> (fst c @ take k b, a))"

text \<open>\<^verbatim>\<open>if (FD_ISSET(...)) { n = read(...); if (n <= 0) exit(EXIT_SUCCESS); write(...); }\<close>: \<open>None\<close> when the
  program exits.\<close>

definition forward :: "nat \<Rightarrow> rd_ans option \<Rightarrow> chan \<Rightarrow> chan option" where
  "forward n r c =
     (case r of
        None \<Rightarrow> Some c
      | Some (RdErr e) \<Rightarrow> None
      | Some (RdBytes b) \<Rightarrow> if take n b = [] then None else Some (chan_write (take n b) c))"

definition data_of :: "rd_ans option \<Rightarrow> string" where
  "data_of r = (case r of Some (RdBytes b) \<Rightarrow> b | _ \<Rightarrow> [])"

text \<open>A round in which data arrive or nothing does.\<close>

definition open_read :: "nat \<Rightarrow> rd_ans option \<Rightarrow> bool" where
  "open_read n r \<longleftrightarrow> (case r of None \<Rightarrow> True | Some (RdErr e) \<Rightarrow> False | Some (RdBytes b) \<Rightarrow> b \<noteq> [] \<and> length b \<le> n)"

fun open_round :: "nat \<Rightarrow> sel_round \<Rightarrow> bool" where
  "open_round n (Sel_Err e) = False"
| "open_round n (Sel_Set r1 r2) = (open_read n r1 \<and> open_read n r2)"

fun first_data :: "sel_round \<Rightarrow> string" where
  "first_data (Sel_Err e) = []"
| "first_data (Sel_Set r1 r2) = data_of r1"

fun second_data :: "sel_round \<Rightarrow> string" where
  "second_data (Sel_Err e) = []"
| "second_data (Sel_Set r1 r2) = data_of r2"

lemma chan_write_full: "chan_write b (s, []) = (s @ b, [])"
  by (simp add: chan_write_def)

lemma forward_open: "open_read n r \<Longrightarrow> forward n r (s, []) = Some (s @ data_of r, [])"
  by (auto simp: forward_def open_read_def data_of_def chan_write_full split: option.splits rd_ans.splits)

lemma forward_end: "forward n (Some (RdBytes [])) c = None"
  by (simp add: forward_def)

subsection \<open>Client and server\<close>

text \<open>\<^verbatim>\<open>my_telnet_client.c\<close>: standard input to the connection, then the connection to standard output. The
  results are the exit status, \<open>None\<close> while the program waits, and the two targets.\<close>

fun telnet_client_loop :: "sel_round list \<Rightarrow> chan \<Rightarrow> chan \<Rightarrow> int option \<times> chan \<times> chan" where
  "telnet_client_loop [] c1 c2 = (None, c1, c2)"
| "telnet_client_loop (Sel_Err e # rs) c1 c2 = (Some EXIT_FAILURE, c1, c2)"
| "telnet_client_loop (Sel_Set r1 r2 # rs) c1 c2 =
     (case forward 10240 r1 c1 of
        None \<Rightarrow> (Some EXIT_SUCCESS, c1, c2)
      | Some c1' \<Rightarrow>
          case forward 10240 r2 c2 of
            None \<Rightarrow> (Some EXIT_SUCCESS, c1', c2)
          | Some c2' \<Rightarrow> telnet_client_loop rs c1' c2')"

definition telnet_client_main :: "nat option \<Rightarrow> bool \<Rightarrow> sel_round list \<Rightarrow> chan \<Rightarrow> chan \<Rightarrow> int option \<times> chan \<times> chan" where
  "telnet_client_main cfd atexit_ok rs c1 c2 =
     (if cfd = None then (Some EXIT_FAILURE, c1, c2)
      else if \<not> atexit_ok then (Some EXIT_FAILURE, c1, c2)
      else telnet_client_loop rs c1 c2)"

text \<open>\<^verbatim>\<open>my_telnet_server.c\<close>: the pseudo-terminal to the connection, then the connection to the
  pseudo-terminal.\<close>

fun telnet_server_loop :: "sel_round list \<Rightarrow> chan \<Rightarrow> chan \<Rightarrow> int option \<times> chan \<times> chan" where
  "telnet_server_loop [] c1 c2 = (None, c1, c2)"
| "telnet_server_loop (Sel_Err e # rs) c1 c2 = (Some EXIT_FAILURE, c1, c2)"
| "telnet_server_loop (Sel_Set r1 r2 # rs) c1 c2 =
     (case forward 1024 r1 c1 of
        None \<Rightarrow> (Some EXIT_SUCCESS, c1, c2)
      | Some c1' \<Rightarrow>
          case forward 1024 r2 c2 of
            None \<Rightarrow> (Some EXIT_SUCCESS, c1', c2)
          | Some c2' \<Rightarrow> telnet_server_loop rs c1' c2')"

text \<open>\<^verbatim>\<open>handle_request\<close> in the parent after \<^verbatim>\<open>ptyFork\<close>, whose answer is the process id.\<close>

definition handle_request :: "int \<Rightarrow> sel_round list \<Rightarrow> chan \<Rightarrow> chan \<Rightarrow> int option \<times> chan \<times> chan" where
  "handle_request childPid rs c1 c2 =
     (if childPid = - 1 then (Some EXIT_FAILURE, c1, c2) else telnet_server_loop rs c1 c2)"

locale relay_loop =
  fixes bufsize :: nat
    and loop :: "sel_round list \<Rightarrow> chan \<Rightarrow> chan \<Rightarrow> int option \<times> chan \<times> chan"
  assumes loop_wait: "loop [] c1 c2 = (None, c1, c2)"
    and loop_round: "loop (Sel_Set r1 r2 # rs) c1 c2 =
      (case forward bufsize r1 c1 of
         None \<Rightarrow> (Some EXIT_SUCCESS, c1, c2)
       | Some c1' \<Rightarrow>
           case forward bufsize r2 c2 of
             None \<Rightarrow> (Some EXIT_SUCCESS, c1', c2)
           | Some c2' \<Rightarrow> loop rs c1' c2')"
begin

lemma relays:
  assumes "\<forall>r \<in> set rs. open_round bufsize r"
  shows "loop (rs @ rest) (s1, []) (s2, []) =
    loop rest (s1 @ concat (map first_data rs), []) (s2 @ concat (map second_data rs), [])"
  using assms
proof (induction rs arbitrary: s1 s2)
  case (Cons r rs)
  then obtain r1 r2 where "r = Sel_Set r1 r2" "open_read bufsize r1" "open_read bufsize r2"
    by (cases r) auto
  with Cons show ?case by (simp add: loop_round forward_open)
qed simp

lemma ends_first:
  assumes "\<forall>r \<in> set rs. open_round bufsize r"
  shows "loop (rs @ Sel_Set (Some (RdBytes [])) r2 # rest) (s1, []) (s2, []) =
    (Some EXIT_SUCCESS, (s1 @ concat (map first_data rs), []), (s2 @ concat (map second_data rs), []))"
  by (simp add: relays [OF assms] loop_round forward_end)

lemma ends_second:
  assumes "\<forall>r \<in> set rs. open_round bufsize r" "open_read bufsize r1"
  shows "loop (rs @ Sel_Set r1 (Some (RdBytes [])) # rest) (s1, []) (s2, []) =
    (Some EXIT_SUCCESS, (s1 @ concat (map first_data rs) @ data_of r1, []), (s2 @ concat (map second_data rs), []))"
  by (simp add: relays [OF assms(1)] loop_round forward_end forward_open [OF assms(2)])

end

interpretation telnet_client: relay_loop 10240 telnet_client_loop
  by unfold_locales simp_all

interpretation telnet_server: relay_loop 1024 telnet_server_loop
  by unfold_locales simp_all

text \<open>C25: Telnet client and server relay in both directions: after rounds in which both sides stay open, each target
  has received exactly what the other side sent, and when the connection ends, the program exits
  with success and nothing received before is lost. All writes are complete: the loops do not repeat a short write.\<close>

theorem telnet_relays:
  assumes "\<forall>r \<in> set rs. open_round 1024 r" "open_read 1024 r1"
  shows "telnet_client_main (Some cfd) True rs ([], []) ([], []) =
      (None, (concat (map first_data rs), []), (concat (map second_data rs), [])) \<and>
    telnet_client_main (Some cfd) True (rs @ [Sel_Set r1 (Some (RdBytes []))]) ([], []) ([], []) =
      (Some EXIT_SUCCESS, (concat (map first_data rs) @ data_of r1, []), (concat (map second_data rs), [])) \<and>
    handle_request 1 (rs @ [Sel_Set r1 (Some (RdBytes []))]) ([], []) ([], []) =
      (Some EXIT_SUCCESS, (concat (map first_data rs) @ data_of r1, []), (concat (map second_data rs), []))"
proof -
  have wide: "open_read 10240 r" if "open_read 1024 r" for r
    using that by (auto simp: open_read_def split: option.splits rd_ans.splits)
  then have open': "\<forall>r \<in> set rs. open_round 10240 r"
    using assms(1) by (metis open_round.elims(2) open_round.simps(2))
  show ?thesis
    using telnet_client.relays [OF open', of "[]" "[]" "[]"] telnet_client.ends_second [OF open' wide [OF assms(2)], of "[]" "[]" "[]"]
      telnet_server.ends_second [OF assms, of "[]" "[]" "[]"]
    by (simp add: telnet_client_main_def handle_request_def)
qed

theorem telnet_relays_witness:
  "telnet_client_main (Some 3) True [Sel_Set (Some (RdBytes ''ls'')) None, Sel_Set None (Some (RdBytes ''a'')), Sel_Set None (Some (RdBytes []))] ([], []) ([], []) =
     (Some EXIT_SUCCESS, (''ls'', []), (''a'', []))"
  using telnet_relays [of "[Sel_Set (Some (RdBytes ''ls'')) None, Sel_Set None (Some (RdBytes ''a''))]" None 3]
  by (simp add: open_read_def data_of_def)

subsection \<open>\<^verbatim>\<open>script.c\<close>\<close>

text \<open>A round: whether adjusting the window size succeeds if it is tried, whether a window signal arrives
  meanwhile, the answer of \<^verbatim>\<open>select\<close>, and the text of \<^verbatim>\<open>ctime\<close>, \<open>None\<close> when \<^verbatim>\<open>time\<close> fails.\<close>

record script_round =
  sr_win_ok :: bool
  sr_winch :: bool
  sr_sel :: sel_round
  sr_time :: "string option"

record script =
  gotSig :: bool
  s_master :: chan              \<comment> \<open>the pseudo-terminal\<close>
  s_stdout :: chan
  s_script :: chan              \<comment> \<open>the file \<^verbatim>\<open>typescript\<close>\<close>
  s_timed :: chan               \<comment> \<open>the file with times\<close>

definition script_from_stdin :: "rd_ans option \<Rightarrow> script \<Rightarrow> script option" where
  "script_from_stdin r s = map_option (\<lambda>c. s\<lparr>s_master := c\<rparr>) (forward 256 r (s_master s))"

text \<open>\<^verbatim>\<open>timedbuf\<close> holds the text with its newline replaced by a blank, of which all but the blank is
  written.\<close>

definition script_from_master :: "string option \<Rightarrow> rd_ans option \<Rightarrow> script \<Rightarrow> int option \<times> script" where
  "script_from_master tm r s =
     (case r of
        None \<Rightarrow> (None, s)
      | Some a \<Rightarrow>
          let b = (case a of RdErr e \<Rightarrow> [] | RdBytes b \<Rightarrow> take 256 b) in
          if b = [] then (Some EXIT_SUCCESS, s\<lparr>s_script := chan_write (''<--Script end'' @ [newline]) (s_script s)\<rparr>)
          else
            let s1 = s\<lparr>s_stdout := chan_write b (s_stdout s), s_script := chan_write b (s_script s)\<rparr> in
            case tm of
              None \<Rightarrow> (Some EXIT_FAILURE, s1)
            | Some txt \<Rightarrow>
                (None, s1\<lparr>s_timed := chan_write [newline] (chan_write b (chan_write (butlast txt) (s_timed s1)))\<rparr>))"

fun script_loop :: "script_round list \<Rightarrow> script \<Rightarrow> int option \<times> script" where
  "script_loop [] s = (None, s)"
| "script_loop (r # rs) s =
     (if gotSig s \<and> \<not> sr_win_ok r then (Some EXIT_FAILURE, s)
      else
        let s1 = s\<lparr>gotSig := gotSig s \<or> sr_winch r\<rparr> in
        case sr_sel r of
          Sel_Err e \<Rightarrow> if e = EINTR then script_loop rs s1 else (Some EXIT_FAILURE, s1)
        | Sel_Set r1 r2 \<Rightarrow>
            case script_from_stdin r1 s1 of
              None \<Rightarrow> (Some EXIT_SUCCESS, s1)
            | Some s2 \<Rightarrow>
                case script_from_master (sr_time r) r2 s2 of
                  (Some x, s3) \<Rightarrow> (Some x, s3)
                | (None, s3) \<Rightarrow> script_loop rs s3)"

text \<open>The name of the second file: a name of 255 characters or more leaves the buffer without a
  terminator.\<close>

definition timed_name :: "string list \<Rightarrow> string run" where
  "timed_name argv =
     (if length argv \<le> 1 then Done ''typescript.timed''
      else if 255 \<le> length (argv ! 1) then Faulted Uninitialised
      else Done (argv ! 1 @ take (256 - length (argv ! 1) - 1) ''.timed''))"

text \<open>The answers of the calls before the loop, in order.\<close>

record script_env =
  se_tcgetattr :: bool
  se_winsize :: bool
  se_pty_fork :: bool
  se_open :: bool
  se_open_timed :: bool
  se_sigaction :: bool
  se_atexit :: bool

definition script_main :: "script_env \<Rightarrow> string list \<Rightarrow> script_round list \<Rightarrow> (int option \<times> script option) run" where
  "script_main e argv rs =
     (if \<not> se_tcgetattr e then Done (Some EXIT_FAILURE, None)
      else if \<not> se_winsize e then Done (Some EXIT_FAILURE, None)
      else if \<not> se_pty_fork e then Done (Some EXIT_FAILURE, None)
      else if \<not> se_open e then Done (Some EXIT_FAILURE, None)
      else run_bind (timed_name argv) (\<lambda>name.
        if \<not> se_open_timed e then Done (Some EXIT_FAILURE, None)
        else if \<not> se_sigaction e then Done (Some EXIT_FAILURE, None)
        else if \<not> se_atexit e then Done (Some EXIT_FAILURE, None)
        else
          let s0 = \<lparr>gotSig = False, s_master = ([], []), s_stdout = ([], []),
                    s_script = chan_write (''Script start-->'' @ [newline]) ([], []), s_timed = ([], [])\<rparr>
          in case script_loop rs s0 of (x, s) \<Rightarrow> Done (x, Some s)))"

text \<open>Rounds in which the session goes on; interrupted calls of \<^verbatim>\<open>select\<close> are among them.\<close>

definition script_open :: "script_round \<Rightarrow> bool" where
  "script_open r \<longleftrightarrow> sr_win_ok r \<and> sr_time r \<noteq> None \<and> (sr_sel r = Sel_Err EINTR \<or> open_round 256 (sr_sel r))"

definition timed_entry :: "script_round \<Rightarrow> string" where
  "timed_entry r =
     (if second_data (sr_sel r) = [] then []
      else butlast (the (sr_time r)) @ second_data (sr_sel r) @ [newline])"

lemma script_loop_open:
  assumes "\<forall>r \<in> set rs. script_open r"
    and "s = \<lparr>gotSig = g, s_master = (m, []), s_stdout = (out, []), s_script = (f, []), s_timed = (tf, [])\<rparr>"
  shows "\<exists>g'. script_loop (rs @ rest) s =
    script_loop rest \<lparr>gotSig = g', s_master = (m @ concat (map (\<lambda>r. first_data (sr_sel r)) rs), []),
      s_stdout = (out @ concat (map (\<lambda>r. second_data (sr_sel r)) rs), []),
      s_script = (f @ concat (map (\<lambda>r. second_data (sr_sel r)) rs), []),
      s_timed = (tf @ concat (map timed_entry rs), [])\<rparr>"
  using assms
proof (induction rs arbitrary: s g m out f tf)
  case Nil
  then show ?case by auto
next
  case (Cons r rs)
  then have r: "sr_win_ok r" "\<forall>r \<in> set rs. script_open r" by (auto simp: script_open_def)
  obtain tm where tm: "sr_time r = Some tm" using Cons.prems(1) by (auto simp: script_open_def)
  show ?case
  proof (cases "sr_sel r")
    case (Sel_Err e)
    then have "e = EINTR" using Cons.prems(1) by (auto simp: script_open_def)
    then have "script_loop ((r # rs) @ rest) s = script_loop (rs @ rest) (s\<lparr>gotSig := g \<or> sr_winch r\<rparr>)"
      using Sel_Err r(1) Cons.prems(2) by simp
    then show ?thesis
      using Cons.IH [OF r(2), of "s\<lparr>gotSig := g \<or> sr_winch r\<rparr>" "g \<or> sr_winch r" m out f tf] Cons.prems(2) Sel_Err
      by (simp add: timed_entry_def)
  next
    case (Sel_Set r1 r2)
    then have op: "open_read 256 r1" "open_read 256 r2" using Cons.prems(1) by (auto simp: script_open_def)
    define s' where "s' = \<lparr>gotSig = g \<or> sr_winch r, s_master = (m @ data_of r1, []), s_stdout = (out @ data_of r2, []),
      s_script = (f @ data_of r2, []), s_timed = (tf @ timed_entry r, [])\<rparr>"
    have 1: "script_from_stdin r1 (s\<lparr>gotSig := g \<or> sr_winch r\<rparr>) =
        Some (s\<lparr>gotSig := g \<or> sr_winch r, s_master := (m @ data_of r1, [])\<rparr>)"
      using Cons.prems(2) by (simp add: script_from_stdin_def forward_open [OF op(1)])
    have 2: "script_from_master (Some tm) r2 (s\<lparr>gotSig := g \<or> sr_winch r, s_master := (m @ data_of r1, [])\<rparr>) = (None, s')"
      using op(2) Cons.prems(2) tm Sel_Set
      by (auto simp: script_from_master_def s'_def open_read_def data_of_def timed_entry_def chan_write_full Let_def
          split: option.splits rd_ans.splits)
    have "script_loop ((r # rs) @ rest) s = script_loop (rs @ rest) s'"
      using 1 2 Sel_Set r(1) tm Cons.prems(2) by simp
    then show ?thesis using Cons.IH [OF r(2) s'_def] Sel_Set by simp
  qed
qed

text \<open>C26: A session of \<^verbatim>\<open>script\<close> that ends when the shell does exits with success: the shell has received the input, the
  terminal shows the output of the shell, \<^verbatim>\<open>typescript\<close> holds exactly that output between its two marks,
  and the timed file holds the output piece by piece with the times, whatever window signals and
  interruptions occur. The program is started without a file argument and all writes are complete.\<close>

theorem script_records_session:
  assumes "\<forall>r \<in> set rs. script_open r" "sr_win_ok r" "sr_sel r = Sel_Set None (Some (RdBytes []))"
    and "se_tcgetattr e" "se_winsize e" "se_pty_fork e" "se_open e" "se_open_timed e" "se_sigaction e" "se_atexit e"
  shows "\<exists>s. script_main e [prog] (rs @ [r]) = Done (Some EXIT_SUCCESS, Some s) \<and>
    fst (s_master s) = concat (map (\<lambda>r. first_data (sr_sel r)) rs) \<and>
    fst (s_stdout s) = concat (map (\<lambda>r. second_data (sr_sel r)) rs) \<and>
    fst (s_script s) = ''Script start-->'' @ [newline] @ fst (s_stdout s) @ ''<--Script end'' @ [newline] \<and>
    fst (s_timed s) = concat (map timed_entry rs)"
proof -
  define s0 where "s0 = \<lparr>gotSig = False, s_master = ([], []), s_stdout = ([], []),
    s_script = (''Script start-->'' @ [newline], []), s_timed = ([], [])\<rparr>"
  obtain g where g: "script_loop (rs @ [r]) s0 = script_loop [r] \<lparr>gotSig = g,
      s_master = ([] @ concat (map (\<lambda>r. first_data (sr_sel r)) rs), []),
      s_stdout = ([] @ concat (map (\<lambda>r. second_data (sr_sel r)) rs), []),
      s_script = ((''Script start-->'' @ [newline]) @ concat (map (\<lambda>r. second_data (sr_sel r)) rs), []),
      s_timed = ([] @ concat (map timed_entry rs), [])\<rparr>"
    using script_loop_open [OF assms(1) s0_def] by blast
  have "\<exists>s. script_loop (rs @ [r]) s0 = (Some EXIT_SUCCESS, s) \<and>
    fst (s_master s) = concat (map (\<lambda>r. first_data (sr_sel r)) rs) \<and>
    fst (s_stdout s) = concat (map (\<lambda>r. second_data (sr_sel r)) rs) \<and>
    fst (s_script s) = ''Script start-->'' @ [newline] @ fst (s_stdout s) @ ''<--Script end'' @ [newline] \<and>
    fst (s_timed s) = concat (map timed_entry rs)"
    unfolding g using assms(2,3)
    by (simp add: script_from_stdin_def forward_def script_from_master_def chan_write_full)
  then show ?thesis
    using assms(4-10) by (auto simp: script_main_def timed_name_def s0_def chan_write_full)
qed

definition script_ok :: script_env where
  "script_ok = \<lparr>se_tcgetattr = True, se_winsize = True, se_pty_fork = True, se_open = True, se_open_timed = True,
     se_sigaction = True, se_atexit = True\<rparr>"

definition script_end :: script_round where
  "script_end = \<lparr>sr_win_ok = True, sr_winch = False, sr_sel = Sel_Set None (Some (RdBytes [])), sr_time = Some []\<rparr>"

theorem script_records_session_witness:
  "\<exists>s. script_main script_ok [''script'']
     ([\<lparr>sr_win_ok = True, sr_winch = True, sr_sel = Sel_Set None (Some (RdBytes ''hi'')), sr_time = Some (''Mon'' @ [newline])\<rparr>]
      @ [script_end]) = Done (Some EXIT_SUCCESS, Some s) \<and>
     fst (s_script s) = ''Script start-->'' @ [newline] @ ''hi'' @ ''<--Script end'' @ [newline]"
  using script_records_session [of "[\<lparr>sr_win_ok = True, sr_winch = True, sr_sel = Sel_Set None (Some (RdBytes ''hi'')),
      sr_time = Some (''Mon'' @ [newline])\<rparr>]" script_end script_ok "''script''"]
  by (auto simp: script_ok_def script_end_def script_open_def open_read_def data_of_def)

end
