(* ===== verification/Pty.thy ===== *)
theory Pty
  imports Fd_Table
begin

text \<open>
  Pseudo-terminals of Section 64: \<^verbatim>\<open>ptyMasterOpen\<close> and \<^verbatim>\<open>ptyFork\<close> on the descriptor tables of
  \<open>Fd_Table\<close>. The theorem states which descriptors parent and child have after success, and that
  no failure leaves a descriptor open in the caller.
\<close>

text \<open>The answers of the calls; the open files behind master and slave are given by numbers.\<close>

record pty_env =
  py_openpt :: "nat option"
  py_grantpt :: bool
  py_unlockpt :: bool
  py_ptsname :: "string option"
  py_fork :: "nat option"        \<comment> \<open>the process id of the child\<close>
  py_setsid :: bool
  py_open :: "nat option"
  py_ctty :: bool
  py_tcsetattr :: bool
  py_winsize :: bool

text \<open>A new descriptor is the lowest free one.\<close>

definition new_fd :: "nat \<Rightarrow> nat option \<Rightarrow> fds \<Rightarrow> (nat \<times> fds) option" where
  "new_fd lim fl t =
     (case fl of
        None \<Rightarrow> None
      | Some x \<Rightarrow> (case lowest_free lim t 0 of None \<Rightarrow> None | Some n \<Rightarrow> Some (n, t(n \<mapsto> x))))"

definition closed :: "fds \<Rightarrow> nat \<Rightarrow> fds" where
  "closed t fd = snd (sys_close t (int fd))"

definition ptyMasterOpen :: "nat \<Rightarrow> pty_env \<Rightarrow> nat \<Rightarrow> fds \<Rightarrow> (nat \<times> string) option \<times> fds" where
  "ptyMasterOpen lim e snLen t =
     (case new_fd lim (py_openpt e) t of
        None \<Rightarrow> (None, t)
      | Some (masterFd, t1) \<Rightarrow>
          if \<not> py_grantpt e then (None, closed t1 masterFd)
          else if \<not> py_unlockpt e then (None, closed t1 masterFd)
          else case py_ptsname e of
            None \<Rightarrow> (None, closed t1 masterFd)
          | Some p \<Rightarrow>
              if length p < snLen then (Some (masterFd, p), t1)
              else (None, closed t1 masterFd))"

text \<open>The child, from \<^verbatim>\<open>setsid\<close> on: its descriptors when the function returns 0.\<close>

definition pty_child :: "nat \<Rightarrow> pty_env \<Rightarrow> bool \<Rightarrow> bool \<Rightarrow> nat \<Rightarrow> fds \<Rightarrow> fds run" where
  "pty_child lim e want_termios want_ws mfd t =
     (if \<not> py_setsid e then Exited EXIT_FAILURE
      else case new_fd lim (py_open e) (closed t mfd) of
        None \<Rightarrow> Exited EXIT_FAILURE
      | Some (slaveFd, t1) \<Rightarrow>
          if \<not> py_ctty e then Exited EXIT_FAILURE
          else if want_termios \<and> \<not> py_tcsetattr e then Exited EXIT_FAILURE
          else if want_ws \<and> \<not> py_winsize e then Exited EXIT_FAILURE
          else
            let (a, t2) = sys_dup2 lim t1 (int slaveFd) 0 in
            if a \<noteq> Inr 0 then Exited EXIT_FAILURE
            else
              let (b, t3) = sys_dup2 lim t2 (int slaveFd) 1 in
              if b \<noteq> Inr 1 then Exited EXIT_FAILURE
              else
                let (c, t4) = sys_dup2 lim t3 (int slaveFd) 2 in
                if c \<noteq> Inr 2 then Exited EXIT_FAILURE
                else Done (if 2 < slaveFd then closed t4 slaveFd else t4))"

text \<open>The results: what the caller gets (\<open>None\<close> for -1, otherwise the process id, the master and the name of the
  slave) with its descriptors, and the child, if there is one. \<open>snLen\<close> is \<open>None\<close> for a null pointer
  \<^verbatim>\<open>slaveName\<close>.\<close>

definition ptyFork :: "nat \<Rightarrow> pty_env \<Rightarrow> nat option \<Rightarrow> bool \<Rightarrow> bool \<Rightarrow> fds
    \<Rightarrow> ((nat \<times> nat \<times> string) option \<times> fds) \<times> fds run option" where
  "ptyFork lim e snLen want_termios want_ws t =
     (case ptyMasterOpen lim e 1000 t of
        (None, t1) \<Rightarrow> ((None, t1), None)
      | (Some (mfd, slname), t1) \<Rightarrow>
          if \<exists>n. snLen = Some n \<and> n \<le> length slname then ((None, closed t1 mfd), None)
          else case py_fork e of
            None \<Rightarrow> ((None, closed t1 mfd), None)
          | Some pid \<Rightarrow>
              ((Some (pid, mfd, slname), t1), Some (pty_child lim e want_termios want_ws mfd t1)))"

lemma new_fd_closed:
  assumes "new_fd lim fl t = Some (n, t1)"
  shows "t n = None \<and> n < lim \<and> closed t1 n = t \<and> (\<exists>x. fl = Some x \<and> t1 = t(n \<mapsto> x))"
proof -
  obtain x where x: "fl = Some x" "lowest_free lim t 0 = Some n" "t1 = t(n \<mapsto> x)"
    using assms by (auto simp: new_fd_def split: option.splits)
  moreover have "t n = None" "n < lim" using lowest_free_SomeD [OF x(2)] by simp_all
  ultimately show ?thesis by (auto simp: closed_def sys_close_def is_open_def fun_upd_idem)
qed

text \<open>The standard descriptors open, the slave takes the number the master had, and is closed under it again.\<close>

lemma pty_child_result:
  assumes "t 0 \<noteq> None" "t 1 \<noteq> None" "t 2 \<noteq> None" "closed t1 mfd = t" "lowest_free lim t 0 = Some n"
  shows "pty_child lim e wt ww mfd t1 =
    (case py_open e of
       None \<Rightarrow> Exited EXIT_FAILURE
     | Some sl \<Rightarrow>
         if py_setsid e \<and> py_ctty e \<and> (wt \<longrightarrow> py_tcsetattr e) \<and> (ww \<longrightarrow> py_winsize e)
         then Done (t(0 \<mapsto> sl, 1 \<mapsto> sl, 2 \<mapsto> sl)) else Exited EXIT_FAILURE)"
proof (cases "py_open e")
  case None
  then show ?thesis by (simp add: pty_child_def new_fd_def)
next
  case (Some sl)
  have n: "t n = None" "n < lim" using lowest_free_SomeD [OF assms(5)] by simp_all
  have "n \<noteq> 0" "n \<noteq> 1" "n \<noteq> 2" using n(1) assms(1-3) by metis+
  then have n2: "2 < n" by simp
  have new: "new_fd lim (py_open e) (closed t1 mfd) = Some (n, t(n \<mapsto> sl))"
    using Some assms(4,5) by (simp add: new_fd_def)
  have "closed (t(n \<mapsto> sl, 0 \<mapsto> sl, 1 \<mapsto> sl, 2 \<mapsto> sl)) n = t(0 \<mapsto> sl, 1 \<mapsto> sl, 2 \<mapsto> sl)"
    using n(1) n2 by (auto simp: closed_def sys_close_def is_open_def fun_eq_iff)
  then show ?thesis
    unfolding pty_child_def new using Some n n2 by (simp add: sys_dup2_def is_open_def)
qed

text \<open>C40: With the three standard descriptors open, \<^verbatim>\<open>ptyFork\<close> is determined by the answers of the system. When a
  descriptor is free, the master can be opened, granted and unlocked, the name of the slave fits
  both buffers and \<^verbatim>\<open>fork\<close> succeeds, the caller gets the process, the lowest free descriptor and the name, and has the master there in
  addition to the descriptors it had; the child returns with the slave as its standard input, output and error stream, the other
  descriptors of its parent, and not the master, or, when one of its calls fails, exits with failure.
  In all other cases \<^verbatim>\<open>ptyFork\<close> fails, there is no child and the caller has just the descriptors it had before.\<close>

theorem ptyFork_descriptors:
  assumes "t 0 \<noteq> None" "t 1 \<noteq> None" "t 2 \<noteq> None"
  shows "ptyFork lim e snLen wt ww t =
    (case (lowest_free lim t 0, py_openpt e, py_ptsname e, py_fork e) of
       (Some mfd, Some m, Some p, Some pid) \<Rightarrow>
         if py_grantpt e \<and> py_unlockpt e \<and> length p < 1000 \<and> (snLen = None \<or> length p < the snLen) then
           ((Some (pid, mfd, p), t(mfd \<mapsto> m)),
            Some (case py_open e of
                    None \<Rightarrow> Exited EXIT_FAILURE
                  | Some sl \<Rightarrow>
                      if py_setsid e \<and> py_ctty e \<and> (wt \<longrightarrow> py_tcsetattr e) \<and> (ww \<longrightarrow> py_winsize e)
                      then Done (t(0 \<mapsto> sl, 1 \<mapsto> sl, 2 \<mapsto> sl)) else Exited EXIT_FAILURE))
         else ((None, t), None)
     | _ \<Rightarrow> ((None, t), None))"
proof (cases "new_fd lim (py_openpt e) t")
  case None
  then show ?thesis
    by (auto simp: ptyFork_def ptyMasterOpen_def new_fd_def split: option.splits)
next
  case (Some x)
  obtain mfd t1 where x: "x = (mfd, t1)" by fastforce
  obtain m where m: "py_openpt e = Some m" "lowest_free lim t 0 = Some mfd" "t1 = t(mfd \<mapsto> m)"
    using Some x by (auto simp: new_fd_def split: option.splits)
  have c: "closed t1 mfd = t" using new_fd_closed [OF Some [unfolded x]] by blast
  show ?thesis
  proof (cases "py_ptsname e")
    case None
    then show ?thesis using Some x m c by (simp add: ptyFork_def ptyMasterOpen_def)
  next
    case (Some p)
    have "(\<exists>n. snLen = Some n \<and> n \<le> length p) \<longleftrightarrow> \<not> (snLen = None \<or> length p < the snLen)" by (cases snLen) auto
    then show ?thesis
      using \<open>new_fd lim (py_openpt e) t = Some x\<close> x m c Some pty_child_result [OF assms c m(2), of e wt ww]
      by (cases "py_fork e") (simp_all add: ptyFork_def ptyMasterOpen_def)
  qed
qed

definition pty_ok :: pty_env where
  "pty_ok = \<lparr>py_openpt = Some 50, py_grantpt = True, py_unlockpt = True, py_ptsname = Some ''/dev/pts/1'', py_fork = Some 7,
     py_setsid = True, py_open = Some 51, py_ctty = True, py_tcsetattr = True, py_winsize = True\<rparr>"

theorem ptyFork_descriptors_witness:
  "ptyFork 16 pty_ok (Some 100) True True [0 \<mapsto> 9, 1 \<mapsto> 9, 2 \<mapsto> 9] =
     ((Some (7, 3, ''/dev/pts/1''), [0 \<mapsto> 9, 1 \<mapsto> 9, 2 \<mapsto> 9, 3 \<mapsto> 50]), Some (Done [0 \<mapsto> 51, 1 \<mapsto> 51, 2 \<mapsto> 51]))"
proof -
  have l: "lowest_free 16 [0 \<mapsto> 9, 1 \<mapsto> 9, 2 \<mapsto> 9] 0 = Some 3"
    by (simp add: lowest_free_def upt_conv_Cons)
  show ?thesis
    using ptyFork_descriptors [of "[0 \<mapsto> 9, 1 \<mapsto> 9, 2 \<mapsto> 9]" 16 pty_ok "Some 100" True True] unfolding l
    by (simp add: pty_ok_def fun_upd_twist fun_upd_upd)
qed

end
