(* ===== verification/Inotify.thy ===== *)
theory Inotify
  imports C_Lib "HOL-Library.Sublist"
begin

text \<open>
  \<^verbatim>\<open>inotify_dirs.c\<close> of Section 19: a list of watched directories with their watch descriptors, extended and
  shortened as events arrive. The watches the kernel holds are kept beside the list; the kernel drops
  watches on its own when a directory is deleted or unmounted, at any time, and then
  \<^verbatim>\<open>inotify_rm_watch\<close> fails for them. The theorems state that every watch of the kernel is in
  the list and which entries of the list are stale, that all paths lie below the root, which
  directories the initial walk reaches, and how the deletion of a directory ends the program.
\<close>

subsection \<open>The list and the kernel\<close>

type_synonym watch = "string \<times> int"         \<comment> \<open>\<^verbatim>\<open>pathname_wd\<close>: path and watch descriptor\<close>

record ino =
  i_list :: "watch list"                      \<comment> \<open>\<^verbatim>\<open>pathname_wd_list.next\<close>\<close>
  i_kernel :: "int \<rightharpoonup> string"                 \<comment> \<open>the watches of the kernel, with the path they were added for\<close>
  i_gone :: "int set"                         \<comment> \<open>descriptors of watches that no longer exist\<close>

abbreviation (input) PATH_MAX :: nat where "PATH_MAX \<equiv> 4096"

text \<open>A new entry at the front of the list. The path is copied into an array of \<^verbatim>\<open>PATH_MAX\<close> characters
  without a check of its length.\<close>

definition copy_path :: "string \<Rightarrow> string run" where
  "copy_path p = (if length p < PATH_MAX then Done p else Faulted OutOfBounds)"

definition link_watch :: "string \<Rightarrow> int \<Rightarrow> ino \<Rightarrow> ino" where
  "link_watch path wd s = s\<lparr>i_list := (path, wd) # i_list s, i_kernel := (i_kernel s)(wd \<mapsto> path)\<rparr>"

text \<open>The answers of the system for one directory: the watch descriptor of \<^verbatim>\<open>inotify_add_watch\<close> (\<open>None\<close> on
  failure), whether \<^verbatim>\<open>malloc\<close> succeeds, and the watches that the kernel has dropped on its own since
  the event before.\<close>

record answers =
  a_wd :: "int option"
  a_malloc :: bool
  a_drops :: "int list"

text \<open>The kernel removes a watch, on its own or on request. \<^verbatim>\<open>inotify_rm_watch\<close> fails, with
  \<^verbatim>\<open>EINVAL\<close>, on a descriptor without a watch.\<close>

definition kernel_drop :: "int \<Rightarrow> ino \<Rightarrow> ino" where
  "kernel_drop wd s = s\<lparr>i_kernel := (i_kernel s)(wd := None), i_gone := insert wd (i_gone s)\<rparr>"

definition inotify_rm_watch :: "int \<Rightarrow> ino \<Rightarrow> ino option" where
  "inotify_rm_watch wd s = (if i_kernel s wd = None then None else Some (kernel_drop wd s))"

text \<open>The function called for each file: it returns the watch descriptor.\<close>

definition nftw_func :: "string \<Rightarrow> bool \<Rightarrow> answers \<Rightarrow> ino \<Rightarrow> (int \<times> ino) run" where
  "nftw_func pathname is_dir ans s =
     (if \<not> is_dir then Done (0, s)
      else case a_wd ans of
        None \<Rightarrow> Exited EXIT_FAILURE
      | Some retval \<Rightarrow>
          if \<not> a_malloc ans then Exited EXIT_FAILURE
          else run_bind (copy_path pathname) (\<lambda>path. Done (retval, link_watch path retval s)))"

text \<open>\<^verbatim>\<open>nftw\<close> of the C library calls the function for the files in order and stops at the first value other
  than 0, which it returns.\<close>

fun nftw_walk :: "(string \<times> bool \<times> answers) list \<Rightarrow> ino \<Rightarrow> (int \<times> ino) run" where
  "nftw_walk [] s = Done (0, s)"
| "nftw_walk ((p, d, a) # fs) s =
     run_bind (nftw_func p d a s) (\<lambda>(r, s'). if r \<noteq> 0 then Done (r, s') else nftw_walk fs s')"

subsection \<open>Events\<close>

record event =
  ev_wd :: int
  ev_cookie :: "32 word"
  ev_mask :: "32 word"
  ev_len :: nat                               \<comment> \<open>bytes of the name with its terminators\<close>
  ev_name :: string

definition mask_names :: "(32 word \<times> string) list" where
  "mask_names =
     [(0x1, ''IN_ACCESS ''), (0x4, ''IN_ATTRIB ''), (0x10, ''IN_CLOSE_NOWRITE ''), (0x8, ''IN_CLOSE_WRITE ''),
      (0x100, ''IN_CREATE ''), (0x200, ''IN_DELETE ''), (0x400, ''IN_DELETE_SELF ''), (0x8000, ''IN_IGNORED ''),
      (0x40000000, ''IN_ISDIR ''), (0x2, ''IN_MODIFY ''), (0x800, ''IN_MOVE_SELF ''), (0x40, ''IN_MOVED_FROM ''),
      (0x80, ''IN_MOVED_TO ''), (0x20, ''IN_OPEN ''), (0x4000, ''IN_Q_OVERFLOW ''), (0x2000, ''IN_UNMOUNT '')]"

definition mask_has :: "32 word \<Rightarrow> 32 word \<Rightarrow> bool" where
  "mask_has w m \<longleftrightarrow> w AND m \<noteq> 0"

text \<open>\<^verbatim>\<open>printf\<close> with a minimal width.\<close>

definition pad_left :: "nat \<Rightarrow> string \<Rightarrow> string" where
  "pad_left n s = replicate (n - length s) CHR '' '' @ s"

definition event_text :: "event \<Rightarrow> string" where
  "event_text ev =
     ''wd = '' @ pad_left 2 (dec_int (ev_wd ev)) @ '';'' @
     (if 0 < ev_cookie ev then ''cookie = '' @ pad_left 4 (dec_int (sint (ev_cookie ev))) @ '';'' else []) @
     ''mask = '' @ concat (map (\<lambda>(m, n). if mask_has (ev_mask ev) m then n else []) mask_names) @ [newline] @
     (if ev_len ev \<noteq> 0 then ''name = '' @ ev_name ev @ [newline] else [])"

text \<open>The search for the entry of a watch descriptor: what is in front of it, the entry, and the rest.\<close>

fun find_wd :: "int \<Rightarrow> watch list \<Rightarrow> (watch list \<times> watch \<times> watch list) option" where
  "find_wd wd [] = None"
| "find_wd wd (w # ws) =
     (if snd w = wd then Some ([], w, ws)
      else map_option (\<lambda>(pre, x, post). (w # pre, x, post)) (find_wd wd ws))"

text \<open>A directory was created: the new path is built, watched and linked.\<close>

definition dir_created :: "event \<Rightarrow> answers \<Rightarrow> ino \<Rightarrow> ino run" where
  "dir_created ev ans s =
     (case find_wd (ev_wd ev) (i_list s) of
        None \<Rightarrow> Exited EXIT_FAILURE
      | Some (_, p, _) \<Rightarrow>
          if \<not> a_malloc ans then Faulted NullDeref
          else run_bind (copy_path (fst p @ ''/'' @ ev_name ev)) (\<lambda>path.
            case a_wd ans of
              None \<Rightarrow> Exited EXIT_FAILURE
            | Some wd \<Rightarrow> Done (link_watch path wd s)))"

text \<open>A watched directory was deleted. The first entry of the list has no predecessor, and the null
  pointer \<^verbatim>\<open>tmp_p\<close> is then dereferenced. The entry is unlinked before the watch is removed.\<close>

definition dir_deleted :: "event \<Rightarrow> ino \<Rightarrow> ino run" where
  "dir_deleted ev s =
     (case find_wd (ev_wd ev) (i_list s) of
        None \<Rightarrow> Exited EXIT_FAILURE
      | Some (pre, p, post) \<Rightarrow>
          if pre = [] then Faulted NullDeref
          else case inotify_rm_watch (ev_wd ev) (s\<lparr>i_list := pre @ post\<rparr>) of
              None \<Rightarrow> Exited EXIT_FAILURE
            | Some s' \<Rightarrow> Done s')"

definition modify_event :: "event \<Rightarrow> answers \<Rightarrow> ino \<Rightarrow> ino run" where
  "modify_event ev ans s =
     (if \<not> mask_has (ev_mask ev) 0x40000000 then Done s
      else if mask_has (ev_mask ev) 0x100 then dir_created ev ans s
      else if mask_has (ev_mask ev) 0x400 then dir_deleted ev s
      else Done s)"

definition display_modify_inotify_event :: "event \<Rightarrow> answers \<Rightarrow> ino \<Rightarrow> (string \<times> ino) run" where
  "display_modify_inotify_event ev ans s =
     run_bind (modify_event ev ans s) (\<lambda>s'. Done (event_text ev, s'))"

text \<open>The events of one buffer; an event takes 16 bytes and its name. Between two events the kernel
  may drop watches.\<close>

type_synonym happening = "event \<times> answers"

fun buffer_loop :: "happening list \<Rightarrow> ino \<Rightarrow> (string \<times> ino) run" where
  "buffer_loop [] s = Done ([], s)"
| "buffer_loop ((ev, ans) # es) s =
     run_bind (display_modify_inotify_event ev ans (fold kernel_drop (a_drops ans) s)) (\<lambda>(out, s').
       run_bind (buffer_loop es s') (\<lambda>(outs, s''). Done (out @ outs, s'')))"

definition read_num :: "happening list \<Rightarrow> nat" where
  "read_num es = sum_list (map (\<lambda>(ev, ans). 16 + ev_len ev) es)"

definition got_line :: "happening list \<Rightarrow> string" where
  "got_line es = ''we get '' @ dec_nat (read_num es) @ '' byte from inotify fd'' @ [newline]"

text \<open>The reads that have returned so far, \<open>None\<close> for a failing one.\<close>

fun event_loop :: "happening list option list \<Rightarrow> ino \<Rightarrow> (string \<times> ino) run" where
  "event_loop [] s = Done ([], s)"
| "event_loop (None # rs) s = Exited EXIT_FAILURE"
| "event_loop (Some es # rs) s =
     (if read_num es = 0 then Exited EXIT_FAILURE
      else run_bind (buffer_loop es s) (\<lambda>(out, s').
        run_bind (event_loop rs s') (\<lambda>(outs, s''). Done (got_line es @ out @ outs, s''))))"

text \<open>The program up to the reads that have returned; the files are those \<^verbatim>\<open>nftw\<close> finds below the argument,
  \<open>None\<close> when it fails.\<close>

definition inotify_main :: "string list \<Rightarrow> (string \<times> bool \<times> answers) list option
    \<Rightarrow> happening list option list \<Rightarrow> (string \<times> ino) run" where
  "inotify_main argv fs rs =
     (if length argv \<noteq> 2 then Exited EXIT_FAILURE
      else case fs of
        None \<Rightarrow> Exited EXIT_FAILURE
      | Some files \<Rightarrow>
          run_bind (nftw_walk files \<lparr>i_list = [], i_kernel = Map.empty, i_gone = {}\<rparr>) (\<lambda>(r, s).
            if r = - 1 then Exited EXIT_FAILURE else event_loop rs s))"

subsection \<open>List and kernel\<close>

text \<open>Every watch of the kernel is in the list with its path, entries for the same descriptor have
  the same path, and an entry without a watch is one whose watch has been removed.\<close>

definition covers :: "ino \<Rightarrow> bool" where
  "covers s \<longleftrightarrow> (\<forall>p wd. i_kernel s wd = Some p \<longrightarrow> (p, wd) \<in> set (i_list s))
     \<and> (\<forall>p q wd. (p, wd) \<in> set (i_list s) \<longrightarrow> (q, wd) \<in> set (i_list s) \<longrightarrow> p = q)
     \<and> (\<forall>p wd. (p, wd) \<in> set (i_list s) \<longrightarrow> i_kernel s wd = Some p \<or> wd \<in> i_gone s)
     \<and> (\<forall>wd \<in> i_gone s. i_kernel s wd = None)"

text \<open>All paths lie below the root and fit their arrays.\<close>

definition below :: "string \<Rightarrow> ino \<Rightarrow> bool" where
  "below root s \<longleftrightarrow> (\<forall>(p, wd) \<in> set (i_list s). prefix root p \<and> length p < PATH_MAX)"

lemma find_wd_split: "find_wd wd ws = Some (pre, w, post) \<Longrightarrow> ws = pre @ w # post \<and> snd w = wd"
  by (induction ws arbitrary: pre) (auto split: if_splits)

text \<open>The kernel answers \<^verbatim>\<open>inotify_add_watch\<close> with the watch it has for the path or with a
  descriptor that was never used.\<close>

definition wd_ok :: "ino \<Rightarrow> string \<Rightarrow> int \<Rightarrow> bool" where
  "wd_ok s path wd \<longleftrightarrow> i_kernel s wd = Some path \<or> i_kernel s wd = None \<and> wd \<notin> i_gone s"

lemma link_watch_covers:
  assumes "covers s" "wd_ok s p wd"
  shows "covers (link_watch p wd s)"
proof -
  have old: "q = p" if "(q, wd) \<in> set (i_list s)" for q
    using assms that unfolding covers_def wd_ok_def by (metis option.inject option.distinct(1))
  have gone: "wd \<notin> i_gone s" using assms by (force simp: covers_def wd_ok_def)
  show ?thesis using assms(1) old gone unfolding covers_def link_watch_def by auto
qed

lemma kernel_drop_covers: "covers s \<Longrightarrow> covers (kernel_drop wd s)"
  unfolding covers_def kernel_drop_def by auto

lemma drops_covers: "covers s \<Longrightarrow> covers (fold kernel_drop wds s)"
  by (induction wds arbitrary: s) (auto intro: kernel_drop_covers)

lemma drops_list [simp]: "i_list (fold kernel_drop wds s) = i_list s"
  by (induction wds arbitrary: s) (auto simp: kernel_drop_def)

lemma remove_covers:
  assumes "covers s" "i_list s = pre @ (p, wd) # post"
  shows "covers (kernel_drop wd (s\<lparr>i_list := pre @ post\<rparr>))"
  using assms unfolding covers_def kernel_drop_def by (auto 0 3)

definition add_ok :: "ino \<Rightarrow> event \<Rightarrow> answers \<Rightarrow> bool" where
  "add_ok s ev a = (case find_wd (ev_wd ev) (i_list s) of
     None \<Rightarrow> True
   | Some (_, p, _) \<Rightarrow> (case a_wd a of None \<Rightarrow> True | Some wd \<Rightarrow> wd_ok s (fst p @ ''/'' @ ev_name ev) wd))"

lemma dir_created_inv:
  assumes "covers s" "below root s" "add_ok s ev a" "dir_created ev a s = Done s'"
  shows "covers s' \<and> below root s'"
proof -
  obtain pre p post wd where f: "find_wd (ev_wd ev) (i_list s) = Some (pre, p, post)"
      "length (fst p @ ''/'' @ ev_name ev) < PATH_MAX" "a_wd a = Some wd"
      "s' = link_watch (fst p @ ''/'' @ ev_name ev) wd s"
    using assms(4) by (auto simp: dir_created_def copy_path_def split: option.splits if_splits)
  have "prefix root (fst p @ ''/'' @ ev_name ev)"
    using find_wd_split [OF f(1)] assms(2) by (auto simp: below_def prefix_prefix)
  then have "below root s'" using assms(2) f(2,4) by (auto simp: link_watch_def below_def)
  then show ?thesis using link_watch_covers [OF assms(1)] assms(3) f(1,3,4) by (simp add: add_ok_def)
qed

lemma dir_deleted_inv:
  assumes "covers s" "below root s" "dir_deleted ev s = Done s'"
  shows "covers s' \<and> below root s'"
proof -
  obtain pre p post where f: "find_wd (ev_wd ev) (i_list s) = Some (pre, p, post)"
      "s' = kernel_drop (ev_wd ev) (s\<lparr>i_list := pre @ post\<rparr>)"
    using assms(3) by (auto simp: dir_deleted_def inotify_rm_watch_def split: option.splits if_splits)
  have l: "i_list s = pre @ (fst p, ev_wd ev) # post" using find_wd_split [OF f(1)] by (metis prod.collapse)
  show ?thesis using remove_covers [OF assms(1) l] f(2) assms(2) l by (auto simp: below_def kernel_drop_def)
qed

lemma modify_event_inv:
  assumes "covers s" "below root s" "add_ok s ev a" "modify_event ev a s = Done s'"
  shows "covers s' \<and> below root s'"
  using dir_created_inv [OF assms(1-3)] dir_deleted_inv [OF assms(1,2)] assms
  by (auto simp: modify_event_def split: if_splits)

text \<open>The program does not survive the event of a deleted directory whose watch the kernel has
  dropped already.\<close>

definition dir_gone :: "event \<Rightarrow> bool" where
  "dir_gone ev \<longleftrightarrow> mask_has (ev_mask ev) 0x40000000 \<and> mask_has (ev_mask ev) 0x400 \<and> \<not> mask_has (ev_mask ev) 0x100"

lemma dir_gone_ends:
  "dir_gone ev \<Longrightarrow> i_kernel s (ev_wd ev) = None \<Longrightarrow>
     display_modify_inotify_event ev a s \<in> {Exited EXIT_FAILURE, Faulted NullDeref}"
  by (auto simp: display_modify_inotify_event_def dir_gone_def modify_event_def dir_deleted_def
      inotify_rm_watch_def split: option.splits)

text \<open>The answers along a run of the loop.\<close>

fun ok_answers :: "happening list \<Rightarrow> ino \<Rightarrow> bool" where
  "ok_answers [] s = True"
| "ok_answers ((ev, a) # es) s =
     (add_ok (fold kernel_drop (a_drops a) s) ev a \<and>
      (case modify_event ev a (fold kernel_drop (a_drops a) s) of Done s' \<Rightarrow> ok_answers es s' | _ \<Rightarrow> True))"

fun ok_reads :: "happening list option list \<Rightarrow> ino \<Rightarrow> bool" where
  "ok_reads (Some es # rs) s =
     (ok_answers es s \<and> (case buffer_loop es s of Done (_, s') \<Rightarrow> ok_reads rs s' | _ \<Rightarrow> True))"
| "ok_reads _ s = True"

definition events_text :: "happening list \<Rightarrow> string" where
  "events_text es = concat (map (\<lambda>(ev, a). event_text ev) es)"

lemma buffer_loop_inv:
  "buffer_loop es s = Done (outs, s') \<Longrightarrow> ok_answers es s \<Longrightarrow> covers s \<Longrightarrow> below root s \<Longrightarrow>
     covers s' \<and> below root s' \<and> outs = events_text es"
proof (induction es arbitrary: s outs)
  case (Cons e es)
  obtain ev a where e: "e = (ev, a)" by force
  let ?s = "fold kernel_drop (a_drops a) s"
  obtain s1 outs1 where s1: "modify_event ev a ?s = Done s1" "buffer_loop es s1 = Done (outs1, s')"
      "outs = event_text ev @ outs1"
    using Cons.prems(1) e by (auto simp: display_modify_inotify_event_def run_bind_Done_iff)
  have "covers ?s" "below root ?s" using Cons.prems(3,4) by (auto simp: drops_covers below_def)
  then have inv: "covers s1 \<and> below root s1" using modify_event_inv [OF _ _ _ s1(1)] Cons.prems(2) e by auto
  have "ok_answers es s1" using Cons.prems(2) e s1(1) by simp
  then show ?case using Cons.IH [OF s1(2)] inv s1(3) e by (simp add: events_text_def)
qed (simp add: events_text_def)

lemma event_loop_inv:
  "event_loop rs s = Done (outs, s') \<Longrightarrow> ok_reads rs s \<Longrightarrow> covers s \<Longrightarrow> below root s \<Longrightarrow>
     covers s' \<and> below root s' \<and> outs = concat (map (\<lambda>r. got_line (the r) @ events_text (the r)) rs)"
proof (induction rs arbitrary: s outs)
  case (Cons r rs)
  then obtain es where r: "r = Some es" by (cases r) auto
  obtain out1 s1 outs1 where s1: "buffer_loop es s = Done (out1, s1)" "event_loop rs s1 = Done (outs1, s')"
      "outs = got_line es @ out1 @ outs1"
    using Cons.prems(1) r by (auto simp: run_bind_Done_iff split: if_splits)
  have inv: "covers s1 \<and> below root s1 \<and> out1 = events_text es"
    using buffer_loop_inv [OF s1(1)] Cons.prems(2-4) r by simp
  have "ok_reads rs s1" using Cons.prems(2) r s1(1) by simp
  then show ?case using Cons.IH [OF s1(2)] inv s1(3) r by simp
qed simp

abbreviation (input) watching :: "string \<Rightarrow> int \<Rightarrow> ino" where
  "watching root wd \<equiv> \<lparr>i_list = [(root, wd)], i_kernel = [wd \<mapsto> root], i_gone = {}\<rparr>"

lemma nftw_walk_dir:
  assumes "a_wd a = Some wd" "a_malloc a" "length root < PATH_MAX" "wd \<noteq> 0"
  shows "nftw_walk ((root, True, a) # fs) \<lparr>i_list = [], i_kernel = Map.empty, i_gone = {}\<rparr> = Done (wd, watching root wd)"
  using assms by (simp add: nftw_func_def copy_path_def link_watch_def)

text \<open>C27: Watch descriptors being positive, the initial walk ends at the root directory, which is then the only one
  watched. From there on, whatever watches the kernel drops on its own between the events (because a
  directory is deleted or unmounted), after every sequence of reads that the program survives
  every watch of the kernel is in its list with the path it was added for, and an entry
  without a watch is one that the kernel has dropped or that was removed; such stale entries do
  remain, since no event but the deletion of the directory itself shortens the list. All paths lie below the root
  and fit their arrays, and the output lists for each read its size and the texts of its events.
  An event that reports the deletion of a watched directory ends the program with failure or a null pointer
  once the kernel has dropped the watch. The hypothesis \<open>ok_reads\<close> is that \<^verbatim>\<open>inotify_add_watch\<close> answers with the watch
  that exists for the path or with a descriptor never used before.\<close>

theorem inotify_list_covers:
  assumes "0 < wd" "a_wd a = Some wd" "a_malloc a" "length root < PATH_MAX"
    and "ok_reads rs (watching root wd)"
  shows "inotify_main [prog, root] (Some ((root, True, a) # fs)) [] = Done ([], watching root wd) \<and>
    (case inotify_main [prog, root] (Some ((root, True, a) # fs)) rs of
       Done (outs, s) \<Rightarrow>
         (\<forall>p w. i_kernel s w = Some p \<longrightarrow> (p, w) \<in> set (i_list s)) \<and>
         (\<forall>p w. (p, w) \<in> set (i_list s) \<longrightarrow> i_kernel s w = Some p \<or> w \<in> i_gone s \<and> i_kernel s w = None) \<and>
         (\<forall>(p, w) \<in> set (i_list s). prefix root p \<and> length p < PATH_MAX) \<and>
         outs = concat (map (\<lambda>r. got_line (the r) @ events_text (the r)) rs) \<and>
         (\<forall>ev b. dir_gone ev \<and> i_kernel s (ev_wd ev) = None \<longrightarrow>
            display_modify_inotify_event ev b s \<in> {Exited EXIT_FAILURE, Faulted NullDeref})
     | _ \<Rightarrow> True)"
proof -
  have main: "inotify_main [prog, root] (Some ((root, True, a) # fs)) rs = event_loop rs (watching root wd)" for rs
    using assms(1-4) nftw_walk_dir [of a wd root fs] by (simp add: inotify_main_def del: nftw_walk.simps)
  have start: "covers (watching root wd)" "below root (watching root wd)"
    using assms(4) by (auto simp: covers_def below_def)
  show ?thesis
  proof (cases "event_loop rs (watching root wd)")
    case (Done x)
    obtain outs s where x: "x = (outs, s)" by force
    have inv: "covers s" "below root s" "outs = concat (map (\<lambda>r. got_line (the r) @ events_text (the r)) rs)"
      using event_loop_inv [OF Done [unfolded x] assms(5) start] by auto
    have "i_kernel s w = Some p \<or> w \<in> i_gone s \<and> i_kernel s w = None" if "(p, w) \<in> set (i_list s)" for p w
      using inv(1) that unfolding covers_def by metis
    moreover have "\<forall>p w. i_kernel s w = Some p \<longrightarrow> (p, w) \<in> set (i_list s)" using inv(1) by (simp add: covers_def)
    ultimately show ?thesis using main Done x inv(2,3) dir_gone_ends [of _ s] by (simp add: below_def)
  qed (use main in simp_all)
qed

definition mkdir_event :: event where
  "mkdir_event = \<lparr>ev_wd = 1, ev_cookie = 0, ev_mask = 0x40000100, ev_len = 16, ev_name = ''d''\<rparr>"

definition ignored_event :: event where
  "ignored_event = \<lparr>ev_wd = 2, ev_cookie = 0, ev_mask = 0x8000, ev_len = 0, ev_name = []\<rparr>"

abbreviation (input) granted :: "int \<Rightarrow> answers" where
  "granted wd \<equiv> \<lparr>a_wd = Some wd, a_malloc = True, a_drops = []\<rparr>"

abbreviation (input) dropped :: "int \<Rightarrow> answers" where
  "dropped wd \<equiv> \<lparr>a_wd = None, a_malloc = True, a_drops = [wd]\<rparr>"

text \<open>A directory is created below the root and watched, then its watch is dropped: the entry stays.\<close>

theorem inotify_list_covers_witness:
  "\<exists>outs s. inotify_main [''p'', ''/r''] (Some [(''/r'', True, granted 1), (''/r/x'', True, granted 2)])
      [Some [(mkdir_event, granted 2)], Some [(ignored_event, dropped 2)]] = Done (outs, s) \<and>
      i_list s = [(''/r/d'', 2), (''/r'', 1)] \<and> i_kernel s 2 = None \<and> 2 \<in> i_gone s"
proof -
  have m: "mask_has (ev_mask mkdir_event) 0x40000000" "mask_has (ev_mask mkdir_event) 0x100"
      "\<not> mask_has (ev_mask ignored_event) 0x40000000"
    by (simp_all add: mkdir_event_def ignored_event_def mask_has_def)
  note ev = nftw_func_def copy_path_def link_watch_def display_modify_inotify_event_def modify_event_def
    dir_created_def read_num_def kernel_drop_def
  have f: "ok_reads [Some [(mkdir_event, granted 2)], Some [(ignored_event, dropped 2)]] (watching ''/r'' 1)"
    using m by (simp add: ev) (auto simp: add_ok_def wd_ok_def mkdir_event_def split: run.splits option.splits)
  obtain outs s where r: "inotify_main [''p'', ''/r''] (Some [(''/r'', True, granted 1), (''/r/x'', True, granted 2)])
      [Some [(mkdir_event, granted 2)], Some [(ignored_event, dropped 2)]] = Done (outs, s)"
      "i_list s = [(''/r/d'', 2), (''/r'', 1)]" "i_kernel s 2 = None"
    using m by (simp add: inotify_main_def ev) (auto simp: mkdir_event_def ev)
  show ?thesis
    using inotify_list_covers [OF _ _ _ _ f, of "granted 1" "''p''" "[(''/r/x'', True, granted 2)]"] r
    by force
qed

text \<open>The entry added last cannot be removed: it has no predecessor in the list.\<close>

lemma remove_newest_faults:
  assumes "i_list s = (p, ev_wd ev) # ws" "dir_gone ev"
  shows "display_modify_inotify_event ev a s = Faulted NullDeref"
  using assms by (simp add: display_modify_inotify_event_def modify_event_def dir_deleted_def dir_gone_def)

end
