(* ===== verification/Shm_Posix.thy ===== *)
theory Shm_Posix
  imports Shm_Xfr
begin

text \<open>
  The transfer through shared memory with other system objects: \<^verbatim>\<open>Section_53\<close> uses POSIX semaphores, which
  outlive their names, \<^verbatim>\<open>Section_54\<close> a POSIX shared memory object. A locale relates such a variant
  to the programs of Section 48: as long as its invariant holds the steps are the same, so the
  delivery of all data carries over. Both variants are interpretations.
\<close>

subsection \<open>Variants of the transfer\<close>

definition either :: "(xfr \<Rightarrow> xfr option) \<Rightarrow> (xfr \<Rightarrow> xfr option) \<Rightarrow> xfr \<Rightarrow> xfr \<Rightarrow> bool" where
  "either w r s t \<longleftrightarrow> w s = Some t \<or> r s = Some t"

text \<open>What a run promises at its state \<open>s\<close>.\<close>

definition delivered :: "string list \<Rightarrow> xfr \<Rightarrow> bool" where
  "delivered blocks s \<longleftrightarrow> xfr_final s \<and> out s = concat blocks \<and> \<not> sems s \<and>
     w_bytes s = to_int32 (int (length (concat blocks))) \<and> w_xfrs s = to_int32 (int (length blocks)) \<and>
     r_bytes s = w_bytes s \<and> r_xfrs s = w_xfrs s"

locale xfr_variant =
  fixes wloop rloop :: "xfr \<Rightarrow> xfr option"
  assumes same_writer: "xfr_inv all s \<Longrightarrow> wloop s = writer_step Ok s"
    and same_reader: "xfr_inv all s \<Longrightarrow> rloop s = reader_step Ok s"
begin

lemma step_iff: "xfr_inv all s \<Longrightarrow> either wloop rloop s t \<longleftrightarrow> xfr_step s t"
  by (auto simp: either_def same_writer same_reader intro: xfr_step.intros elim: xfr_stepE)

lemma steps_refine: "(either wloop rloop)\<^sup>*\<^sup>* s t \<Longrightarrow> xfr_inv all s \<Longrightarrow> xfr_step\<^sup>*\<^sup>* s t"
proof (induction rule: rtranclp_induct)
  case (step t u)
  then have "xfr_inv all t" by (blast intro: xfr.inv_steps)
  with step show ?case by (meson step_iff rtranclp.rtrancl_into_rtrancl)
qed simp

lemma steps_complete: "xfr_step\<^sup>*\<^sup>* s t \<Longrightarrow> xfr_inv all s \<Longrightarrow> (either wloop rloop)\<^sup>*\<^sup>* s t"
proof (induction rule: rtranclp_induct)
  case (step t u)
  then have "xfr_inv all t" by (blast intro: xfr.inv_steps)
  with step show ?case by (meson step_iff rtranclp.rtrancl_into_rtrancl)
qed simp

lemma final_delivered: "xfr_inv all s \<Longrightarrow> xfr_final s \<Longrightarrow> delivered all s"
  using xfr_final_result unfolding delivered_def by blast

lemma variant_delivers:
  assumes "xfr_inv all s0" "(either wloop rloop)\<^sup>*\<^sup>* s0 s"
  shows "prefix (out s) (concat all) \<and> (\<exists>t. (either wloop rloop)\<^sup>*\<^sup>* s t \<and> delivered all t) \<and>
    ((\<exists>t. either wloop rloop s t) \<or> delivered all s)"
proof -
  have inv: "xfr_inv all s" using steps_refine [OF assms(2,1)] assms(1) by (rule xfr.inv_steps)
  then have pre: "prefix (out s) (concat all)" by (simp add: xfr_inv_def data_ok_def)
  obtain t where t: "xfr_step\<^sup>*\<^sup>* s t" "xfr_final t" using xfr.reaches_final [OF inv] by blast
  have "delivered all t" using final_delivered [OF xfr.inv_steps [OF t(1) inv] t(2)] .
  moreover have "(either wloop rloop)\<^sup>*\<^sup>* s t" using steps_complete [OF t(1) inv] .
  moreover have "(\<exists>t. either wloop rloop s t) \<or> delivered all s"
    using xfr.progress [OF inv] final_delivered [OF inv] step_iff [OF inv] by blast
  ultimately show ?thesis using pre by blast
qed

end

subsection \<open>Section 53: POSIX semaphores\<close>

record posix_start =
  ps_sem_read :: bool
  ps_sem_write :: bool
  ps_shmget :: bool
  ps_shmat :: bool

definition xfr_begin :: "string list \<Rightarrow> xfr" where
  "xfr_begin blocks = \<lparr>sems = True, write_sem = 1, read_sem = 0, shm_cnt = 0, shm_buf = replicate 1024 NUL,
     inp = blocks, out = [], wpc = W_Wait, w_bytes = 0, w_xfrs = 0, rpc = R_Wait, r_bytes = 0, r_xfrs = 0\<rparr>"

definition writer53_start :: "posix_start \<Rightarrow> string list \<Rightarrow> xfr run" where
  "writer53_start e blocks =
     (if \<not> ps_sem_read e then Exited EXIT_FAILURE
      else if \<not> ps_sem_write e then Exited EXIT_FAILURE
      else if \<not> ps_shmget e then Exited EXIT_FAILURE
      else if \<not> ps_shmat e then Exited EXIT_FAILURE
      else Done (xfr_begin blocks))"

text \<open>The reader finds the semaphores by their names and the segment by its key.\<close>

definition reader53_start :: "posix_start \<Rightarrow> unit run" where
  "reader53_start e =
     (if \<not> ps_sem_read e then Exited EXIT_FAILURE
      else if \<not> ps_sem_write e then Exited EXIT_FAILURE
      else if \<not> ps_shmget e then Exited EXIT_FAILURE
      else if \<not> ps_shmat e then Exited EXIT_FAILURE
      else Done ())"

text \<open>The end of the writer: names that cannot be removed are reported only; a failure of one of the calls
  behind them ends the program.\<close>

record posix_end =
  pe_unlink_write :: bool
  pe_unlink_read :: bool
  pe_close_read :: bool
  pe_close_write :: bool
  pe_shmdt :: bool
  pe_shmctl :: bool

abbreviation (input) all_end :: posix_end where
  "all_end \<equiv> \<lparr>pe_unlink_write = True, pe_unlink_read = True, pe_close_read = True, pe_close_write = True,
     pe_shmdt = True, pe_shmctl = True\<rparr>"

definition writer53_remove :: "posix_end \<Rightarrow> xfr \<Rightarrow> xfr" where
  "writer53_remove e s =
     s\<lparr>sems := \<not> (pe_unlink_write e \<and> pe_unlink_read e),
       wpc := if pe_close_read e \<and> pe_close_write e \<and> pe_shmdt e \<and> pe_shmctl e then W_Done else W_Failed\<rparr>"

definition writer53_step :: "posix_end \<Rightarrow> xfr_ans \<Rightarrow> xfr \<Rightarrow> xfr option" where
  "writer53_step e a s =
     (case wpc s of
        W_Wait \<Rightarrow> if a = Fail then Some (s\<lparr>wpc := W_Failed\<rparr>)
                  else if write_sem s = 0 then None
                  else Some (s\<lparr>write_sem := write_sem s - 1, wpc := W_Read\<rparr>)
      | W_Read \<Rightarrow> if a = Fail then Some (s\<lparr>shm_cnt := -1, wpc := W_Failed\<rparr>)
                  else (case inp s of
                          [] \<Rightarrow> Some (s\<lparr>shm_cnt := 0, wpc := W_Post\<rparr>)
                        | b # bs \<Rightarrow> Some (s\<lparr>shm_cnt := int (length b), shm_buf := fill b (shm_buf s),
                                           inp := bs, wpc := W_Post\<rparr>))
      | W_Post \<Rightarrow> if a = Fail then Some (s\<lparr>wpc := W_Failed\<rparr>)
                  else Some (s\<lparr>read_sem := read_sem s + 1, wpc := W_Test\<rparr>)
      | W_Test \<Rightarrow> if shm_cnt s = 0 then Some (s\<lparr>wpc := W_Final\<rparr>)
                  else Some (s\<lparr>w_xfrs := to_int32 (w_xfrs s + 1), w_bytes := to_int32 (w_bytes s + shm_cnt s), wpc := W_Wait\<rparr>)
      | W_Final \<Rightarrow> if a = Fail then Some (s\<lparr>wpc := W_Failed\<rparr>)
                   else if write_sem s = 0 then None
                   else Some (s\<lparr>write_sem := write_sem s - 1, wpc := W_Remove\<rparr>)
      | W_Remove \<Rightarrow> Some (writer53_remove e s)
      | W_Done \<Rightarrow> None
      | W_Failed \<Rightarrow> None)"

text \<open>The reader. It has the semaphores open, so they stay usable when their names are removed. At the end
  it detaches the segment before it posts, and closes the semaphores behind that.\<close>

definition reader53_step :: "posix_end \<Rightarrow> xfr_ans \<Rightarrow> xfr \<Rightarrow> xfr option" where
  "reader53_step e a s =
     (case rpc s of
        R_Wait \<Rightarrow> if a = Fail then Some (s\<lparr>rpc := R_Failed\<rparr>)
                  else if read_sem s = 0 then None
                  else Some (s\<lparr>read_sem := read_sem s - 1, rpc := R_Test\<rparr>)
      | R_Test \<Rightarrow> if shm_cnt s = 0 then Some (s\<lparr>rpc := R_Last\<rparr>)
                  else Some (s\<lparr>r_bytes := to_int32 (r_bytes s + shm_cnt s), rpc := R_Write\<rparr>)
      | R_Write \<Rightarrow>
          let n = (case a of Ok \<Rightarrow> nat (shm_cnt s) | Short k \<Rightarrow> min k (nat (shm_cnt s)) | Fail \<Rightarrow> 0)
          in Some (s\<lparr>out := out s @ take n (shm_buf s), rpc := R_Post\<rparr>)
      | R_Post \<Rightarrow> if a = Fail then Some (s\<lparr>rpc := R_Failed\<rparr>)
                  else Some (s\<lparr>write_sem := write_sem s + 1, r_xfrs := to_int32 (r_xfrs s + 1), rpc := R_Wait\<rparr>)
      | R_Last \<Rightarrow> if \<not> pe_shmdt e \<or> a = Fail then Some (s\<lparr>rpc := R_Failed\<rparr>)
                  else Some (s\<lparr>write_sem := write_sem s + 1,
                    rpc := if pe_close_read e \<and> pe_close_write e then R_Done else R_Failed\<rparr>)
      | R_Done \<Rightarrow> None
      | R_Failed \<Rightarrow> None)"

lemma reader_sems: "xfr_inv all s \<Longrightarrow> rpc s \<notin> {R_Done, R_Failed} \<Longrightarrow> sems s"
  by (auto simp: xfr_inv_def ends_ok_def)

interpretation posix_sem: xfr_variant "writer53_step all_end Ok" "reader53_step all_end Ok"
proof
  show "writer53_step all_end Ok s = writer_step Ok s" if "xfr_inv all s" for all s
    by (cases "wpc s") (simp_all add: writer53_step_def writer_step_def writer53_remove_def)
  show "reader53_step all_end Ok s = reader_step Ok s" if "xfr_inv all s" for all s
    using reader_sems [OF that] by (cases "rpc s") (simp_all add: reader53_step_def reader_step_def)
qed

subsection \<open>Section 54: POSIX shared memory\<close>

record shm_start =
  sh_semget :: bool
  sh_setval :: "bool \<times> bool"
  sh_open :: bool
  sh_ftruncate :: bool
  sh_mmap :: bool

definition writer54_start :: "shm_start \<Rightarrow> string list \<Rightarrow> xfr run" where
  "writer54_start e blocks =
     (if \<not> sh_semget e then Exited EXIT_FAILURE
      else if \<not> fst (sh_setval e) then Exited EXIT_FAILURE
      else if \<not> snd (sh_setval e) then Exited EXIT_FAILURE
      else if \<not> sh_open e then Exited EXIT_FAILURE
      else if \<not> sh_ftruncate e then Exited EXIT_FAILURE
      else if \<not> sh_mmap e then Exited EXIT_FAILURE
      else Done (xfr_begin blocks))"

definition reader54_start :: "shm_start \<Rightarrow> unit run" where
  "reader54_start e =
     (if \<not> sh_semget e then Exited EXIT_FAILURE
      else if \<not> sh_open e then Exited EXIT_FAILURE
      else if \<not> sh_mmap e then Exited EXIT_FAILURE
      else Done ())"

record shm_end =
  se_semctl :: bool
  se_munmap :: bool
  se_unlink :: bool

abbreviation (input) shm_end_ok :: shm_end where
  "shm_end_ok \<equiv> \<lparr>se_semctl = True, se_munmap = True, se_unlink = True\<rparr>"

definition writer54_remove :: "shm_end \<Rightarrow> xfr \<Rightarrow> xfr" where
  "writer54_remove e s =
     s\<lparr>sems := \<not> se_semctl e, wpc := if se_semctl e \<and> se_munmap e \<and> se_unlink e then W_Done else W_Failed\<rparr>"

text \<open>Up to the removal the writer makes the calls of Section 48.\<close>

definition writer54_step :: "shm_end \<Rightarrow> xfr_ans \<Rightarrow> xfr \<Rightarrow> xfr option" where
  "writer54_step e a s = (if wpc s = W_Remove then Some (writer54_remove e s) else writer_step a s)"

text \<open>So does the reader, up to the end: it unmaps the object before it posts.\<close>

definition reader54_step :: "shm_end \<Rightarrow> xfr_ans \<Rightarrow> xfr \<Rightarrow> xfr option" where
  "reader54_step e a s =
     (if rpc s = R_Last \<and> \<not> se_munmap e then Some (s\<lparr>rpc := R_Failed\<rparr>) else reader_step a s)"

interpretation posix_shm: xfr_variant "writer54_step shm_end_ok Ok" "reader54_step shm_end_ok Ok"
  by unfold_locales (simp_all add: writer54_step_def reader54_step_def writer54_remove_def writer_step_def)

subsection \<open>Delivery\<close>

lemma xfr_begin_inv: "\<forall>b \<in> set blocks. b \<noteq> [] \<and> length b \<le> 1024 \<Longrightarrow> xfr_inv blocks (xfr_begin blocks)"
  by (simp add: xfr_begin_def xfr_defs)

lemma writer53_start_Done: "writer53_start e blocks = Done s0 \<Longrightarrow> s0 = xfr_begin blocks"
  by (simp add: writer53_start_def split: if_splits)

lemma writer54_start_Done: "writer54_start e blocks = Done s0 \<Longrightarrow> s0 = xfr_begin blocks"
  by (simp add: writer54_start_def split: if_splits)

text \<open>The transfers over POSIX semaphores and over POSIX shared memory, on a system where every call succeeds
  in full: in every state either pair of programs can reach the reader has written a prefix
  of the input, one of the two can move unless both have ended, and the run can be completed; at its
  end the output is the input and both have counted the same bytes and transfers, modulo \<open>2 ^ 32\<close>.\<close>

theorem posix_xfr_delivers:
  assumes "\<forall>b \<in> set blocks. b \<noteq> [] \<and> length b \<le> 1024"
    and "writer53_start e blocks = Done s0" "(either (writer53_step all_end Ok) (reader53_step all_end Ok))\<^sup>*\<^sup>* s0 s"
    and "writer54_start f blocks = Done t0" "(either (writer54_step shm_end_ok Ok) (reader54_step shm_end_ok Ok))\<^sup>*\<^sup>* t0 t"
  shows "prefix (out s) (concat blocks) \<and> prefix (out t) (concat blocks) \<and>
    (\<exists>u. (either (writer53_step all_end Ok) (reader53_step all_end Ok))\<^sup>*\<^sup>* s u \<and> delivered blocks u) \<and>
    (\<exists>u. (either (writer54_step shm_end_ok Ok) (reader54_step shm_end_ok Ok))\<^sup>*\<^sup>* t u \<and> delivered blocks u) \<and>
    (if \<exists>u. either (writer53_step all_end Ok) (reader53_step all_end Ok) s u then True else delivered blocks s) \<and>
    (if \<exists>u. either (writer54_step shm_end_ok Ok) (reader54_step shm_end_ok Ok) t u then True else delivered blocks t)"
  using posix_sem.variant_delivers [OF _ assms(3)] posix_shm.variant_delivers [OF _ assms(5)]
    xfr_begin_inv [OF assms(1)] writer53_start_Done [OF assms(2)] writer54_start_Done [OF assms(4)]
  by auto

theorem posix_xfr_delivers_witness:
  "\<exists>u. (either (writer53_step all_end Ok) (reader53_step all_end Ok))\<^sup>*\<^sup>* (xfr_begin [''ab'']) u \<and> out u = ''ab''"
  using posix_xfr_delivers
    [of "[''ab'']" "\<lparr>ps_sem_read = True, ps_sem_write = True, ps_shmget = True, ps_shmat = True\<rparr>"
      "xfr_begin [''ab'']" "xfr_begin [''ab'']"
      "\<lparr>sh_semget = True, sh_setval = (True, True), sh_open = True, sh_ftruncate = True, sh_mmap = True\<rparr>"
      "xfr_begin [''ab'']" "xfr_begin [''ab'']"]
  by (auto simp: writer53_start_def writer54_start_def delivered_def)

text \<open>A writer that ends with names it could not remove leaves objects behind on which the next writer fails, since
  it creates them exclusively.\<close>

lemma failed_unlink_keeps_names:
  "wpc s = W_Remove \<Longrightarrow> \<exists>t. writer53_step (all_end\<lparr>pe_unlink_read := False\<rparr>) Ok s = Some t \<and> sems t \<and> wpc t = W_Done"
  by (simp add: writer53_step_def writer53_remove_def)

end
