(* ===== verification/Getopt.thy ===== *)
theory Getopt
  imports Prelude
begin

text \<open>
  \<^verbatim>\<open>getopt\<close> of the C library for the programs that take several options: the answers in order and the operands,
  which are moved behind the options.
\<close>

datatype gopt = Flag char | Valued char string | Unknown char | Missing char

text \<open>The letters of one argument; \<open>fs\<close> are the letters without and \<open>vs\<close> those with an argument.\<close>

fun getopt_letters :: "string \<Rightarrow> string \<Rightarrow> string \<Rightarrow> string list \<Rightarrow> gopt list \<times> string list" where
  "getopt_letters fs vs [] as = ([], as)"
| "getopt_letters fs vs (c # cs) as =
     (if c \<in> set fs then let (os, r) = getopt_letters fs vs cs as in (Flag c # os, r)
      else if c \<in> set vs then
        (if cs \<noteq> [] then ([Valued c cs], as)
         else case as of [] \<Rightarrow> ([Missing c], []) | v # r \<Rightarrow> ([Valued c v], r))
      else let (os, r) = getopt_letters fs vs cs as in (Unknown c # os, r))"

lemma getopt_letters_rest: "length (snd (getopt_letters fs vs cs as)) \<le> length as"
  by (induction cs) (auto split: prod.splits list.splits)

function getopt_all :: "string \<Rightarrow> string \<Rightarrow> string list \<Rightarrow> gopt list \<times> string list" where
  "getopt_all fs vs [] = ([], [])"
| "getopt_all fs vs (a # as) =
     (if a = ''--'' then ([], as)
      else if a \<noteq> [] \<and> hd a = CHR ''-'' \<and> a \<noteq> ''-'' then
        let g = getopt_letters fs vs (tl a) as; (os, r) = getopt_all fs vs (snd g) in (fst g @ os, r)
      else let (os, r) = getopt_all fs vs as in (os, a # r))"
  by pat_completeness auto
termination
  by (relation "measure (\<lambda>(fs, vs, as). length as)") (auto simp: less_Suc_eq_le getopt_letters_rest)

text \<open>No operand is invented, and the operands of arguments that are not options are the arguments.\<close>

lemma getopt_letters_subset: "set (snd (getopt_letters fs vs cs as)) \<subseteq> set as"
  by (induction cs) (auto split: prod.splits list.splits)

lemma getopt_all_operands: "set (snd (getopt_all fs vs as)) \<subseteq> set as"
proof (induction fs vs as rule: getopt_all.induct)
  case (2 fs vs a as)
  have "set (snd (getopt_all fs vs (snd (getopt_letters fs vs (tl a) as)))) \<subseteq> set as"
    if "a \<noteq> ''--''" "a \<noteq> [] \<and> hd a = CHR ''-'' \<and> a \<noteq> ''-''"
    using 2(1) [OF that refl] getopt_letters_subset [of fs vs "tl a" as] by blast
  moreover have "set (snd (getopt_all fs vs as)) \<subseteq> set as"
    if "a \<noteq> ''--''" "\<not> (a \<noteq> [] \<and> hd a = CHR ''-'' \<and> a \<noteq> ''-'')"
    using 2(2) [OF that] .
  ultimately show ?case by (auto simp: Let_def split: prod.splits)
qed simp

lemma getopt_all_no_options: "\<forall>a \<in> set as. a = [] \<or> hd a \<noteq> CHR ''-'' \<Longrightarrow> getopt_all fs vs as = ([], as)"
  by (induction as) auto

end
