(* ===== verification/Utmp.thy ===== *)
theory Utmp
  imports C_Lib Getopt
begin

text \<open>
  Section 40: login accounting. \<^verbatim>\<open>mylog.c\<close> (\<^verbatim>\<open>my_login\<close>, \<^verbatim>\<open>my_logout\<close>, \<^verbatim>\<open>my_logwtmp\<close>), \<^verbatim>\<open>utmpx_login.c\<close>, \<^verbatim>\<open>mygetlogin.c\<close>
  and \<^verbatim>\<open>mywho.c\<close> over one model of the accounting files: the records of \<^verbatim>\<open>utmp\<close> with the current
  position, \<^verbatim>\<open>wtmp\<close> as the records appended to it, \<^verbatim>\<open>lastlog\<close> as a map from user ids. The theorems
  describe a session from login to logout and what \<^verbatim>\<open>mywho\<close> lists.
\<close>

subsection \<open>The accounting files\<close>

datatype ut_type = EMPTY | RUN_LVL | BOOT_TIME | NEW_TIME | OLD_TIME | INIT_PROCESS | LOGIN_PROCESS
  | USER_PROCESS | DEAD_PROCESS

text \<open>The character arrays are given by their contents up to a terminator, so \<^verbatim>\<open>ut_line\<close> and \<^verbatim>\<open>ut_user\<close> have at most
  32 characters, \<^verbatim>\<open>ut_id\<close> 4 and \<^verbatim>\<open>ut_host\<close> 256. The time is the eight bytes that \<^verbatim>\<open>time\<close> stores at \<^verbatim>\<open>ut_tv\<close>.\<close>

record utmp =
  ut_typ :: ut_type
  ut_pid :: int
  ut_line :: string
  ut_id :: string
  ut_user :: string
  ut_host :: string
  ut_time :: int

definition ut_zero :: utmp where
  "ut_zero = \<lparr>ut_typ = EMPTY, ut_pid = 0, ut_line = [], ut_id = [], ut_user = [], ut_host = [], ut_time = 0\<rparr>"

definition strn :: "nat \<Rightarrow> string \<Rightarrow> string" where
  "strn n s = take n s"

text \<open>A string in an array that is full goes on into the next array of the structure.\<close>

definition host_str :: "utmp \<Rightarrow> string" where
  "host_str u = ut_host u"

definition user_str :: "utmp \<Rightarrow> string" where
  "user_str u = (if length (ut_user u) < 32 then ut_user u else ut_user u @ host_str u)"

definition id_str :: "utmp \<Rightarrow> string" where
  "id_str u = (if length (ut_id u) < 4 then ut_id u else ut_id u @ user_str u)"

definition line_str :: "utmp \<Rightarrow> string" where
  "line_str u = (if length (ut_line u) < 32 then ut_line u else ut_line u @ id_str u)"

record utdb =
  ut_file :: "utmp list"
  ut_pos :: nat                               \<comment> \<open>records read so far\<close>

definition setutent :: "utdb \<Rightarrow> utdb" where
  "setutent db = db\<lparr>ut_pos := 0\<rparr>"

fun find_pos :: "('a \<Rightarrow> bool) \<Rightarrow> 'a list \<Rightarrow> nat option" where
  "find_pos P [] = None"
| "find_pos P (x # xs) = (if P x then Some 0 else map_option Suc (find_pos P xs))"

text \<open>\<^verbatim>\<open>getutline\<close> goes on from the current position.\<close>

definition line_matches :: "string \<Rightarrow> utmp \<Rightarrow> bool" where
  "line_matches line u \<longleftrightarrow> ut_typ u \<in> {LOGIN_PROCESS, USER_PROCESS} \<and> ut_line u = line"

definition getutline :: "string \<Rightarrow> utdb \<Rightarrow> utmp option \<times> utdb" where
  "getutline line db =
     (case find_pos (line_matches line) (drop (ut_pos db) (ut_file db)) of
        None \<Rightarrow> (None, db\<lparr>ut_pos := length (ut_file db)\<rparr>)
      | Some k \<Rightarrow> (Some (ut_file db ! (ut_pos db + k)), db\<lparr>ut_pos := ut_pos db + k + 1\<rparr>))"

text \<open>The record \<^verbatim>\<open>pututline\<close> replaces: the one read last, or the next that belongs to the same terminal.\<close>

definition process_types :: "ut_type set" where
  "process_types = {INIT_PROCESS, LOGIN_PROCESS, USER_PROCESS, DEAD_PROCESS}"

definition same_slot :: "utmp \<Rightarrow> utmp \<Rightarrow> bool" where
  "same_slot u v \<longleftrightarrow>
     (if ut_typ u \<in> process_types
      then ut_typ v \<in> process_types \<and>
        (if ut_id u \<noteq> [] \<and> ut_id v \<noteq> [] then ut_id u = ut_id v else ut_line u = ut_line v)
      else ut_typ u \<noteq> EMPTY \<and> ut_typ u = ut_typ v)"

definition pututline :: "bool \<Rightarrow> utmp \<Rightarrow> utdb \<Rightarrow> utdb option" where
  "pututline ok u db =
     (if \<not> ok then None
      else if 0 < ut_pos db \<and> ut_pos db \<le> length (ut_file db) \<and> same_slot u (ut_file db ! (ut_pos db - 1))
      then Some (db\<lparr>ut_file := (ut_file db)[ut_pos db - 1 := u]\<rparr>)
      else case find_pos (same_slot u) (drop (ut_pos db) (ut_file db)) of
        Some k \<Rightarrow> Some (db\<lparr>ut_file := (ut_file db)[ut_pos db + k := u], ut_pos := ut_pos db + k + 1\<rparr>)
      | None \<Rightarrow> Some (db\<lparr>ut_file := ut_file db @ [u], ut_pos := length (ut_file db) + 1\<rparr>))"

record acct =
  a_utmp :: utdb
  a_wtmp :: "utmp list"
  a_lastlog :: "nat \<rightharpoonup> int \<times> string"          \<comment> \<open>\<^verbatim>\<open>ll_time\<close> and \<^verbatim>\<open>ll_line\<close>\<close>

subsection \<open>\<^verbatim>\<open>mylog.c\<close>\<close>

text \<open>The arguments \<open>ok\<close> and \<open>now\<close> are the answers of \<^verbatim>\<open>pututline\<close> and of \<^verbatim>\<open>time\<close>.\<close>

definition my_login :: "bool \<Rightarrow> utmp \<Rightarrow> acct \<Rightarrow> acct run" where
  "my_login ok ut s =
     (case pututline ok ut (setutent (a_utmp s)) of
        None \<Rightarrow> Exited EXIT_FAILURE
      | Some db \<Rightarrow> Done (s\<lparr>a_utmp := setutent db, a_wtmp := a_wtmp s @ [ut]\<rparr>))"

definition my_logout :: "bool \<Rightarrow> int option \<Rightarrow> string \<Rightarrow> acct \<Rightarrow> int \<times> acct" where
  "my_logout ok now line s =
     (let (found, db) = getutline (strn 32 line) (setutent (a_utmp s)) in
      case found of
        None \<Rightarrow> (0, s\<lparr>a_utmp := db\<rparr>)
      | Some ut_log \<Rightarrow>
          case now of
            None \<Rightarrow> (0, s\<lparr>a_utmp := db\<rparr>)
          | Some t \<Rightarrow>
              case pututline ok (ut_log\<lparr>ut_typ := DEAD_PROCESS, ut_time := t\<rparr>) db of
                None \<Rightarrow> (0, s\<lparr>a_utmp := db\<rparr>)
              | Some db' \<Rightarrow> (1, s\<lparr>a_utmp := setutent db'\<rparr>))"

text \<open>The type of the record stays 0, that is \<^verbatim>\<open>EMPTY\<close>.\<close>

definition my_logwtmp :: "int option \<Rightarrow> int \<Rightarrow> string \<Rightarrow> string \<Rightarrow> string \<Rightarrow> acct \<Rightarrow> acct run" where
  "my_logwtmp now pid line name host s =
     (case now of
        None \<Rightarrow> Exited EXIT_FAILURE
      | Some t \<Rightarrow> Done (s\<lparr>a_wtmp := a_wtmp s @
          [ut_zero\<lparr>ut_line := strn 32 line, ut_user := strn 32 name, ut_host := strn 256 host, ut_time := t,
            ut_pid := pid\<rparr>]\<rparr>))"

text \<open>\<open>tty\<close> is the answer of \<^verbatim>\<open>ttyname\<close>, \<open>times\<close> are those of \<^verbatim>\<open>time\<close>.\<close>

definition session_record :: "int \<Rightarrow> int \<Rightarrow> string \<Rightarrow> string \<Rightarrow> utmp" where
  "session_record t pid user dev =
     ut_zero\<lparr>ut_typ := USER_PROCESS, ut_user := strn 32 user, ut_time := t, ut_pid := pid,
       ut_line := strn 32 (drop 5 dev), ut_id := strn 4 (drop 8 dev)\<rparr>"

record log_env =
  le_tty :: "string option"
  le_pid :: int
  le_times :: "int option \<times> int option \<times> int option"
  le_puts :: "bool \<times> bool"

definition mylog_main :: "log_env \<Rightarrow> acct \<Rightarrow> (int \<times> acct) run" where
  "mylog_main e s =
     (case fst (le_times e) of
        None \<Rightarrow> Exited EXIT_FAILURE
      | Some t \<Rightarrow>
          case le_tty e of
            None \<Rightarrow> Exited EXIT_FAILURE
          | Some dev \<Rightarrow>
              if length dev < 8 then Exited EXIT_FAILURE
              else let ut = session_record t (le_pid e) ''root'' dev in
                run_bind (my_login (fst (le_puts e)) ut s) (\<lambda>s1.
                  let s2 = snd (my_logout (snd (le_puts e)) (fst (snd (le_times e))) (ut_line ut) s1) in
                  run_bind (my_logwtmp (snd (snd (le_times e))) (le_pid e) (ut_line ut) (ut_user ut) ''remote-host'' s2)
                    (\<lambda>s3. Done (EXIT_SUCCESS, s3))))"

subsection \<open>\<^verbatim>\<open>mygetlogin.c\<close>\<close>

definition my_getlogin :: "string option \<Rightarrow> utdb \<Rightarrow> string option run" where
  "my_getlogin tty db =
     (case tty of
        None \<Rightarrow> Done None
      | Some path \<Rightarrow>
          if path = [] then Faulted OutOfBounds
          else case find_pos (\<lambda>c. c = slash) (tl path) of
            None \<Rightarrow> Done None
          | Some k \<Rightarrow>
              let name = drop (k + 1) (tl path) in
              if 32 \<le> length name then Faulted OutOfBounds
              else Done (map_option user_str (fst (getutline name (setutent db)))))"

definition getlogin_main :: "string option \<Rightarrow> utdb \<Rightarrow> (string \<times> int) run" where
  "getlogin_main tty db =
     run_bind (my_getlogin tty db) (\<lambda>user. case user of
        None \<Rightarrow> Exited EXIT_FAILURE
      | Some u \<Rightarrow> Done (''user: '' @ u @ [newline], EXIT_SUCCESS))"

subsection \<open>\<^verbatim>\<open>utmpx_login.c\<close>\<close>

record ux_env =
  ux_times :: "int option \<times> int option"
  ux_pid :: int
  ux_tty :: "string option"
  ux_uid :: "nat option"                      \<comment> \<open>the user id \<^verbatim>\<open>getpwnam\<close> finds\<close>
  ux_puts :: "bool \<times> bool"
  ux_lastlog :: bool                          \<comment> \<open>\<^verbatim>\<open>open\<close> and \<^verbatim>\<open>lseek\<close> succeed\<close>
  ux_write :: bool

definition ux_logout :: "ux_env \<Rightarrow> utmp \<Rightarrow> acct \<Rightarrow> (int \<times> acct) run" where
  "ux_logout e ut s =
     (let t = snd (ux_times e);
          ut' = ut\<lparr>ut_typ := DEAD_PROCESS, ut_time := (case t of None \<Rightarrow> ut_time ut | Some t' \<Rightarrow> t'), ut_user := []\<rparr> in
      case pututline (snd (ux_puts e)) ut' (setutent (a_utmp s)) of
        None \<Rightarrow> Exited EXIT_FAILURE
      | Some db \<Rightarrow> Done (EXIT_SUCCESS, s\<lparr>a_utmp := setutent db, a_wtmp := a_wtmp s @ [ut']\<rparr>))"

definition ux_login :: "ux_env \<Rightarrow> utmp \<Rightarrow> nat \<Rightarrow> int \<times> string \<Rightarrow> acct \<Rightarrow> acct run" where
  "ux_login e ut uid llog s =
     (case pututline (fst (ux_puts e)) ut (setutent (a_utmp s)) of
        None \<Rightarrow> Exited EXIT_FAILURE
      | Some db \<Rightarrow>
          if \<not> ux_lastlog e then Exited EXIT_FAILURE
          else if \<not> ux_write e then Exited EXIT_FAILURE
          else Done \<lparr>a_utmp = db, a_wtmp = a_wtmp s @ [ut], a_lastlog = (a_lastlog s)(uid \<mapsto> llog)\<rparr>)"

definition utmpx_login_main :: "ux_env \<Rightarrow> string list \<Rightarrow> acct \<Rightarrow> (int \<times> acct) run" where
  "utmpx_login_main e argv s =
     (if length argv < 2 \<or> argv ! 1 = ''--help'' then Exited EXIT_FAILURE
      else case fst (ux_times e) of
        None \<Rightarrow> Exited EXIT_FAILURE
      | Some now \<Rightarrow>
          case ux_tty e of
            None \<Rightarrow> Exited EXIT_FAILURE
          | Some dev \<Rightarrow>
              if length dev \<le> 8 then Exited EXIT_FAILURE
              else case ux_uid e of
                None \<Rightarrow> Exited EXIT_FAILURE
              | Some uid \<Rightarrow>
                  let ut = session_record now (ux_pid e) (argv ! 1) dev in
                  run_bind (ux_login e ut uid (now, strn 32 (drop 5 dev)) s) (ux_logout e ut))"

subsection \<open>\<^verbatim>\<open>mywho.c\<close>\<close>

record who_opts =
  w_on :: "char \<Rightarrow> bool"                      \<comment> \<open>\<^verbatim>\<open>option\<close>, indexed by the letter\<close>
  w_user :: string                            \<comment> \<open>\<^verbatim>\<open>user_name\<close>\<close>

definition who_letters :: string where
  "who_letters = ''bdlprtTHq''"

text \<open>One answer of \<^verbatim>\<open>getopt\<close>; \<open>None\<close>: the program exits.\<close>

fun who_option :: "gopt \<Rightarrow> who_opts \<Rightarrow> who_opts option" where
  "who_option (Flag c) o' =
     (if c = CHR ''a'' then Some (o'\<lparr>w_on := \<lambda>x. if x \<in> set who_letters then True else w_on o' x\<rparr>)
      else Some (o'\<lparr>w_on := (w_on o')(c := True)\<rparr>))"
| "who_option (Valued c v) o' = Some (o'\<lparr>w_on := (w_on o')(c := True), w_user := strn 32 v\<rparr>)"
| "who_option (Unknown c) o' = None"
| "who_option (Missing c) o' = None"

fun who_options :: "gopt list \<Rightarrow> who_opts \<Rightarrow> who_opts option" where
  "who_options [] o' = Some o'"
| "who_options (g # gs) o' = (case who_option g o' of None \<Rightarrow> None | Some o'' \<Rightarrow> who_options gs o'')"

definition pad_right :: "nat \<Rightarrow> string \<Rightarrow> string" where
  "pad_right n s = s @ replicate (n - length s) CHR '' ''"

definition who_header :: "who_opts \<Rightarrow> string" where
  "who_header opt =
     (if w_on opt (CHR ''H'') then
        pad_right 17 ''USER'' @ pad_right 17 ''LINE'' @ pad_right 17 ''ID'' @ pad_right 27 ''HOST'' @
        (if w_on opt (CHR ''l'') then pad_right 16 ''PID'' else []) @
        (if w_on opt (CHR ''t'') then ''TIME'' @ [newline] else [])
      else [])"

text \<open>\<^verbatim>\<open>strcmp\<close> with the name, which has no terminator when its 32 characters are used up.\<close>

definition other_user :: "who_opts \<Rightarrow> utmp \<Rightarrow> bool run" where
  "other_user opt u =
     (if length (w_user opt) = 32 \<and> take 32 (user_str u) = w_user opt then Faulted OutOfBounds
      else Done (user_str u \<noteq> w_user opt))"

definition who_hidden :: "who_opts \<Rightarrow> utmp \<Rightarrow> bool" where
  "who_hidden opt u \<longleftrightarrow>
     (\<not> w_on opt (CHR ''b'') \<and> ut_typ u = BOOT_TIME) \<or>
     (\<not> w_on opt (CHR ''d'') \<and> ut_typ u = DEAD_PROCESS) \<or>
     (\<not> w_on opt (CHR ''p'') \<and> ut_typ u = INIT_PROCESS) \<or>
     (\<not> w_on opt (CHR ''r'') \<and> ut_typ u = RUN_LVL)"

definition who_line :: "(int \<Rightarrow> string) \<Rightarrow> who_opts \<Rightarrow> utmp \<Rightarrow> string" where
  "who_line ctime opt u =
     pad_right 16 (user_str u) @ '' '' @ pad_right 16 (line_str u) @ '' '' @ pad_right 16 (id_str u) @ '' '' @
     pad_right 27 (host_str u) @
     (if w_on opt (CHR ''l'') then pad_right 16 (dec_int (ut_pid u)) else []) @
     (if w_on opt (CHR ''t'') \<and> ut_typ u \<in> {OLD_TIME, NEW_TIME} then pad_right 16 (ctime (ut_time u)) else []) @
     [newline]"

text \<open>The loop over the records, with the output so far and the count.\<close>

fun who_loop :: "(int \<Rightarrow> string) \<Rightarrow> who_opts \<Rightarrow> utmp list \<Rightarrow> string \<Rightarrow> nat \<Rightarrow> (string \<times> nat) run" where
  "who_loop ctime opt [] acc n = Done (acc, n)"
| "who_loop ctime opt (u # us) acc n =
     run_bind (if w_on opt (CHR ''u'') then other_user opt u else Done False) (\<lambda>skip.
       if skip then who_loop ctime opt us acc n
       else if who_hidden opt u then who_loop ctime opt us acc n
       else who_loop ctime opt us (acc @ who_line ctime opt u) (n + 1))"

text \<open>\<open>files\<close> gives the records of a file, \<open>named\<close> whether \<^verbatim>\<open>utmpxname\<close> accepts a name. A refused name is not
  reported.\<close>

definition who_main :: "(int \<Rightarrow> string) \<Rightarrow> (string \<Rightarrow> utmp list) \<Rightarrow> utmp list \<Rightarrow> (string \<Rightarrow> bool) \<Rightarrow> string list
    \<Rightarrow> (string \<times> int) run" where
  "who_main ctime files std named argv =
     (let (os, operands) = getopt_all ''abdlprtTHq'' ''u'' (tl argv) in
      case who_options os \<lparr>w_on = \<lambda>_. False, w_user = []\<rparr> of
        None \<Rightarrow> Exited EXIT_FAILURE
      | Some opt \<Rightarrow>
          let recs = (if operands \<noteq> [] \<and> named (hd operands) then files (hd operands) else std) in
          run_bind (who_loop ctime opt recs (who_header opt) 0) (\<lambda>(acc, n).
            Done (acc @ (if w_on opt (CHR ''q'') then ''# user='' @ dec_nat n @ [newline] else []), EXIT_SUCCESS)))"

subsection \<open>Slots\<close>

lemma find_pos_skip: "\<forall>x \<in> set pre. \<not> P x \<Longrightarrow> find_pos P (pre @ xs) = map_option ((+) (length pre)) (find_pos P xs)"
  by (induction pre) (cases "find_pos P xs", auto)+

lemma find_pos_split: "find_pos P xs = Some k \<Longrightarrow> \<exists>pre x post. xs = pre @ x # post \<and> length pre = k \<and> P x \<and> (\<forall>y \<in> set pre. \<not> P y)"
proof (induction xs arbitrary: k)
  case (Cons x xs)
  show ?case
  proof (cases "P x")
    case True
    then show ?thesis using Cons.prems by auto
  next
    case False
    then obtain j where j: "find_pos P xs = Some j" "k = Suc j" using Cons.prems by auto
    then obtain pre y post where "xs = pre @ y # post" "length pre = j" "P y" "\<forall>z \<in> set pre. \<not> P z"
      using Cons.IH by blast
    then have "x # xs = (x # pre) @ y # post \<and> length (x # pre) = k \<and> P y \<and> (\<forall>z \<in> set (x # pre). \<not> P z)"
      using False j(2) by simp
    then show ?thesis by blast
  qed
qed simp

lemma find_pos_None: "find_pos P xs = None \<longleftrightarrow> (\<forall>x \<in> set xs. \<not> P x)"
  by (induction xs) auto

text \<open>The file with the record of a slot replaced, or a new one at its end.\<close>

definition slot_put :: "utmp \<Rightarrow> utmp list \<Rightarrow> utmp list" where
  "slot_put u us = (case find_pos (same_slot u) us of Some k \<Rightarrow> us[k := u] | None \<Rightarrow> us @ [u])"

lemma slot_put_split:
  obtains pre post where "\<forall>x \<in> set pre. \<not> same_slot u x"
    and "\<And>v. same_slot v = same_slot u \<Longrightarrow> slot_put v us = pre @ v # post"
    and "us = pre \<and> post = [] \<or> (\<exists>old. same_slot u old \<and> us = pre @ old # post)"
proof (cases "find_pos (same_slot u) us")
  case None
  then have "slot_put v us = us @ [v]" if "same_slot v = same_slot u" for v using that by (simp add: slot_put_def)
  then show thesis using that [of us "[]"] None by (simp add: find_pos_None)
next
  case (Some k)
  then obtain pre x post where s: "us = pre @ x # post" "length pre = k" "same_slot u x" "\<forall>y \<in> set pre. \<not> same_slot u y"
    using find_pos_split by metis
  then have "slot_put v us = pre @ v # post" if "same_slot v = same_slot u" for v
    using Some that by (auto simp: slot_put_def)
  then show thesis using that [of pre post] s by auto
qed

lemma same_slot_cong:
  assumes "ut_typ u \<in> process_types" "ut_typ v \<in> process_types" "ut_id u = ut_id v" "ut_line u = ut_line v"
  shows "same_slot u = same_slot v"
  using assms by (auto simp: same_slot_def fun_eq_iff)

lemma same_slot_refl: "ut_typ u \<in> process_types \<Longrightarrow> same_slot u u"
  by (simp add: same_slot_def)

lemma slot_put_put:
  assumes "same_slot v = same_slot u" "same_slot u u"
  shows "slot_put v (slot_put u us) = slot_put v us"
proof -
  obtain pre post where p: "\<forall>x \<in> set pre. \<not> same_slot u x"
      "\<And>v. same_slot v = same_slot u \<Longrightarrow> slot_put v us = pre @ v # post"
    using slot_put_split [of u us] by metis
  have "slot_put v (pre @ u # post) = pre @ v # post"
    using p(1) assms by (simp add: slot_put_def find_pos_skip)
  then show ?thesis using p(2) assms(1) by simp
qed

lemma pututline_rewound:
  "\<exists>db'. pututline True u (setutent db) = Some db' \<and> ut_file db' = slot_put u (ut_file db)"
  by (simp add: pututline_def setutent_def slot_put_def split: option.split)

subsection \<open>Sessions\<close>

text \<open>The terminal of a record is used by that record only.\<close>

definition own_slot :: "utmp \<Rightarrow> utmp list \<Rightarrow> bool" where
  "own_slot ut us \<longleftrightarrow> length (filter (same_slot ut) us) \<le> 1 \<and>
     (\<forall>u \<in> set us. line_matches (ut_line ut) u \<longrightarrow> same_slot ut u)"

definition dead :: "int \<Rightarrow> utmp \<Rightarrow> utmp" where
  "dead t ut = ut\<lparr>ut_typ := DEAD_PROCESS, ut_time := t\<rparr>"

lemma same_slot_dead: "ut_typ ut = USER_PROCESS \<Longrightarrow> same_slot (dead t ut) = same_slot ut"
  by (rule same_slot_cong) (simp_all add: dead_def process_types_def)

lemma own_slot_split:
  assumes "own_slot ut us" "ut_typ ut = USER_PROCESS"
  obtains pre post where "\<forall>x \<in> set pre. \<not> line_matches (ut_line ut) x" "\<forall>x \<in> set post. \<not> line_matches (ut_line ut) x"
    and "slot_put ut us = pre @ ut # post" "\<And>t. slot_put (dead t ut) us = pre @ dead t ut # post"
proof -
  obtain pre post where p: "\<forall>x \<in> set pre. \<not> same_slot ut x"
      "\<And>v. same_slot v = same_slot ut \<Longrightarrow> slot_put v us = pre @ v # post"
      "us = pre \<and> post = [] \<or> (\<exists>old. same_slot ut old \<and> us = pre @ old # post)"
    using slot_put_split [of ut us] by metis
  have "\<forall>x \<in> set post. \<not> same_slot ut x"
    using p(3) assms(1) by (auto simp: own_slot_def filter_empty_conv)
  moreover have "set pre \<subseteq> set us" "set post \<subseteq> set us" using p(3) by auto
  ultimately have "\<forall>x \<in> set pre. \<not> line_matches (ut_line ut) x" "\<forall>x \<in> set post. \<not> line_matches (ut_line ut) x"
    using p(1) assms(1) by (auto simp: own_slot_def)
  then show thesis using that p(2) same_slot_dead [OF assms(2)] by blast
qed

lemma line_matches_self: "ut_typ ut = USER_PROCESS \<Longrightarrow> line_matches (ut_line ut) ut"
  by (simp add: line_matches_def)

lemma getutline_split:
  assumes "ut_file db = pre @ u # post" "\<forall>x \<in> set pre. \<not> line_matches l x" "line_matches l u"
  shows "getutline l (setutent db) = (Some u, db\<lparr>ut_pos := length pre + 1\<rparr>)"
  using assms by (simp add: getutline_def setutent_def find_pos_skip)

lemma getutline_none:
  assumes "\<forall>x \<in> set (ut_file db). \<not> line_matches l x"
  shows "fst (getutline l (setutent db)) = None"
proof -
  have "find_pos (line_matches l) (ut_file db) = None" using assms by (simp add: find_pos_None)
  then show ?thesis by (simp add: getutline_def setutent_def)
qed

text \<open>The name of the terminal below \<^verbatim>\<open>/dev\<close>.\<close>

lemma my_getlogin_dev:
  assumes "length l < 32"
  shows "my_getlogin (Some (''/dev/'' @ l)) db = Done (map_option user_str (fst (getutline l (setutent db))))"
  using assms by (simp add: my_getlogin_def)

text \<open>C28: A session on a terminal of its own. After \<^verbatim>\<open>my_login\<close> the record is in its slot of \<^verbatim>\<open>utmp\<close> (an old one of
  the terminal, or a new one at the end) and \<^verbatim>\<open>my_getlogin\<close> on that terminal finds the user; after
  \<^verbatim>\<open>my_logout\<close>, which returns 1, the same slot is marked dead with the new time, all other records are
  as before, and \<^verbatim>\<open>my_getlogin\<close> finds nobody. Only the login is appended to \<^verbatim>\<open>wtmp\<close>.\<close>

theorem login_logout_session:
  assumes "own_slot ut (ut_file (a_utmp s))" "ut_typ ut = USER_PROCESS" "length (ut_line ut) < 32"
    and "length (ut_user ut) < 32"
  shows "\<exists>s1 s2. my_login True ut s = Done s1 \<and> my_logout True (Some t) (ut_line ut) s1 = (1, s2) \<and>
    ut_file (a_utmp s1) = slot_put ut (ut_file (a_utmp s)) \<and>
    ut_file (a_utmp s2) = slot_put (dead t ut) (ut_file (a_utmp s)) \<and>
    a_wtmp s2 = a_wtmp s @ [ut] \<and>
    my_getlogin (Some (''/dev/'' @ ut_line ut)) (a_utmp s1) = Done (Some (ut_user ut)) \<and>
    my_getlogin (Some (''/dev/'' @ ut_line ut)) (a_utmp s2) = Done None"
proof -
  obtain pre post where p: "\<forall>x \<in> set pre. \<not> line_matches (ut_line ut) x" "\<forall>x \<in> set post. \<not> line_matches (ut_line ut) x"
      "slot_put ut (ut_file (a_utmp s)) = pre @ ut # post"
      "\<And>t. slot_put (dead t ut) (ut_file (a_utmp s)) = pre @ dead t ut # post"
    using own_slot_split [OF assms(1,2)] by metis
  obtain db1 where db1: "pututline True ut (setutent (a_utmp s)) = Some db1" "ut_file db1 = pre @ ut # post"
    using pututline_rewound p(3) by metis
  define s1 where "s1 = s\<lparr>a_utmp := setutent db1, a_wtmp := a_wtmp s @ [ut]\<rparr>"
  have login: "my_login True ut s = Done s1" using db1(1) by (simp add: my_login_def s1_def)
  have file1: "ut_file (a_utmp s1) = pre @ ut # post" using db1(2) by (simp add: s1_def setutent_def)
  have get1: "getutline (ut_line ut) (setutent (a_utmp s1)) = (Some ut, (a_utmp s1)\<lparr>ut_pos := length pre + 1\<rparr>)"
    by (rule getutline_split [OF file1 p(1) line_matches_self [OF assms(2)]])
  have "same_slot (dead t ut) ut"
    using same_slot_dead [OF assms(2)] same_slot_refl [of ut] assms(2) by (simp add: process_types_def)
  then have put2: "pututline True (dead t ut) ((a_utmp s1)\<lparr>ut_pos := length pre + 1\<rparr>) =
      Some ((a_utmp s1)\<lparr>ut_pos := length pre + 1, ut_file := pre @ dead t ut # post\<rparr>)"
    using file1 by (simp add: pututline_def)
  define s2 where "s2 = s1\<lparr>a_utmp := setutent ((a_utmp s1)\<lparr>ut_pos := length pre + 1, ut_file := pre @ dead t ut # post\<rparr>)\<rparr>"
  have logout: "my_logout True (Some t) (ut_line ut) s1 = (1, s2)"
    using get1 put2 assms(3) by (simp add: my_logout_def strn_def s2_def dead_def)
  have file2: "ut_file (a_utmp s2) = pre @ dead t ut # post" by (simp add: s2_def setutent_def)
  have "fst (getutline (ut_line ut) (setutent (a_utmp s2))) = None"
    using p(1,2) file2 by (intro getutline_none) (auto simp: line_matches_def dead_def)
  then have user2: "my_getlogin (Some (''/dev/'' @ ut_line ut)) (a_utmp s2) = Done None"
    using my_getlogin_dev [OF assms(3)] by simp
  have user1: "my_getlogin (Some (''/dev/'' @ ut_line ut)) (a_utmp s1) = Done (Some (ut_user ut))"
    using my_getlogin_dev [OF assms(3)] get1 assms(4) by (simp add: user_str_def)
  have "a_wtmp s2 = a_wtmp s @ [ut]" by (simp add: s2_def s1_def)
  then show ?thesis using login logout file1 file2 p(3) p(4) [of t] user1 user2 by (intro exI [of _ s1] exI [of _ s2]) simp
qed

definition demo_record :: utmp where
  "demo_record = session_record 10 77 ''jack'' ''/dev/pts/3''"

definition demo_acct :: acct where
  "demo_acct = \<lparr>a_utmp = \<lparr>ut_file = [ut_zero\<lparr>ut_typ := BOOT_TIME\<rparr>, demo_record\<lparr>ut_typ := DEAD_PROCESS\<rparr>], ut_pos = 0\<rparr>,
     a_wtmp = [], a_lastlog = Map.empty\<rparr>"

theorem login_logout_session_witness:
  "\<exists>s1 s2. my_login True demo_record demo_acct = Done s1 \<and> my_logout True (Some 20) ''pts/3'' s1 = (1, s2) \<and>
     my_getlogin (Some ''/dev/pts/3'') (a_utmp s1) = Done (Some ''jack'') \<and>
     my_getlogin (Some ''/dev/pts/3'') (a_utmp s2) = Done None"
proof -
  have l: "ut_line demo_record = ''pts/3''" "ut_user demo_record = ''jack''" "ut_typ demo_record = USER_PROCESS"
    by (simp_all add: demo_record_def session_record_def strn_def)
  have "own_slot demo_record (ut_file (a_utmp demo_acct))"
    by (simp add: own_slot_def demo_acct_def same_slot_def process_types_def line_matches_def l)
  from login_logout_session [OF this l(3), of 20] show ?thesis unfolding l by auto
qed

text \<open>A whole run of \<^verbatim>\<open>utmpx_login\<close> when no call fails: one slot of \<^verbatim>\<open>utmp\<close> changes, \<^verbatim>\<open>wtmp\<close> gets the login with the
  user and the logout without, and \<^verbatim>\<open>lastlog\<close> has the time and the terminal at the id of the user.\<close>

theorem utmpx_login_session:
  assumes "argv ! 1 \<noteq> ''--help''" "2 \<le> length argv" "8 < length dev"
    and "e = \<lparr>ux_times = (Some t, Some t'), ux_pid = pid, ux_tty = Some dev, ux_uid = Some uid, ux_puts = (True, True),
      ux_lastlog = True, ux_write = True\<rparr>"
    and "ut = session_record t pid (argv ! 1) dev" "out = (dead t' ut)\<lparr>ut_user := []\<rparr>"
  shows "\<exists>s'. utmpx_login_main e argv s = Done (EXIT_SUCCESS, s') \<and>
    ut_file (a_utmp s') = slot_put out (ut_file (a_utmp s)) \<and>
    a_wtmp s' = a_wtmp s @ [ut, out] \<and>
    a_lastlog s' = (a_lastlog s)(uid \<mapsto> (t, ut_line ut))"
proof -
  obtain db1 where db1: "pututline True ut (setutent (a_utmp s)) = Some db1" "ut_file db1 = slot_put ut (ut_file (a_utmp s))"
    using pututline_rewound by blast
  obtain db2 where db2: "pututline True out (setutent db1) = Some db2" "ut_file db2 = slot_put out (ut_file db1)"
    using pututline_rewound by blast
  have "same_slot out = same_slot ut"
    by (rule same_slot_cong) (simp_all add: assms(5,6) dead_def session_record_def process_types_def)
  moreover have "same_slot ut ut"
    by (rule same_slot_refl) (simp add: assms(5) session_record_def process_types_def)
  ultimately have "ut_file db2 = slot_put out (ut_file (a_utmp s))"
    using slot_put_put db1(2) db2(2) by simp
  moreover have "utmpx_login_main e argv s = Done (EXIT_SUCCESS, \<lparr>a_utmp = setutent db2, a_wtmp = a_wtmp s @ [ut, out],
      a_lastlog = (a_lastlog s)(uid \<mapsto> (t, ut_line ut))\<rparr>)"
    using assms(1-3) db1(1) db2(1) unfolding assms(4)
    by (simp add: utmpx_login_main_def ux_login_def ux_logout_def assms(5,6) dead_def session_record_def Let_def)
  ultimately show ?thesis by (simp add: setutent_def)
qed

subsection \<open>Listing\<close>

text \<open>The records that are shown.\<close>

definition who_shown :: "who_opts \<Rightarrow> utmp \<Rightarrow> bool" where
  "who_shown opt u \<longleftrightarrow> \<not> who_hidden opt u \<and> (w_on opt (CHR ''u'') \<longrightarrow> user_str u = w_user opt)"

lemma who_loop_lists:
  "length (w_user opt) < 32 \<Longrightarrow>
   who_loop ctime opt us acc n =
     Done (acc @ concat (map (who_line ctime opt) (filter (who_shown opt) us)), n + length (filter (who_shown opt) us))"
  by (induction us arbitrary: acc n) (auto simp: other_user_def who_shown_def)

text \<open>For options that are known, with a user name that fits its array, \<^verbatim>\<open>mywho\<close> prints the header when asked to,
  then one line for each record that the options show, in the order of the file, and at the end, when
  asked to, their number; an unknown option or a missing argument ends it with failure.\<close>

theorem who_lists:
  assumes "getopt_all ''abdlprtTHq'' ''u'' args = (os, operands)"
    and "case who_options os \<lparr>w_on = \<lambda>_. False, w_user = []\<rparr> of None \<Rightarrow> True | Some opt \<Rightarrow> length (w_user opt) < 32"
  shows "who_main ctime files std named (prog # args) =
    (case who_options os \<lparr>w_on = \<lambda>_. False, w_user = []\<rparr> of
       None \<Rightarrow> Exited EXIT_FAILURE
     | Some opt \<Rightarrow>
         let shown = filter (who_shown opt) (if operands \<noteq> [] \<and> named (hd operands) then files (hd operands) else std) in
         Done (who_header opt @ concat (map (who_line ctime opt) shown) @
           (if w_on opt (CHR ''q'') then ''# user='' @ dec_nat (length shown) @ [newline] else []), EXIT_SUCCESS))"
proof (cases "who_options os \<lparr>w_on = \<lambda>_. False, w_user = []\<rparr>")
  case None
  then show ?thesis using assms(1) by (simp add: who_main_def)
next
  case (Some opt)
  then have "length (w_user opt) < 32" using assms(2) by simp
  from who_loop_lists [OF this] Some show ?thesis using assms(1) by (simp add: who_main_def Let_def)
qed

definition who_demo_file :: "utmp list" where
  "who_demo_file = [ut_zero\<lparr>ut_typ := BOOT_TIME, ut_user := ''reboot''\<rparr>, demo_record, demo_record\<lparr>ut_user := ''bob''\<rparr>]"

theorem who_lists_witness:
  "\<exists>opt. who_main (\<lambda>_. []) (\<lambda>_. []) who_demo_file (\<lambda>_. True) [''mywho'', ''-q'', ''-ujack''] =
     Done (who_line (\<lambda>_. []) opt demo_record @ ''# user=1'' @ [newline], EXIT_SUCCESS)"
proof -
  let ?opt = "\<lparr>w_on = (\<lambda>_. False)(CHR ''q'' := True, CHR ''u'' := True), w_user = ''jack''\<rparr>"
  have g: "getopt_all ''abdlprtTHq'' ''u'' [''-q'', ''-ujack''] = ([Flag (CHR ''q''), Valued (CHR ''u'') ''jack''], [])"
    by simp
  have o: "who_options [Flag (CHR ''q''), Valued (CHR ''u'') ''jack''] \<lparr>w_on = \<lambda>_. False, w_user = []\<rparr> = Some ?opt"
    by (simp add: strn_def)
  have d: "user_str demo_record = ''jack''" "user_str (demo_record\<lparr>ut_user := ''bob''\<rparr>) = ''bob''"
      "user_str (ut_zero\<lparr>ut_typ := BOOT_TIME, ut_user := ''reboot''\<rparr>) = ''reboot''" "ut_typ demo_record = USER_PROCESS"
    by (simp_all add: user_str_def demo_record_def session_record_def strn_def ut_zero_def)
  have f: "filter (who_shown ?opt) who_demo_file = [demo_record]"
    by (simp add: who_demo_file_def who_shown_def who_hidden_def d)
  have h: "who_header ?opt = []" by (simp add: who_header_def)
  have one: "dec_nat (Suc 0) = ''1''" by (subst dec_nat.simps) (simp add: digit_char_values)
  have m: "who_main (\<lambda>_. []) (\<lambda>_. []) who_demo_file (\<lambda>_. True) [''mywho'', ''-q'', ''-ujack''] =
      Done (who_line (\<lambda>_. []) ?opt demo_record @ ''# user=1'' @ [newline], EXIT_SUCCESS)"
    using who_lists [OF g, of "\<lambda>_. []" "\<lambda>_. []" who_demo_file "\<lambda>_. True" "''mywho''"]
    unfolding o by (simp add: f h one)
  show ?thesis using m by blast
qed

text \<open>An identifier of four characters has no terminator: the user follows it in the listing.\<close>

lemma who_prints_id_and_user:
  "length (ut_id u) = 4 \<Longrightarrow> length (ut_user u) < 32 \<Longrightarrow> id_str u = ut_id u @ ut_user u"
  by (simp add: id_str_def user_str_def)

text \<open>What \<^verbatim>\<open>my_logwtmp\<close> appends has the type of an empty record, whatever user it names.\<close>

lemma logwtmp_empty_type:
  "my_logwtmp (Some t) pid line name host s = Done s' \<Longrightarrow> \<exists>u. a_wtmp s' = a_wtmp s @ [u] \<and> ut_typ u = EMPTY"
  by (auto simp: my_logwtmp_def ut_zero_def)

end
