(* ===== verification/Races.thy ===== *)
theory Races
  imports C_Lib Transitions
begin

text \<open>
  Programs about unsynchronised and synchronised access: \<^verbatim>\<open>thread_incr.c\<close> of Section 30 (two threads increment
  a counter without a lock), \<^verbatim>\<open>atomic_append.c\<close> of Section 5 (two processes append to one file with
  \<^verbatim>\<open>O_APPEND\<close>, or with \<^verbatim>\<open>lseek\<close> and \<^verbatim>\<open>write\<close>) and \<^verbatim>\<open>fork_sem_sync.c\<close> of Section 47 (the parent waits for a
  semaphore of the child). Each is a step function per process, interleaved. The theorems
  give the exact range of the results over all interleavings.
\<close>

subsection \<open>\<^verbatim>\<open>thread_incr.c\<close>\<close>

datatype thr_pc = T_Load | T_Store | T_Print

record thr =
  t_pc :: thr_pc
  t_j :: int
  t_loc :: int

record incr =
  glob :: int
  thrs :: "bool \<Rightarrow> thr"                        \<comment> \<open>the two threads\<close>
  printed :: "(bool \<times> int) list"              \<comment> \<open>thread and value of each message\<close>

text \<open>One step of a thread: the test of the loop with the load, the store, or the message. \<open>None\<close>: it has
  returned.\<close>

definition thread_step :: "int \<Rightarrow> bool \<Rightarrow> incr \<Rightarrow> incr option" where
  "thread_step loop i s =
     (let t = thrs s i in
      case t_pc t of
        T_Load \<Rightarrow> if t_j t < loop then Some (s\<lparr>thrs := (thrs s)(i := t\<lparr>t_loc := glob s, t_pc := T_Store\<rparr>)\<rparr>) else None
      | T_Store \<Rightarrow>
          let v = to_int32 (t_loc t + 1) in
          Some (s\<lparr>glob := v, thrs := (thrs s)(i := t\<lparr>t_loc := v, t_pc := T_Print\<rparr>)\<rparr>)
      | T_Print \<Rightarrow>
          Some (s\<lparr>printed := printed s @ [(i, glob s)], thrs := (thrs s)(i := t\<lparr>t_j := t_j t + 1, t_pc := T_Load\<rparr>)\<rparr>))"

definition incr_step :: "int \<Rightarrow> incr \<Rightarrow> incr \<Rightarrow> bool" where
  "incr_step loop s s' \<longleftrightarrow> (\<exists>i. thread_step loop i s = Some s')"

definition incr_start :: incr where
  "incr_start = \<lparr>glob = 0, thrs = \<lambda>_. \<lparr>t_pc = T_Load, t_j = 0, t_loc = 0\<rparr>, printed = []\<rparr>"

text \<open>The main program: the number of rounds, then the threads; \<open>s\<close> is the state in which both have been joined.\<close>

definition incr_loops :: "string list \<Rightarrow> int" where
  "incr_loops argv = (if 1 < length argv then atoi (argv ! 1) else 10000000)"

record incr_env =
  ie_create :: "bool \<times> bool"
  ie_join :: "bool \<times> bool"

definition incr_main :: "incr_env \<Rightarrow> incr \<Rightarrow> (string \<times> int) run" where
  "incr_main e s =
     (if \<not> fst (ie_create e) then Exited EXIT_FAILURE
      else if \<not> snd (ie_create e) then Exited EXIT_FAILURE
      else if \<not> fst (ie_join e) then Exited EXIT_FAILURE
      else if \<not> snd (ie_join e) then Exited EXIT_FAILURE
      else Done (''glob = '' @ dec_int (glob s) @ [newline], EXIT_SUCCESS))"

definition joined :: "int \<Rightarrow> incr \<Rightarrow> bool" where
  "joined loop s \<longleftrightarrow> (\<forall>i. t_pc (thrs s i) = T_Load \<and> loop \<le> t_j (thrs s i))"

text \<open>The stores of a thread so far.\<close>

definition stores :: "thr \<Rightarrow> int" where
  "stores t = t_j t + (if t_pc t = T_Print then 1 else 0)"

lemma thread_stepE:
  assumes "thread_step loop i s = Some s'"
  obtains
    (load) "t_pc (thrs s i) = T_Load" "t_j (thrs s i) < loop"
      "s' = s\<lparr>thrs := (thrs s)(i := (thrs s i)\<lparr>t_loc := glob s, t_pc := T_Store\<rparr>)\<rparr>"
  | (store) "t_pc (thrs s i) = T_Store"
      "s' = s\<lparr>glob := to_int32 (t_loc (thrs s i) + 1),
         thrs := (thrs s)(i := (thrs s i)\<lparr>t_loc := to_int32 (t_loc (thrs s i) + 1), t_pc := T_Print\<rparr>)\<rparr>"
  | (print) "t_pc (thrs s i) = T_Print"
      "s' = s\<lparr>printed := printed s @ [(i, glob s)],
         thrs := (thrs s)(i := (thrs s i)\<lparr>t_j := t_j (thrs s i) + 1, t_pc := T_Load\<rparr>)\<rparr>"
  using assms by (auto simp: thread_step_def Let_def split: thr_pc.splits if_splits)

definition total :: "incr \<Rightarrow> int" where
  "total s = stores (thrs s True) + stores (thrs s False)"

definition thr_ok :: "int \<Rightarrow> int \<Rightarrow> int \<Rightarrow> thr \<Rightarrow> bool" where
  "thr_ok loop g tot t \<longleftrightarrow>
     0 \<le> t_j t \<and> t_j t + (if t_pc t = T_Load then 0 else 1) \<le> max 0 loop \<and> (1 \<le> stores t \<longrightarrow> 1 \<le> g) \<and>
     (t_pc t = T_Store \<longrightarrow> 0 \<le> t_loc t \<and> t_loc t \<le> tot \<and> (1 \<le> t_j t \<longrightarrow> 1 \<le> t_loc t))"

definition incr_inv :: "int \<Rightarrow> incr \<Rightarrow> bool" where
  "incr_inv loop s \<longleftrightarrow> 0 \<le> glob s \<and> glob s \<le> total s \<and> (\<forall>i. thr_ok loop (glob s) (total s) (thrs s i)) \<and>
     (glob s \<le> 1 \<longrightarrow> (\<exists>i. stores (thrs s i) \<le> 1))"

lemma incr_start_inv: "incr_inv loop incr_start"
  by (simp add: incr_inv_def incr_start_def stores_def total_def thr_ok_def)

lemma no_overflow: "0 \<le> v \<Longrightarrow> v < INT_MAX \<Longrightarrow> to_int32 (v + 1) = v + 1"
  by (intro to_int32_id) (simp add: is_int32_def)

lemma thr_ok_mono: "thr_ok loop g tot t \<Longrightarrow> tot \<le> tot' \<Longrightarrow> (1 \<le> g \<Longrightarrow> 1 \<le> g') \<Longrightarrow> thr_ok loop g' tot' t"
  by (auto simp: thr_ok_def)

lemma stores_nonneg: "thr_ok loop g tot t \<Longrightarrow> 0 \<le> stores t"
  by (simp add: thr_ok_def stores_def split: if_splits)

lemma total_update: "total (s\<lparr>thrs := (thrs s)(i := t)\<rparr>) = total s + stores t - stores (thrs s i)"
  by (cases i) (simp_all add: total_def)

lemma total_others [simp]: "total (s\<lparr>glob := g\<rparr>) = total s" "total (s\<lparr>printed := p\<rparr>) = total s"
    "total (s\<lparr>glob := g, thrs := f\<rparr>) = total (s\<lparr>thrs := f\<rparr>)" "total (s\<lparr>printed := p, thrs := f\<rparr>) = total (s\<lparr>thrs := f\<rparr>)"
    "total (s\<lparr>thrs := f, glob := g\<rparr>) = total (s\<lparr>thrs := f\<rparr>)" "total (s\<lparr>thrs := f, printed := p\<rparr>) = total (s\<lparr>thrs := f\<rparr>)"
  by (simp_all add: total_def)

lemma store_bound:
  assumes "incr_inv loop s" "2 * loop \<le> INT_MAX" "t_pc (thrs s i) = T_Store"
  shows "to_int32 (t_loc (thrs s i) + 1) = t_loc (thrs s i) + 1"
proof (rule no_overflow)
  have ok: "thr_ok loop (glob s) (total s) (thrs s k)" for k using assms(1) by (simp add: incr_inv_def)
  show "0 \<le> t_loc (thrs s i)" using ok [of i] assms(3) by (simp add: thr_ok_def)
  have "stores (thrs s i) + 1 \<le> max 0 loop" "t_loc (thrs s i) \<le> total s" using ok [of i] assms(3) by (simp_all add: thr_ok_def stores_def)
  moreover have "stores (thrs s (\<not> i)) \<le> max 0 loop"
    using ok [of "\<not> i"] by (simp add: thr_ok_def stores_def split: if_splits)
  moreover have "total s = stores (thrs s i) + stores (thrs s (\<not> i))" by (cases i) (simp_all add: total_def)
  ultimately show "t_loc (thrs s i) < INT_MAX" using assms(2) by linarith
qed

text \<open>A step of one thread keeps the invariant when its own part is kept and nothing is taken from the other.\<close>

lemma incr_inv_update:
  assumes "incr_inv loop s" "s' = s\<lparr>glob := g, printed := p, thrs := (thrs s)(i := t)\<rparr>"
    and "0 \<le> g" "g \<le> total s'" "stores (thrs s i) \<le> stores t" "1 \<le> glob s \<Longrightarrow> 1 \<le> g"
    and "thr_ok loop g (total s') t" "g \<le> 1 \<Longrightarrow> stores t \<le> 1 \<or> glob s \<le> 1 \<and> stores t = stores (thrs s i)"
  shows "incr_inv loop s'"
proof -
  have t: "total s \<le> total s'" using assms(2,5) by (cases i) (simp_all add: total_def)
  have "thr_ok loop g (total s') (thrs s' k)" for k
    using assms(1,2,6,7) thr_ok_mono [OF _ t, of loop "glob s" "thrs s k" g] by (auto simp: incr_inv_def)
  moreover have "\<exists>k. stores (thrs s' k) \<le> 1" if "g \<le> 1"
  proof (cases "stores t \<le> 1")
    case True
    then show ?thesis using assms(2) by (intro exI [of _ i]) simp
  next
    case False
    then have g: "\<not> stores (thrs s i) \<le> 1" "glob s \<le> 1" using assms(8) [OF that] by auto
    with assms(1) have "\<exists>k. stores (thrs s k) \<le> 1" unfolding incr_inv_def by blast
    then obtain k where k: "stores (thrs s k) \<le> 1" ..
    then have "k \<noteq> i" using g(1) by (rule_tac notI) simp
    then have "thrs s' k = thrs s k" using assms(2) by simp
    with k show ?thesis by (intro exI [of _ k]) simp
  qed
  ultimately show ?thesis using assms(2-4) by (simp add: incr_inv_def)
qed

lemma thread_step_inv:
  assumes "incr_inv loop s" "2 * loop \<le> INT_MAX" "thread_step loop i s = Some s'"
  shows "incr_inv loop s'"
  using assms(3)
proof (cases rule: thread_stepE)
  case load
  let ?t = "(thrs s i)\<lparr>t_loc := glob s, t_pc := T_Store\<rparr>"
  have ok: "thr_ok loop (glob s) (total s) (thrs s i)" "0 \<le> glob s" "glob s \<le> total s" using assms(1) by (simp_all add: incr_inv_def)
  have st: "stores ?t = stores (thrs s i)" using load by (simp add: stores_def)
  have s': "s' = s\<lparr>glob := glob s, printed := printed s, thrs := (thrs s)(i := ?t)\<rparr>" using load(3) by simp
  have tot: "total s' = total s" using load(3) st by (simp add: total_update)
  have "thr_ok loop (glob s) (total s') ?t" using ok load(1,2) tot by (auto simp: thr_ok_def stores_def)
  then show ?thesis using incr_inv_update [OF assms(1) s'] ok tot st by simp
next
  case store
  let ?l = "t_loc (thrs s i)"
  let ?t = "(thrs s i)\<lparr>t_loc := ?l + 1, t_pc := T_Print\<rparr>"
  have ok: "thr_ok loop (glob s) (total s) (thrs s i)" using assms(1) by (simp add: incr_inv_def)
  have st: "stores ?t = stores (thrs s i) + 1" using store by (simp add: stores_def)
  have s': "s' = s\<lparr>glob := ?l + 1, printed := printed s, thrs := (thrs s)(i := ?t)\<rparr>"
    using store(2) store_bound [OF assms(1,2) store(1)] by simp
  have tot: "total s' = total s + 1"
    using store(2) store_bound [OF assms(1,2) store(1)] st by (simp add: total_update)
  have l: "0 \<le> ?l" "?l \<le> total s" "1 \<le> t_j (thrs s i) \<Longrightarrow> 1 \<le> ?l" using ok store(1) by (simp_all add: thr_ok_def)
  have "thr_ok loop (?l + 1) (total s') ?t" using ok store(1) l by (auto simp: thr_ok_def stores_def)
  moreover have "stores ?t \<le> 1" if "?l + 1 \<le> 1"
    using that l(1) l(3) store(1) by (cases "1 \<le> t_j (thrs s i)") (auto simp: stores_def)
  ultimately show ?thesis using incr_inv_update [OF assms(1) s'] l tot st by simp
next
  case print
  let ?t = "(thrs s i)\<lparr>t_j := t_j (thrs s i) + 1, t_pc := T_Load\<rparr>"
  have ok: "thr_ok loop (glob s) (total s) (thrs s i)" "0 \<le> glob s" "glob s \<le> total s" using assms(1) by (simp_all add: incr_inv_def)
  have st: "stores ?t = stores (thrs s i)" using print by (simp add: stores_def)
  have s': "s' = s\<lparr>glob := glob s, printed := printed s @ [(i, glob s)], thrs := (thrs s)(i := ?t)\<rparr>" using print(2) by simp
  have tot: "total s' = total s" using print(2) st by (simp add: total_update)
  have "thr_ok loop (glob s) (total s') ?t" using ok print(1) tot st by (auto simp: thr_ok_def stores_def)
  then show ?thesis using incr_inv_update [OF assms(1) s'] ok tot st by simp
qed

lemma incr_steps_inv:
  "(incr_step loop)\<^sup>*\<^sup>* s s' \<Longrightarrow> 2 * loop \<le> INT_MAX \<Longrightarrow> incr_inv loop s \<Longrightarrow> incr_inv loop s'"
  by (induction rule: rtranclp_induct) (auto simp: incr_step_def intro: thread_step_inv)

text \<open>A thread that runs alone.\<close>

definition alone :: "int \<Rightarrow> bool \<Rightarrow> incr \<Rightarrow> incr \<Rightarrow> bool" where
  "alone loop i s s' \<longleftrightarrow> thread_step loop i s = Some s'"

lemma alone_incr: "(alone loop i)\<^sup>*\<^sup>* s s' \<Longrightarrow> (incr_step loop)\<^sup>*\<^sup>* s s'"
  by (induction rule: rtranclp_induct) (auto simp: alone_def incr_step_def intro: rtranclp.rtrancl_into_rtrancl)

definition at_round :: "incr \<Rightarrow> bool \<Rightarrow> int \<Rightarrow> bool" where
  "at_round s i j \<longleftrightarrow> t_pc (thrs s i) = T_Load \<and> t_j (thrs s i) = j"

lemma one_round:
  assumes "at_round s i j" "j < loop" "0 \<le> glob s" "glob s < INT_MAX"
  shows "\<exists>s'. (alone loop i)\<^sup>*\<^sup>* s s' \<and> glob s' = glob s + 1 \<and> at_round s' i (j + 1) \<and> thrs s' (\<not> i) = thrs s (\<not> i)"
proof -
  let ?s1 = "s\<lparr>thrs := (thrs s)(i := (thrs s i)\<lparr>t_loc := glob s, t_pc := T_Store\<rparr>)\<rparr>"
  have 1: "alone loop i s ?s1" using assms by (simp add: alone_def thread_step_def at_round_def)
  let ?s2 = "s\<lparr>glob := glob s + 1, thrs := (thrs s)(i := (thrs s i)\<lparr>t_loc := glob s + 1, t_pc := T_Print\<rparr>)\<rparr>"
  have 2: "alone loop i ?s1 ?s2" using no_overflow [OF assms(3,4)] by (simp add: alone_def thread_step_def Let_def)
  let ?s3 = "?s2\<lparr>printed := printed s @ [(i, glob s + 1)],
    thrs := (thrs s)(i := (thrs s i)\<lparr>t_loc := glob s + 1, t_j := j + 1, t_pc := T_Load\<rparr>)\<rparr>"
  have 3: "alone loop i ?s2 ?s3" using assms(1) by (simp add: alone_def thread_step_def at_round_def)
  have "(alone loop i)\<^sup>*\<^sup>* s ?s3" using 1 2 3 by (meson converse_rtranclp_into_rtranclp r_into_rtranclp)
  then show ?thesis by (intro exI [of _ ?s3]) (simp add: at_round_def)
qed

lemma many_rounds:
  assumes "at_round s i j" "j + int k \<le> loop" "0 \<le> glob s" "glob s + int k \<le> INT_MAX"
  shows "\<exists>s'. (alone loop i)\<^sup>*\<^sup>* s s' \<and> glob s' = glob s + int k \<and> at_round s' i (j + int k) \<and> thrs s' (\<not> i) = thrs s (\<not> i)"
  using assms
proof (induction k arbitrary: s j)
  case (Suc k)
  obtain s1 where s1: "(alone loop i)\<^sup>*\<^sup>* s s1" "glob s1 = glob s + 1" "at_round s1 i (j + 1)" "thrs s1 (\<not> i) = thrs s (\<not> i)"
    using one_round [of s i j loop] Suc.prems by auto
  obtain s2 where s2: "(alone loop i)\<^sup>*\<^sup>* s1 s2" "glob s2 = glob s1 + int k" "at_round s2 i (j + 1 + int k)"
      "thrs s2 (\<not> i) = thrs s1 (\<not> i)"
    using Suc.IH [of s1 "j + 1"] s1 Suc.prems by auto
  have "(alone loop i)\<^sup>*\<^sup>* s s2" using s1(1) s2(1) by (rule rtranclp_trans)
  then show ?case using s1 s2 by (intro exI [of _ s2]) (simp add: algebra_simps)
qed auto

text \<open>The run of one thread after the other, and the worst one: the first thread loads 0 and stops, the other does
  all but its last round, the first stores 1, the other loads it, the first does its other
  rounds, and the other stores 2.\<close>

lemma start_at_round: "at_round incr_start i 0"
  by (simp add: at_round_def incr_start_def)

lemma at_round_joined: "at_round s True loop \<Longrightarrow> at_round s False loop \<Longrightarrow> joined loop s"
  by (auto simp: joined_def at_round_def) (metis (full_types) order_refl)+

lemma at_round_other: "at_round s (\<not> i) j \<Longrightarrow> thrs s' (\<not> i) = thrs s (\<not> i) \<Longrightarrow> at_round s' (\<not> i) j"
  by (simp add: at_round_def)

lemma sequential_run:
  assumes "0 \<le> loop" "2 * loop \<le> INT_MAX"
  shows "\<exists>s. (incr_step loop)\<^sup>*\<^sup>* incr_start s \<and> joined loop s \<and> glob s = 2 * loop"
proof -
  obtain s1 where s1: "(alone loop True)\<^sup>*\<^sup>* incr_start s1" "glob s1 = loop" "at_round s1 True loop" "thrs s1 False = thrs incr_start False"
    using many_rounds [OF start_at_round, of "nat loop" loop True] assms by (auto simp: incr_start_def)
  have "at_round s1 False 0" using start_at_round s1(4) by (simp add: at_round_def)
  then obtain s2 where s2: "(alone loop False)\<^sup>*\<^sup>* s1 s2" "glob s2 = 2 * loop" "at_round s2 False loop" "thrs s2 True = thrs s1 True"
    using many_rounds [of s1 False 0 "nat loop" loop] s1(2) assms by auto
  have "at_round s2 True loop" using s1(3) s2(4) by (simp add: at_round_def)
  then show ?thesis
    using at_round_joined s2(2,3) alone_incr [OF s1(1)] alone_incr [OF s2(1)] by (meson rtranclp_trans)
qed

lemma load_step:
  assumes "at_round s i j" "j < loop"
  shows "alone loop i s (s\<lparr>thrs := (thrs s)(i := (thrs s i)\<lparr>t_loc := glob s, t_pc := T_Store\<rparr>)\<rparr>)"
  using assms by (simp add: alone_def thread_step_def at_round_def)

lemma store_and_print:
  assumes "t_pc (thrs s i) = T_Store" "t_j (thrs s i) = j" "t_loc (thrs s i) = v" "0 \<le> v" "v < INT_MAX"
  shows "\<exists>s'. (alone loop i)\<^sup>*\<^sup>* s s' \<and> glob s' = v + 1 \<and> at_round s' i (j + 1) \<and> thrs s' (\<not> i) = thrs s (\<not> i)"
proof -
  let ?s2 = "s\<lparr>glob := v + 1, thrs := (thrs s)(i := (thrs s i)\<lparr>t_loc := v + 1, t_pc := T_Print\<rparr>)\<rparr>"
  have 2: "alone loop i s ?s2" using assms no_overflow [OF assms(4,5)] by (simp add: alone_def thread_step_def Let_def)
  let ?s3 = "?s2\<lparr>printed := printed s @ [(i, v + 1)],
    thrs := (thrs s)(i := (thrs s i)\<lparr>t_loc := v + 1, t_j := j + 1, t_pc := T_Load\<rparr>)\<rparr>"
  have 3: "alone loop i ?s2 ?s3" using assms by (simp add: alone_def thread_step_def)
  have "(alone loop i)\<^sup>*\<^sup>* s ?s3" using 2 3 by (meson converse_rtranclp_into_rtranclp r_into_rtranclp)
  then show ?thesis by (intro exI [of _ ?s3]) (simp add: at_round_def)
qed

lemma worst_run:
  assumes "2 \<le> loop" "loop \<le> INT_MAX"
  shows "\<exists>s. (incr_step loop)\<^sup>*\<^sup>* incr_start s \<and> joined loop s \<and> glob s = 2"
proof -
  define k where "k = nat (loop - 1)"
  have k: "int k = loop - 1" using assms by (simp add: k_def)
  let ?a = "incr_start\<lparr>thrs := (thrs incr_start)(True := (thrs incr_start True)\<lparr>t_loc := glob incr_start, t_pc := T_Store\<rparr>)\<rparr>"
  have a: "alone loop True incr_start ?a" using load_step [OF start_at_round] assms(1) by simp
  have "at_round ?a False 0" "glob ?a = 0" by (simp_all add: at_round_def incr_start_def)
  then obtain b where b: "(alone loop False)\<^sup>*\<^sup>* ?a b" "at_round b False (loop - 1)" "thrs b True = thrs ?a True"
    using many_rounds [of ?a False 0 k loop] k assms by auto
  have "t_pc (thrs b True) = T_Store" "t_j (thrs b True) = 0" "t_loc (thrs b True) = 0"
    using b(3) by (simp_all add: incr_start_def)
  then obtain c where c: "(alone loop True)\<^sup>*\<^sup>* b c" "glob c = 1" "at_round c True 1" "thrs c False = thrs b False"
    using store_and_print [of b True 0 0 loop] by auto
  have c': "at_round c False (loop - 1)" using b(2) c(4) by (simp add: at_round_def)
  let ?d = "c\<lparr>thrs := (thrs c)(False := (thrs c False)\<lparr>t_loc := glob c, t_pc := T_Store\<rparr>)\<rparr>"
  have d: "alone loop False c ?d" using load_step [OF c'] by simp
  have "at_round ?d True 1" "glob ?d = 1" using c(2,3) by (simp_all add: at_round_def)
  then obtain e where e: "(alone loop True)\<^sup>*\<^sup>* ?d e" "at_round e True loop" "thrs e False = thrs ?d False"
    using many_rounds [of ?d True 1 k loop] k assms by auto
  have "t_pc (thrs e False) = T_Store" "t_j (thrs e False) = loop - 1" "t_loc (thrs e False) = 1"
    using e(3) c' c(2) by (simp_all add: at_round_def)
  then obtain f where f: "(alone loop False)\<^sup>*\<^sup>* e f" "glob f = 2" "at_round f False loop" "thrs f True = thrs e True"
    using store_and_print [of e False "loop - 1" 1 loop] by auto
  have "at_round f True loop" using e(2) f(4) by (simp add: at_round_def)
  moreover have "(incr_step loop)\<^sup>*\<^sup>* incr_start f"
    using alone_incr [OF r_into_rtranclp [of "alone loop True", OF a]] alone_incr [OF b(1)] alone_incr [OF c(1)]
      alone_incr [OF r_into_rtranclp [of "alone loop False", OF d]] alone_incr [OF e(1)] alone_incr [OF f(1)]
    by (meson rtranclp_trans)
  ultimately show ?thesis using at_round_joined f(2,3) by blast
qed

text \<open>C29: Two threads that each increment the counter \<open>loop\<close> times without a lock, for at least 2 rounds and a doubled number that fits an \<^verbatim>\<open>int\<close>: after every interleaving the counter
  is at least 2 and at most \<open>2 * loop\<close>, and both bounds are reached, the upper one by running the
  threads one after the other. So up to all but two increments can be lost, and not more.\<close>

theorem thread_incr_range:
  assumes "2 \<le> loop" "2 * loop \<le> INT_MAX"
  shows "{glob s | s. (incr_step loop)\<^sup>*\<^sup>* incr_start s \<and> joined loop s} \<subseteq> {2 .. 2 * loop} \<and>
    {2, 2 * loop} \<subseteq> {glob s | s. (incr_step loop)\<^sup>*\<^sup>* incr_start s \<and> joined loop s}"
proof -
  have "2 \<le> glob s \<and> glob s \<le> 2 * loop" if s: "(incr_step loop)\<^sup>*\<^sup>* incr_start s" "joined loop s" for s
  proof -
    have inv: "incr_inv loop s" by (rule incr_steps_inv [OF s(1) assms(2) incr_start_inv])
    have st: "stores (thrs s i) = loop" for i
    proof -
      have "thr_ok loop (glob s) (total s) (thrs s i)" using inv by (simp add: incr_inv_def)
      moreover have "t_pc (thrs s i) = T_Load" "loop \<le> t_j (thrs s i)" using s(2) by (simp_all add: joined_def)
      ultimately show ?thesis using assms(1) by (simp add: thr_ok_def stores_def)
    qed
    have "\<not> glob s \<le> 1" using inv st assms(1) unfolding incr_inv_def by auto
    moreover have "glob s \<le> 2 * loop" using inv st by (simp add: incr_inv_def total_def)
    ultimately show ?thesis by simp
  qed
  then have sub: "{glob s | s. (incr_step loop)\<^sup>*\<^sup>* incr_start s \<and> joined loop s} \<subseteq> {2 .. 2 * loop}" by auto
  obtain s where "(incr_step loop)\<^sup>*\<^sup>* incr_start s" "joined loop s" "2 * loop = glob s"
    using sequential_run [of loop] assms by auto
  moreover obtain s' where "(incr_step loop)\<^sup>*\<^sup>* incr_start s'" "joined loop s'" "2 = glob s'"
    using worst_run [of loop] assms by auto
  ultimately have "2 * loop \<in> {glob s | s. (incr_step loop)\<^sup>*\<^sup>* incr_start s \<and> joined loop s}"
      "2 \<in> {glob s | s. (incr_step loop)\<^sup>*\<^sup>* incr_start s \<and> joined loop s}"
    by blast+
  with sub show ?thesis by blast
qed

theorem thread_incr_range_witness:
  "\<exists>s. (incr_step (incr_loops [''thread_incr''])) \<^sup>*\<^sup>* incr_start s \<and> joined (incr_loops [''thread_incr'']) s \<and> glob s = 2"
proof -
  have "(2::int) \<in> {glob s | s. (incr_step 10000000)\<^sup>*\<^sup>* incr_start s \<and> joined 10000000 s}"
    using thread_incr_range [of 10000000] by simp
  then have "\<exists>s. 2 = glob s \<and> (incr_step 10000000)\<^sup>*\<^sup>* incr_start s \<and> joined 10000000 s" by blast
  then show ?thesis by (simp add: incr_loops_def) metis
qed

subsection \<open>\<^verbatim>\<open>atomic_append.c\<close>\<close>

datatype ap_pc = A_Seek | A_Write | A_Failed

record ap_proc =
  ap_pc :: ap_pc
  ap_off :: nat                               \<comment> \<open>offset of the open file\<close>
  ap_i :: nat

record ap =
  ap_file :: string
  ap_procs :: "bool \<Rightarrow> ap_proc"

text \<open>The arguments: file name, number of bytes, and whether the file is opened without \<^verbatim>\<open>O_APPEND\<close>.\<close>

definition append_args :: "string list \<Rightarrow> (string \<times> int \<times> bool) option" where
  "append_args argv =
     (if length argv < 3 \<or> 4 < length argv \<or> (length argv = 4 \<and> argv ! 3 \<noteq> ''x'') then None
      else Some (argv ! 1, atoi (argv ! 2), length argv = 4))"

text \<open>\<^verbatim>\<open>main\<close> up to the loop: the file, the number of bytes, and whether the offset is set by \<^verbatim>\<open>lseek\<close>.\<close>

definition append_main :: "bool \<Rightarrow> string list \<Rightarrow> (string \<times> nat \<times> bool) run" where
  "append_main open_ok argv =
     (case append_args argv of
        None \<Rightarrow> Exited EXIT_FAILURE
      | Some (file_name, byte_nums, x) \<Rightarrow> if \<not> open_ok then Exited EXIT_FAILURE else Done (file_name, nat byte_nums, x))"

definition put_at :: "nat \<Rightarrow> char \<Rightarrow> string \<Rightarrow> string" where
  "put_at off c f = take off f @ replicate (off - length f) NUL @ c # drop (off + 1) f"

text \<open>One step of process \<open>i\<close>, which writes \<open>n\<close> bytes; \<open>ok\<close> is the answer of the call. With \<^verbatim>\<open>O_APPEND\<close> the
  kernel moves to the end and writes in one step. \<open>None\<close>: the process has ended.\<close>

definition append_step :: "bool \<Rightarrow> nat \<Rightarrow> bool \<Rightarrow> bool \<Rightarrow> ap \<Rightarrow> ap option" where
  "append_step x n ok i s =
     (let p = ap_procs s i; f = ap_file s in
      if ap_pc p = A_Failed \<or> n \<le> ap_i p then None
      else if \<not> ok then Some (s\<lparr>ap_procs := (ap_procs s)(i := p\<lparr>ap_pc := A_Failed\<rparr>)\<rparr>)
      else if \<not> x then
        Some (s\<lparr>ap_file := f @ ''x'', ap_procs := (ap_procs s)(i := p\<lparr>ap_off := length f + 1, ap_i := ap_i p + 1\<rparr>)\<rparr>)
      else if ap_pc p = A_Seek then
        Some (s\<lparr>ap_procs := (ap_procs s)(i := p\<lparr>ap_off := length f, ap_pc := A_Write\<rparr>)\<rparr>)
      else
        Some (s\<lparr>ap_file := put_at (ap_off p) (CHR ''x'') f,
          ap_procs := (ap_procs s)(i := p\<lparr>ap_off := ap_off p + 1, ap_i := ap_i p + 1, ap_pc := A_Seek\<rparr>)\<rparr>))"

definition append_both :: "bool \<Rightarrow> nat \<Rightarrow> ap \<Rightarrow> ap \<Rightarrow> bool" where
  "append_both x n s s' \<longleftrightarrow> (\<exists>i. append_step x n True i s = Some s')"

definition append_start :: "string \<Rightarrow> ap" where
  "append_start f = \<lparr>ap_file = f, ap_procs = \<lambda>_. \<lparr>ap_pc = A_Seek, ap_off = 0, ap_i = 0\<rparr>\<rparr>"

definition append_done :: "nat \<Rightarrow> ap \<Rightarrow> bool" where
  "append_done n s \<longleftrightarrow> (\<forall>i. ap_i (ap_procs s i) = n)"

text \<open>The bytes that have been written are a block of \<^verbatim>\<open>x\<close> behind the old contents.\<close>

definition ap_inv :: "bool \<Rightarrow> string \<Rightarrow> nat \<Rightarrow> ap \<Rightarrow> bool" where
  "ap_inv x f n s \<longleftrightarrow> (\<exists>m. ap_file s = f @ replicate m (CHR ''x'') \<and>
     m \<le> ap_i (ap_procs s True) + ap_i (ap_procs s False) \<and>
     (\<not> x \<longrightarrow> m = ap_i (ap_procs s True) + ap_i (ap_procs s False)) \<and>
     (\<forall>i. ap_i (ap_procs s i) \<le> m \<and> ap_i (ap_procs s i) \<le> n \<and>
        (ap_pc (ap_procs s i) = A_Write \<longrightarrow> x \<and> length f + ap_i (ap_procs s i) \<le> ap_off (ap_procs s i) \<and>
           ap_off (ap_procs s i) \<le> length f + m)))"

lemma put_at_block:
  assumes "k \<le> m"
  shows "put_at (length f + k) c (f @ replicate m c) = f @ replicate (max m (k + 1)) c"
proof (cases "k = m")
  case True
  then show ?thesis by (simp add: put_at_def replicate_append_same [symmetric])
next
  case False
  then have "k < m" using assms by simp
  have "max m (k + 1) = m" using \<open>k < m\<close> by simp
  moreover have "replicate m c = replicate k c @ c # replicate (m - k - 1) c"
    using \<open>k < m\<close> replicate_add [of k "Suc (m - k - 1)" c] by simp
  ultimately show ?thesis using \<open>k < m\<close> by (simp add: put_at_def)
qed

lemma append_stepE:
  assumes "append_step x n True i s = Some s'"
  obtains
    (append) "\<not> x" "ap_i (ap_procs s i) < n"
      "s' = s\<lparr>ap_file := ap_file s @ ''x'',
        ap_procs := (ap_procs s)(i := (ap_procs s i)\<lparr>ap_off := length (ap_file s) + 1, ap_i := ap_i (ap_procs s i) + 1\<rparr>)\<rparr>"
  | (seek) "x" "ap_pc (ap_procs s i) = A_Seek" "ap_i (ap_procs s i) < n"
      "s' = s\<lparr>ap_procs := (ap_procs s)(i := (ap_procs s i)\<lparr>ap_off := length (ap_file s), ap_pc := A_Write\<rparr>)\<rparr>"
  | (put) "x" "ap_pc (ap_procs s i) = A_Write" "ap_i (ap_procs s i) < n"
      "s' = s\<lparr>ap_file := put_at (ap_off (ap_procs s i)) (CHR ''x'') (ap_file s),
        ap_procs := (ap_procs s)(i := (ap_procs s i)\<lparr>ap_off := ap_off (ap_procs s i) + 1,
          ap_i := ap_i (ap_procs s i) + 1, ap_pc := A_Seek\<rparr>)\<rparr>"
  using assms by (cases "ap_pc (ap_procs s i)") (auto simp: append_step_def Let_def split: if_splits)

lemma append_step_inv:
  assumes "ap_inv x f n s" "append_step x n True i s = Some s'"
  shows "ap_inv x f n s'"
proof -
  obtain m where m: "ap_file s = f @ replicate m (CHR ''x'')" "m \<le> ap_i (ap_procs s True) + ap_i (ap_procs s False)"
      "\<not> x \<Longrightarrow> m = ap_i (ap_procs s True) + ap_i (ap_procs s False)"
    and p: "\<And>k. ap_i (ap_procs s k) \<le> m" "\<And>k. ap_i (ap_procs s k) \<le> n"
      "\<And>k. ap_pc (ap_procs s k) = A_Write \<Longrightarrow> x \<and> length f + ap_i (ap_procs s k) \<le> ap_off (ap_procs s k) \<and>
         ap_off (ap_procs s k) \<le> length f + m"
    using assms(1) unfolding ap_inv_def by blast
  from assms(2) show ?thesis
  proof (cases rule: append_stepE)
    case append
    have "ap_file s' = f @ replicate (m + 1) (CHR ''x'')" using m(1) append(3) by (simp add: replicate_append_same)
    moreover have "m + 1 = ap_i (ap_procs s' True) + ap_i (ap_procs s' False)"
      using m(3) append by (cases i) auto
    moreover have "ap_i (ap_procs s' k) \<le> m + 1 \<and> ap_i (ap_procs s' k) \<le> n \<and> ap_pc (ap_procs s' k) \<noteq> A_Write" for k
      using p [of k] append p [of i] by (cases "k = i") (auto simp: le_SucI)
    ultimately show ?thesis unfolding ap_inv_def by (intro exI [of _ "m + 1"]) (metis order_refl)
  next
    case seek
    have same: "ap_i (ap_procs s' k) = ap_i (ap_procs s k)" for k using seek(4) by (cases "k = i") simp_all
    have "ap_pc (ap_procs s' k) = A_Write \<longrightarrow> x \<and> length f + ap_i (ap_procs s' k) \<le> ap_off (ap_procs s' k) \<and>
        ap_off (ap_procs s' k) \<le> length f + m" for k
      using seek(1,4) p [of k] m(1) by (cases "k = i") simp_all
    moreover have "ap_file s' = ap_file s" using seek(4) by simp
    ultimately show ?thesis using m p unfolding ap_inv_def same by (intro exI [of _ m]) simp
  next
    case put
    define k where "k = ap_off (ap_procs s i) - length f"
    have k: "ap_off (ap_procs s i) = length f + k" "ap_i (ap_procs s i) \<le> k" "k \<le> m"
      using p(3) [OF put(2)] by (auto simp: k_def)
    have "ap_file s' = f @ replicate (max m (k + 1)) (CHR ''x'')" using put(4) m(1) k put_at_block [OF k(3), of f] by simp
    moreover have "max m (k + 1) \<le> ap_i (ap_procs s' True) + ap_i (ap_procs s' False)"
      using m(2) put(4) k by (cases i) auto
    moreover have "ap_i (ap_procs s' j) \<le> max m (k + 1) \<and> ap_i (ap_procs s' j) \<le> n \<and>
        (ap_pc (ap_procs s' j) = A_Write \<longrightarrow> x \<and> length f + ap_i (ap_procs s' j) \<le> ap_off (ap_procs s' j) \<and>
           ap_off (ap_procs s' j) \<le> length f + max m (k + 1))" for j
      using p [of j] put k by (cases "j = i") (auto simp: le_max_iff_disj)
    ultimately show ?thesis using put(1) unfolding ap_inv_def by (intro exI [of _ "max m (k + 1)"]) blast
  qed
qed

lemma append_steps_inv: "(append_both x n)\<^sup>*\<^sup>* s s' \<Longrightarrow> ap_inv x f n s \<Longrightarrow> ap_inv x f n s'"
  by (induction rule: rtranclp_induct) (auto simp: append_both_def intro: append_step_inv)

lemma append_start_inv: "ap_inv x f n (append_start f)"
  unfolding ap_inv_def by (intro exI [of _ 0]) (simp add: append_start_def)

text \<open>The two processes in step: both seek, then both write at the same offset.\<close>

definition in_step :: "string \<Rightarrow> nat \<Rightarrow> ap \<Rightarrow> bool" where
  "in_step f k s \<longleftrightarrow> ap_file s = f @ replicate k (CHR ''x'') \<and> (\<forall>i. ap_pc (ap_procs s i) = A_Seek \<and> ap_i (ap_procs s i) = k)"

lemma in_step_round:
  assumes "in_step f k s" "k < n"
  shows "\<exists>s'. (append_both True n)\<^sup>*\<^sup>* s s' \<and> in_step f (Suc k) s'"
proof -
  let ?l = "length f + k"
  let ?p = "\<lparr>ap_pc = A_Write, ap_off = ?l, ap_i = k\<rparr>"
  let ?q = "\<lparr>ap_pc = A_Seek, ap_off = ?l + 1, ap_i = k + 1\<rparr>"
  let ?s1 = "s\<lparr>ap_procs := (ap_procs s)(True := ?p)\<rparr>"
  let ?s2 = "s\<lparr>ap_procs := (ap_procs s)(True := ?p, False := ?p)\<rparr>"
  let ?f' = "f @ replicate (Suc k) (CHR ''x'')"
  let ?s3 = "s\<lparr>ap_file := ?f', ap_procs := (ap_procs s)(True := ?q, False := ?p)\<rparr>"
  let ?s4 = "s\<lparr>ap_file := ?f', ap_procs := (ap_procs s)(True := ?q, False := ?q)\<rparr>"
  have p: "ap_pc (ap_procs s i) = A_Seek" "ap_i (ap_procs s i) = k" for i using assms by (simp_all add: in_step_def)
  have w1: "put_at ?l (CHR ''x'') (f @ replicate k (CHR ''x'')) = ?f'" using put_at_block [of k k f] by (simp del: replicate_Suc)
  have w2: "put_at ?l (CHR ''x'') ?f' = ?f'" using put_at_block [of k "Suc k" f] by (simp del: replicate_Suc)
  have rec: "(ap_procs s i)\<lparr>ap_off := ?l, ap_pc := A_Write\<rparr> = ?p" for i using p(2) [of i] by simp
  have "append_step True n True True s = Some ?s1"
    using assms by (simp add: append_step_def p in_step_def rec)
  moreover have "append_step True n True False ?s1 = Some ?s2"
    using assms by (simp add: append_step_def p in_step_def rec)
  moreover have "append_step True n True True ?s2 = Some ?s3"
    using assms w1 by (simp add: append_step_def Let_def in_step_def del: replicate_Suc) (simp add: fun_upd_twist)
  moreover have "append_step True n True False ?s3 = Some ?s4"
    using assms w2 by (simp add: append_step_def Let_def del: replicate_Suc)
  ultimately have "append_both True n s ?s1" "append_both True n ?s1 ?s2" "append_both True n ?s2 ?s3" "append_both True n ?s3 ?s4"
    unfolding append_both_def by blast+
  then have "(append_both True n)\<^sup>*\<^sup>* s ?s4" by (meson converse_rtranclp_into_rtranclp r_into_rtranclp)
  moreover have "in_step f (Suc k) ?s4" by (simp add: in_step_def del: replicate_Suc)
  ultimately show ?thesis by blast
qed

lemma in_step_run: "k \<le> n \<Longrightarrow> \<exists>s. (append_both True n)\<^sup>*\<^sup>* (append_start f) s \<and> in_step f k s"
proof (induction k)
  case 0
  then show ?case by (intro exI [of _ "append_start f"]) (simp add: in_step_def append_start_def)
next
  case (Suc k)
  then obtain s where "(append_both True n)\<^sup>*\<^sup>* (append_start f) s" "in_step f k s" by auto
  with in_step_round [of f k s n] Suc.prems show ?case by (meson Suc_le_lessD rtranclp_trans)
qed

text \<open>C30: Two processes that each append \<open>n\<close> bytes to a file: opened with \<^verbatim>\<open>O_APPEND\<close>, every interleaving leaves the old
  contents and \<open>2 * n\<close> new bytes; with \<^verbatim>\<open>lseek\<close> before each \<^verbatim>\<open>write\<close>, the old contents stay but between
  \<open>n\<close> and \<open>2 * n\<close> bytes are added, and runs that lose half of all bytes exist.\<close>

theorem append_sizes:
  assumes "append_done n s" "(append_both x n)\<^sup>*\<^sup>* (append_start f) s"
  shows "(\<exists>m. ap_file s = f @ replicate m (CHR ''x'') \<and> n \<le> m \<and> m \<le> 2 * n \<and> (if x then True else m = 2 * n)) \<and>
    (\<exists>t. (append_both True n)\<^sup>*\<^sup>* (append_start f) t \<and> append_done n t \<and> ap_file t = f @ replicate n (CHR ''x''))"
proof -
  have "ap_inv x f n s" using append_steps_inv [OF assms(2) append_start_inv] .
  then obtain m where m: "ap_file s = f @ replicate m (CHR ''x'')" "m \<le> ap_i (ap_procs s True) + ap_i (ap_procs s False)"
      "\<not> x \<Longrightarrow> m = ap_i (ap_procs s True) + ap_i (ap_procs s False)" "\<And>i. ap_i (ap_procs s i) \<le> m"
    unfolding ap_inv_def by blast
  have n: "ap_i (ap_procs s i) = n" for i using assms(1) by (simp add: append_done_def)
  have 1: "\<exists>m. ap_file s = f @ replicate m (CHR ''x'') \<and> n \<le> m \<and> m \<le> 2 * n \<and> (if x then True else m = 2 * n)"
    using m n by (intro exI [of _ m]) auto
  obtain t where "(append_both True n)\<^sup>*\<^sup>* (append_start f) t" "in_step f n t" using in_step_run [of n n f] by auto
  then have "\<exists>t. (append_both True n)\<^sup>*\<^sup>* (append_start f) t \<and> append_done n t \<and> ap_file t = f @ replicate n (CHR ''x'')"
    by (intro exI [of _ t]) (simp add: in_step_def append_done_def)
  with 1 show ?thesis by blast
qed

theorem append_sizes_witness:
  "\<exists>s. (append_both True 3)\<^sup>*\<^sup>* (append_start ''ab'') s \<and> ap_file s = ''abxxx''"
proof -
  obtain s where s: "(append_both True 3)\<^sup>*\<^sup>* (append_start ''ab'') s" "in_step ''ab'' 3 s"
    using in_step_run [of 3 3 "''ab''"] by auto
  then have "append_done 3 s" by (simp add: in_step_def append_done_def)
  from append_sizes [OF this s(1)] show ?thesis by (auto simp: eval_nat_numeral)
qed

subsection \<open>\<^verbatim>\<open>fork_sem_sync.c\<close>\<close>

datatype child_pc = C_Started | C_About | C_Semop | C_Gone | C_Failed
datatype parent_pc = P_About | P_Semop | P_Got | P_Gone | P_Failed

datatype sync_msg = Child_started | Child_about | Parent_waits | Parent_got

record sync =
  sync_sem :: nat
  c_pc :: child_pc
  p_pc :: parent_pc
  sync_out :: "sync_msg list"                 \<comment> \<open>messages on the terminal, in order\<close>

text \<open>The answer \<open>ok\<close> is that of \<^verbatim>\<open>semop\<close>. \<open>None\<close>: the process waits or has ended. The operation of the child
  takes one unit; that of the parent, with operand 0, waits until the value is 0.\<close>

definition sync_child :: "bool \<Rightarrow> sync \<Rightarrow> sync option" where
  "sync_child ok s =
     (case c_pc s of
        C_Started \<Rightarrow> Some (s\<lparr>sync_out := sync_out s @ [Child_started], c_pc := C_About\<rparr>)
      | C_About \<Rightarrow> Some (s\<lparr>sync_out := sync_out s @ [Child_about], c_pc := C_Semop\<rparr>)
      | C_Semop \<Rightarrow> if \<not> ok then Some (s\<lparr>c_pc := C_Failed\<rparr>)
                   else if sync_sem s = 0 then None
                   else Some (s\<lparr>sync_sem := sync_sem s - 1, c_pc := C_Gone\<rparr>)
      | _ \<Rightarrow> None)"

definition sync_parent :: "bool \<Rightarrow> sync \<Rightarrow> sync option" where
  "sync_parent ok s =
     (case p_pc s of
        P_About \<Rightarrow> Some (s\<lparr>sync_out := sync_out s @ [Parent_waits], p_pc := P_Semop\<rparr>)
      | P_Semop \<Rightarrow> if \<not> ok then Some (s\<lparr>p_pc := P_Failed\<rparr>)
                   else if sync_sem s \<noteq> 0 then None
                   else Some (s\<lparr>p_pc := P_Got\<rparr>)
      | P_Got \<Rightarrow> Some (s\<lparr>sync_out := sync_out s @ [Parent_got], p_pc := P_Gone\<rparr>)
      | _ \<Rightarrow> None)"

text \<open>The start of the program, up to \<^verbatim>\<open>fork\<close>.\<close>

definition sync_start :: "bool \<Rightarrow> bool \<Rightarrow> bool \<Rightarrow> sync run" where
  "sync_start semget_ok semctl_ok fork_ok =
     (if \<not> semget_ok then Exited EXIT_FAILURE
      else if \<not> semctl_ok then Exited EXIT_FAILURE
      else if \<not> fork_ok then Exited EXIT_FAILURE
      else Done \<lparr>sync_sem = 1, c_pc = C_Started, p_pc = P_About, sync_out = []\<rparr>)"

definition sync_step :: "sync \<Rightarrow> sync \<Rightarrow> bool" where
  "sync_step s s' \<longleftrightarrow> sync_child True s = Some s' \<or> sync_parent True s = Some s'"

definition sync_end :: "sync \<Rightarrow> bool" where
  "sync_end s \<longleftrightarrow> c_pc s = C_Gone \<and> p_pc s = P_Gone"

text \<open>The messages of each process are in its own order, and the last of the parent comes last.\<close>

definition sync_inv :: "sync \<Rightarrow> bool" where
  "sync_inv s \<longleftrightarrow> sync_sem s = (if c_pc s = C_Gone then 0 else 1) \<and> c_pc s \<noteq> C_Failed \<and> p_pc s \<noteq> P_Failed \<and>
     filter (\<lambda>m. m \<in> {Child_started, Child_about}) (sync_out s) =
       (case c_pc s of C_Started \<Rightarrow> [] | C_About \<Rightarrow> [Child_started] | _ \<Rightarrow> [Child_started, Child_about]) \<and>
     (p_pc s \<in> {P_Got, P_Gone} \<longrightarrow> c_pc s = C_Gone) \<and>
     (p_pc s = P_Gone \<longrightarrow> sync_out s \<noteq> [] \<and> last (sync_out s) = Parent_got) \<and>
     (p_pc s \<noteq> P_Gone \<longrightarrow> Parent_got \<notin> set (sync_out s))"

fun child_rank :: "child_pc \<Rightarrow> nat" where
  "child_rank C_Started = 3" | "child_rank C_About = 2" | "child_rank C_Semop = 1" | "child_rank _ = 0"

fun parent_rank :: "parent_pc \<Rightarrow> nat" where
  "parent_rank P_About = 3" | "parent_rank P_Semop = 2" | "parent_rank P_Got = 1" | "parent_rank _ = 0"

lemma sync_step_inv: "sync_inv s \<Longrightarrow> sync_step s s' \<Longrightarrow> sync_inv s'"
proof -
  assume inv: "sync_inv s" and "sync_step s s'"
  then consider (c) "sync_child True s = Some s'" | (p) "sync_parent True s = Some s'" by (auto simp: sync_step_def)
  then show ?thesis
  proof cases
    case c
    with inv show ?thesis by (cases "c_pc s") (auto simp: sync_child_def sync_inv_def split: if_splits)
  next
    case p
    with inv show ?thesis by (cases "p_pc s") (auto simp: sync_parent_def sync_inv_def split: if_splits)
  qed
qed

lemma sync_rank: "sync_step s s' \<Longrightarrow> child_rank (c_pc s') + parent_rank (p_pc s') < child_rank (c_pc s) + parent_rank (p_pc s)"
  unfolding sync_step_def
  by (elim disjE; cases "c_pc s"; cases "p_pc s"; auto simp: sync_child_def sync_parent_def split: if_splits)

lemma sync_progress: "sync_inv s \<Longrightarrow> \<not> sync_end s \<Longrightarrow> \<exists>s'. sync_step s s'"
  unfolding sync_step_def
  by (cases "c_pc s"; cases "p_pc s") (auto simp: sync_child_def sync_parent_def sync_inv_def sync_end_def)

interpretation sync: terminating_system "\<lambda>s. sync_start True True True = Done s" sync_step sync_inv sync_end
  "\<lambda>s. child_rank (c_pc s) + parent_rank (p_pc s)"
  by unfold_locales
    (auto simp: sync_start_def sync_inv_def[of "\<lparr>sync_sem = _, c_pc = _, p_pc = _, sync_out = _\<rparr>"]
      intro: sync_step_inv sync_rank sync_progress)

text \<open>The parent gets its signal last: in every state that \<^verbatim>\<open>fork_sem_sync\<close> can reach, once the message that the parent
  got the signal is out, both messages of the child came before it; a state in which neither
  process can go on is the end of both, and it is reached after at most six steps.\<close>

theorem fork_sem_order:
  assumes "sync_start semget_ok semctl_ok fork_ok = Done s0" "sync_step\<^sup>*\<^sup>* s0 s"
  shows "(if Parent_got \<in> set (sync_out s)
      then \<exists>pre. sync_out s = pre @ [Parent_got] \<and> {Child_started, Child_about} \<subseteq> set pre else True) \<and>
    (if \<exists>t. sync_step s t then True else sync_end s \<and> Parent_got \<in> set (sync_out s)) \<and>
    (\<forall>k t. (sync_step ^^ k) s0 t \<longrightarrow> k \<le> 6)"
proof -
  have init: "sync_start True True True = Done s0" using assms(1) by (simp add: sync_start_def split: if_splits)
  then have inv0: "sync_inv s0" by (rule sync.inv_init)
  have inv: "sync_inv s" by (rule sync.inv_steps [OF assms(2) inv0])
  have bound: "k \<le> 6" if "(sync_step ^^ k) s0 t" for k t
    using sync.bounded_run [OF inv0 that] init by (auto simp: sync_start_def)
  have order: "\<exists>pre. sync_out s = pre @ [Parent_got] \<and> {Child_started, Child_about} \<subseteq> set pre"
    if "Parent_got \<in> set (sync_out s)"
  proof -
    have gone: "p_pc s = P_Gone" using inv that by (auto simp: sync_inv_def)
    then obtain pre where pre: "sync_out s = pre @ [Parent_got]"
      using inv by (metis append_butlast_last_id sync_inv_def)
    moreover have "filter (\<lambda>m. m \<in> {Child_started, Child_about}) (sync_out s) = [Child_started, Child_about]"
      using inv gone by (simp add: sync_inv_def)
    then have "set (filter (\<lambda>m. m \<in> {Child_started, Child_about}) pre) = {Child_started, Child_about}"
      using pre by simp
    then have "{Child_started, Child_about} \<subseteq> set pre" by auto
    ultimately show ?thesis by blast
  qed
  have "sync_end s \<and> Parent_got \<in> set (sync_out s)" if "\<nexists>t. sync_step s t"
  proof -
    have "sync_end s" using sync.progress [OF inv] that by blast
    then show ?thesis using inv by (metis last_in_set sync_end_def sync_inv_def)
  qed
  with bound order show ?thesis by auto
qed

theorem fork_sem_order_witness:
  "\<exists>s0. sync_start True True True = Done s0 \<and> (\<forall>k t. (sync_step ^^ k) s0 t \<longrightarrow> k \<le> 6)"
proof -
  obtain s0 where "sync_start True True True = Done s0" by (simp add: sync_start_def)
  then show ?thesis using fork_sem_order [of True True True s0 s0] by blast
qed

end
