(* ===== verification/Accounts.thy ===== *)
theory Accounts
  imports C_Lib
begin

text \<open>
  Users, groups and credentials: \<^verbatim>\<open>my_getpwnam.c\<close> (Section 8), \<^verbatim>\<open>my_initgroups.c\<close> (Section 9) and \<^verbatim>\<open>douser.c\<close>
  (Section 38). \<^verbatim>\<open>getpwent\<close> and \<^verbatim>\<open>getgrent\<close> deliver the entries of their file one after the other,
  so their state is the list of entries still to come. The theorems describe what successive calls
  return, the groups a process gets, and when \<^verbatim>\<open>douser\<close> runs a program under which identity.
\<close>

record passwd =
  pw_name :: string
  pw_passwd :: string
  pw_uid :: int
  pw_gid :: int

subsection \<open>\<^verbatim>\<open>my_getpwnam.c\<close>\<close>

text \<open>The entries still to come are the state; it is not reset.\<close>

fun my_getpwnam :: "string \<Rightarrow> passwd list \<Rightarrow> passwd option \<times> passwd list" where
  "my_getpwnam name [] = (None, [])"
| "my_getpwnam name (pwd # rest) = (if pw_name pwd = name then (Some pwd, rest) else my_getpwnam name rest)"

definition getpwnam_main :: "passwd list \<Rightarrow> (string \<times> int) run" where
  "getpwnam_main es =
     (case fst (my_getpwnam ''chenbangduo'' es) of
        None \<Rightarrow> Faulted NullDeref
      | Some pwd \<Rightarrow> Done (dec_int (pw_uid pwd) @ [newline], 0))"

lemma my_getpwnam_find: "fst (my_getpwnam name es) = find (\<lambda>p. pw_name p = name) es"
  by (induction es) auto

lemma my_getpwnam_rest:
  "my_getpwnam name es = (r, rest) \<Longrightarrow>
     (case r of None \<Rightarrow> rest = [] \<and> name \<notin> pw_name ` set es
      | Some p \<Rightarrow> pw_name p = name \<and> (\<exists>pre. es = pre @ p # rest \<and> name \<notin> pw_name ` set pre))"
proof (induction es)
  case (Cons e es)
  show ?case
  proof (cases "pw_name e = name")
    case True
    then show ?thesis using Cons.prems by auto
  next
    case False
    then have "my_getpwnam name es = (r, rest)" using Cons.prems by simp
    from Cons.IH [OF this] False show ?thesis
      by (auto split: option.splits)
  qed
qed auto

text \<open>With one entry per name, a second call finds a name only when its entry is behind that of the first; the same
  name is never found twice.\<close>

lemma getpwnam_successive:
  assumes "distinct (map pw_name es)" "my_getpwnam a es = (Some p, rest)"
  shows "fst (my_getpwnam a rest) = None \<and> (fst (my_getpwnam b rest) = Some q \<longrightarrow> (\<exists>xs ys zs. es = xs @ p # ys @ q # zs))"
proof -
  obtain pre where pre: "es = pre @ p # rest" "pw_name p = a" using my_getpwnam_rest [OF assms(2)] by auto
  then have "a \<notin> pw_name ` set rest" using assms(1) by auto
  then have "fst (my_getpwnam a rest) = None" by (auto simp: my_getpwnam_find find_None_iff)
  moreover have "\<exists>xs ys zs. es = xs @ p # ys @ q # zs" if "fst (my_getpwnam b rest) = Some q"
  proof -
    from that have "my_getpwnam b rest = (Some q, snd (my_getpwnam b rest))" by (simp add: prod_eq_iff)
    from my_getpwnam_rest [OF this] obtain ys where "rest = ys @ q # snd (my_getpwnam b rest)" by auto
    with pre(1) show ?thesis by metis
  qed
  ultimately show ?thesis by blast
qed

subsection \<open>\<^verbatim>\<open>my_initgroups.c\<close>\<close>

record grp =
  gr_gid :: int
  gr_mem :: "string list"

record groups =
  grouplist :: "int list"                     \<comment> \<open>the first \<^verbatim>\<open>grouplist_size\<close> elements\<close>
  gr_rest :: "grp list"                       \<comment> \<open>what \<^verbatim>\<open>getgrent\<close> has still to deliver\<close>
  proc_groups :: "int list"                   \<comment> \<open>supplementary groups of the process\<close>

abbreviation (input) NGROUPS_MAX :: nat where "NGROUPS_MAX \<equiv> 65536"

definition add_group :: "int \<Rightarrow> groups \<Rightarrow> groups run" where
  "add_group g s =
     (if length (grouplist s) < NGROUPS_MAX + 1 then Done (s\<lparr>grouplist := grouplist s @ [g]\<rparr>) else Faulted OutOfBounds)"

text \<open>The loop over the members of one group ends at the first that matches.\<close>

fun is_member :: "string \<Rightarrow> string list \<Rightarrow> bool" where
  "is_member user [] = False"
| "is_member user (m # ms) = (if m = user then True else is_member user ms)"

fun group_loop :: "string \<Rightarrow> grp list \<Rightarrow> groups \<Rightarrow> groups run" where
  "group_loop user [] s = Done (s\<lparr>gr_rest := []\<rparr>)"
| "group_loop user (g # gs) s =
     (if is_member user (gr_mem g) then run_bind (add_group (gr_gid g) s) (group_loop user gs)
      else group_loop user gs s)"

text \<open>\<^verbatim>\<open>setgroups\<close> needs the privilege and room for the groups.\<close>

definition setgroups :: "bool \<Rightarrow> groups \<Rightarrow> int \<times> groups" where
  "setgroups priv s =
     (if priv \<and> length (grouplist s) \<le> NGROUPS_MAX then (0, s\<lparr>proc_groups := grouplist s\<rparr>) else (- 1, s))"

definition my_initgroups :: "(string \<Rightarrow> passwd option) \<Rightarrow> bool \<Rightarrow> string \<Rightarrow> int \<Rightarrow> groups \<Rightarrow> (int \<times> groups) run" where
  "my_initgroups getpwnam priv user gid s =
     (case getpwnam user of
        None \<Rightarrow> Done (- 1, s)
      | Some user_msg \<Rightarrow>
          run_bind (add_group (pw_gid user_msg) s) (\<lambda>s1.
            run_bind (group_loop user (gr_rest s1) s1) (\<lambda>s2.
              run_bind (add_group gid s2) (\<lambda>s3. Done (setgroups priv s3)))))"

definition print_process_group_id :: "groups \<Rightarrow> string" where
  "print_process_group_id s = ''gid_list is'' @ concat (map (\<lambda>g. '':'' @ dec_int g) (proc_groups s)) @ [newline]"

definition initgroups_main :: "(string \<Rightarrow> passwd option) \<Rightarrow> bool \<Rightarrow> groups \<Rightarrow> (string \<times> int) run" where
  "initgroups_main getpwnam priv s =
     run_bind (my_initgroups getpwnam priv ''chenbangduo'' 666 s) (\<lambda>(retval, s').
       Done (print_process_group_id s @
         (if retval = - 1 then ''init failed!'' @ [newline] else print_process_group_id s'), 0))"

lemma is_member_iff [simp]: "is_member user ms \<longleftrightarrow> user \<in> set ms"
  by (induction ms) auto

definition groups_of :: "string \<Rightarrow> grp list \<Rightarrow> int list" where
  "groups_of user gs = map gr_gid (filter (\<lambda>g. user \<in> set (gr_mem g)) gs)"

lemma group_loop_adds:
  "length (grouplist s) + length (groups_of user gs) \<le> NGROUPS_MAX + 1 \<Longrightarrow>
   group_loop user gs s = Done (s\<lparr>grouplist := grouplist s @ groups_of user gs, gr_rest := []\<rparr>)"
  by (induction gs arbitrary: s) (auto simp: groups_of_def add_group_def)

lemma initgroups_lists:
  assumes "getpwnam user = Some p" "length (grouplist s) + length (groups_of user (gr_rest s)) + 2 \<le> NGROUPS_MAX" 
  shows "my_initgroups getpwnam True user gid s =
    Done (0, \<lparr>grouplist = grouplist s @ pw_gid p # groups_of user (gr_rest s) @ [gid], gr_rest = [],
      proc_groups = grouplist s @ pw_gid p # groups_of user (gr_rest s) @ [gid]\<rparr>)"
  using assms group_loop_adds [of "s\<lparr>grouplist := grouplist s @ [pw_gid p]\<rparr>" user "gr_rest s"]
  by (simp add: my_initgroups_def add_group_def setgroups_def)

text \<open>The first call of \<^verbatim>\<open>my_initgroups\<close> gives the process the group of the user in the password file, the groups of the
  group file that list the user, in order, and the group asked for. A second call, for another user,
  keeps all these groups and adds only the password-file group and the group asked for: the
  list is not reset and the group file has been read to its end. An unknown user changes nothing.\<close>

theorem initgroups_first_and_second:
  assumes "getpwnam u = Some p" "getpwnam v = Some q" "getpwnam w = None"
    and "length (groups_of u gs) + 4 \<le> NGROUPS_MAX"
  shows "\<exists>s1 s2. my_initgroups getpwnam True u g \<lparr>grouplist = [], gr_rest = gs, proc_groups = old\<rparr> = Done (0, s1) \<and>
    proc_groups s1 = pw_gid p # groups_of u gs @ [g] \<and>
    my_initgroups getpwnam True v h s1 = Done (0, s2) \<and>
    proc_groups s2 = proc_groups s1 @ [pw_gid q, h] \<and>
    my_initgroups getpwnam True w h s1 = Done (- 1, s1)"
proof -
  let ?l = "pw_gid p # groups_of u gs @ [g]"
  let ?s1 = "\<lparr>grouplist = ?l, gr_rest = [], proc_groups = ?l\<rparr>"
  have 1: "my_initgroups getpwnam True u g \<lparr>grouplist = [], gr_rest = gs, proc_groups = old\<rparr> = Done (0, ?s1)"
    using initgroups_lists [of getpwnam u p "\<lparr>grouplist = [], gr_rest = gs, proc_groups = old\<rparr>" g] assms(1,4) by simp
  have 2: "my_initgroups getpwnam True v h ?s1 = Done (0, \<lparr>grouplist = ?l @ [pw_gid q, h], gr_rest = [], proc_groups = ?l @ [pw_gid q, h]\<rparr>)"
    using initgroups_lists [of getpwnam v q ?s1 h] assms(2,4) by (simp add: groups_of_def)
  have 3: "my_initgroups getpwnam True w h ?s1 = Done (- 1, ?s1)" using assms(3) by (simp add: my_initgroups_def)
  show ?thesis using 1 2 3 by (intro exI [of _ ?s1] exI) auto
qed

definition pw_demo :: "string \<Rightarrow> passwd option" where
  "pw_demo = [''ann'' \<mapsto> \<lparr>pw_name = ''ann'', pw_passwd = [], pw_uid = 10, pw_gid = 20\<rparr>,
     ''bob'' \<mapsto> \<lparr>pw_name = ''bob'', pw_passwd = [], pw_uid = 11, pw_gid = 21\<rparr>]"

definition gr_demo :: "grp list" where
  "gr_demo = [\<lparr>gr_gid = 4, gr_mem = [''ann'', ''bob'']\<rparr>, \<lparr>gr_gid = 5, gr_mem = [''bob'']\<rparr>, \<lparr>gr_gid = 27, gr_mem = [''ann'']\<rparr>]"

theorem initgroups_first_and_second_witness:
  "\<exists>s1 s2. my_initgroups pw_demo True ''ann'' 1 \<lparr>grouplist = [], gr_rest = gr_demo, proc_groups = []\<rparr> = Done (0, s1) \<and>
     proc_groups s1 = [20, 4, 27, 1] \<and>
     my_initgroups pw_demo True ''bob'' 2 s1 = Done (0, s2) \<and> proc_groups s2 = [20, 4, 27, 1, 21, 2]"
proof -
  have g: "groups_of ''ann'' gr_demo = [4, 27]" by (simp add: groups_of_def gr_demo_def)
  have p: "pw_demo ''ann'' = Some \<lparr>pw_name = ''ann'', pw_passwd = [], pw_uid = 10, pw_gid = 20\<rparr>"
      "pw_demo ''bob'' = Some \<lparr>pw_name = ''bob'', pw_passwd = [], pw_uid = 11, pw_gid = 21\<rparr>" "pw_demo ''eve'' = None"
    by (simp_all add: pw_demo_def)
  show ?thesis
    using initgroups_first_and_second [of pw_demo "''ann''" _ "''bob''" _ "''eve''" gr_demo 1 "[]" 2, OF p] g by auto
qed

subsection \<open>\<^verbatim>\<open>douser.c\<close>\<close>

record cred =
  ruid :: int
  euid :: int
  suid :: int
  rgid :: int
  egid :: int
  sgid :: int

text \<open>\<^verbatim>\<open>setuid\<close> and \<^verbatim>\<open>setgid\<close> of the kernel: a privileged process changes all three ids, another may only take one of
  its own; \<open>None\<close> is \<^verbatim>\<open>EPERM\<close>.\<close>

definition sys_setuid :: "int \<Rightarrow> cred \<Rightarrow> cred option" where
  "sys_setuid u c =
     (if euid c = 0 then Some (c\<lparr>ruid := u, euid := u, suid := u\<rparr>)
      else if u = ruid c \<or> u = suid c then Some (c\<lparr>euid := u\<rparr>) else None)"

definition sys_setgid :: "int \<Rightarrow> cred \<Rightarrow> cred option" where
  "sys_setgid g c =
     (if euid c = 0 then Some (c\<lparr>rgid := g, egid := g, sgid := g\<rparr>)
      else if g = rgid c \<or> g = sgid c then Some (c\<lparr>egid := g\<rparr>) else None)"

text \<open>\<open>du_line\<close> is what \<^verbatim>\<open>fgets\<close> stored, up to the first terminator; \<open>du_crypt\<close> is \<^verbatim>\<open>crypt\<close>. The answer of
  \<^verbatim>\<open>getspnam\<close> is a record, none, or none with \<^verbatim>\<open>EACCES\<close>.\<close>

datatype shadow = Shadow string | NoShadow | ShadowDenied

record du_env =
  du_malloc :: bool
  du_line :: "string option"
  du_getpwnam :: "string \<Rightarrow> passwd option"
  du_getspnam :: "string \<Rightarrow> shadow"
  du_getpass :: string
  du_crypt :: "string \<Rightarrow> string \<Rightarrow> string option"
  du_exec :: bool                             \<comment> \<open>\<^verbatim>\<open>execvp\<close> finds the program\<close>

datatype du_result = Executed "string list" cred | Ended int cred

definition chomp :: "string \<Rightarrow> string" where
  "chomp s = (if last s = newline then butlast s else s)"

definition become_user :: "bool \<Rightarrow> passwd \<Rightarrow> string list \<Rightarrow> cred \<Rightarrow> du_result" where
  "become_user exec_ok pwd args c =
     (case sys_setuid (pw_uid pwd) c of
        None \<Rightarrow> Ended EXIT_FAILURE c
      | Some c1 \<Rightarrow>
          case sys_setgid (pw_gid pwd) c1 of
            None \<Rightarrow> Ended EXIT_FAILURE c1
          | Some c2 \<Rightarrow> if exec_ok then Executed args c2 else Ended EXIT_SUCCESS c2)"

definition authenticated :: "du_env \<Rightarrow> passwd \<Rightarrow> passwd option" where
  "authenticated e pwd =
     (case du_crypt e (du_getpass e) (pw_passwd pwd) of
        None \<Rightarrow> None
      | Some encrypted \<Rightarrow> if encrypted = pw_passwd pwd then Some pwd else None)"

definition douser_main :: "du_env \<Rightarrow> string list \<Rightarrow> cred \<Rightarrow> du_result run" where
  "douser_main e argv c =
     (if \<not> du_malloc e then Exited EXIT_FAILURE
      else case du_line e of
        None \<Rightarrow> Exited EXIT_FAILURE
      | Some line \<Rightarrow>
          if line = [] then Faulted OutOfBounds
          else let username = chomp line in
            case du_getpwnam e username of
              None \<Rightarrow> Exited EXIT_FAILURE
            | Some pwd \<Rightarrow>
                case du_getspnam e username of
                  ShadowDenied \<Rightarrow> Exited EXIT_FAILURE
                | sp \<Rightarrow>
                    let pwd' = (case sp of Shadow h \<Rightarrow> pwd\<lparr>pw_passwd := h\<rparr> | _ \<Rightarrow> pwd) in
                    case authenticated e pwd' of
                      None \<Rightarrow> Exited EXIT_FAILURE
                    | Some p \<Rightarrow> Done (become_user (du_exec e) p (tl argv) c))"

text \<open>The hash that is checked.\<close>

definition stored_hash :: "du_env \<Rightarrow> string \<Rightarrow> passwd \<Rightarrow> string" where
  "stored_hash e user pwd = (case du_getspnam e user of Shadow h \<Rightarrow> h | _ \<Rightarrow> pw_passwd pwd)"

text \<open>C31: \<^verbatim>\<open>douser\<close> runs the program only for a known user whose password encrypts to the stored hash, the one of the
  shadow file when there is one, and then with the effective ids of that user. Started with
  privileges, it reaches the program only when the user is the superuser or has the real
  or saved group the process has already: the user id is changed first, and then the
  group can no longer be changed.\<close>

theorem douser_runs_as:
  assumes "douser_main e argv c = Done (Executed args c')"
  shows "\<exists>line pwd. du_line e = Some line \<and> du_getpwnam e (chomp line) = Some pwd \<and>
    du_crypt e (du_getpass e) (stored_hash e (chomp line) pwd) = Some (stored_hash e (chomp line) pwd) \<and>
    args = tl argv \<and> euid c' = pw_uid pwd \<and> egid c' = pw_gid pwd \<and>
    (if euid c = 0 then pw_uid pwd = 0 \<or> pw_gid pwd = rgid c \<or> pw_gid pwd = sgid c
     else pw_uid pwd = ruid c \<or> pw_uid pwd = suid c)"
proof -
  obtain line pwd where l: "du_line e = Some line" "du_getpwnam e (chomp line) = Some pwd"
    and nd: "du_getspnam e (chomp line) \<noteq> ShadowDenied"
    using assms by (auto simp: douser_main_def Let_def split: if_splits option.splits shadow.splits)
  define pwd' where "pwd' = pwd\<lparr>pw_passwd := stored_hash e (chomp line) pwd\<rparr>"
  have "(case du_getspnam e (chomp line) of Shadow h \<Rightarrow> pwd\<lparr>pw_passwd := h\<rparr> | _ \<Rightarrow> pwd) = pwd'"
    by (simp add: pwd'_def stored_hash_def split: shadow.split)
  then have "authenticated e pwd' = Some pwd'" "become_user (du_exec e) pwd' (tl argv) c = Executed args c'"
    using assms l nd
    by (auto simp: douser_main_def Let_def authenticated_def split: if_splits option.splits shadow.splits)
  then show ?thesis using l
    by (auto simp: pwd'_def authenticated_def become_user_def sys_setuid_def sys_setgid_def split: option.splits if_splits)
qed

definition du_demo :: du_env where
  "du_demo = \<lparr>du_malloc = True, du_line = Some (''bob'' @ [newline]), du_getpwnam = pw_demo, du_getspnam = (\<lambda>_. Shadow ''hash''),
     du_getpass = ''secret'', du_crypt = (\<lambda>k s. if k = ''secret'' then Some ''hash'' else Some ''no''), du_exec = True\<rparr>"

theorem douser_runs_as_witness:
  "\<exists>c'. douser_main du_demo [''douser'', ''ls''] \<lparr>ruid = 0, euid = 0, suid = 0, rgid = 21, egid = 0, sgid = 0\<rparr> =
      Done (Executed [''ls''] c') \<and> euid c' = 11 \<and> egid c' = 21"
proof -
  let ?c = "\<lparr>ruid = 11, euid = 11, suid = 11, rgid = 21, egid = 21, sgid = 0\<rparr>"
  have d: "douser_main du_demo [''douser'', ''ls''] \<lparr>ruid = 0, euid = 0, suid = 0, rgid = 21, egid = 0, sgid = 0\<rparr> =
      Done (Executed [''ls''] ?c)"
    by (simp add: douser_main_def du_demo_def chomp_def pw_demo_def authenticated_def become_user_def
        sys_setuid_def sys_setgid_def)
  from douser_runs_as [OF d] have "euid ?c = 11" "egid ?c = 21" by (auto simp: du_demo_def chomp_def pw_demo_def)
  with d show ?thesis by blast
qed

text \<open>The usual case: the superuser starts it for another user with a group of its own.\<close>

lemma douser_group_fails:
  assumes "euid c = 0" "pw_uid pwd \<noteq> 0" "pw_gid pwd \<noteq> rgid c" "pw_gid pwd \<noteq> sgid c"
  shows "become_user exec_ok pwd args c = Ended EXIT_FAILURE (c\<lparr>ruid := pw_uid pwd, euid := pw_uid pwd, suid := pw_uid pwd\<rparr>)"
  using assms by (simp add: become_user_def sys_setuid_def sys_setgid_def)

end
