(* ===== verification/Terminal.thy ===== *)
theory Terminal
  imports C_Lib
begin

unbundle bit_operations_syntax

text \<open>
  Terminals: \<^verbatim>\<open>tty_functions.c\<close> of Section 64 (\<^verbatim>\<open>ttySetRaw\<close>) and \<^verbatim>\<open>my_getpass.c\<close>, \<^verbatim>\<open>my_isatty.c\<close>, \<^verbatim>\<open>my_ttyname.c\<close> and
  \<^verbatim>\<open>standard_tty.c\<close> of Section 62. The attributes of a terminal are flag words as in the kernel. The theorems
  describe the raw mode bit by bit, the echo flag on every path through \<^verbatim>\<open>my_getpass\<close>, and which
  file \<^verbatim>\<open>my_ttyname\<close> finds.
\<close>

subsection \<open>Attributes\<close>

record termios =
  c_iflag :: "32 word"
  c_oflag :: "32 word"
  c_lflag :: "32 word"
  c_vmin :: int
  c_vtime :: int

abbreviation (input) ISIG :: "32 word" where "ISIG \<equiv> 0x1"
abbreviation (input) ICANON :: "32 word" where "ICANON \<equiv> 0x2"
abbreviation (input) ECHO :: "32 word" where "ECHO \<equiv> 0x8"
abbreviation (input) IEXTEN :: "32 word" where "IEXTEN \<equiv> 0x8000"
abbreviation (input) IGNBRK :: "32 word" where "IGNBRK \<equiv> 0x1"
abbreviation (input) BRKINT :: "32 word" where "BRKINT \<equiv> 0x2"
abbreviation (input) PARMRK :: "32 word" where "PARMRK \<equiv> 0x8"
abbreviation (input) INPCK :: "32 word" where "INPCK \<equiv> 0x10"
abbreviation (input) ISTRIP :: "32 word" where "ISTRIP \<equiv> 0x20"
abbreviation (input) IGNCR :: "32 word" where "IGNCR \<equiv> 0x80"
abbreviation (input) ICRNL :: "32 word" where "ICRNL \<equiv> 0x100"
abbreviation (input) IXON :: "32 word" where "IXON \<equiv> 0x400"
abbreviation (input) OPOST :: "32 word" where "OPOST \<equiv> 0x1"

definition raw_lflags :: "32 word" where
  "raw_lflags = (ICANON OR ISIG OR IEXTEN OR ECHO)"

definition raw_iflags :: "32 word" where
  "raw_iflags = (BRKINT OR ICRNL OR IGNBRK OR IGNCR OR INPCK OR ISTRIP OR IXON OR PARMRK)"

subsection \<open>\<^verbatim>\<open>ttySetRaw\<close>\<close>

text \<open>The answers of \<^verbatim>\<open>tcgetattr\<close> and \<^verbatim>\<open>tcsetattr\<close> are given; the result has the returned value, what is stored through
  \<^verbatim>\<open>prevTermios\<close> (when it is not null) and the attributes of the terminal.\<close>

definition make_raw :: "termios \<Rightarrow> termios" where
  "make_raw t = t\<lparr>c_lflag := c_lflag t AND NOT raw_lflags, c_iflag := c_iflag t AND NOT raw_iflags,
     c_oflag := c_oflag t AND NOT OPOST, c_vmin := 1, c_vtime := 0\<rparr>"

definition ttySetRaw :: "bool \<Rightarrow> bool \<Rightarrow> bool \<Rightarrow> termios \<Rightarrow> int \<times> termios option \<times> termios" where
  "ttySetRaw get_ok set_ok want_prev t =
     (if \<not> get_ok then (- 1, None, t)
      else let prev = (if want_prev then Some t else None) in
        if \<not> set_ok then (- 1, prev, t) else (0, prev, make_raw t))"

text \<open>The bits of the terminal after \<^verbatim>\<open>ttySetRaw\<close>: those of the raw mode are clear, all others as before, calling it
  again changes nothing, and the attributes it stored are the old ones on every path that succeeds.\<close>

theorem ttySetRaw_bits:
  assumes "ttySetRaw True True True t = (r, prev, t')"
  shows "r = 0 \<and> prev = Some t \<and> c_vmin t' = 1 \<and> c_vtime t' = 0 \<and>
    (\<forall>n. bit (c_lflag t') n = (bit (c_lflag t) n \<and> \<not> bit raw_lflags n)) \<and>
    (\<forall>n. bit (c_iflag t') n = (bit (c_iflag t) n \<and> \<not> bit raw_iflags n)) \<and>
    (\<forall>n. bit (c_oflag t') n = (bit (c_oflag t) n \<and> n \<noteq> 0)) \<and>
    ttySetRaw True True True t' = (0, Some t', t')"
proof -
  have t': "t' = make_raw t" "r = 0" "prev = Some t" using assms by (simp_all add: ttySetRaw_def)
  have l: "bit (c_lflag t') n = (bit (c_lflag t) n \<and> \<not> bit raw_lflags n)" for n
    unfolding t' by (auto simp: make_raw_def bit_and_iff bit_not_iff dest: bit_imp_le_length)
  have i: "bit (c_iflag t') n = (bit (c_iflag t) n \<and> \<not> bit raw_iflags n)" for n
    unfolding t' by (auto simp: make_raw_def bit_and_iff bit_not_iff dest: bit_imp_le_length)
  have o: "bit (c_oflag t') n = (bit (c_oflag t) n \<and> n \<noteq> 0)" for n
    unfolding t' by (auto simp: make_raw_def bit_and_iff bit_not_iff bit_1_iff dest: bit_imp_le_length)
  have "make_raw t' = t'" unfolding t' by (simp add: make_raw_def and.assoc)
  then show ?thesis using l i o t' by (simp add: ttySetRaw_def make_raw_def)
qed

subsection \<open>\<^verbatim>\<open>my_isatty.c\<close> and \<^verbatim>\<open>standard_tty.c\<close>\<close>

definition my_isatty :: "bool \<Rightarrow> int" where
  "my_isatty get_ok = (if get_ok then 0 else - 1)"

definition standard_tty_main :: "termios option \<Rightarrow> (string \<times> int) run" where
  "standard_tty_main tp =
     (case tp of
        None \<Rightarrow> Exited EXIT_FAILURE
      | Some t \<Rightarrow>
          Done ((if c_lflag t AND ICANON \<noteq> 0 then ''standard mode''
                 else ''non-standard mode: '' @ dec_int (c_vmin t) @ '', '' @ dec_int (c_vtime t)) @ [newline], EXIT_SUCCESS))"

text \<open>After \<^verbatim>\<open>ttySetRaw\<close> the mode is shown with the values it sets.\<close>

lemma standard_tty_raw: "standard_tty_main (Some (make_raw t)) = Done (''non-standard mode: 1, 0'' @ [newline], EXIT_SUCCESS)"
proof -
  have "c_lflag (make_raw t) AND ICANON = 0"
    by (simp add: make_raw_def raw_lflags_def and.assoc)
  moreover have "dec_int 1 = ''1''" "dec_int 0 = ''0''"
    by (simp_all add: dec_int_def dec_nat.simps [of "Suc 0"] dec_nat.simps [of 0] digit_char_values)
  ultimately show ?thesis by (simp add: standard_tty_main_def make_raw_def)
qed

subsection \<open>\<^verbatim>\<open>my_getpass.c\<close>\<close>

text \<open>The answers: \<^verbatim>\<open>open\<close>, the two calls of \<^verbatim>\<open>tcgetattr\<close> and of \<^verbatim>\<open>tcsetattr\<close>, and what \<^verbatim>\<open>read\<close> delivers.\<close>

record gp_env =
  gp_open :: bool
  gp_get :: "bool \<times> bool"
  gp_set :: "bool \<times> bool"
  gp_read :: "string option"

definition echo_off :: "termios \<Rightarrow> termios" where
  "echo_off t = t\<lparr>c_lflag := c_lflag t AND NOT ECHO\<rparr>"

definition echo_on :: "termios \<Rightarrow> termios" where
  "echo_on t = t\<lparr>c_lflag := c_lflag t OR ECHO\<rparr>"

text \<open>The returned string, the output, and the terminal. The last character read is overwritten by the terminator.\<close>

definition my_getpass :: "gp_env \<Rightarrow> string option \<Rightarrow> termios \<Rightarrow> (string option \<times> string \<times> termios) run" where
  "my_getpass e prompt t =
     (if \<not> gp_open e then Done (None, [], t)
      else if \<not> fst (gp_get e) then Done (None, [], t)
      else if \<not> fst (gp_set e) then Done (None, [], t)
      else let t1 = echo_off t; out = (case prompt of None \<Rightarrow> [] | Some p \<Rightarrow> p) in
        case gp_read e of
          None \<Rightarrow> Done (None, out, t1)
        | Some b \<Rightarrow>
            let got = take 256 b in
            if got = [] then Faulted OutOfBounds
            else if \<not> snd (gp_get e) then Done (None, out @ [newline], t1)
            else if \<not> snd (gp_set e) then Done (None, out @ [newline], t1)
            else Done (Some (takeWhile (\<lambda>c. c \<noteq> NUL) (butlast got)), out @ [newline], echo_on t1))"

lemma echo_bits:
  "bit (c_lflag (echo_on t)) n = (n = 3 \<or> bit (c_lflag t) n)"
  "bit (c_lflag (echo_off t)) n = (n \<noteq> 3 \<and> bit (c_lflag t) n)"
proof -
  have e: "bit (8 :: nat) n = (n = 3)" "bit (8 :: int) n = (n = 3)"
    using bit_exp_iff [of 3 n, where 'a = nat] bit_exp_iff [of 3 n, where 'a = int] by auto
  show "bit (c_lflag (echo_on t)) n = (n = 3 \<or> bit (c_lflag t) n)"
    by (auto simp: echo_on_def bit_or_iff e)
  show "bit (c_lflag (echo_off t)) n = (n \<noteq> 3 \<and> bit (c_lflag t) n)"
  proof -
    have "bit (NOT ECHO) n = (n < 32 \<and> n \<noteq> 3)" unfolding bit_not_iff by (auto simp: e)
    moreover have "c_lflag (echo_off t) = c_lflag t AND NOT ECHO" by (simp add: echo_off_def)
    ultimately show ?thesis by (auto simp only: bit_and_iff dest: bit_imp_le_length) (auto dest: bit_imp_le_length)
  qed
qed

text \<open>C32: \<^verbatim>\<open>my_getpass\<close> on a line of at most 255 characters returns the line without its newline and leaves the echo on,
  also when it was off before; all other flags stay. When the read fails, or the attributes cannot be
  set again, it returns no password and leaves the echo off; at the end of the input it writes in
  front of its buffer.\<close>

theorem getpass_echo:
  assumes "gp_open e" "fst (gp_get e)" "fst (gp_set e)" "c_string w" "length w \<le> 255"
  shows "case gp_read e of
      None \<Rightarrow> my_getpass e (Some p) t = Done (None, p, echo_off t)
    | Some b \<Rightarrow>
        (if b = [] then my_getpass e (Some p) t = Faulted OutOfBounds
         else if snd (gp_get e) \<and> snd (gp_set e)
         then (if b = w @ [newline] then
             \<exists>t'. my_getpass e (Some p) t = Done (Some w, p @ [newline], t') \<and>
               (\<forall>n. bit (c_lflag t') n = (n = 3 \<or> bit (c_lflag t) n)) else True)
         else my_getpass e (Some p) t = Done (None, p @ [newline], echo_off t))"
proof (cases "gp_read e")
  case None
  then show ?thesis using assms by (simp add: my_getpass_def Let_def)
next
  case (Some b)
  have line: "takeWhile (\<lambda>c. c \<noteq> NUL) (butlast (take 256 (w @ [newline]))) = w"
    using assms(4,5) by (auto simp: c_string_def takeWhile_eq_all_conv)
  have bits: "bit (c_lflag (echo_on (echo_off t))) n = (n = 3 \<or> bit (c_lflag t) n)" for n
    by (auto simp: echo_bits)
  have "my_getpass e (Some p) t = Done (Some w, p @ [newline], echo_on (echo_off t))"
    if "snd (gp_get e)" "snd (gp_set e)" "b = w @ [newline]"
    using that assms(1-3) Some line by (simp add: my_getpass_def Let_def)
  then show ?thesis using assms(1-3) Some bits by (auto simp: my_getpass_def Let_def)
qed

definition gp_demo :: gp_env where
  "gp_demo = \<lparr>gp_open = True, gp_get = (True, True), gp_set = (True, True), gp_read = Some (''abc'' @ [newline])\<rparr>"

theorem getpass_echo_witness:
  "\<exists>t'. my_getpass gp_demo (Some ''PASSWORD:'') \<lparr>c_iflag = 0, c_oflag = 0, c_lflag = 8, c_vmin = 1, c_vtime = 0\<rparr> =
     Done (Some ''abc'', ''PASSWORD:'' @ [newline], t') \<and> bit (c_lflag t') 3"
proof -
  have "c_string ''abc''" by (simp add: c_string_def)
  from getpass_echo [of gp_demo "''abc''" "''PASSWORD:''" "\<lparr>c_iflag = 0, c_oflag = 0, c_lflag = 8, c_vmin = 1, c_vtime = 0\<rparr>", OF _ _ _ this]
  show ?thesis by (auto simp: gp_demo_def)
qed

subsection \<open>\<^verbatim>\<open>my_ttyname.c\<close>\<close>

text \<open>An answer of \<^verbatim>\<open>readdir\<close>: a name with the device number \<^verbatim>\<open>lstat\<close> gives for it, if it succeeds, or an error.\<close>

datatype dir_ans = Entry string "int option" | ReadErr

datatype scan_result = Hit string | Exhausted | Abort

fun tty_scan :: "string \<Rightarrow> int \<Rightarrow> dir_ans list \<Rightarrow> scan_result" where
  "tty_scan dir rdev [] = Exhausted"
| "tty_scan dir rdev (ReadErr # es) = Abort"
| "tty_scan dir rdev (Entry name st # es) =
     (case st of
        None \<Rightarrow> Abort
      | Some r \<Rightarrow> if r = rdev then Hit (dir @ name) else tty_scan dir rdev es)"

text \<open>The directories in order; \<open>None\<close> when \<^verbatim>\<open>opendir\<close> fails.\<close>

fun tty_dirs :: "int \<Rightarrow> (string \<times> dir_ans list option) list \<Rightarrow> string option" where
  "tty_dirs rdev [] = None"
| "tty_dirs rdev ((dir, es) # ds) =
     (case es of
        None \<Rightarrow> None
      | Some es' \<Rightarrow>
          case tty_scan dir rdev es' of
            Hit p \<Rightarrow> Some p
          | Abort \<Rightarrow> None
          | Exhausted \<Rightarrow> tty_dirs rdev ds)"

text \<open>\<open>st\<close> is the answer of \<^verbatim>\<open>fstat\<close>: whether the file is a character device, and its device number.\<close>

definition my_ttyname :: "(bool \<times> int) option \<Rightarrow> dir_ans list option \<Rightarrow> dir_ans list option \<Rightarrow> string option" where
  "my_ttyname st dev pts =
     (case st of
        None \<Rightarrow> None
      | Some (chr, rdev) \<Rightarrow>
          if \<not> chr then None else tty_dirs rdev [(''/dev/'', dev), (''/dev/pts/'', pts)])"

fun named :: "string \<Rightarrow> dir_ans list \<Rightarrow> (string \<times> int) list" where
  "named dir [] = []"
| "named dir (Entry n (Some r) # es) = (dir @ n, r) # named dir es"
| "named dir (_ # es) = named dir es"

definition clean :: "dir_ans list \<Rightarrow> bool" where
  "clean es = list_all (\<lambda>e. case e of Entry n (Some r) \<Rightarrow> True | _ \<Rightarrow> False) es"

lemma tty_scan_clean:
  "clean es \<Longrightarrow> tty_scan dir rdev es =
     (case find (\<lambda>(p, r). r = rdev) (named dir es) of None \<Rightarrow> Exhausted | Some (p, r) \<Rightarrow> Hit p)"
  by (induction es rule: named.induct) (auto simp: clean_def)

lemma find_append: "find P (xs @ ys) = (case find P xs of None \<Rightarrow> find P ys | Some x \<Rightarrow> Some x)"
  by (induction xs) auto

text \<open>On directories that can be read, \<^verbatim>\<open>my_ttyname\<close> of a character device returns the first path below \<^verbatim>\<open>/dev\<close>, then below
  \<^verbatim>\<open>/dev/pts\<close>, whose device number is that of the descriptor, and none when there is no such file or
  the descriptor is no character device. Entries of the first directory up to the hit must all
  be readable: an entry that \<^verbatim>\<open>lstat\<close> fails on ends the search.\<close>

theorem ttyname_first_match:
  assumes "clean dev" "clean pts"
  shows "my_ttyname (Some (chr, rdev)) (Some dev) (Some pts) =
      (if chr then map_option fst (find (\<lambda>(p, r). r = rdev) (named ''/dev/'' dev @ named ''/dev/pts/'' pts)) else None) \<and>
    (if rdev \<in> snd ` set (named ''/dev/'' dev) then True
     else my_ttyname (Some (chr, rdev)) (Some (dev @ Entry n None # es)) (Some pts) = None)"
proof -
  have "my_ttyname (Some (chr, rdev)) (Some dev) (Some pts) =
      (if chr then map_option fst (find (\<lambda>(p, r). r = rdev) (named ''/dev/'' dev @ named ''/dev/pts/'' pts)) else None)"
    using assms by (auto simp: my_ttyname_def tty_scan_clean find_append split: option.splits)
  moreover have "tty_scan dir rdev (dev @ Entry n None # es) = Abort" if "rdev \<notin> snd ` set (named dir dev)" for dir
    using assms(1) that by (induction dir dev rule: named.induct) (auto simp: clean_def)
  then have "my_ttyname (Some (chr, rdev)) (Some (dev @ Entry n None # es)) (Some pts) = None"
    if "rdev \<notin> snd ` set (named ''/dev/'' dev)"
    using that by (simp add: my_ttyname_def)
  ultimately show ?thesis by simp
qed

theorem ttyname_first_match_witness:
  "my_ttyname (Some (True, 7)) (Some [Entry ''null'' (Some 1), Entry ''pts'' (Some 0)])
     (Some [Entry ''0'' (Some 6), Entry ''1'' (Some 7)]) = Some ''/dev/pts/1''"
  using ttyname_first_match [of "[Entry ''null'' (Some 1), Entry ''pts'' (Some 0)]" "[Entry ''0'' (Some 6), Entry ''1'' (Some 7)]" True 7]
  by (simp add: clean_def)

end
