(* ===== verification/Mmap.thy ===== *)
theory Mmap
  imports C_Lib
begin

text \<open>
  Section 49: \<^verbatim>\<open>my_cp.c\<close>, which copies a file through two memory mappings, and \<^verbatim>\<open>mmap_border_test.c\<close>, which accesses a
  mapping at a given offset. Mappings follow the kernel: a length of 0 is refused, pages
  behind the last page of the file give \<^verbatim>\<open>SIGBUS\<close>, addresses outside the mapping \<^verbatim>\<open>SIGSEGV\<close>. The theorems give the
  copy for every size of the source, including sizes that do not fit an \<^verbatim>\<open>int\<close>, and the offsets at
  which the access succeeds.
\<close>

subsection \<open>\<^verbatim>\<open>my_cp.c\<close>\<close>

text \<open>The answers of the system. \<open>mc_src\<close> is the source when it can be opened, \<open>mc_dst\<close> tells whether the destination can be
  created; the mappings may fail for lack of memory.\<close>

record mcp_env =
  mc_src :: "string option"
  mc_fstat :: bool
  mc_mmap_src :: bool
  mc_dst :: bool
  mc_ftruncate :: bool
  mc_mmap_dst :: bool
  mc_munmap :: "bool \<times> bool"
  mc_close :: "bool \<times> bool"

text \<open>\<^verbatim>\<open>srcfile_len\<close> is an \<^verbatim>\<open>int\<close>. \<^verbatim>\<open>mmap\<close> takes it as a \<^verbatim>\<open>size_t\<close>: 0 is refused, and a negative value is a length no
  address space has room for.\<close>

definition srcfile_len :: "string \<Rightarrow> int" where
  "srcfile_len src = to_int32 (int (length src))"

definition mmap_len_ok :: "int \<Rightarrow> bool" where
  "mmap_len_ok len \<longleftrightarrow> 0 < len"

text \<open>The exit status and the destination file, if it was created. \<^verbatim>\<open>ftruncate\<close> fills with zero bytes.\<close>

definition mcp_main :: "mcp_env \<Rightarrow> string list \<Rightarrow> int \<times> string option" where
  "mcp_main e argv =
     (if length argv \<noteq> 3 then (EXIT_FAILURE, None)
      else case mc_src e of
        None \<Rightarrow> (EXIT_FAILURE, None)
      | Some src \<Rightarrow>
          if \<not> mc_fstat e then (EXIT_FAILURE, None)
          else let len = srcfile_len src in
            if \<not> (mmap_len_ok len \<and> mc_mmap_src e) then (EXIT_FAILURE, None)
            else if \<not> mc_dst e then (EXIT_FAILURE, None)
            else if \<not> mc_ftruncate e then (EXIT_FAILURE, Some [])
            else if \<not> mc_mmap_dst e then (EXIT_FAILURE, Some (replicate (nat len) NUL))
            else
              let dst = take (nat len) src;
                  exit_status = (if fst (mc_munmap e) then 0 else 1) + (if snd (mc_munmap e) then 0 else 1)
                    + (if fst (mc_close e) then 0 else 1) + (if snd (mc_close e) then 0 else (1::nat))
              in (if exit_status \<noteq> 0 then EXIT_FAILURE else EXIT_SUCCESS, Some dst))"

lemma to_int32_range:
  assumes "0 \<le> v" "v < 4294967296"
  shows "to_int32 v = (if v < 2147483648 then v else v - 4294967296)"
proof (cases "v < 2147483648")
  case True
  then show ?thesis using assms by (simp add: to_int32_id is_int32_def)
next
  case False
  have "(v + 2147483648) mod 4294967296 = (v - 2147483648 + 1 * 4294967296) mod 4294967296" by (simp add: add.commute)
  also have "\<dots> = v - 2147483648" unfolding mod_mult_self1 using False assms by (intro mod_pos_pos_trivial) auto
  finally show ?thesis using False by (simp add: to_int32_def)
qed

text \<open>With no failing call \<^verbatim>\<open>my_cp\<close> copies every source of at least one byte and less than \<open>2 ^ 31\<close> bytes exactly; an
  empty source, and one of \<open>2 ^ 31\<close> up to \<open>2 ^ 32\<close> bytes, makes it fail before the destination is created; of a
  source that is larger by a multiple of \<open>2 ^ 32\<close> only the part below is copied, with success.\<close>

theorem my_cp_copies:
  assumes "mc_src e = Some src" "mc_fstat e" "mc_mmap_src e" "mc_dst e" "mc_ftruncate e" "mc_mmap_dst e"
    and "mc_munmap e = (True, True)" "mc_close e = (True, True)" "length src mod 2 ^ 32 = n"
  shows "mcp_main e [prog, from, dest] =
    (if 0 < n \<and> n < 2 ^ 31 then (EXIT_SUCCESS, Some (take n src)) else (EXIT_FAILURE, None))"
proof -
  have n: "int n = int (length src) mod 4294967296" using assms(9) by (simp add: zmod_int flip: assms(9))
  have "to_int32 (int (length src)) = to_int32 (int n)"
    unfolding n by (simp add: to_int32_def mod_add_left_eq)
  also have "\<dots> = (if int n < 2147483648 then int n else int n - 4294967296)"
    unfolding n by (rule to_int32_range) simp_all
  finally have "srcfile_len src = (if n < 2 ^ 31 then int n else int n - 2 ^ 32)" by (simp add: srcfile_len_def)
  moreover have "n < 2 ^ 32" using assms(9) by auto
  ultimately show ?thesis using assms(1-8) by (simp add: mcp_main_def Let_def mmap_len_ok_def)
qed

theorem my_cp_copies_witness:
  "mcp_main \<lparr>mc_src = Some ''abc'', mc_fstat = True, mc_mmap_src = True, mc_dst = True, mc_ftruncate = True,
     mc_mmap_dst = True, mc_munmap = (True, True), mc_close = (True, True)\<rparr> [''cp'', ''a'', ''b''] = (EXIT_SUCCESS, Some ''abc'')"
  using my_cp_copies [of "\<lparr>mc_src = Some ''abc'', mc_fstat = True, mc_mmap_src = True, mc_dst = True, mc_ftruncate = True,
     mc_mmap_dst = True, mc_munmap = (True, True), mc_close = (True, True)\<rparr>" "''abc''" 3 "''cp''" "''a''" "''b''"]
  by simp

subsection \<open>\<^verbatim>\<open>mmap_border_test.c\<close>\<close>

datatype mem_access = Fine | SigBus | SigSegv

abbreviation (input) page :: nat where "page \<equiv> 4096"

text \<open>One byte of a mapping of 8192 bytes; nothing else is mapped next to it.\<close>

definition byte_access :: "nat \<Rightarrow> int \<Rightarrow> mem_access" where
  "byte_access file_len off =
     (if off < 0 \<or> 8192 \<le> off then SigSegv
      else if (file_len + (page - 1)) div page \<le> nat off div page then SigBus
      else Fine)"

text \<open>The four bytes of an \<^verbatim>\<open>int\<close>: the first that faults decides.\<close>

definition int_access :: "nat \<Rightarrow> int \<Rightarrow> mem_access" where
  "int_access file_len off =
     (case filter (\<lambda>a. a \<noteq> Fine) (map (\<lambda>i. byte_access file_len (off + i)) [0, 1, 2, 3]) of
        [] \<Rightarrow> Fine | a # _ \<Rightarrow> a)"

text \<open>Bytes behind the end of the file are not written to it.\<close>

definition poke_bytes :: "nat \<Rightarrow> string \<Rightarrow> string \<Rightarrow> string" where
  "poke_bytes off bs f = map (\<lambda>i. if off \<le> i \<and> i < off + length bs then bs ! (i - off) else f ! i) [0..<length f]"

definition one_bytes :: string where
  "one_bytes = [CHR 0x01, NUL, NUL, NUL]"

record mb_env =
  mb_file :: "string option"
  mb_fstat :: bool
  mb_sigaction :: "bool \<times> bool"
  mb_mmap :: bool
  mb_close :: bool

text \<open>The handler returns, so the access that raised the signal is made again, for ever. \<^verbatim>\<open>munmap\<close> refuses a length
  of 0.\<close>

definition border_main :: "mb_env \<Rightarrow> string list \<Rightarrow> int \<Rightarrow> (string \<times> int \<times> string) run" where
  "border_main e argv file_offset =
     (if length argv \<noteq> 3 then Exited EXIT_FAILURE
      else case mb_file e of
        None \<Rightarrow> Exited EXIT_FAILURE
      | Some f \<Rightarrow>
          if \<not> mb_fstat e then Exited EXIT_FAILURE
          else if \<not> fst (mb_sigaction e) then Exited EXIT_FAILURE
          else if \<not> snd (mb_sigaction e) then Exited EXIT_FAILURE
          else if \<not> mb_mmap e then Exited EXIT_FAILURE
          else if int_access (length f) file_offset \<noteq> Fine then Faulted Endless
          else let f' = poke_bytes (nat file_offset) one_bytes f in
            if \<not> mb_close e then Done (''0x1'' @ [newline], EXIT_FAILURE, f')
            else if length f = 0 then Done (''0x1'' @ [newline], EXIT_FAILURE, f')
            else Done (''0x1'' @ [newline], EXIT_SUCCESS, f'))"

lemma byte_access_fine:
  "byte_access n off = Fine \<longleftrightarrow> 0 \<le> off \<and> off < 8192 \<and> nat off < (n + (page - 1)) div page * page"
proof -
  have "(q \<le> k div page) = (\<not> k < q * page)" for q k :: nat
    by (simp add: less_eq_div_iff_mult_less_eq not_less)
  then show ?thesis by (auto simp: byte_access_def)
qed

lemma int_access_fine:
  "int_access n off = Fine \<longleftrightarrow> 0 \<le> off \<and> off + 4 \<le> 8192 \<and> nat off + 4 \<le> (n + (page - 1)) div page * page"
proof -
  have "int_access n off = Fine \<longleftrightarrow> (\<forall>i \<in> {0, 1, 2, 3}. byte_access n (off + i) = Fine)"
    by (auto simp: int_access_def split: list.splits if_splits)
  also have "\<dots> \<longleftrightarrow> 0 \<le> off \<and> off + 4 \<le> 8192 \<and> nat off + 4 \<le> (n + (page - 1)) div page * page"
    by (auto simp: byte_access_fine nat_add_distrib)
  finally show ?thesis .
qed

lemma length_poke_bytes [simp]: "length (poke_bytes off bs f) = length f"
  by (simp add: poke_bytes_def)

lemma poke_bytes_nth: "i < length f \<Longrightarrow> poke_bytes off bs f ! i = (if off \<le> i \<and> i < off + length bs then bs ! (i - off) else f ! i)"
  by (simp add: poke_bytes_def)

text \<open>The access of \<^verbatim>\<open>mmap_border_test\<close> on a file that is not empty: it succeeds exactly when its four bytes lie in the
  mapping and in pages that the file reaches; then 1 is printed, the file keeps its length and has the
  bytes of 1 at the offset, as far as it reaches. At every other offset the program does
  not end.\<close>

theorem mmap_border_access:
  assumes "mb_file e = Some f" "mb_fstat e" "mb_sigaction e = (True, True)" "mb_mmap e" "mb_close e" "f \<noteq> []"
  shows "if 0 \<le> off \<and> off + 4 \<le> 8192 \<and> nat off + 4 \<le> (length f + 4095) div 4096 * 4096
    then \<exists>f'. border_main e [prog, name, arg] off = Done (''0x1'' @ [newline], EXIT_SUCCESS, f') \<and> length f' = length f \<and>
      (\<forall>i < length f. f' ! i = (if nat off \<le> i \<and> i < nat off + 4 then one_bytes ! (i - nat off) else f ! i))
    else border_main e [prog, name, arg] off = Faulted Endless"
proof (cases "int_access (length f) off = Fine")
  case True
  have "length one_bytes = 4" by (simp add: one_bytes_def)
  then have "\<forall>i < length f. poke_bytes (nat off) one_bytes f ! i =
      (if nat off \<le> i \<and> i < nat off + 4 then one_bytes ! (i - nat off) else f ! i)" by (simp add: poke_bytes_nth)
  moreover have "border_main e [prog, name, arg] off = Done (''0x1'' @ [newline], EXIT_SUCCESS, poke_bytes (nat off) one_bytes f)"
    using assms True by (simp add: border_main_def Let_def)
  moreover have "0 \<le> off \<and> off + 4 \<le> 8192 \<and> nat off + 4 \<le> (length f + 4095) div 4096 * 4096"
    using True [unfolded int_access_fine] by simp
  ultimately show ?thesis by (auto intro!: exI [of _ "poke_bytes (nat off) one_bytes f"])
next
  case False
  have "\<not> (0 \<le> off \<and> off + 4 \<le> 8192 \<and> nat off + 4 \<le> (length f + 4095) div 4096 * 4096)"
    using False [unfolded int_access_fine] by simp
  then show ?thesis using assms False by (simp add: border_main_def)
qed

theorem mmap_border_access_witness:
  "\<exists>f'. border_main \<lparr>mb_file = Some ''abcdef'', mb_fstat = True, mb_sigaction = (True, True), mb_mmap = True, mb_close = True\<rparr>
      [''t'', ''f'', ''4''] 4 = Done (''0x1'' @ [newline], EXIT_SUCCESS, f') \<and> length f' = 6 \<and> f' ! 4 = CHR 0x01"
  using mmap_border_access [of "\<lparr>mb_file = Some ''abcdef'', mb_fstat = True, mb_sigaction = (True, True), mb_mmap = True,
      mb_close = True\<rparr>" "''abcdef''" 4 "''t''" "''f''" "''4''"]
  by (auto simp: one_bytes_def)

end
