(* ===== verification/Select.thy ===== *)
theory Select
  imports C_Lib
begin

text \<open>
  Section 63: \<^verbatim>\<open>select_sysvmsg.c\<close>, where a child moves the messages of a queue into a pipe that the parent watches
  together with the standard input, and \<^verbatim>\<open>self_pipe.c\<close>, where a signal handler writes to a pipe that is polled.
  The theorems give the exact condition under which the child transmits a whole message, the end
  of the parent at the end of its input, and when the polling program can end.
\<close>

subsection \<open>The child of \<^verbatim>\<open>select_sysvmsg.c\<close>\<close>

text \<open>The loop that writes one message: \<open>b\<close> are the bytes from \<^verbatim>\<open>buf_p\<close> on, so that its length is \<^verbatim>\<open>n\<close>; \<open>nw\<close> is
  \<^verbatim>\<open>num_write\<close>, which the condition of the loop compares with what is left. The result has the bytes written
  and whether the process goes on.\<close>

lemma sys_write_shorter: "sys_write b a = (r, a') \<Longrightarrow> a \<noteq> [] \<Longrightarrow> length a' < length a"
  by (induction b a rule: sys_write.induct) auto

function write_msg :: "string \<Rightarrow> int \<Rightarrow> wr_ans list \<Rightarrow> string \<Rightarrow> bool \<times> string \<times> wr_ans list" where
  "write_msg b nw a out =
     (if \<not> nw < int (length b) then (True, out, a)
      else case sys_write b a of
        (Inl e, a') \<Rightarrow> if e = EINTR then write_msg b (- 1) a' out else (False, out, a')
      | (Inr k, a') \<Rightarrow> write_msg (drop k b) (int k) a' (out @ take k b))"
  by pat_completeness auto
termination
proof (relation "measure (\<lambda>(b, nw, a, out). 2 * length a + (if b \<noteq> [] \<or> nw < 0 then 1 else 0))", goal_cases)
  case (2 b nw a out r a' e)
  then have "a \<noteq> []" by (cases a) auto
  then have "length a' < length a" using 2 sys_write_shorter by metis
  then show ?case by simp
next
  case (3 b nw a out r a' k)
  show ?case
  proof (cases "a = []")
    case True
    then show ?thesis using 3 by auto
  next
    case False
    then have "length a' < length a" using 3 sys_write_shorter by metis
    then show ?thesis by simp
  qed
qed simp

declare write_msg.simps [simp del]

text \<open>The messages: \<open>None\<close> for a failing \<^verbatim>\<open>msgrcv\<close> other than an interruption, which is tried again. The whole structure
  is written, whatever the length of the message.\<close>

datatype msg_ans = Interrupted | Failed | Message string

fun child_func :: "msg_ans list \<Rightarrow> wr_ans list \<Rightarrow> string \<Rightarrow> int option \<times> string" where
  "child_func [] a out = (None, out)"
| "child_func (Interrupted # ms) a out = child_func ms a out"
| "child_func (Failed # ms) a out = (Some EXIT_FAILURE, out)"
| "child_func (Message b # ms) a out =
     (case write_msg b 0 a out of
        (True, out', a') \<Rightarrow> child_func ms a' out'
      | (False, out', a') \<Rightarrow> (Some EXIT_FAILURE, out'))"

lemma write_msg_stop: "\<not> nw < int (length b) \<Longrightarrow> write_msg b nw a out = (True, out, a)"
  by (subst write_msg.simps) (rule if_P)

lemma write_msg_full: "wr_clean (length b) a \<Longrightarrow> 0 < length b \<Longrightarrow> nw < int (length b) \<Longrightarrow>
    \<exists>a'. write_msg b nw a out = (True, out @ b, a') \<and> wr_clean (length b) a'"
  using sys_write_clean [of "length b" a b] by (subst write_msg.simps) (auto simp: write_msg.simps [of "[]"])

lemma child_func_full:
  assumes "\<forall>m \<in> set ms. m = Interrupted \<or> (\<exists>b. m = Message b \<and> length b = n)" "0 < n" "wr_clean n a"
  shows "child_func ms a out = (None, out @ concat (map (\<lambda>m. case m of Message b \<Rightarrow> b | _ \<Rightarrow> []) ms))"
  using assms
proof (induction ms arbitrary: a out)
  case (Cons m ms)
  show ?case
  proof (cases m)
    case (Message b)
    then have b: "length b = n" using Cons.prems by auto
    obtain a' where "write_msg b 0 a out = (True, out @ b, a')" "wr_clean n a'"
      using write_msg_full [of b a 0 out] Cons.prems b by auto
    then show ?thesis using Cons Message by simp
  qed (use Cons in auto)
qed simp

text \<open>Messages whose writes are complete arrive in order and without a gap. When the first write of a message is short,
  the rest is written only if more is left than was written: the condition of the loop compares the
  size of the last write with the rest. A write of at least half of a message loses the rest of it.\<close>

theorem short_write_loses:
  assumes "0 < k" "k < length b" "wr_clean (length b) a"
    and "\<forall>m \<in> set ms. m = Interrupted \<or> (\<exists>b'. m = Message b' \<and> length b' = length b)"
  shows "child_func ms a [] = (None, concat (map (\<lambda>m. case m of Message b \<Rightarrow> b | _ \<Rightarrow> []) ms)) \<and>
    child_func [Message b] (WrRoom k # a) [] = (None, if 2 * k < length b then b else take k b)"
proof
  show "child_func ms a [] = (None, concat (map (\<lambda>m. case m of Message b \<Rightarrow> b | _ \<Rightarrow> []) ms))"
    using child_func_full [OF assms(4) less_trans [OF assms(1,2)] assms(3), of "[]"] by simp
  have first: "write_msg b 0 (WrRoom k # a) [] = write_msg (drop k b) (int k) a (take k b)"
    using assms(1,2) by (subst write_msg.simps) auto
  show "child_func [Message b] (WrRoom k # a) [] = (None, if 2 * k < length b then b else take k b)"
  proof (cases "2 * k < length b")
    case True
    have "wr_clean (length (drop k b)) a" using assms(3) by (force simp: wr_clean_def)
    moreover have "0 < length (drop k b)" "int k < int (length (drop k b))" using True by simp_all
    ultimately obtain a' where "write_msg (drop k b) (int k) a (take k b) = (True, take k b @ drop k b, a')"
      using write_msg_full by blast
    then show ?thesis using first True by simp
  next
    case False
    then have "\<not> int k < int (length (drop k b))" by simp
    then have "write_msg (drop k b) (int k) a (take k b) = (True, take k b, a)"
      by (rule write_msg_stop)
    then show ?thesis using first False by simp
  qed
qed

theorem short_write_loses_witness:
  "child_func [Message ''abcdef''] [WrRoom 4] [] = (None, ''abcd'')"
  using short_write_loses [of 4 "''abcdef''" "[]" "[]"] by (simp add: wr_clean_def)

subsection \<open>The parent of \<^verbatim>\<open>select_sysvmsg.c\<close>\<close>

lemma sys_read_progress: "sys_read n s = (r, s') \<Longrightarrow> s \<noteq> [] \<Longrightarrow> 0 < n \<Longrightarrow> rd_weight s' < rd_weight s"
  by (induction n s rule: sys_read.induct) (auto split: if_splits)

text \<open>The loop that empties a descriptor ends only with \<^verbatim>\<open>EAGAIN\<close>: at the end of the file \<^verbatim>\<open>read\<close> returns 0 for ever.\<close>

function drain :: "rd_ans list \<Rightarrow> rd_ans list run" where
  "drain s =
     (if s = [] then Faulted Endless
      else case sys_read 1024 s of
        (Inl e, s') \<Rightarrow> if e = EAGAIN then Done s' else drain s'
      | (Inr b, s') \<Rightarrow> drain s')"
  by pat_completeness auto
termination
  by (relation "measure rd_weight") (auto dest: sys_read_progress [OF sym])

declare drain.simps [simp del]

text \<open>One round: the answer of \<^verbatim>\<open>select\<close>, an interruption, an error, or which of the two descriptors are ready.\<close>

datatype sel_ans = SelIntr | SelErr | SelReady bool bool

definition ready_line :: "bool \<Rightarrow> bool \<Rightarrow> string" where
  "ready_line i p = (if i then ''stdin'' else []) @ '':'' @ (if p then ''sysvmsg'' else []) @ [newline]"

fun parent_loop :: "sel_ans list \<Rightarrow> rd_ans list \<Rightarrow> rd_ans list \<Rightarrow> string \<Rightarrow> (int option \<times> string) run" where
  "parent_loop [] inp pip out = Done (None, out)"
| "parent_loop (SelIntr # rs) inp pip out = parent_loop rs inp pip out"
| "parent_loop (SelErr # rs) inp pip out = Done (Some EXIT_FAILURE, out)"
| "parent_loop (SelReady i p # rs) inp pip out =
     run_bind (if i then drain inp else Done inp) (\<lambda>inp'.
       run_bind (if p then drain pip else Done pip) (\<lambda>pip'.
         parent_loop rs inp' pip' (out @ ready_line i p)))"

text \<open>Data followed by \<^verbatim>\<open>EAGAIN\<close> are consumed; at the end of the file the loop is endless.\<close>

lemma drain_chunks:
  "\<forall>x \<in> set cs. \<exists>b. x = RdBytes b \<Longrightarrow> drain (cs @ RdErr EAGAIN # s) = Done s"
proof (induction "rd_weight (cs @ RdErr EAGAIN # s)" arbitrary: cs rule: less_induct)
  case less
  show ?case
  proof (cases cs)
    case Nil
    then show ?thesis by (subst drain.simps) simp
  next
    case (Cons x r)
    then obtain b where x: "x = RdBytes b" using less.prems by auto
    define cs' where "cs' = (if length b \<le> 1024 then r else RdBytes (drop 1024 b) # r)"
    have rd: "sys_read 1024 (cs @ RdErr EAGAIN # s) = (Inr (take 1024 b), cs' @ RdErr EAGAIN # s)"
      using Cons x by (simp add: cs'_def)
    have "rd_weight (cs' @ RdErr EAGAIN # s) < rd_weight (cs @ RdErr EAGAIN # s)"
      using sys_read_progress [OF rd] by simp
    moreover have "\<forall>x \<in> set cs'. \<exists>b. x = RdBytes b" using less.prems Cons by (auto simp: cs'_def)
    ultimately have "drain (cs' @ RdErr EAGAIN # s) = Done s" using less.hyps by blast
    then show ?thesis using rd by (subst drain.simps) simp
  qed
qed

lemma drain_eof: "\<forall>x \<in> set cs. x \<noteq> RdErr EAGAIN \<Longrightarrow> drain cs = Faulted Endless"
proof (induction cs rule: drain.induct)
  case (1 s)
  show ?case
  proof (cases "s = []")
    case True
    then show ?thesis by (simp add: drain.simps)
  next
    case False
    obtain r s' where rd: "sys_read 1024 s = (r, s')" by force
    have "\<forall>x \<in> set s'. x \<noteq> RdErr EAGAIN" "r \<noteq> Inl EAGAIN"
      using 1(3) rd False by (cases s; cases "hd s"; auto split: if_splits)+
    then show ?thesis using 1 False rd by (cases r) (auto simp: drain.simps [of s])
  qed
qed

text \<open>The parent prints what is ready and consumes it; once the standard input is at its end the round for it never
  ends.\<close>

theorem parent_rounds:
  assumes "\<forall>x \<in> set cs. \<exists>b. x = RdBytes b" "\<forall>x \<in> set ds. \<exists>b. x = RdBytes b" "\<forall>x \<in> set es. x \<noteq> RdErr EAGAIN"
  shows "parent_loop (SelReady True True # rs) (cs @ RdErr EAGAIN # inp) (ds @ RdErr EAGAIN # pip) out =
      parent_loop rs inp pip (out @ ''stdin:sysvmsg'' @ [newline]) \<and>
    parent_loop (SelReady True p # rs) es pip out = Faulted Endless"
  using assms by (simp add: drain_chunks drain_eof ready_line_def)

text \<open>\<^verbatim>\<open>parent_func\<close>: the flags of the two descriptors are read and set, \<open>nb\<close> has the four answers; the results are whether the parent sends
  \<^verbatim>\<open>SIGTERM\<close> to the child, which it does before each of its exits, and how it ends.\<close>

definition parent_func :: "bool \<times> bool \<times> bool \<times> bool \<Rightarrow> sel_ans list \<Rightarrow> rd_ans list \<Rightarrow> rd_ans list
    \<Rightarrow> bool \<times> (int option \<times> string) run" where
  "parent_func nb rs inp pip =
     (case nb of (get_in, set_in, get_pipe, set_pipe) \<Rightarrow>
        if \<not> get_in then (True, Exited EXIT_FAILURE)
        else if \<not> set_in then (True, Exited EXIT_FAILURE)
        else if \<not> get_pipe then (True, Exited EXIT_FAILURE)
        else if \<not> set_pipe then (True, Exited EXIT_FAILURE)
        else let r = parent_loop rs inp pip [] in (case r of Exited _ \<Rightarrow> True | _ \<Rightarrow> False, r))"

text \<open>The handler \<^verbatim>\<open>sysvmsg_rm\<close>, registered for the end of a process by \<^verbatim>\<open>exit\<close>, on the set of message queues.\<close>

definition sysvmsg_rm :: "nat \<Rightarrow> nat set \<Rightarrow> nat set" where
  "sysvmsg_rm msg_id qs = qs - {msg_id}"

text \<open>The main program: the queues of the system afterwards, whether the child was sent a signal, and how the process ends. The child
  inherits the registered handler and removes the queue when it exits.\<close>

record sel_env =
  se_msgget :: "nat option"
  se_atexit :: bool
  se_pipe :: bool
  se_fork :: "bool option"                    \<comment> \<open>\<open>Some True\<close> in the child\<close>
  se_nonblock :: "bool \<times> bool \<times> bool \<times> bool"

definition sel_main :: "sel_env \<Rightarrow> nat set \<Rightarrow> msg_ans list \<Rightarrow> wr_ans list \<Rightarrow> sel_ans list \<Rightarrow> rd_ans list \<Rightarrow> rd_ans list
    \<Rightarrow> nat set \<times> bool \<times> (int option \<times> string) run" where
  "sel_main e qs ms a rs inp pip =
     (case se_msgget e of
        None \<Rightarrow> (qs, False, Exited EXIT_FAILURE)
      | Some msg_id \<Rightarrow>
          let qs1 = insert msg_id qs in
          if \<not> se_atexit e then (sysvmsg_rm msg_id qs1, False, Exited EXIT_FAILURE)
          else if \<not> se_pipe e then (sysvmsg_rm msg_id qs1, False, Exited EXIT_FAILURE)
          else case se_fork e of
            None \<Rightarrow> (sysvmsg_rm msg_id qs1, False, Exited EXIT_FAILURE)
          | Some True \<Rightarrow>
              let (st, out) = child_func ms a []
              in (if st = None then qs1 else sysvmsg_rm msg_id qs1, False, Done (st, out))
          | Some False \<Rightarrow>
              let (killed, r) = parent_func (se_nonblock e) rs inp pip
              in (case r of Exited _ \<Rightarrow> sysvmsg_rm msg_id qs1 | _ \<Rightarrow> qs1, killed, r))"

text \<open>Whenever the parent exits, the queue it made is gone and a child that was made has been sent the signal.\<close>

lemma sel_main_cleans_up:
  assumes "sel_main e qs ms a rs inp pip = (qs', killed, Exited n)" "\<forall>i. se_msgget e = Some i \<longrightarrow> i \<notin> qs"
  shows "qs' = qs \<and> (se_msgget e \<noteq> None \<and> se_atexit e \<and> se_pipe e \<and> se_fork e = Some False \<longrightarrow> killed)"
  using assms
  by (auto simp: sel_main_def parent_func_def sysvmsg_rm_def Let_def split: option.splits if_splits bool.splits prod.splits run.splits)

subsection \<open>\<^verbatim>\<open>self_pipe.c\<close>\<close>

text \<open>\<^verbatim>\<open>fcntl\<close> is called for \<^verbatim>\<open>F_SETFL\<close> without its third argument, so whether the ends of the pipe become non-blocking is
  indeterminate: \<open>nb_r\<close> and \<open>nb_w\<close>. The pipe holds 65536 bytes.\<close>

record self_pipe =
  nb_r :: bool
  nb_w :: bool
  sp_bytes :: nat

definition sp_handler :: "self_pipe \<Rightarrow> self_pipe run" where
  "sp_handler s =
     (if sp_bytes s < 65536 then Done (s\<lparr>sp_bytes := sp_bytes s + 1\<rparr>)
      else if nb_w s then Done s
      else Faulted Deadlock)"

fun sp_signals :: "nat \<Rightarrow> self_pipe \<Rightarrow> self_pipe run" where
  "sp_signals 0 s = Done s"
| "sp_signals (Suc k) s = run_bind (sp_handler s) (sp_signals k)"

text \<open>The loop that reads the pipe byte by byte; on an empty pipe a blocking \<^verbatim>\<open>read\<close> waits, here with no further
  signal.\<close>

fun sp_drain :: "bool \<Rightarrow> nat \<Rightarrow> nat run" where
  "sp_drain nb 0 = (if nb then Done 0 else Faulted Deadlock)"
| "sp_drain nb (Suc n) = sp_drain nb n"

text \<open>\<open>polls\<close> are the answers of \<^verbatim>\<open>poll\<close> before one is ready: \<open>None\<close> for an interruption, \<open>Some e\<close> for an error. The
  signals \<open>k\<close> arrive before \<^verbatim>\<open>poll\<close> returns.\<close>

fun sp_poll :: "errno option list \<Rightarrow> nat \<Rightarrow> self_pipe \<Rightarrow> (string \<times> self_pipe) run" where
  "sp_poll [] k s =
     run_bind (sp_signals k s) (\<lambda>s1.
       if sp_bytes s1 = 0 then Faulted Deadlock
       else run_bind (sp_drain (nb_r s1) (sp_bytes s1)) (\<lambda>n. Done (''A signal was caught'' @ [newline], s1\<lparr>sp_bytes := n\<rparr>)))"
| "sp_poll (e # es) k s =
     (case e of None \<Rightarrow> sp_poll es k s | Some _ \<Rightarrow> Exited EXIT_FAILURE)"

record sp_env =
  sp_pipe :: bool
  sp_getfl_r :: bool
  sp_setfl_r :: bool
  sp_getfl_w :: bool
  sp_setfl_w :: bool
  sp_sigaction :: bool

definition self_pipe_main :: "sp_env \<Rightarrow> bool \<Rightarrow> bool \<Rightarrow> errno option list \<Rightarrow> nat \<Rightarrow> (string \<times> self_pipe) run" where
  "self_pipe_main e r w es k =
     (if \<not> sp_pipe e then Exited EXIT_FAILURE
      else if \<not> sp_getfl_r e then Exited EXIT_FAILURE
      else if \<not> sp_setfl_r e then Exited EXIT_FAILURE
      else if \<not> sp_getfl_w e then Exited EXIT_FAILURE
      else if \<not> sp_setfl_w e then Exited EXIT_FAILURE
      else if \<not> sp_sigaction e then Exited EXIT_FAILURE
      else sp_poll es k \<lparr>nb_r = r, nb_w = w, sp_bytes = 0\<rparr>)"

lemma sp_signals_bytes:
  "sp_bytes s + k \<le> 65536 \<or> nb_w s \<Longrightarrow> sp_bytes s \<le> 65536 \<Longrightarrow>
     sp_signals k s = Done (s\<lparr>sp_bytes := min 65536 (sp_bytes s + k)\<rparr>)"
  by (induction k arbitrary: s) (auto simp: sp_handler_def min_def)

lemma sp_signals_blocked:
  "65536 < sp_bytes s + k \<Longrightarrow> \<not> nb_w s \<Longrightarrow> sp_bytes s \<le> 65536 \<Longrightarrow> sp_signals k s = Faulted Deadlock"
  by (induction k arbitrary: s) (auto simp: sp_handler_def)

lemma sp_drain_eq: "sp_drain nb n = (if nb then Done 0 else Faulted Deadlock)"
  by (induction n) auto

lemma sp_poll_intr: "\<forall>x \<in> set es. x = None \<Longrightarrow> sp_poll es k s = sp_poll [] k s"
  by (induction es) auto

text \<open>With \<open>k\<close> signals before \<^verbatim>\<open>poll\<close> returns, and none after, \<^verbatim>\<open>self_pipe\<close> reports the signal once, empties the pipe and ends
  only when the read end happens to be non-blocking, and, for more signals than the pipe has
  room for, the write end as well; otherwise it waits for ever. Interruptions of \<^verbatim>\<open>poll\<close> do not matter.\<close>

theorem self_pipe_ends:
  assumes "0 < k" "\<forall>x \<in> set es. x = None"
    and "e = \<lparr>sp_pipe = True, sp_getfl_r = True, sp_setfl_r = True, sp_getfl_w = True, sp_setfl_w = True, sp_sigaction = True\<rparr>"
  shows "self_pipe_main e r w es k =
    (if r \<and> (k \<le> 65536 \<or> w) then Done (''A signal was caught'' @ [newline], \<lparr>nb_r = r, nb_w = w, sp_bytes = 0\<rparr>)
     else Faulted Deadlock)"
proof (cases "k \<le> 65536 \<or> w")
  case True
  then have "sp_signals k \<lparr>nb_r = r, nb_w = w, sp_bytes = 0\<rparr> = Done \<lparr>nb_r = r, nb_w = w, sp_bytes = min 65536 k\<rparr>"
    using sp_signals_bytes [of "\<lparr>nb_r = r, nb_w = w, sp_bytes = 0\<rparr>" k] by auto
  then show ?thesis using assms True by (simp add: self_pipe_main_def sp_poll_intr sp_drain_eq min_def)
next
  case False
  then have "sp_signals k \<lparr>nb_r = r, nb_w = w, sp_bytes = 0\<rparr> = Faulted Deadlock"
    by (intro sp_signals_blocked) auto
  then show ?thesis using assms False by (simp add: self_pipe_main_def sp_poll_intr)
qed

theorem self_pipe_ends_witness:
  "self_pipe_main \<lparr>sp_pipe = True, sp_getfl_r = True, sp_setfl_r = True, sp_getfl_w = True, sp_setfl_w = True, sp_sigaction = True\<rparr>
     False True [None] 3 = Faulted Deadlock"
  using self_pipe_ends [of 3 "[None]" _ False True] by simp

end
