(* ===== verification/Locks.thy ===== *)
theory Locks
  imports C_Lib Transitions
begin

text \<open>
  Section 55: file locks. \<^verbatim>\<open>i_fcntl_locking.c\<close> is an interactive interface to record locks, \<^verbatim>\<open>fcntl_lock_speed_a.c\<close> and
  \<^verbatim>\<open>fcntl_lock_speed_b.c\<close> place many of them, \<^verbatim>\<open>flock_two_file_exclusive.c\<close>, \<^verbatim>\<open>flock_dup.c\<close> and \<^verbatim>\<open>t_flock.c\<close> use whole-file
  locks. The record locks of the kernel are a list of ranges with owners. They are related to an
  abstract map from bytes to the types of lock a process holds; for any number of interactive
  processes the effect of every typed command on the bytes of the file is determined, with requests that wait, are
  granted later or fail with a deadlock, and no conflicting locks are ever held. For \<^verbatim>\<open>flock_two_file_exclusive\<close> all interleavings of two
  instances are considered: the same order of files always ends, the opposite order can deadlock.
\<close>

subsection \<open>Record locks\<close>

datatype lk = Rd | Wr

record flk =
  lk_pid :: int
  lk_typ :: lk
  lk_from :: int
  lk_to :: "int option"                       \<comment> \<open>first byte behind the range, \<open>None\<close> for no end\<close>

definition ends_by :: "int option \<Rightarrow> int \<Rightarrow> bool" where
  "ends_by e x = (case e of None \<Rightarrow> False | Some t \<Rightarrow> t \<le> x)"

definition covers :: "flk \<Rightarrow> int \<Rightarrow> bool" where
  "covers a x \<longleftrightarrow> lk_from a \<le> x \<and> \<not> ends_by (lk_to a) x"

definition overlap :: "flk \<Rightarrow> flk \<Rightarrow> bool" where
  "overlap a b \<longleftrightarrow> \<not> ends_by (lk_to a) (lk_from b) \<and> \<not> ends_by (lk_to b) (lk_from a)"

definition conflict :: "flk \<Rightarrow> flk \<Rightarrow> bool" where
  "conflict a b \<longleftrightarrow> lk_pid a \<noteq> lk_pid b \<and> overlap a b \<and> (lk_typ a = Wr \<or> lk_typ b = Wr)"

text \<open>What remains of a lock when a range of the same process is replaced: a part in front and a part behind.\<close>

definition pieces :: "flk \<Rightarrow> flk \<Rightarrow> flk list" where
  "pieces r a =
     (if lk_from a < lk_from r then [a\<lparr>lk_to := Some (lk_from r)\<rparr>] else []) @
     (case lk_to r of None \<Rightarrow> [] | Some t \<Rightarrow> if ends_by (lk_to a) t then [] else [a\<lparr>lk_from := t\<rparr>])"

definition carve :: "flk \<Rightarrow> flk list \<Rightarrow> flk list" where
  "carve r ls = concat (map (\<lambda>a. if lk_pid a = lk_pid r \<and> overlap a r then pieces r a else [a]) ls)"

datatype lk_status = LkOk | LkAgain | LkBlocked | LkDeadlk

text \<open>\<^verbatim>\<open>F_SETLK\<close> and \<^verbatim>\<open>F_SETLKW\<close>; \<open>ty = None\<close> unlocks. A request that conflicts fails at once or waits.\<close>

definition setlk :: "bool \<Rightarrow> lk option \<Rightarrow> flk \<Rightarrow> flk list \<Rightarrow> lk_status \<times> flk list" where
  "setlk waits ty r ls =
     (case ty of
        None \<Rightarrow> (LkOk, carve r ls)
      | Some t \<Rightarrow>
          let r' = r\<lparr>lk_typ := t\<rparr> in
          if \<exists>a \<in> set ls. conflict r' a then (if waits then LkBlocked else LkAgain, ls)
          else (LkOk, r' # carve r' ls))"

text \<open>The range of a \<^verbatim>\<open>struct flock\<close>; \<open>None\<close> when it begins in front of the file or does not fit the type
  of file offsets.\<close>

definition range_ok :: "int \<Rightarrow> int \<Rightarrow> int \<Rightarrow> bool" where
  "range_ok base start len \<longleftrightarrow> 0 \<le> base + start \<and> 0 \<le> base + start + len \<and> base + start < 2 ^ 63
     \<and> base + start + len \<le> 2 ^ 63"

definition lock_range :: "int \<Rightarrow> int \<Rightarrow> int \<Rightarrow> int \<Rightarrow> flk option" where
  "lock_range pid base start len =
     (let s = base + start;
          from = (if len < 0 then s + len else s);
          to = (if len = 0 then None else if len < 0 then Some s else Some (s + len)) in
      if \<not> range_ok base start len then None else Some \<lparr>lk_pid = pid, lk_typ = Rd, lk_from = from, lk_to = to\<rparr>)"

text \<open>The abstract view: the types of lock a process holds on a byte.\<close>

definition holds :: "flk list \<Rightarrow> int \<Rightarrow> int \<Rightarrow> lk set" where
  "holds ls p x = lk_typ ` {a \<in> set ls. lk_pid a = p \<and> covers a x}"

definition no_conflict :: "flk list \<Rightarrow> bool" where
  "no_conflict ls = list_all (\<lambda>a. list_all (\<lambda>b. \<not> conflict a b) ls) ls"

definition proper :: "flk \<Rightarrow> bool" where
  "proper a \<longleftrightarrow> \<not> ends_by (lk_to a) (lk_from a)"

lemma pieces_proper: "a \<in> set (pieces r b) \<Longrightarrow> proper b \<Longrightarrow> proper a"
  by (auto simp: pieces_def proper_def ends_by_def split: option.splits if_splits)

lemma pieces_same: "a \<in> set (pieces r b) \<Longrightarrow> lk_pid a = lk_pid b \<and> lk_typ a = lk_typ b"
  by (auto simp: pieces_def split: option.splits if_splits)

lemma pieces_overlap: "a \<in> set (pieces r b) \<Longrightarrow> overlap b r \<Longrightarrow> proper b \<Longrightarrow> overlap a c \<Longrightarrow> overlap b c"
  by (auto simp: pieces_def overlap_def proper_def ends_by_def split: option.splits if_splits)

lemma conflict_sym: "conflict a b \<Longrightarrow> conflict b a"
  by (auto simp: conflict_def overlap_def)

lemma carve_origin: "a \<in> set (carve r ls) \<Longrightarrow>
    a \<in> set ls \<or> (\<exists>b \<in> set ls. lk_pid b = lk_pid r \<and> overlap b r \<and> a \<in> set (pieces r b))"
  by (auto simp: carve_def split: if_splits)

lemma carve_conflict:
  assumes "a \<in> set (carve r ls)" "\<forall>b \<in> set ls. proper b" "conflict a c"
  shows "\<exists>b \<in> set ls. conflict b c"
  using carve_origin [OF assms(1)]
proof
  assume "\<exists>b \<in> set ls. lk_pid b = lk_pid r \<and> overlap b r \<and> a \<in> set (pieces r b)"
  then obtain b where b: "b \<in> set ls" "overlap b r" "a \<in> set (pieces r b)" by blast
  then have "conflict b c"
    using assms(2,3) pieces_same [OF b(3)] pieces_overlap [OF b(3,2)] by (auto simp: conflict_def)
  with b(1) show ?thesis ..
qed (use assms(3) in blast)

lemma no_conflict_iff: "no_conflict ls \<longleftrightarrow> (\<forall>a \<in> set ls. \<forall>b \<in> set ls. \<not> conflict a b)"
  by (simp add: no_conflict_def list_all_iff)

lemma carve_proper: "\<forall>b \<in> set ls. proper b \<Longrightarrow> \<forall>b \<in> set (carve r ls). proper b"
  using carve_origin pieces_proper by blast

lemma carve_no_conflict: "no_conflict ls \<Longrightarrow> \<forall>b \<in> set ls. proper b \<Longrightarrow> no_conflict (carve r ls)"
  unfolding no_conflict_iff using carve_conflict conflict_sym by (metis (no_types))

lemma setlk_inv:
  assumes "no_conflict ls" "\<forall>b \<in> set ls. proper b" "proper r" "setlk w ty r ls = (st, ls')"
  shows "no_conflict ls' \<and> (\<forall>b \<in> set ls'. proper b)"
proof (cases ty)
  case None
  then show ?thesis
    using assms(4) carve_no_conflict [OF assms(1,2), of r] carve_proper [OF assms(2), of r] by (auto simp: setlk_def)
next
  case (Some t)
  let ?r = "r\<lparr>lk_typ := t\<rparr>"
  show ?thesis
  proof (cases "\<exists>a \<in> set ls. conflict ?r a")
    case True
    then show ?thesis using assms Some by (auto simp: setlk_def Let_def split: if_splits)
  next
    case False
    have ls': "ls' = ?r # carve ?r ls" using assms(4) Some False by (auto simp: setlk_def Let_def)
    have "\<not> conflict a ?r" if "a \<in> set (carve ?r ls)" for a
      using carve_conflict [OF that assms(2)] False conflict_sym by blast
    moreover have "\<not> conflict ?r ?r" by (simp add: conflict_def)
    ultimately have "no_conflict ls'"
      using carve_no_conflict [OF assms(1,2), of ?r] conflict_sym unfolding no_conflict_iff ls' by (metis set_ConsD)
    moreover have "proper ?r" using assms(3) by (simp add: proper_def)
    ultimately show ?thesis using carve_proper [OF assms(2), of ?r] ls' by simp
  qed
qed

text \<open>Byte by byte, a carved list lacks exactly the range for the process.\<close>

lemma pieces_some_covers:
  "(\<exists>p \<in> set (pieces r a). covers p x) \<longleftrightarrow>
     (lk_from a < lk_from r \<and> lk_from a \<le> x \<and> x < lk_from r) \<or>
     (\<exists>t. lk_to r = Some t \<and> \<not> ends_by (lk_to a) t \<and> t \<le> x \<and> \<not> ends_by (lk_to a) x)"
proof -
  have s: "set (pieces r a) = (if lk_from a < lk_from r then {a\<lparr>lk_to := Some (lk_from r)\<rparr>} else {}) \<union>
      (case lk_to r of None \<Rightarrow> {} | Some t \<Rightarrow> if ends_by (lk_to a) t then {} else {a\<lparr>lk_from := t\<rparr>})"
    by (auto simp: pieces_def split: option.splits)
  show ?thesis unfolding s bex_Un by (cases "lk_to r") (auto simp: covers_def ends_by_def)
qed

lemma pieces_covers:
  assumes "overlap a r" "proper r"
  shows "(\<exists>p \<in> set (pieces r a). covers p x) \<longleftrightarrow> covers a x \<and> \<not> covers r x"
  unfolding pieces_some_covers using assms
  by (cases "lk_to r"; cases "lk_to a") (auto simp: covers_def overlap_def proper_def ends_by_def)

lemma no_overlap_covers: "\<not> overlap a r \<Longrightarrow> covers a x \<Longrightarrow> \<not> covers r x"
  by (auto simp: covers_def overlap_def ends_by_def split: option.splits)

lemma holds_Nil: "holds [] p x = {}"
  by (simp add: holds_def)

lemma holds_Cons: "holds (a # ls) p x = (if lk_pid a = p \<and> covers a x then {lk_typ a} else {}) \<union> holds ls p x"
  by (auto simp: holds_def)

lemma holds_append: "holds (ls @ ms) p x = holds ls p x \<union> holds ms p x"
  by (auto simp: holds_def)

lemma holds_pieces:
  assumes "overlap a r" "proper r" "lk_pid a = lk_pid r"
  shows "holds (pieces r a) p x = (if lk_pid a = p \<and> covers a x \<and> \<not> covers r x then {lk_typ a} else {})"
proof -
  have "holds (pieces r a) p x = (if lk_pid a = p \<and> (\<exists>q \<in> set (pieces r a). covers q x) then {lk_typ a} else {})"
    using pieces_same [of _ r a] unfolding holds_def by force
  then show ?thesis using pieces_covers [OF assms(1,2), of x] by simp
qed

lemma holds_carve:
  assumes "proper r"
  shows "holds (carve r ls) p x = (if p = lk_pid r \<and> covers r x then {} else holds ls p x)"
proof (induction ls)
  case Nil
  then show ?case by (simp add: carve_def holds_Nil)
next
  case (Cons a ls)
  have "carve r (a # ls) = (if lk_pid a = lk_pid r \<and> overlap a r then pieces r a else [a]) @ carve r ls"
    by (simp add: carve_def)
  then show ?case
    using Cons holds_pieces [OF _ assms, of a p x] no_overlap_covers [of a r x]
    by (auto simp: holds_append holds_Cons holds_Nil)
qed

text \<open>The effect of a request byte by byte.\<close>

lemma setlk_holds:
  assumes "proper r" "setlk w ty r ls = (LkOk, ls')"
  shows "holds ls' p x = (if p = lk_pid r \<and> covers r x then set_option ty else holds ls p x)"
proof (cases ty)
  case None
  then show ?thesis using assms by (auto simp: setlk_def holds_carve)
next
  case (Some t)
  let ?r = "r\<lparr>lk_typ := t\<rparr>"
  have r: "proper ?r" "covers ?r x = covers r x" using assms(1) by (simp_all add: proper_def covers_def)
  have "ls' = ?r # carve ?r ls" using assms(2) Some by (auto simp: setlk_def Let_def split: if_splits)
  then show ?thesis using Some r by (auto simp: holds_Cons holds_carve [OF r(1)])
qed

text \<open>The bytes a range stands for.\<close>

definition byte_range :: "int \<Rightarrow> int \<Rightarrow> int \<Rightarrow> int set" where
  "byte_range base start len =
     (if 0 < len then {base + start ..< base + start + len}
      else if len < 0 then {base + start + len ..< base + start}
      else {base + start ..})"

lemma lock_range_covers:
  "range_ok base start len \<Longrightarrow> \<exists>r. lock_range pid base start len = Some r \<and> lk_pid r = pid \<and> proper r
     \<and> (\<forall>x. covers r x \<longleftrightarrow> x \<in> byte_range base start len)"
  by (auto simp: lock_range_def byte_range_def covers_def proper_def ends_by_def Let_def)

lemma lock_range_proper: "lock_range pid base start len = Some r \<Longrightarrow> proper r \<and> lk_pid r = pid"
  by (auto simp: lock_range_def proper_def ends_by_def Let_def split: if_splits)

subsection \<open>\<^verbatim>\<open>i_fcntl_locking.c\<close>\<close>

text \<open>\<^verbatim>\<open>sscanf(line, "%c %c %lld %lld %c", ...)\<close>: \<open>None\<close> when fewer than four conversions succeed.\<close>

definition scan_lld :: "string \<Rightarrow> (int \<times> string) option" where
  "scan_lld s =
     (let s1 = dropWhile is_space s;
          neg = (s1 \<noteq> [] \<and> hd s1 = CHR ''-'');
          s2 = (if s1 \<noteq> [] \<and> hd s1 \<in> {CHR ''-'', CHR ''+''} then tl s1 else s1);
          ds = takeWhile is_digit s2;
          v = int (foldl (\<lambda>a c. a * 10 + digit_val c) 0 ds) in
      if ds = [] then None else Some (clamp_long (if neg then - v else v), dropWhile is_digit s2))"

definition parse_line :: "string \<Rightarrow> (char \<times> char \<times> int \<times> int \<times> char) option" where
  "parse_line line =
     (case line of
        [] \<Rightarrow> None
      | cmdCh # r1 \<Rightarrow>
          case dropWhile is_space r1 of
            [] \<Rightarrow> None
          | lock # r2 \<Rightarrow>
              case scan_lld r2 of
                None \<Rightarrow> None
              | Some (st, r3) \<Rightarrow>
                  case scan_lld r3 of
                    None \<Rightarrow> None
                  | Some (len, r4) \<Rightarrow>
                      let r5 = dropWhile is_space r4 in
                      Some (cmdCh, lock, st, len, if r5 = [] then CHR ''s'' else hd r5))"

definition lock_type :: "char \<Rightarrow> lk option" where
  "lock_type c = (if c = CHR ''r'' then Some Rd else if c = CHR ''w'' then Some Wr else None)"

text \<open>The offset of the file is never moved, so \<^verbatim>\<open>SEEK_CUR\<close> is the start of the file.\<close>

definition whence_base :: "int \<Rightarrow> char \<Rightarrow> int" where
  "whence_base fsize c = (if c = CHR ''e'' then fsize else 0)"

definition pid_text :: "int \<Rightarrow> string" where
  "pid_text pid = ''[PID='' @ dec_int pid @ ''] ''"

definition getlk_text :: "int \<Rightarrow> lk option \<Rightarrow> flk \<Rightarrow> flk list \<Rightarrow> string" where
  "getlk_text pid ty r ls =
     (case ty of
        None \<Rightarrow> []
      | Some t \<Rightarrow>
          case find (conflict (r\<lparr>lk_typ := t\<rparr>)) ls of
            None \<Rightarrow> pid_text pid @ ''Lock can be placed'' @ [newline]
          | Some a \<Rightarrow> pid_text pid @ ''Denied by '' @ (if lk_typ a = Rd then ''READ'' else ''WRITE'') @ '' lock on '' @
              dec_int (lk_from a) @ '':'' @ dec_int (case lk_to a of None \<Rightarrow> 0 | Some e \<Rightarrow> e - lk_from a) @
              '' (held by PID '' @ dec_int (lk_pid a) @ '')'' @ [newline])"

definition setlk_text :: "int \<Rightarrow> char \<Rightarrow> lk_status \<Rightarrow> string" where
  "setlk_text pid lock st =
     (case st of
        LkOk \<Rightarrow> pid_text pid @ (if lock = CHR ''u'' then ''unlocked'' else ''got lock'') @ [newline]
      | LkAgain \<Rightarrow> pid_text pid @ ''failed (incompatible lock)'' @ [newline]
      | LkDeadlk \<Rightarrow> pid_text pid @ ''failed (deadlock)'' @ [newline]
      | LkBlocked \<Rightarrow> [])"

text \<open>The locks of the file and the requests that wait in \<^verbatim>\<open>F_SETLKW\<close>: process, character of the lock type and request. A
  waiting process waits for the owners of the locks that conflict with its request. A request that would
  close a circle of waiting processes fails with \<^verbatim>\<open>EDEADLK\<close>.\<close>

record lock_sys =
  l_locks :: "flk list"
  l_waits :: "(int \<times> char \<times> flk) list"

definition waiting :: "lock_sys \<Rightarrow> int \<Rightarrow> bool" where
  "waiting s pid \<longleftrightarrow> pid \<in> fst ` set (l_waits s)"

definition waits_on :: "lock_sys \<Rightarrow> int \<Rightarrow> int \<Rightarrow> bool" where
  "waits_on s p q \<longleftrightarrow> (\<exists>(w, c, r) \<in> set (l_waits s). w = p \<and> (\<exists>a \<in> set (l_locks s). conflict r a \<and> lk_pid a = q))"

definition deadlock :: "lock_sys \<Rightarrow> int \<Rightarrow> flk \<Rightarrow> bool" where
  "deadlock s pid r \<longleftrightarrow> (\<exists>a \<in> set (l_locks s). conflict r a \<and> (waits_on s)\<^sup>*\<^sup>* (lk_pid a) pid)"

definition invalid_text :: string where
  "invalid_text = ''Invalid command!'' @ [newline]"

definition lock_request :: "int \<Rightarrow> bool \<Rightarrow> char \<Rightarrow> flk \<Rightarrow> lock_sys \<Rightarrow> string \<times> lock_sys" where
  "lock_request pid waits lock r s =
     (case setlk waits (lock_type lock) r (l_locks s) of
        (LkBlocked, _) \<Rightarrow>
          let r' = r\<lparr>lk_typ := the (lock_type lock)\<rparr> in
          if deadlock s pid r' then (setlk_text pid lock LkDeadlk, s)
          else ([], s\<lparr>l_waits := l_waits s @ [(pid, lock, r')]\<rparr>)
      | (status, ls') \<Rightarrow> (setlk_text pid lock status, s\<lparr>l_locks := ls'\<rparr>))"

definition lock_command :: "int \<Rightarrow> int \<Rightarrow> string \<Rightarrow> lock_sys \<Rightarrow> string \<times> lock_sys" where
  "lock_command fsize pid line s =
     (case parse_line line of
        None \<Rightarrow> (invalid_text, s)
      | Some (cmdCh, lock, st, len, whence) \<Rightarrow>
          if cmdCh \<notin> set ''gsw'' \<or> lock \<notin> set ''rwu'' \<or> whence \<notin> set ''sce'' then (invalid_text, s)
          else case lock_range pid (whence_base fsize whence) st len of
            None \<Rightarrow> ([], s)
          | Some r \<Rightarrow>
              if cmdCh = CHR ''g'' then (getlk_text pid (lock_type lock) r (l_locks s), s)
              else lock_request pid (cmdCh = CHR ''w'') lock r s)"

definition help_text :: string where
  "help_text = [newline] @ ''  Format: cmd lock start length [whence]'' @ [newline, newline] @
     ''    'cmd' is 'g' (GETLK), 's' (SETLK), or 'w' (SETLKW)'' @ [newline] @
     ''    'lock' is 'r' (READ), 'w' (WRITE), or 'u' (UNLOCK)'' @ [newline] @
     ''    'start' and 'length' specify byte rane to lock'' @ [newline] @
     ''    'whence' is 's' (SEEK_SET, default), 'c' (SEEK_CUR),or 'e' (SEEK_END)'' @ [newline, newline]"

text \<open>One line as \<^verbatim>\<open>fgets\<close> delivers it, up to a terminator; its last character is cut off without a check. The output of
  a process that waits in \<^verbatim>\<open>F_SETLKW\<close> is empty for the time being.\<close>

definition lock_line :: "int \<Rightarrow> int \<Rightarrow> string \<Rightarrow> lock_sys \<Rightarrow> (string \<times> lock_sys) run" where
  "lock_line fsize pid line s =
     (if line = [] then Faulted OutOfBounds
      else let l = butlast line in
        if l = [] then Done ([], s)
        else if hd l = CHR ''?'' then Done (help_text, s)
        else Done (lock_command fsize pid l s))"

text \<open>The kernel grants a waiting request that no longer conflicts, and the process reports the lock.\<close>

definition lock_grant :: "int \<Rightarrow> lock_sys \<Rightarrow> (string \<times> lock_sys) option" where
  "lock_grant pid s =
     (case find (\<lambda>(w, c, r). w = pid) (l_waits s) of
        None \<Rightarrow> None
      | Some (w, lock, r) \<Rightarrow>
          (case setlk True (Some (lk_typ r)) r (l_locks s) of
             (LkOk, ls') \<Rightarrow> Some (setlk_text pid lock LkOk,
               \<lparr>l_locks = ls', l_waits = filter (\<lambda>(w, c, r). w \<noteq> pid) (l_waits s)\<rparr>)
           | _ \<Rightarrow> None))"

text \<open>At the end of its input a process exits, and the kernel releases its locks.\<close>

definition release_pid :: "int \<Rightarrow> flk list \<Rightarrow> flk list" where
  "release_pid pid ls = filter (\<lambda>a. lk_pid a \<noteq> pid) ls"

text \<open>Any number of instances on one file, in any order: a process that does not wait reads its next line or ends, a
  waiting one gets its lock. The outputs are listed with their processes.\<close>

inductive lock_session :: "int \<Rightarrow> (int \<times> string) list \<Rightarrow> lock_sys \<Rightarrow> bool" for fsize where
  start: "lock_session fsize [] \<lparr>l_locks = [], l_waits = []\<rparr>"
| typed: "lock_session fsize outs s \<Longrightarrow> \<not> waiting s pid \<Longrightarrow> lock_line fsize pid line s = Done (out, s')
    \<Longrightarrow> lock_session fsize (outs @ [(pid, out)]) s'"
| granted: "lock_session fsize outs s \<Longrightarrow> lock_grant pid s = Some (out, s')
    \<Longrightarrow> lock_session fsize (outs @ [(pid, out)]) s'"
| ended: "lock_session fsize outs s \<Longrightarrow> \<not> waiting s pid
    \<Longrightarrow> lock_session fsize outs (s\<lparr>l_locks := release_pid pid (l_locks s)\<rparr>)"

text \<open>One instance from its start on, among the locks of others: it reads its lines until it has to wait.\<close>

fun lock_lines :: "int \<Rightarrow> int \<Rightarrow> string list \<Rightarrow> lock_sys \<Rightarrow> (string list \<times> lock_sys) run" where
  "lock_lines fsize pid [] s = Done ([], s)"
| "lock_lines fsize pid (line # lines) s =
     run_bind (lock_line fsize pid line s) (\<lambda>(out, s').
       if waiting s' pid then Done ([out], s')
       else run_bind (lock_lines fsize pid lines s') (\<lambda>(outs, s''). Done (out # outs, s'')))"

text \<open>The output, the exit status (\<open>None\<close> while it waits), and the locks. At the end of its input the program
  exits with failure.\<close>

definition i_fcntl_main ::
  "bool \<Rightarrow> string list \<Rightarrow> int \<Rightarrow> int \<Rightarrow> string list \<Rightarrow> lock_sys \<Rightarrow> (string \<times> int option \<times> lock_sys) run" where
  "i_fcntl_main open_ok argv fsize pid typed s =
     (if length argv \<noteq> 2 \<or> argv ! 1 = ''--help'' then Exited EXIT_FAILURE
      else if \<not> open_ok then Exited EXIT_FAILURE
      else
        let prompt = ''PID='' @ dec_int pid @ ''> '' in
        run_bind (lock_lines fsize pid typed s) (\<lambda>(outs, s').
          let text = ''Enter ? for help'' @ [newline] @ concat (map (\<lambda>o1. prompt @ o1) outs) in
          if waiting s' pid then Done (text, None, s')
          else Done (text @ prompt, Some EXIT_FAILURE, s'\<lparr>l_locks := release_pid pid (l_locks s')\<rparr>)))"

subsection \<open>Commands and their effect on the bytes\<close>

definition locks_ok :: "flk list \<Rightarrow> bool" where
  "locks_ok ls \<longleftrightarrow> no_conflict ls \<and> (\<forall>b \<in> set ls. proper b)"

definition sys_ok :: "lock_sys \<Rightarrow> bool" where
  "sys_ok s \<longleftrightarrow> locks_ok (l_locks s) \<and> (\<forall>(w, c, r) \<in> set (l_waits s). proper r \<and> lk_pid r = w \<and> c \<noteq> CHR ''u'')
     \<and> distinct (map fst (l_waits s))"

lemma setlk_ok: "locks_ok ls \<Longrightarrow> proper r \<Longrightarrow> setlk w ty r ls = (st, ls') \<Longrightarrow> locks_ok ls'"
  using setlk_inv [of ls r w ty st ls'] by (simp add: locks_ok_def)

lemma setlk_cases:
  "setlk waits ty r ls =
     (case ty of
        None \<Rightarrow> (LkOk, carve r ls)
      | Some t \<Rightarrow> if \<exists>a \<in> set ls. conflict (r\<lparr>lk_typ := t\<rparr>) a then (if waits then LkBlocked else LkAgain, ls)
                 else (LkOk, r\<lparr>lk_typ := t\<rparr> # carve (r\<lparr>lk_typ := t\<rparr>) ls))"
  by (simp add: setlk_def Let_def split: option.splits)

lemma lock_request_ok:
  assumes "sys_ok s" "proper r" "lk_pid r = pid" "\<not> waiting s pid" "lock_request pid waits lock r s = (out, s')"
  shows "sys_ok s'"
proof -
  obtain status ls' where l: "setlk waits (lock_type lock) r (l_locks s) = (status, ls')" by force
  have ok: "locks_ok ls'" using setlk_ok [OF _ assms(2) l] assms(1) by (simp add: sys_ok_def)
  have "proper (r\<lparr>lk_typ := t\<rparr>)" for t using assms(2) by (simp add: proper_def)
  moreover have "status = LkBlocked \<Longrightarrow> lock \<noteq> CHR ''u''"
    using l by (auto simp: setlk_cases lock_type_def split: if_splits)
  ultimately show ?thesis
    using assms(1,3,4,5) l ok
    by (cases status) (auto simp: lock_request_def sys_ok_def waiting_def Let_def split: if_splits)
qed

lemma lock_line_ok:
  assumes "sys_ok s" "\<not> waiting s pid" "lock_line fsize pid line s = Done (out, s')"
  shows "sys_ok s'"
proof -
  have "sys_ok s2" if c: "lock_command fsize pid l s = (out2, s2)" for l out2 s2
  proof (cases "parse_line l")
    case None
    then show ?thesis using c assms(1) by (simp add: lock_command_def)
  next
    case (Some x)
    obtain cmdCh lock st len whence where x: "x = (cmdCh, lock, st, len, whence)" by (cases x) auto
    show ?thesis
    proof (cases "lock_range pid (whence_base fsize whence) st len")
      case None
      then show ?thesis using c assms(1) Some x by (auto simp: lock_command_def split: if_splits)
    next
      case (Some r)
      then show ?thesis
        using c assms(1) \<open>parse_line l = Some x\<close> x lock_range_proper [OF Some] lock_request_ok [OF assms(1) _ _ assms(2)]
        by (auto simp: lock_command_def split: if_splits)
    qed
  qed
  then show ?thesis using assms by (auto simp: lock_line_def Let_def split: if_splits)
qed

lemma lock_grant_ok:
  assumes "sys_ok s" "lock_grant pid s = Some (out, s')"
  shows "sys_ok s'"
proof -
  obtain w lock r where f: "find (\<lambda>(w, c, r). w = pid) (l_waits s) = Some (w, lock, r)"
    using assms(2) by (cases "find (\<lambda>(w, c, r). w = pid) (l_waits s)") (auto simp: lock_grant_def)
  then have "proper r" using assms(1) by (fastforce simp: sys_ok_def find_Some_iff dest: nth_mem)
  moreover obtain ls' where "setlk True (Some (lk_typ r)) r (l_locks s) = (LkOk, ls')"
      "s' = \<lparr>l_locks = ls', l_waits = filter (\<lambda>(w, c, r). w \<noteq> pid) (l_waits s)\<rparr>"
    using assms(2) f by (auto simp: lock_grant_def split: prod.splits lk_status.splits)
  ultimately show ?thesis using assms(1) setlk_ok by (auto simp: sys_ok_def distinct_map_filter)
qed

lemma distinct_map_filter: "distinct (map fst xs) \<Longrightarrow> distinct (map fst (filter P xs))"
  by (induction xs) auto

lemma release_ok: "locks_ok ls \<Longrightarrow> locks_ok (release_pid pid ls)"
  by (auto simp: release_pid_def locks_ok_def no_conflict_def list_all_iff)

lemma lock_session_ok: "lock_session fsize outs s \<Longrightarrow> sys_ok s"
proof (induction rule: lock_session.induct)
  case start
  show ?case by (simp add: sys_ok_def locks_ok_def no_conflict_def)
next
  case (typed outs s pid line out s')
  then show ?case using lock_line_ok by blast
next
  case (granted outs s pid out s')
  then show ?case using lock_grant_ok by blast
next
  case (ended outs s pid)
  then show ?case using release_ok by (simp add: sys_ok_def)
qed

lemma lock_lines_ok:
  "lock_lines fsize pid lines s = Done (outs, s') \<Longrightarrow> \<not> waiting s pid \<Longrightarrow> sys_ok s \<Longrightarrow> sys_ok s'"
proof (induction lines arbitrary: s outs)
  case (Cons line lines)
  obtain out s1 where l: "lock_line fsize pid line s = Done (out, s1)"
    using Cons.prems(1) by (auto simp: run_bind_Done_iff)
  with lock_line_ok [OF Cons.prems(3,2) l] Cons show ?case
    by (auto simp: run_bind_Done_iff split: if_splits)
qed simp

lemma i_fcntl_main_releases:
  assumes "i_fcntl_main ok argv fsize pid typed s = Done (out, Some st, s')" "\<not> waiting s pid" "sys_ok s"
  shows "sys_ok s' \<and> (\<forall>a \<in> set (l_locks s'). lk_pid a \<noteq> pid)"
proof -
  obtain outs s1 where "lock_lines fsize pid typed s = Done (outs, s1)" "s' = s1\<lparr>l_locks := release_pid pid (l_locks s1)\<rparr>"
    using assms(1) by (auto simp: i_fcntl_main_def run_bind_Done_iff Let_def split: if_splits)
  with lock_lines_ok [OF this(1) assms(2,3)] show ?thesis
    using release_ok by (auto simp: sys_ok_def release_pid_def)
qed

lemma covers_overlap: "covers a x \<Longrightarrow> covers b x \<Longrightarrow> overlap a b"
  by (auto simp: covers_def overlap_def ends_by_def split: option.splits)

lemma overlap_covers:
  assumes "proper a" "proper b"
  shows "overlap a b \<longleftrightarrow> (\<exists>x. covers a x \<and> covers b x)"
proof
  assume "overlap a b"
  then have "covers a (max (lk_from a) (lk_from b)) \<and> covers b (max (lk_from a) (lk_from b))"
    using assms by (auto simp: covers_def overlap_def proper_def max_def)
  then show "\<exists>x. covers a x \<and> covers b x" by blast
qed (blast intro: covers_overlap)

lemma locks_ok_exclusive:
  assumes "locks_ok ls" "p \<noteq> q" "Wr \<in> holds ls p x"
  shows "holds ls q x = {}"
proof -
  obtain a where a: "a \<in> set ls" "lk_pid a = p" "covers a x" "lk_typ a = Wr" using assms(3) by (auto simp: holds_def)
  have "\<not> (lk_pid b = q \<and> covers b x)" if "b \<in> set ls" for b
    using a that assms(1,2) covers_overlap [OF a(3), of b] by (auto simp: locks_ok_def no_conflict_iff conflict_def)
  then show ?thesis by (auto simp: holds_def)
qed

text \<open>Who stands in the way of a lock: another process with a lock on a byte of the range, one of the two for writing.\<close>

definition denied_by :: "flk list \<Rightarrow> int \<Rightarrow> lk option \<Rightarrow> int set \<Rightarrow> int \<Rightarrow> bool" where
  "denied_by ls pid ty X q \<longleftrightarrow> q \<noteq> pid \<and> (\<exists>x \<in> X.
     case ty of None \<Rightarrow> False | Some Rd \<Rightarrow> Wr \<in> holds ls q x | Some Wr \<Rightarrow> holds ls q x \<noteq> {})"

lemma denied_conflict:
  assumes "\<forall>b \<in> set ls. proper b" "proper r" "\<And>x. covers r x \<longleftrightarrow> x \<in> X"
  shows "denied_by ls (lk_pid r) (Some t) X q \<longleftrightarrow> (\<exists>a \<in> set ls. conflict (r\<lparr>lk_typ := t\<rparr>) a \<and> lk_pid a = q)"
proof -
  have r: "proper (r\<lparr>lk_typ := t\<rparr>)" "covers (r\<lparr>lk_typ := t\<rparr>) x = covers r x" for x
    using assms(2) by (simp_all add: proper_def covers_def)
  have c: "conflict (r\<lparr>lk_typ := t\<rparr>) a \<longleftrightarrow>
      lk_pid a \<noteq> lk_pid r \<and> (\<exists>x \<in> X. covers a x) \<and> (t = Wr \<or> lk_typ a = Wr)" if "a \<in> set ls" for a
    using overlap_covers [OF r(1)] assms(1,3) that r(2) by (auto simp: conflict_def)
  have w: "Wr \<in> holds ls q x \<longleftrightarrow> (\<exists>a \<in> set ls. lk_pid a = q \<and> covers a x \<and> lk_typ a = Wr)"
      "holds ls q x \<noteq> {} \<longleftrightarrow> (\<exists>a \<in> set ls. lk_pid a = q \<and> covers a x)" for x
    by (force simp: holds_def)+
  have "denied_by ls (lk_pid r) (Some t) X q \<longleftrightarrow>
      (\<exists>a \<in> set ls. (lk_pid a \<noteq> lk_pid r \<and> (\<exists>x \<in> X. covers a x) \<and> (t = Wr \<or> lk_typ a = Wr)) \<and> lk_pid a = q)"
  proof (cases t)
    case Rd
    then show ?thesis unfolding denied_by_def option.case lk.case w by simp blast
  next
    case Wr
    then show ?thesis unfolding denied_by_def option.case lk.case w by simp blast
  qed
  also have "\<dots> \<longleftrightarrow> (\<exists>a \<in> set ls. conflict (r\<lparr>lk_typ := t\<rparr>) a \<and> lk_pid a = q)"
    by (intro bex_cong refl) (simp add: c)
  finally show ?thesis .
qed

lemma scan_lld_dec_int:
  assumes "- (2 ^ 63) \<le> v" "v < 2 ^ 63"
  shows "scan_lld (CHR '' '' # dec_int v @ CHR '' '' # r) = Some (v, CHR '' '' # r)"
proof -
  let ?n = "nat \<bar>v\<bar>"
  have dg: "\<forall>c \<in> set (dec_nat ?n). is_digit c" using dec_nat_digits by fastforce
  obtain d ds where d: "dec_nat ?n = digit_char d # ds" "d < 10"
    using hd_dec_nat [of ?n] dec_nat_not_Nil [of ?n] by (metis list.collapse)
  have sp: "is_space CHR '' ''" "\<not> is_digit CHR '' ''" "\<not> is_space CHR ''-''"
    by (simp_all add: is_space_def is_digit_def)
  have tk: "takeWhile is_digit (dec_nat ?n @ CHR '' '' # r) = dec_nat ?n"
      "dropWhile is_digit (dec_nat ?n @ CHR '' '' # r) = CHR '' '' # r"
    using dg sp(2) by (simp_all add: takeWhile_append2 dropWhile_append2)
  have cl: "clamp_long v = v" using assms by (simp add: clamp_long_def)
  show ?thesis
  proof (cases "v < 0")
    case True
    then have "dec_int v = CHR ''-'' # dec_nat ?n" by (simp add: dec_int_def)
    then show ?thesis using sp tk cl True by (simp add: scan_lld_def fold_dec_nat Let_def)
  next
    case False
    then have "dec_int v = dec_nat ?n" by (simp add: dec_int_def)
    moreover have "dropWhile is_space (dec_nat ?n @ CHR '' '' # r) = dec_nat ?n @ CHR '' '' # r"
      using d by simp
    moreover have "hd (dec_nat ?n @ CHR '' '' # r) = digit_char d" using d by simp
    ultimately show ?thesis using sp tk cl False d(2) by (simp add: scan_lld_def fold_dec_nat Let_def)
  qed
qed

text \<open>A command as it is typed.\<close>

definition cmd_line :: "char \<Rightarrow> char \<Rightarrow> int \<Rightarrow> int \<Rightarrow> char \<Rightarrow> string" where
  "cmd_line c l st len wh =
     [c, CHR '' '', l, CHR '' ''] @ dec_int st @ [CHR '' ''] @ dec_int len @ [CHR '' '', wh, newline]"

lemma parse_cmd_line:
  assumes "- (2 ^ 63) \<le> st" "st < 2 ^ 63" "- (2 ^ 63) \<le> len" "len < 2 ^ 63"
    and "\<not> is_space l" "\<not> is_space wh"
  shows "parse_line (butlast (cmd_line c l st len wh)) = Some (c, l, st, len, wh)"
proof -
  have b: "butlast (cmd_line c l st len wh) =
      c # CHR '' '' # l # CHR '' '' # dec_int st @ CHR '' '' # dec_int len @ CHR '' '' # [wh]"
    by (simp add: cmd_line_def butlast_append)
  have sp: "is_space CHR '' ''" by (simp add: is_space_def)
  show ?thesis
    unfolding b using assms(5,6) sp scan_lld_dec_int [OF assms(1,2)] scan_lld_dec_int [OF assms(3,4)]
    by (simp add: parse_line_def)
qed

lemma lock_line_request:
  assumes "c \<in> {CHR ''s'', CHR ''w''}" "l \<in> {CHR ''r'', CHR ''w'', CHR ''u''}" "wh \<in> {CHR ''s'', CHR ''c'', CHR ''e''}"
    and "- (2 ^ 63) \<le> st" "st < 2 ^ 63" "- (2 ^ 63) \<le> len" "len < 2 ^ 63"
  shows "lock_line fsize pid (cmd_line c l st len wh) s = Done
    (case lock_range pid (if wh = CHR ''e'' then fsize else 0) st len of
       None \<Rightarrow> ([], s)
     | Some r \<Rightarrow> lock_request pid (c = CHR ''w'') l r s)"
proof -
  have sp: "\<not> is_space l" "\<not> is_space wh" using assms(2,3) by (auto simp: is_space_def)
  have h: "cmd_line c l st len wh \<noteq> []" "butlast (cmd_line c l st len wh) \<noteq> []"
      "hd (butlast (cmd_line c l st len wh)) = c"
    by (simp_all add: cmd_line_def)
  have v: "(c \<notin> set ''gsw'' \<or> l \<notin> set ''rwu'' \<or> wh \<notin> set ''sce'') = False" "c \<noteq> CHR ''?''" "(c = CHR ''g'') = False"
    using assms(1-3) by auto
  have "lock_command fsize pid (butlast (cmd_line c l st len wh)) s =
    (case lock_range pid (if wh = CHR ''e'' then fsize else 0) st len of
       None \<Rightarrow> ([], s)
     | Some r \<Rightarrow> lock_request pid (c = CHR ''w'') l r s)"
    unfolding lock_command_def parse_cmd_line [OF assms(4-7) sp] option.case prod.case v if_False whence_base_def
    by simp
  then show ?thesis using h v(2) by (simp add: lock_line_def Let_def)
qed

text \<open>The state of the bytes behind a request, outcome by outcome.\<close>

definition asked :: "char \<Rightarrow> lk option" where
  "asked l = (if l = CHR ''r'' then Some Rd else if l = CHR ''w'' then Some Wr else None)"

lemma lock_type_asked: "lock_type l = asked l"
  by (simp add: lock_type_def asked_def)

lemma lock_request_outcome:
  assumes "sys_ok s" "range_ok base st len" "lock_range pid base st len = Some r"
    and "X = byte_range base st len"
  shows "\<nexists>q. denied_by (l_locks s) pid (asked l) X q \<Longrightarrow>
      fst (lock_request pid w l r s) = pid_text pid @ (if l = CHR ''u'' then ''unlocked'' else ''got lock'') @ [newline]
    \<and> l_waits (snd (lock_request pid w l r s)) = l_waits s
    \<and> holds (l_locks (snd (lock_request pid w l r s))) p x
        = (if p = pid \<and> x \<in> X then set_option (asked l) else holds (l_locks s) p x)" (is "_ \<Longrightarrow> ?granted")
    and "\<exists>q. denied_by (l_locks s) pid (asked l) X q \<Longrightarrow> lock_request pid w l r s =
      (if \<not> w then (pid_text pid @ ''failed (incompatible lock)'' @ [newline], s)
       else if \<exists>q. denied_by (l_locks s) pid (asked l) X q \<and> (waits_on s)\<^sup>*\<^sup>* q pid
         then (pid_text pid @ ''failed (deadlock)'' @ [newline], s)
       else ([], s\<lparr>l_waits := l_waits s @ [(pid, l, r\<lparr>lk_typ := the (asked l)\<rparr>)]\<rparr>))"
proof -
  have r: "lk_pid r = pid" "proper r" "\<And>x. covers r x \<longleftrightarrow> x \<in> X"
    using lock_range_covers [OF assms(2), of pid] assms(3,4) by auto
  have pr: "\<forall>b \<in> set (l_locks s). proper b" using assms(1) by (simp add: sys_ok_def locks_ok_def)
  have d: "denied_by (l_locks s) pid (Some t) X q
      \<longleftrightarrow> (\<exists>a \<in> set (l_locks s). conflict (r\<lparr>lk_typ := t\<rparr>) a \<and> lk_pid a = q)" for t q
    using denied_conflict [OF pr r(2,3)] r(1) by simp
  show ?granted if nd: "\<nexists>q. denied_by (l_locks s) pid (asked l) X q"
  proof -
    have "\<not> (\<exists>a \<in> set (l_locks s). conflict (r\<lparr>lk_typ := t\<rparr>) a)" if "asked l = Some t" for t
      using nd d that by auto
    then obtain ls' where ls': "setlk w (asked l) r (l_locks s) = (LkOk, ls')"
      by (cases "asked l") (simp_all add: setlk_cases)
    then show ?thesis using setlk_holds [OF r(2) ls', of p x] r(1,3)
      by (simp add: lock_request_def setlk_text_def lock_type_asked)
  qed
  show "lock_request pid w l r s =
      (if \<not> w then (pid_text pid @ ''failed (incompatible lock)'' @ [newline], s)
       else if \<exists>q. denied_by (l_locks s) pid (asked l) X q \<and> (waits_on s)\<^sup>*\<^sup>* q pid
         then (pid_text pid @ ''failed (deadlock)'' @ [newline], s)
       else ([], s\<lparr>l_waits := l_waits s @ [(pid, l, r\<lparr>lk_typ := the (asked l)\<rparr>)]\<rparr>))"
    if dn: "\<exists>q. denied_by (l_locks s) pid (asked l) X q"
  proof (cases "asked l")
    case None
    then show ?thesis using dn by (simp add: denied_by_def)
  next
    case (Some t)
    then have "\<exists>a \<in> set (l_locks s). conflict (r\<lparr>lk_typ := t\<rparr>) a" using dn d by auto
    then have "setlk w (Some t) r (l_locks s) = (if w then LkBlocked else LkAgain, l_locks s)"
      by (simp add: setlk_cases)
    moreover have "deadlock s pid (r\<lparr>lk_typ := t\<rparr>) \<longleftrightarrow>
        (\<exists>q. denied_by (l_locks s) pid (Some t) X q \<and> (waits_on s)\<^sup>*\<^sup>* q pid)"
      unfolding d deadlock_def by blast
    ultimately show ?thesis using Some by (auto simp: lock_request_def setlk_text_def Let_def lock_type_asked)
  qed
qed

text \<open>The outcomes of a command, on the bytes \<open>X\<close> and with the type \<open>ty\<close>.\<close>

definition outcome :: "lock_sys \<Rightarrow> int \<Rightarrow> char \<Rightarrow> char \<Rightarrow> lk option \<Rightarrow> bool \<Rightarrow> int set \<Rightarrow> string \<Rightarrow> lock_sys \<Rightarrow> bool" where
  "outcome s pid c l ty valid X out s' \<longleftrightarrow>
    (if \<not> valid then out = [] \<and> s' = s
     else if \<nexists>q. denied_by (l_locks s) pid ty X q then
       out = pid_text pid @ (if l = CHR ''u'' then ''unlocked'' else ''got lock'') @ [newline] \<and>
       l_waits s' = l_waits s \<and>
       (\<forall>p x. holds (l_locks s') p x = (if p = pid \<and> x \<in> X then set_option ty else holds (l_locks s) p x))
     else if c = CHR ''s'' then out = pid_text pid @ ''failed (incompatible lock)'' @ [newline] \<and> s' = s
     else if \<exists>q. denied_by (l_locks s) pid ty X q \<and> (waits_on s)\<^sup>*\<^sup>* q pid then
       out = pid_text pid @ ''failed (deadlock)'' @ [newline] \<and> s' = s
     else out = [] \<and> l_locks s' = l_locks s \<and> waiting s' pid)"

lemma command_outcome:
  assumes "sys_ok s"
    and "c \<in> {CHR ''s'', CHR ''w''}" "l \<in> {CHR ''r'', CHR ''w'', CHR ''u''}" "wh \<in> {CHR ''s'', CHR ''c'', CHR ''e''}"
    and "- (2 ^ 63) \<le> st" "st < 2 ^ 63" "- (2 ^ 63) \<le> len" "len < 2 ^ 63"
    and "base = (if wh = CHR ''e'' then fsize else 0)" "X = byte_range base st len"
    and "ty = (if l = CHR ''r'' then Some Rd else if l = CHR ''w'' then Some Wr else None)"
  shows "\<exists>out s'. lock_line fsize pid (cmd_line c l st len wh) s = Done (out, s') \<and>
    outcome s pid c l ty (range_ok base st len) X out s'"
proof -
  have ty: "ty = asked l" using assms(11) by (simp add: asked_def)
  obtain out s' where res: "(case lock_range pid base st len of
      None \<Rightarrow> ([], s) | Some r \<Rightarrow> lock_request pid (c = CHR ''w'') l r s) = (out, s')" by fastforce
  then have line: "lock_line fsize pid (cmd_line c l st len wh) s = Done (out, s')"
    using lock_line_request [OF assms(2-8), of fsize pid s] assms(9) by simp
  have "outcome s pid c l ty (range_ok base st len) X out s'"
  proof (cases "range_ok base st len")
    case False
    then show ?thesis using res by (auto simp: outcome_def lock_range_def)
  next
    case True
    obtain r where r: "lock_range pid base st len = Some r" using lock_range_covers [OF True] by blast
    then have o: "lock_request pid (c = CHR ''w'') l r s = (out, s')" using res by simp
    have cw: "c = CHR ''s'' \<longleftrightarrow> c \<noteq> CHR ''w''" using assms(2) by auto
    note out = lock_request_outcome [OF assms(1) True r assms(10), of l "c = CHR ''w''", folded ty, unfolded o]
    show ?thesis
    proof (cases "\<exists>q. denied_by (l_locks s) pid ty X q")
      case nd: False
      then show ?thesis using out(1) True by (auto simp: outcome_def)
    next
      case dn: True
      then show ?thesis using out(2) True cw by (auto simp: outcome_def waiting_def split: if_splits)
    qed
  qed
  with line show ?thesis by blast
qed

text \<open>C33: In every session of any number of instances of \<^verbatim>\<open>i_fcntl_locking\<close> on one file, a process that is not waiting and reads
  a typed command \<^verbatim>\<open>s\<close> or \<^verbatim>\<open>w\<close> with a type, a start, a length and a base behaves as follows. A
  range that begins in front of the file or ends beyond the largest offset changes nothing. When no
  other process has a lock in the way (for reading: a write lock; for writing: any lock on one of
  the bytes), the process reports the lock and holds exactly the type it asked for on exactly the bytes of the range, counted from
  the start or the end of the file as asked, positive lengths forwards, negative ones backwards, 0 without an end; all other
  bytes and processes keep their locks. Otherwise \<^verbatim>\<open>s\<close> reports an incompatible lock and
  changes nothing; \<^verbatim>\<open>w\<close> reports a deadlock when a process in the way waits, directly or through others, for this one, and
  else waits, without output. In all states of the session a byte that one process
  has locked for writing is locked by no other.\<close>

theorem record_lock_commands:
  assumes "lock_session fsize outs s" "\<not> waiting s pid"
    and "c \<in> {CHR ''s'', CHR ''w''}" "l \<in> {CHR ''r'', CHR ''w'', CHR ''u''}" "wh \<in> {CHR ''s'', CHR ''c'', CHR ''e''}"
    and "- (2 ^ 63) \<le> st" "st < 2 ^ 63" "- (2 ^ 63) \<le> len" "len < 2 ^ 63"
    and "base = (if wh = CHR ''e'' then fsize else 0)" "X = byte_range base st len"
    and "ty = (if l = CHR ''r'' then Some Rd else if l = CHR ''w'' then Some Wr else None)"
  shows "\<exists>out s'. lock_line fsize pid (cmd_line c l st len wh) s = Done (out, s') \<and>
    lock_session fsize (outs @ [(pid, out)]) s' \<and>
    (if \<not> range_ok base st len then out = [] \<and> s' = s
     else if \<nexists>q. denied_by (l_locks s) pid ty X q then
       out = pid_text pid @ (if l = CHR ''u'' then ''unlocked'' else ''got lock'') @ [newline] \<and>
       l_waits s' = l_waits s \<and>
       (\<forall>p x. holds (l_locks s') p x = (if p = pid \<and> x \<in> X then set_option ty else holds (l_locks s) p x))
     else if c = CHR ''s'' then out = pid_text pid @ ''failed (incompatible lock)'' @ [newline] \<and> s' = s
     else if \<exists>q. denied_by (l_locks s) pid ty X q \<and> (waits_on s)\<^sup>*\<^sup>* q pid then
       out = pid_text pid @ ''failed (deadlock)'' @ [newline] \<and> s' = s
     else out = [] \<and> l_locks s' = l_locks s \<and> waiting s' pid) \<and>
    (\<forall>p q x. p \<noteq> q \<and> Wr \<in> holds (l_locks s') p x \<longrightarrow> holds (l_locks s') q x = {})"
proof -
  obtain out s' where line: "lock_line fsize pid (cmd_line c l st len wh) s = Done (out, s')"
      "outcome s pid c l ty (range_ok base st len) X out s'"
    using command_outcome [OF lock_session_ok [OF assms(1)] assms(3-12)] by blast
  have ses: "lock_session fsize (outs @ [(pid, out)]) s'"
    using lock_session.typed [OF assms(1,2) line(1)] .
  have "\<forall>p q x. p \<noteq> q \<and> Wr \<in> holds (l_locks s') p x \<longrightarrow> holds (l_locks s') q x = {}"
    using lock_session_ok [OF ses] locks_ok_exclusive by (auto simp: sys_ok_def)
  with line ses show ?thesis unfolding outcome_def by blast
qed

lemma demo_session: "lock_session 100 [(7, pid_text 7 @ ''got lock'' @ [newline])]
    \<lparr>l_locks = [\<lparr>lk_pid = 7, lk_typ = Wr, lk_from = 90, lk_to = Some 100\<rparr>], l_waits = []\<rparr>"
proof -
  have "lock_line 100 7 (cmd_line (CHR ''s'') (CHR ''w'') (-10) 10 (CHR ''e'')) \<lparr>l_locks = [], l_waits = []\<rparr> = Done
      (pid_text 7 @ ''got lock'' @ [newline],
       \<lparr>l_locks = [\<lparr>lk_pid = 7, lk_typ = Wr, lk_from = 90, lk_to = Some 100\<rparr>], l_waits = []\<rparr>)"
    by (subst lock_line_request)
      (simp_all add: lock_range_def range_ok_def lock_request_def setlk_def carve_def lock_type_def setlk_text_def)
  from lock_session.typed [OF lock_session.start _ this] show ?thesis by (simp add: waiting_def)
qed

theorem record_lock_commands_witness:
  "\<exists>out s'. lock_session 100 [(7, pid_text 7 @ ''got lock'' @ [newline]), (8, out)] s' \<and> out = [] \<and> waiting s' 8"
proof -
  let ?s = "\<lparr>l_locks = [\<lparr>lk_pid = 7, lk_typ = Wr, lk_from = 90, lk_to = Some 100\<rparr>], l_waits = []\<rparr>"
  let ?X = "byte_range 0 95 1"
  have d: "denied_by (l_locks ?s) 8 (Some Rd) ?X q \<longleftrightarrow> q = 7" for q
    by (auto simp: denied_by_def byte_range_def holds_Cons holds_Nil covers_def ends_by_def intro!: bexI [of _ 95])
  have "\<not> waits_on ?s p q" for p q by (simp add: waits_on_def)
  then have w: "\<not> (waits_on ?s)\<^sup>*\<^sup>* 7 8" by (auto elim: converse_rtranclpE)
  show ?thesis
    using record_lock_commands [OF demo_session, of 8 "CHR ''w''" "CHR ''r''" "CHR ''s''" 95 1 0 ?X "Some Rd"] d w
    by (auto simp: waiting_def range_ok_def)
qed

text \<open>A waiting process goes on exactly when nothing stands in its way any more: then the kernel can grant the
  request, and the process reports the lock and holds it on the bytes of its range.\<close>

theorem waiting_request_granted:
  assumes "lock_session fsize outs s" "(p, l, r) \<in> set (l_waits s)" "X = {x. covers r x}"
  shows "if \<exists>q. denied_by (l_locks s) p (Some (lk_typ r)) X q then lock_grant p s = None
    else \<exists>u. lock_grant p s = Some (pid_text p @ ''got lock'' @ [newline], u) \<and> \<not> waiting u p \<and>
      lock_session fsize (outs @ [(p, pid_text p @ ''got lock'' @ [newline])]) u \<and>
      (\<forall>q x. holds (l_locks u) q x = (if q = p \<and> x \<in> X then {lk_typ r} else holds (l_locks s) q x))"
proof -
  have ok: "sys_ok s" using assms(1) by (rule lock_session_ok)
  then have r: "proper r" "lk_pid r = p" "l \<noteq> CHR ''u''" "\<forall>b \<in> set (l_locks s). proper b"
    using assms(2) by (auto simp: sys_ok_def locks_ok_def)
  have "find (\<lambda>(w, c, r). w = p) (l_waits s) = Some (p, l, r)"
  proof -
    obtain w where w: "find (\<lambda>(w, c, r). w = p) (l_waits s) = Some w"
      using assms(2) by (cases "find (\<lambda>(w, c, r). w = p) (l_waits s)") (auto simp: find_None_iff)
    then have "w \<in> set (l_waits s)" "fst w = p"
      by (metis find_Some_iff nth_mem, auto simp: find_Some_iff)
    then have "w = (p, l, r)" using ok assms(2) by (auto simp: sys_ok_def distinct_map inj_on_def)
    with w show ?thesis by simp
  qed
  then have g: "lock_grant p s = (case setlk True (Some (lk_typ r)) r (l_locks s) of
      (LkOk, ls') \<Rightarrow> Some (setlk_text p l LkOk, \<lparr>l_locks = ls', l_waits = filter (\<lambda>(w, c, r). w \<noteq> p) (l_waits s)\<rparr>)
    | _ \<Rightarrow> None)" by (simp add: lock_grant_def)
  have d: "(\<exists>q. denied_by (l_locks s) p (Some (lk_typ r)) X q) \<longleftrightarrow> (\<exists>a \<in> set (l_locks s). conflict r a)"
    using denied_conflict [OF r(4,1), of X "lk_typ r"] r(2) assms(3) by auto
  show ?thesis
  proof (cases "\<exists>a \<in> set (l_locks s). conflict r a")
    case True
    then show ?thesis using g d by (simp add: setlk_cases)
  next
    case False
    obtain ls' where ls': "setlk True (Some (lk_typ r)) r (l_locks s) = (LkOk, ls')"
      using False by (simp add: setlk_cases)
    let ?u = "\<lparr>l_locks = ls', l_waits = filter (\<lambda>(w, c, r). w \<noteq> p) (l_waits s)\<rparr>"
    have "lock_grant p s = Some (pid_text p @ ''got lock'' @ [newline], ?u)"
      using g ls' r(3) by (simp add: setlk_text_def)
    moreover from lock_session.granted [OF assms(1) this]
    have "lock_session fsize (outs @ [(p, pid_text p @ ''got lock'' @ [newline])]) ?u" .
    moreover have "holds ls' q x = (if q = p \<and> x \<in> X then {lk_typ r} else holds (l_locks s) q x)" for q x
      using setlk_holds [OF r(1) ls', of q x] r(2) assms(3) by simp
    ultimately show ?thesis using False d by (auto simp: waiting_def)
  qed
qed

subsection \<open>\<^verbatim>\<open>fcntl_lock_speed_a.c\<close> and \<^verbatim>\<open>fcntl_lock_speed_b.c\<close>\<close>

definition byte_lock :: "int \<Rightarrow> int \<Rightarrow> flk" where
  "byte_lock pid x = \<lparr>lk_pid = pid, lk_typ = Wr, lk_from = x, lk_to = Some (x + 1)\<rparr>"

text \<open>The loop of the first program, with the number of rounds left; \<open>None\<close>: a lock was refused.\<close>

fun speed_a_loop :: "int \<Rightarrow> nat \<Rightarrow> int \<Rightarrow> flk list \<Rightarrow> flk list option" where
  "speed_a_loop pid 0 i ls = Some ls"
| "speed_a_loop pid (Suc n) i ls =
     (case setlk False (Some Wr) (byte_lock pid (i * 2)) ls of
        (LkOk, ls') \<Rightarrow> speed_a_loop pid n (i + 1) ls'
      | _ \<Rightarrow> None)"

definition speed_a_main :: "int \<Rightarrow> bool \<Rightarrow> bool \<Rightarrow> string list \<Rightarrow> (string \<times> flk list) run" where
  "speed_a_main pid open_ok trunc_ok argv =
     (if length argv \<noteq> 2 then Exited EXIT_FAILURE
      else if \<not> open_ok then Exited EXIT_FAILURE
      else if \<not> trunc_ok then Exited EXIT_FAILURE
      else case speed_a_loop pid 40001 0 [] of
        None \<Rightarrow> Exited EXIT_FAILURE
      | Some ls \<Rightarrow> Done (''lock success'' @ [newline], ls))"

text \<open>The second program tries one byte again and again; a refusal is no error.\<close>

fun speed_b_loop :: "int \<Rightarrow> nat \<Rightarrow> int \<Rightarrow> flk list \<Rightarrow> flk list" where
  "speed_b_loop pid 0 x ls = ls"
| "speed_b_loop pid (Suc n) x ls = speed_b_loop pid n x (snd (setlk False (Some Wr) (byte_lock pid x) ls))"

definition speed_b_main :: "int \<Rightarrow> bool \<Rightarrow> string list \<Rightarrow> flk list \<Rightarrow> int \<times> flk list" where
  "speed_b_main pid open_ok argv ls =
     (if length argv \<noteq> 3 then (EXIT_SUCCESS, ls)
      else if \<not> open_ok then (EXIT_FAILURE, ls)
      else (EXIT_SUCCESS, speed_b_loop pid 10000 (to_int32 (atoi (argv ! 2) * 2)) ls))"

lemma own_locks_no_conflict: "\<forall>a \<in> set ls. lk_pid a = pid \<Longrightarrow> \<not> (\<exists>a \<in> set ls. conflict (byte_lock pid x) a)"
  by (auto simp: conflict_def byte_lock_def)

lemma carve_own: "\<forall>a \<in> set ls. lk_pid a = pid \<Longrightarrow> \<forall>a \<in> set (carve r ls). lk_pid a = pid"
  using carve_origin pieces_same by metis

lemma byte_lock_simps [simp]: "proper (byte_lock pid x)" "lk_pid (byte_lock pid x) = pid" "covers (byte_lock pid x) y \<longleftrightarrow> y = x"
    "(byte_lock pid x)\<lparr>lk_typ := Wr\<rparr> = byte_lock pid x"
  by (auto simp: proper_def ends_by_def byte_lock_def covers_def)

lemma speed_a_loop_holds:
  assumes "\<forall>a \<in> set ls. lk_pid a = pid"
  shows "\<exists>ls'. speed_a_loop pid n i ls = Some ls' \<and>
    (\<forall>x. holds ls' pid x = (if even x \<and> i * 2 \<le> x \<and> x < (i + int n) * 2 then {Wr} else holds ls pid x))"
  using assms
proof (induction n arbitrary: i ls)
  case (Suc n)
  let ?r = "byte_lock pid (i * 2)"
  let ?ls = "?r # carve ?r ls"
  have set: "setlk False (Some Wr) ?r ls = (LkOk, ?ls)"
    using own_locks_no_conflict [OF Suc.prems, of "i * 2"] by (simp add: setlk_def Let_def)
  have own: "\<forall>a \<in> set ?ls. lk_pid a = pid" using carve_own [OF Suc.prems, of ?r] by simp
  obtain ls' where ls': "speed_a_loop pid n (i + 1) ?ls = Some ls'"
      "\<And>x. holds ls' pid x = (if even x \<and> (i + 1) * 2 \<le> x \<and> x < (i + 1 + int n) * 2 then {Wr} else holds ?ls pid x)"
    using Suc.IH [OF own, of "i + 1"] by blast
  have "holds ?ls pid x = (if x = i * 2 then {Wr} else holds ls pid x)" for x
    using setlk_holds [OF _ set, of pid x] by simp
  then have "holds ls' pid x = (if even x \<and> i * 2 \<le> x \<and> x < (i + int (Suc n)) * 2 then {Wr} else holds ls pid x)" for x
    using ls'(2) [of x] by (auto elim!: evenE)
  then show ?case using ls'(1) set by simp
qed auto

text \<open>The first program locks exactly the even bytes up to 80000, and says so.\<close>

theorem speed_a_locks:
  "\<exists>ls. speed_a_main pid True True [prog, f] = Done (''lock success'' @ [newline], ls) \<and>
    (\<forall>x. holds ls pid x = (if even x \<and> 0 \<le> x \<and> x \<le> 80000 then {Wr} else {}))"
proof -
  obtain ls where ls: "speed_a_loop pid 40001 0 [] = Some ls"
      "\<And>x. holds ls pid x = (if even x \<and> 0 * 2 \<le> x \<and> x < (0 + int 40001) * 2 then {Wr} else holds [] pid x)"
    using speed_a_loop_holds [of "[]" pid 40001 0] by auto
  have "holds ls pid x = (if even x \<and> 0 \<le> x \<and> x \<le> 80000 then {Wr} else {})" for x
    using ls(2) [of x] by (auto simp: holds_Nil elim!: evenE)
  then show ?thesis using ls(1) by (simp add: speed_a_main_def del: speed_a_loop.simps)
qed

subsection \<open>\<^verbatim>\<open>flock_two_file_exclusive.c\<close>\<close>

text \<open>Two instances of the program, each with its two files. A whole-file lock belongs to an open file description: instance
  and number of the descriptor. The program points are in front of the calls of \<^verbatim>\<open>flock\<close>.\<close>

datatype two_pc = Lock1 | Lock2 | Unlock1 | Unlock2 | Finished

record two_files =
  owner :: "string \<Rightarrow> (bool \<times> nat) option"
  two_pc :: "bool \<Rightarrow> two_pc"
  two_out :: "(bool \<times> string) list"

definition advance :: "bool \<Rightarrow> two_pc \<Rightarrow> string \<Rightarrow> two_files \<Rightarrow> two_files" where
  "advance i pc msg s = s\<lparr>two_pc := (two_pc s)(i := pc), two_out := two_out s @ [(i, msg)]\<rparr>"

text \<open>One step of instance \<open>i\<close> with the files \<open>f\<close> and \<open>g\<close>; \<open>None\<close>: it waits for a lock or has ended.\<close>

definition two_step :: "string \<Rightarrow> string \<Rightarrow> bool \<Rightarrow> two_files \<Rightarrow> two_files option" where
  "two_step f g i s =
     (case two_pc s i of
        Lock1 \<Rightarrow> if owner s f \<noteq> None then None
                 else Some (advance i Lock2 ''lock file1'' (s\<lparr>owner := (owner s)(f := Some (i, 1))\<rparr>))
      | Lock2 \<Rightarrow> if owner s g \<noteq> None then None
                 else Some (advance i Unlock1 ''lock file2'' (s\<lparr>owner := (owner s)(g := Some (i, 2))\<rparr>))
      | Unlock1 \<Rightarrow> Some (advance i Unlock2 ''release file1'' (s\<lparr>owner := (owner s)(f := None)\<rparr>))
      | Unlock2 \<Rightarrow> Some (advance i Finished ''release file2'' (s\<lparr>owner := (owner s)(g := None)\<rparr>))
      | Finished \<Rightarrow> None)"

text \<open>\<^verbatim>\<open>main\<close> up to the first lock: the two files of an instance. Both are opened before a lock is taken.\<close>

definition two_main :: "bool \<Rightarrow> bool \<Rightarrow> string list \<Rightarrow> (string \<times> string) run" where
  "two_main open1 open2 argv =
     (if length argv \<noteq> 3 then Exited EXIT_FAILURE
      else if \<not> open1 then Exited EXIT_FAILURE
      else if \<not> open2 then Exited EXIT_FAILURE
      else Done (argv ! 1, argv ! 2))"

definition two_start :: two_files where
  "two_start = \<lparr>owner = \<lambda>_. None, two_pc = \<lambda>_. Lock1, two_out = []\<rparr>"

text \<open>The instance \<open>True\<close> has the files \<open>f\<close> and \<open>g\<close>, the other \<open>f'\<close> and \<open>g'\<close>.\<close>

definition two_run :: "string \<Rightarrow> string \<Rightarrow> string \<Rightarrow> string \<Rightarrow> two_files \<Rightarrow> two_files \<Rightarrow> bool" where
  "two_run f g f' g' s s' \<longleftrightarrow> two_step f g True s = Some s' \<or> two_step f' g' False s = Some s'"

definition two_end :: "two_files \<Rightarrow> bool" where
  "two_end s \<longleftrightarrow> two_pc s True = Finished \<and> two_pc s False = Finished"

fun two_rank :: "two_pc \<Rightarrow> nat" where
  "two_rank Lock1 = 4" | "two_rank Lock2 = 3" | "two_rank Unlock1 = 2" | "two_rank Unlock2 = 1" | "two_rank Finished = 0"

text \<open>The same order: what each instance holds follows from its program point, and both are never inside.\<close>

definition has1 :: "two_pc \<Rightarrow> bool" where
  "has1 pc \<longleftrightarrow> pc \<in> {Lock2, Unlock1}"

definition has2 :: "two_pc \<Rightarrow> bool" where
  "has2 pc \<longleftrightarrow> pc \<in> {Unlock1, Unlock2}"

definition two_inv :: "string \<Rightarrow> string \<Rightarrow> two_files \<Rightarrow> bool" where
  "two_inv f g s \<longleftrightarrow> f \<noteq> g \<and>
     (\<forall>i. owner s f = Some (i, 1) \<longleftrightarrow> has1 (two_pc s i)) \<and> (\<forall>i. owner s g = Some (i, 2) \<longleftrightarrow> has2 (two_pc s i)) \<and>
     (owner s f = None \<or> (\<exists>i. owner s f = Some (i, 1))) \<and> (owner s g = None \<or> (\<exists>i. owner s g = Some (i, 2)))"

lemma two_stepE:
  assumes "two_step f g i s = Some s'"
  obtains
    (lock1) "two_pc s i = Lock1" "owner s f = None" "owner s' = (owner s)(f := Some (i, 1))" "two_pc s' = (two_pc s)(i := Lock2)"
  | (lock2) "two_pc s i = Lock2" "owner s g = None" "owner s' = (owner s)(g := Some (i, 2))" "two_pc s' = (two_pc s)(i := Unlock1)"
  | (unlock1) "two_pc s i = Unlock1" "owner s' = (owner s)(f := None)" "two_pc s' = (two_pc s)(i := Unlock2)"
  | (unlock2) "two_pc s i = Unlock2" "owner s' = (owner s)(g := None)" "two_pc s' = (two_pc s)(i := Finished)"
  using assms
  by (cases "owner s f"; cases "owner s g") (auto simp: two_step_def advance_def split: two_pc.splits)

lemmas two_defs = two_inv_def has1_def has2_def

lemma two_step_inv:
  assumes inv: "two_inv f g s" and step: "two_step f g i s = Some s'"
  shows "two_inv f g s'"
  using step
proof (cases rule: two_stepE)
  case lock1
  then show ?thesis using inv unfolding two_defs by auto
next
  case lock2
  then show ?thesis using inv unfolding two_defs by auto
next
  case unlock1
  have o: "owner s f = Some (i, 1)" using inv unlock1(1) by (simp add: two_defs)
  have own: "has1 (two_pc s j) \<longleftrightarrow> j = i" for j using inv o unfolding two_inv_def by auto
  have "owner s' f = Some (j, 1) \<longleftrightarrow> has1 (two_pc s' j)" for j
    using own [of j] unlock1(2,3) by (cases "j = i") (simp_all add: has1_def)
  moreover have "owner s' g = Some (j, 2) \<longleftrightarrow> has2 (two_pc s' j)" for j
    using inv unlock1 unfolding two_inv_def by (cases "j = i") (auto simp: has2_def)
  moreover have "f \<noteq> g" "owner s' f = None" "owner s' g = None \<or> (\<exists>j. owner s' g = Some (j, 2))"
    using inv unlock1(2) by (auto simp: two_inv_def)
  ultimately show ?thesis unfolding two_inv_def by blast
next
  case unlock2
  have o: "owner s g = Some (i, 2)" using inv unlock2(1) by (simp add: two_defs)
  have own: "has2 (two_pc s j) \<longleftrightarrow> j = i" for j using inv o unfolding two_inv_def by auto
  have "owner s' g = Some (j, 2) \<longleftrightarrow> has2 (two_pc s' j)" for j
    using own [of j] unlock2(2,3) by (cases "j = i") (simp_all add: has2_def)
  moreover have "owner s' f = Some (j, 1) \<longleftrightarrow> has1 (two_pc s' j)" for j
    using inv unlock2 unfolding two_inv_def by (cases "j = i") (auto simp: has1_def)
  moreover have "f \<noteq> g" "owner s' g = None" "owner s' f = None \<or> (\<exists>j. owner s' f = Some (j, 1))"
    using inv unlock2(2) by (auto simp: two_inv_def)
  ultimately show ?thesis unfolding two_inv_def by blast
qed

lemma two_run_inv: "two_inv f g s \<Longrightarrow> two_run f g f g s s' \<Longrightarrow> two_inv f g s'"
  unfolding two_run_def using two_step_inv by blast

lemma two_run_rank:
  "two_run f g f' g' s s' \<Longrightarrow>
     two_rank (two_pc s' True) + two_rank (two_pc s' False) < two_rank (two_pc s True) + two_rank (two_pc s False)"
  by (auto simp: two_run_def two_step_def advance_def split: two_pc.splits if_splits)

lemma two_step_progress:
  assumes "two_inv f g s" "two_step f g i s = None" "two_pc s i \<noteq> Finished"
  shows "\<exists>j. j \<noteq> i \<and> two_pc s j \<noteq> Finished \<and> (has1 (two_pc s j) \<or> has2 (two_pc s j)) \<and> (has1 (two_pc s i) \<longrightarrow> has2 (two_pc s j))"
proof (cases "two_pc s i")
  case Lock1
  then obtain j where "owner s f = Some (j, 1)" using assms by (auto simp: two_step_def two_inv_def split: if_splits)
  then have "has1 (two_pc s j)" using assms(1) unfolding two_inv_def by blast
  moreover from this have "j \<noteq> i" using Lock1 by (intro notI) (simp add: has1_def)
  ultimately show ?thesis using Lock1 by (intro exI [of _ j]) (auto simp: has1_def)
next
  case Lock2
  then obtain j where "owner s g = Some (j, 2)" using assms by (auto simp: two_step_def two_inv_def split: if_splits)
  then have "has2 (two_pc s j)" using assms(1) unfolding two_inv_def by blast
  moreover from this have "j \<noteq> i" using Lock2 by (intro notI) (simp add: has2_def)
  ultimately show ?thesis using Lock2 by (intro exI [of _ j]) (auto simp: has2_def)
qed (use assms in \<open>simp_all add: two_step_def\<close>)

lemma two_run_progress:
  assumes "two_inv f g s" "\<not> two_end s"
  shows "\<exists>s'. two_run f g f g s s'"
proof (rule ccontr)
  assume no: "\<nexists>s'. two_run f g f g s s'"
  have stuck: "two_step f g i s = None" for i
    using no by (cases i; cases "two_step f g i s") (auto simp: two_run_def)
  obtain i where i: "two_pc s i \<noteq> Finished" using assms(2) by (auto simp: two_end_def)
  obtain j where j: "j \<noteq> i" "two_pc s j \<noteq> Finished" "has1 (two_pc s j) \<or> has2 (two_pc s j)" "has1 (two_pc s i) \<longrightarrow> has2 (two_pc s j)"
    using two_step_progress [OF assms(1) stuck i] by blast
  have "two_pc s j \<noteq> Unlock1" "two_pc s j \<noteq> Unlock2" using stuck [of j] by (auto simp: two_step_def)
  with j have l2: "two_pc s j = Lock2" "\<not> has1 (two_pc s i)" by (auto simp: has1_def has2_def)
  obtain k where "k \<noteq> j" "has2 (two_pc s k)"
    using two_step_progress [OF assms(1) stuck j(2)] l2(1) by (auto simp: has1_def)
  moreover have "two_pc s k \<noteq> Unlock1" "two_pc s k \<noteq> Unlock2" using stuck [of k] by (auto simp: two_step_def)
  ultimately show False by (auto simp: has2_def)
qed

interpretation same_order: terminating_system "\<lambda>s. f \<noteq> g \<and> s = two_start" "two_run f g f g" "two_inv f g" two_end
  "\<lambda>s. two_rank (two_pc s True) + two_rank (two_pc s False)"
proof
  show "two_inv f g s" if "f \<noteq> g \<and> s = two_start" for s
    using that by (auto simp: two_inv_def two_start_def has1_def has2_def)
qed (auto intro: two_run_inv two_run_rank two_run_progress)

text \<open>C34: Two instances of \<^verbatim>\<open>flock_two_file_exclusive\<close> on the same two files in the same order: whatever the interleaving, they
  can go on until both have ended, within eight steps, and never both hold the same lock. With the files in the
  opposite order there is a reachable state in which both wait for ever; with one
  file given twice, a single instance waits for its own lock.\<close>

theorem flock_order:
  assumes "f \<noteq> g"
  shows "(\<forall>s. (two_run f g f g)\<^sup>*\<^sup>* two_start s \<longrightarrow>
      (\<exists>t. (two_run f g f g)\<^sup>*\<^sup>* s t \<and> two_end t) \<and> (if \<exists>t. two_run f g f g s t then True else two_end s)) \<and>
    (\<forall>n t. (two_run f g f g ^^ n) two_start t \<longrightarrow> n \<le> 8) \<and>
    (\<exists>s. (two_run f g g f)\<^sup>*\<^sup>* two_start s \<and> \<not> two_end s \<and> (\<nexists>t. two_run f g g f s t)) \<and>
    (\<exists>s. two_step f f True two_start = Some s \<and> two_step f f True s = None)"
proof (intro conjI allI impI)
  fix s assume s: "(two_run f g f g)\<^sup>*\<^sup>* two_start s"
  have inv: "two_inv f g s" using same_order.inv_reachable [of f g two_start s] s assms by blast
  show "\<exists>t. (two_run f g f g)\<^sup>*\<^sup>* s t \<and> two_end t" by (rule same_order.reaches_final [OF inv])
  show "if \<exists>t. two_run f g f g s t then True else two_end s" using two_run_progress [OF inv] by auto
next
  fix n t assume "(two_run f g f g ^^ n) two_start t"
  moreover have "two_inv f g two_start" using same_order.inv_init [of f g two_start] assms by blast
  ultimately show "n \<le> 8" using same_order.bounded_run [of f g two_start n t] by (simp add: two_start_def)
next
  let ?s1 = "advance True Lock2 ''lock file1'' (two_start\<lparr>owner := (owner two_start)(f := Some (True, 1))\<rparr>)"
  let ?s2 = "advance False Lock2 ''lock file1'' (?s1\<lparr>owner := (owner ?s1)(g := Some (False, 1))\<rparr>)"
  have "two_run f g g f two_start ?s1" by (simp add: two_run_def two_step_def two_start_def)
  moreover have "two_run f g g f ?s1 ?s2"
    using assms by (simp add: two_run_def two_step_def two_start_def advance_def)
  ultimately have "(two_run f g g f)\<^sup>*\<^sup>* two_start ?s2" by (meson converse_rtranclp_into_rtranclp r_into_rtranclp)
  moreover have "\<not> two_end ?s2" by (simp add: two_end_def advance_def)
  moreover have "\<nexists>t. two_run f g g f ?s2 t"
    using assms by (simp add: two_run_def two_step_def two_start_def advance_def)
  ultimately show "\<exists>s. (two_run f g g f)\<^sup>*\<^sup>* two_start s \<and> \<not> two_end s \<and> (\<nexists>t. two_run f g g f s t)" by blast
next
  show "\<exists>s. two_step f f True two_start = Some s \<and> two_step f f True s = None"
    by (simp add: two_step_def two_start_def advance_def)
qed

theorem flock_order_witness:
  "\<exists>s. (two_run ''a'' ''b'' ''b'' ''a'')\<^sup>*\<^sup>* two_start s \<and> \<not> two_end s \<and> (\<nexists>t. two_run ''a'' ''b'' ''b'' ''a'' s t)"
  using flock_order [of "''a''" "''b''"] by simp

subsection \<open>\<^verbatim>\<open>t_flock.c\<close> and \<^verbatim>\<open>flock_dup.c\<close>\<close>

text \<open>\<^verbatim>\<open>flock\<close> of the kernel: whether a lock is compatible with those that other open file descriptions hold on the file.\<close>

definition flock_free :: "lk \<Rightarrow> lk list \<Rightarrow> bool" where
  "flock_free l others \<longleftrightarrow> (if l = Wr then others = [] else Wr \<notin> set others)"

text \<open>The three times are the texts of \<^verbatim>\<open>ctime\<close>. \<open>Exited\<close> is a failure without or after a first message; \<open>Faulted Deadlock\<close> a
  process that waits for the lock.\<close>

record tf_env =
  tf_open :: bool
  tf_pid :: int
  tf_times :: "string \<times> string \<times> string"
  tf_unlock :: bool

definition tf_msg :: "int \<Rightarrow> string \<Rightarrow> string \<Rightarrow> string \<Rightarrow> string" where
  "tf_msg pid what lname t = ''PID '' @ dec_int pid @ '': '' @ what @ lname @ '' at '' @ t"

definition t_flock_main :: "tf_env \<Rightarrow> string list \<Rightarrow> lk list \<Rightarrow> (string \<times> int) run" where
  "t_flock_main e argv others =
     (if length argv < 3 then Exited EXIT_FAILURE
      else if argv ! 1 = ''--help'' then Exited EXIT_FAILURE
      else if argv ! 2 = [] then Faulted OutOfBounds
      else if hd (argv ! 2) \<notin> set ''sx'' then Exited EXIT_FAILURE
      else
        let lock = (if hd (argv ! 2) = CHR ''s'' then Rd else Wr);
            nb = (cat (argv ! 2) 1 = CHR ''n'');
            lname = (if lock = Rd then ''LOCK_SH'' else ''LOCK_EX'');
            (t1, t2, t3) = tf_times e in
        if \<not> tf_open e then Exited EXIT_FAILURE
        else if \<not> flock_free lock others then (if nb then Exited EXIT_FAILURE else Faulted Deadlock)
        else Done (tf_msg (tf_pid e) ''requesting '' lname t1 @ tf_msg (tf_pid e) ''granted    '' lname t2 @
          tf_msg (tf_pid e) ''releasing '' lname t3, if tf_unlock e then EXIT_SUCCESS else EXIT_FAILURE))"

text \<open>Readers run together, a writer runs alone; the letter \<^verbatim>\<open>n\<close> turns waiting into failure.\<close>

lemma t_flock_modes:
  assumes "tf_open e" "tf_unlock e" "f \<noteq> ''--help''"
  shows "\<exists>out. t_flock_main e [p, f, ''s''] (replicate k Rd) = Done (out, EXIT_SUCCESS)"
    and "t_flock_main e [p, f, ''x''] (l # others) = Faulted Deadlock"
    and "t_flock_main e [p, f, ''xn''] (l # others) = Exited EXIT_FAILURE"
    and "\<exists>out. t_flock_main e [p, f, ''x''] [] = Done (out, EXIT_SUCCESS)"
  using assms by (auto simp: t_flock_main_def flock_free_def cat_def Let_def split: prod.splits)

text \<open>Descriptors refer to open file descriptions, which carry the lock: the first is created by \<^verbatim>\<open>open\<close>, \<^verbatim>\<open>dup\<close> adds a
  descriptor for the same one.\<close>

record dup_state =
  fd_desc :: "nat \<rightharpoonup> nat"
  desc_lock :: "nat \<Rightarrow> bool"

definition flock_fd :: "bool \<Rightarrow> nat \<Rightarrow> dup_state \<Rightarrow> dup_state option" where
  "flock_fd ex fd s =
     (case fd_desc s fd of
        None \<Rightarrow> None
      | Some d \<Rightarrow> Some (s\<lparr>desc_lock := (desc_lock s)(d := ex)\<rparr>))"

text \<open>The program up to \<^verbatim>\<open>pause\<close>; \<open>fd\<close> and \<open>dup_fd\<close> are the numbers the kernel chooses.\<close>

definition flock_dup_main :: "string list \<Rightarrow> nat option \<Rightarrow> nat option \<Rightarrow> dup_state run" where
  "flock_dup_main argv fd dup_fd =
     (if length argv \<noteq> 2 then Exited EXIT_FAILURE
      else case fd of
        None \<Rightarrow> Exited EXIT_FAILURE
      | Some n \<Rightarrow>
          case flock_fd True n \<lparr>fd_desc = [n \<mapsto> 0], desc_lock = \<lambda>_. False\<rparr> of
            None \<Rightarrow> Exited EXIT_FAILURE
          | Some s1 \<Rightarrow>
              case dup_fd of
                None \<Rightarrow> Exited EXIT_FAILURE
              | Some k \<Rightarrow>
                  case flock_fd False k (s1\<lparr>fd_desc := (fd_desc s1)(k := fd_desc s1 n)\<rparr>) of
                    None \<Rightarrow> Exited EXIT_FAILURE
                  | Some s2 \<Rightarrow> Done s2)"

text \<open>Unlocking the duplicate releases the lock that was placed through the first descriptor.\<close>

lemma flock_dup_unlocks:
  "\<exists>s. flock_dup_main [p, f] (Some n) (Some k) = Done s \<and> (\<forall>d. \<not> desc_lock s d) \<and> fd_desc s n = fd_desc s k"
  by (auto simp: flock_dup_main_def flock_fd_def)

end
