(* ===== verification/Sig_Queue.thy ===== *)
theory Sig_Queue
  imports Signals C_Lib Transitions "HOL-Library.Multiset"
begin

text \<open>
  Pending signals and the programs that make them visible: the pair \<^verbatim>\<open>sig_sender.c\<close> and \<^verbatim>\<open>sig_receiver.c\<close>,
  \<^verbatim>\<open>sig_sa.c\<close> and \<^verbatim>\<open>my_siginterrupt.c\<close> (Section 20), the pair \<^verbatim>\<open>sig_standard_realtime_sender.c\<close> and
  \<^verbatim>\<open>sig_standard_realtime.c\<close>, \<^verbatim>\<open>sig_continue.c\<close> and \<^verbatim>\<open>sig_speed_sigsuspend.c\<close> (Section 22), \<^verbatim>\<open>SIGCHLD_test.c\<close>
  (Section 27) and \<^verbatim>\<open>mt_msig.c\<close> (Section 33). The kernel keeps at most one pending instance of a standard signal and
  queues realtime signals up to a limit; the order in which pending signals are delivered is an argument. The
  exchange of signals between two processes is an interpretation of \<open>terminating_system\<close>.
\<close>

subsection \<open>Pending signals\<close>

abbreviation (input) SIGUSR1 :: nat where "SIGUSR1 \<equiv> 10"
abbreviation (input) SIGUSR2 :: nat where "SIGUSR2 \<equiv> 12"
abbreviation (input) SIGCONT :: nat where "SIGCONT \<equiv> 18"
abbreviation (input) SIGRTMIN :: nat where "SIGRTMIN \<equiv> 34"
abbreviation (input) NSIG :: nat where "NSIG \<equiv> 65"

definition stop_sig :: "nat \<Rightarrow> bool" where
  "stop_sig s \<longleftrightarrow> s \<in> {19, 20, 21, 22}"

text \<open>The list of pending signals after one more has been generated. \<^verbatim>\<open>SIGCONT\<close> and the stop signals discard each other;
  beyond the limit \<open>lim\<close> a signal is still pending once.\<close>

definition flush_opposite :: "nat \<Rightarrow> nat list \<Rightarrow> nat list" where
  "flush_opposite s pend =
     (if s = SIGCONT then filter (\<lambda>x. \<not> stop_sig x) pend
      else if stop_sig s then filter (\<lambda>x. x \<noteq> SIGCONT) pend else pend)"

definition queue_signal :: "nat \<Rightarrow> nat \<Rightarrow> nat list \<Rightarrow> nat list" where
  "queue_signal lim s pend =
     (let p = flush_opposite s pend in
      if s < 32 \<and> s \<in> set p then p
      else if length p < lim \<or> s \<notin> set p then p @ [s] else p)"

text \<open>The signals for which a program can install a handler: the C library keeps 32 and 33 for itself.\<close>

definition caught :: "nat \<Rightarrow> bool" where
  "caught s \<longleftrightarrow> settable s \<and> s \<noteq> 32 \<and> s \<noteq> 33"

definition uncaught :: "nat \<Rightarrow> 'a run" where
  "uncaught s = (if s = SIGSTOP then Faulted Deadlock else Exited (128 + int s))"

text \<open>A process that has a handler for every signal and blocks all of them while it sleeps.\<close>

fun sleeping :: "nat \<Rightarrow> nat list \<Rightarrow> nat list \<Rightarrow> nat list run" where
  "sleeping lim pend [] = Done pend"
| "sleeping lim pend (s # ss) =
     (if caught s then sleeping lim (queue_signal lim s pend) ss else uncaught s)"

lemma queue_standard_once: "s < 32 \<Longrightarrow> count_list pend s \<le> 1 \<Longrightarrow> count_list (queue_signal lim s' pend) s \<le> 1"
proof -
  have f: "count_list (filter P pend) s \<le> count_list pend s" for P by (induction pend) auto
  have z: "x \<notin> set xs \<Longrightarrow> count_list xs x = 0" for x and xs :: "nat list" by (induction xs) auto
  assume "s < 32" "count_list pend s \<le> 1"
  then show ?thesis
    using f [of "\<lambda>x. \<not> stop_sig x"] f [of "\<lambda>x. x \<noteq> SIGCONT"]
    by (auto simp: queue_signal_def flush_opposite_def Let_def z)
qed

lemma sleeping_standard_once:
  "sleeping lim pend ss = Done pend' \<Longrightarrow> s < 32 \<Longrightarrow> count_list pend s \<le> 1 \<Longrightarrow> count_list pend' s \<le> 1"
  by (induction lim pend ss rule: sleeping.induct)
    (auto simp: uncaught_def queue_standard_once [simplified] split: if_splits)

subsection \<open>\<^verbatim>\<open>sig_receiver.c\<close>\<close>

text \<open>\<^verbatim>\<open>printSigset\<close>: the loop with its counter; \<open>sep\<close> is what stands between prefix and number in the format, \<open>strsignal\<close>
  the function of the C library.\<close>

fun sigset_lines :: "(nat \<Rightarrow> string) \<Rightarrow> string \<Rightarrow> string \<Rightarrow> nat set \<Rightarrow> nat list \<Rightarrow> nat \<times> string" where
  "sigset_lines strsignal sep prefix sigset [] = (0, [])"
| "sigset_lines strsignal sep prefix sigset (sig # sigs) =
     (let (cnt, out) = sigset_lines strsignal sep prefix sigset sigs in
      if sig \<in> sigset then (cnt + 1, prefix @ sep @ dec_nat sig @ '' ('' @ strsignal sig @ '')'' @ [newline] @ out)
      else (cnt, out))"

definition printSigset :: "(nat \<Rightarrow> string) \<Rightarrow> string \<Rightarrow> string \<Rightarrow> nat set \<Rightarrow> string" where
  "printSigset strsignal sep prefix sigset =
     (let (cnt, out) = sigset_lines strsignal sep prefix sigset [1..<NSIG] in
      if cnt = 0 then out @ prefix @ sep @ ''<empty signal set>'' else out)"

record rcv =
  sigCnt :: "nat \<Rightarrow> int"
  gotSigint :: bool

definition rcv_handler :: "nat \<Rightarrow> rcv \<Rightarrow> rcv" where
  "rcv_handler sig r =
     (if sig = SIGINT then r\<lparr>gotSigint := True\<rparr>
      else r\<lparr>sigCnt := (sigCnt r)(sig := to_int32 (sigCnt r sig + 1))\<rparr>)"

text \<open>The loop until \<^verbatim>\<open>SIGINT\<close>, on the signals that arrive.\<close>

fun rcv_wait :: "rcv \<Rightarrow> nat list \<Rightarrow> rcv run" where
  "rcv_wait r [] = (if gotSigint r then Done r else Faulted Endless)"
| "rcv_wait r (s # ss) =
     (if gotSigint r then Done r
      else if caught s then rcv_wait (rcv_handler s r) ss
      else uncaught s)"

definition caught_line :: "string \<Rightarrow> nat \<Rightarrow> int \<Rightarrow> string" where
  "caught_line prog n k = prog @ '': signal '' @ dec_nat n @ '' caught '' @ dec_int k @ '' time'' @
     (if k = 1 then [] else ''s'') @ [newline]"

definition rcv_report :: "string \<Rightarrow> rcv \<Rightarrow> string" where
  "rcv_report prog r = concat (map (\<lambda>n. if sigCnt r n \<noteq> 0 then caught_line prog n (sigCnt r n) else []) [1..<NSIG])"

definition rcv_start :: rcv where
  "rcv_start = \<lparr>sigCnt = \<lambda>_. 0, gotSigint = False\<rparr>"

text \<open>The program: \<open>during\<close> are the signals that arrive while it sleeps with all signals blocked, \<open>later\<close> those after.\<close>

definition rcv_main ::
  "(nat \<Rightarrow> string) \<Rightarrow> nat \<Rightarrow> (nat list \<Rightarrow> nat list) \<Rightarrow> string list \<Rightarrow> int \<Rightarrow> nat list \<Rightarrow> nat list \<Rightarrow> string run" where
  "rcv_main strsignal lim order argv pid during later =
     (let prog = argv ! 0; pid_line = prog @ '': PID is '' @ dec_int pid @ [newline] in
      if length argv > 1 then
        run_bind (sleeping lim [] during) (\<lambda>pend.
        run_bind (rcv_wait (fold rcv_handler (order pend) rcv_start) later) (\<lambda>r.
          Done (pid_line @ prog @ '': sleeping for '' @ dec_int (atoi (argv ! 1)) @ '' seconds'' @ [newline] @
            prog @ '': pending signals are: '' @ [newline] @
            printSigset strsignal [] [CHR 0x09, CHR 0x09] (set pend) @ rcv_report prog r)))
      else run_bind (rcv_wait rcv_start (during @ later)) (\<lambda>r. Done (pid_line @ rcv_report prog r)))"

subsection \<open>\<^verbatim>\<open>sig_sender.c\<close>\<close>

text \<open>\<open>kill\<close> tells whether the call succeeds. The result is the list of the calls that did, the output and the status.\<close>

fun kill_loop :: "(int \<Rightarrow> int \<Rightarrow> bool) \<Rightarrow> int \<Rightarrow> int \<Rightarrow> nat \<Rightarrow> (int \<times> int) list \<times> bool" where
  "kill_loop kill pid sig 0 = ([], True)"
| "kill_loop kill pid sig (Suc n) =
     (if kill pid sig then let (sent, ok) = kill_loop kill pid sig n in ((pid, sig) # sent, ok) else ([], False))"

definition sender_main :: "(int \<Rightarrow> int \<Rightarrow> bool) \<Rightarrow> string list \<Rightarrow> (int \<times> int) list \<times> string \<times> int" where
  "sender_main kill argv =
     (if length argv < 4 \<or> argv ! 1 = ''--help'' then ([], [], EXIT_FAILURE)
      else
        let pid = atoi (argv ! 1); numSigs = atoi (argv ! 2); sig = atoi (argv ! 3);
            out = argv ! 0 @ '': sending signal '' @ dec_int sig @ '' to process '' @ dec_int pid @ '' '' @
              dec_int numSigs @ '' times'' @ [newline];
            (sent, ok) = kill_loop kill pid sig (nat numSigs) in
        if \<not> ok then (sent, out, EXIT_FAILURE)
        else if length argv > 4 then
          let sig2 = atoi (argv ! 4) in
          if kill pid sig2 then (sent @ [(pid, sig2)], out @ argv ! 0 @ '': exiting'' @ [newline], EXIT_SUCCESS)
          else (sent, out, EXIT_FAILURE)
        else (sent, out @ argv ! 0 @ '': exiting'' @ [newline], EXIT_SUCCESS))"

subsection \<open>Sender and receiver together\<close>

lemma queue_same:
  "queue_signal lim s (replicate j s) = replicate (if j = 0 then 1 else if s < 32 \<or> lim \<le> j then j else Suc j) s"
proof -
  have "flush_opposite s (replicate j s) = replicate j s"
    by (auto simp: stop_sig_def flush_opposite_def)
  then have "queue_signal lim s (replicate j s) =
    (if s < 32 \<and> s \<in> set (replicate j s) then replicate j s
     else if length (replicate j s) < lim \<or> s \<notin> set (replicate j s) then replicate j s @ [s] else replicate j s)"
    by (simp only: queue_signal_def Let_def)
  then show ?thesis by (cases j) (auto simp: replicate_append_same)
qed

lemma sleeping_same:
  "caught s \<Longrightarrow> sleeping lim (replicate (Suc j) s) (replicate n s @ ss) =
     sleeping lim (replicate (if s < 32 then Suc j else max (Suc j) (min (Suc j + n) lim)) s) ss"
proof (induction n arbitrary: j)
  case (Suc n)
  show ?case
  proof (cases "s < 32 \<or> lim \<le> Suc j")
    case True
    then have "(if s < 32 then Suc j else max (Suc j) (min (Suc j + n) lim)) =
      (if s < 32 then Suc j else max (Suc j) (min (Suc j + Suc n) lim))" by (auto simp: max_def min_def)
    with True show ?thesis using Suc.IH [OF Suc.prems, of j] Suc.prems queue_same [of lim s "Suc j"] by simp
  next
    case False
    then have "sleeping lim (replicate (Suc j) s) (replicate (Suc n) s @ ss) =
      sleeping lim (replicate (Suc (Suc j)) s) (replicate n s @ ss)"
      using Suc.prems queue_same [of lim s "Suc j"] by simp
    then show ?thesis using Suc.IH [OF Suc.prems, of "Suc j"] False by (simp add: max_def min_def)
  qed
qed auto

text \<open>The number of instances of \<open>s\<close> that are left of \<open>n\<close>.\<close>

definition kept :: "nat \<Rightarrow> nat \<Rightarrow> nat \<Rightarrow> nat" where
  "kept lim s n = (if s < 32 then 1 else max 1 (min n lim))"

lemma sleeping_replicate:
  assumes "caught s" "0 < n"
  shows "sleeping lim [] (replicate n s @ ss) = sleeping lim (replicate (kept lim s n) s) ss"
proof -
  obtain m where n: "n = Suc m" using assms(2) by (cases n) auto
  have "queue_signal lim s [] = replicate (Suc 0) s" using queue_same [of lim s 0] by simp
  then show ?thesis using assms(1) n sleeping_same [of s lim 0 m ss] by (simp add: kept_def)
qed

lemma queue_int:
  "s \<noteq> SIGINT \<Longrightarrow> queue_signal lim SIGINT (replicate k s) = replicate k s @ [SIGINT]"
  by (auto simp: queue_signal_def flush_opposite_def stop_sig_def)

text \<open>What the handlers have counted does not depend on the order of delivery.\<close>

lemma rcv_counts:
  "sigCnt r = (\<lambda>n. to_int32 (c n)) \<Longrightarrow>
   sigCnt (fold rcv_handler xs r) = (\<lambda>n. to_int32 (c n + (if n = SIGINT then 0 else int (count_list xs n)))) \<and>
   gotSigint (fold rcv_handler xs r) = (gotSigint r \<or> SIGINT \<in> set xs)"
proof (induction xs arbitrary: r c)
  case (Cons x xs)
  let ?c = "if x = SIGINT then c else c(x := c x + 1)"
  have "sigCnt (rcv_handler x r) = (\<lambda>n. to_int32 (?c n))"
    using Cons.prems by (auto simp: rcv_handler_def to_int32_add)
  from Cons.IH [OF this] show ?case
    by (auto simp: fun_eq_iff rcv_handler_def add_ac)
qed (simp add: fun_eq_iff)

lemma count_replicate: "count_list (replicate k x) y = (if y = x then k else 0)"
  by (induction k) auto

lemma concat_single: "distinct xs \<Longrightarrow> s \<in> set xs \<Longrightarrow> concat (map (\<lambda>n. if n = s then X else []) xs) = X"
  by (induction xs) (auto simp: concat_eq_Nil_conv)

lemma rcv_wait_done: "gotSigint r \<Longrightarrow> rcv_wait r ss = Done r"
  by (cases ss) simp_all

lemma rcv_report_single:
  assumes "sigCnt r = (\<lambda>n. if n = s then k else 0)" "1 \<le> s" "s < NSIG" "k \<noteq> 0"
  shows "rcv_report prog r = caught_line prog s k"
proof -
  have "(\<lambda>n. if sigCnt r n \<noteq> 0 then caught_line prog n (sigCnt r n) else []) =
    (\<lambda>n. if n = s then caught_line prog s k else [])"
    using assms(1,4) by auto
  then show ?thesis using assms(2,3) concat_single [of "[1..<NSIG]" s "caught_line prog s k"]
    by (simp add: rcv_report_def)
qed

lemma kill_loop_ok: "(\<And>p q. kill p q) \<Longrightarrow> kill_loop kill pid sig n = (replicate n (pid, sig), True)"
  by (induction n) auto

text \<open>C36: \<^verbatim>\<open>sig_sender\<close> sends a signal \<open>n\<close> times and then \<^verbatim>\<open>SIGINT\<close> to \<^verbatim>\<open>sig_receiver\<close>, which sleeps with all signals
  blocked. In every order of delivery the receiver then reports one line and ends: a standard signal was caught once,
  however often it was sent, a realtime signal as often as it was sent up to the limit of the queue.\<close>

theorem sender_receiver:
  assumes "\<And>p q. kill p q" "is_int32 n" "is_int32 pid" "caught s" "s \<noteq> SIGINT" "0 < n"
    and "\<And>xs. mset (order xs) = mset xs"
  shows "rcv_main strsignal lim order [p, secs] pid
      (map (\<lambda>(_, g). nat g) (fst (sender_main kill [q, dec_int pid, dec_int n, dec_int (int s), dec_int 2]))) later =
    Done (p @ '': PID is '' @ dec_int pid @ [newline] @ p @ '': sleeping for '' @ dec_int (atoi secs) @ '' seconds'' @ [newline] @
      p @ '': pending signals are: '' @ [newline] @ printSigset strsignal [] [CHR 0x09, CHR 0x09] {s, SIGINT} @
      caught_line p s (if s < 32 then 1 else max 1 (min n (int lim))))"
proof -
  have s: "1 \<le> s" "s < NSIG" "is_int32 (int s)" "is_int32 2"
    using assms(4) by (auto simp: caught_def settable_def valid_sig_def is_int32_def)
  note nohelp = dec_int_not_help [of pid]
  let ?k = "kept lim s (nat n)"
  have sent: "map (\<lambda>(_, g). nat g) (fst (sender_main kill [q, dec_int pid, dec_int n, dec_int (int s), dec_int 2])) =
      replicate (nat n) s @ [SIGINT]"
    using assms(1-3) s nohelp by (simp add: sender_main_def atoi_dec_int kill_loop_ok numeral_eq_Suc Let_def)
  have sl: "sleeping lim [] (replicate (nat n) s @ [SIGINT]) = Done (replicate ?k s @ [SIGINT])"
    using assms(4-6) sleeping_replicate [of s "nat n" lim "[SIGINT]"]
    by (simp add: queue_int caught_def settable_def valid_sig_def)
  have kpos: "0 < ?k" and kle: "int ?k \<le> max 1 n" using assms(6) by (auto simp: kept_def)
  have kint: "to_int32 (int ?k) = (if s < 32 then 1 else max 1 (min n (int lim)))"
    using kle assms(2,6) by (subst to_int32_id) (auto simp: kept_def is_int32_def of_nat_max of_nat_min)
  let ?r = "fold rcv_handler (order (replicate ?k s @ [SIGINT])) rcv_start"
  have set: "set (order xs) = set xs" "count_list (order xs) = count_list xs" for xs
    using assms(7) [of xs] by (metis set_mset_mset, metis count_mset ext)
  have c: "count_list (replicate ?k s @ [SIGINT]) m = (if m = s then ?k else if m = SIGINT then 1 else 0)" for m
    using assms(5) by (auto simp: count_list_append count_replicate)
  have oc: "count_list (order (replicate ?k s @ [SIGINT])) m = (if m = s then ?k else if m = SIGINT then 1 else 0)" for m
    unfolding set(2) by (rule c)
  have "sigCnt rcv_start = (\<lambda>n. to_int32 0)" by (simp add: rcv_start_def to_int32_def)
  from rcv_counts [OF this, of "order (replicate ?k s @ [SIGINT])"]
  have r: "sigCnt ?r = (\<lambda>m. if m = s then to_int32 (int ?k) else 0)" "gotSigint ?r"
    using assms(5) by (auto simp: set(1) oc fun_eq_iff to_int32_def)
  have "rcv_report p ?r = caught_line p s (to_int32 (int ?k))"
    using r(1) s kint by (intro rcv_report_single) auto
  then show ?thesis
    using sl r(2) kpos unfolding sent kint by (simp add: rcv_main_def rcv_wait_done insert_commute)
qed

theorem sender_receiver_witness:
  "rcv_main (\<lambda>_. ''name'') 5 rev [''r'', ''9''] 42
      (map (\<lambda>(_, g). nat g) (fst (sender_main (\<lambda>_ _. True) [''s'', dec_int 42, dec_int 3, dec_int (int 10), dec_int 2]))) [] =
    Done (''r'' @ '': PID is '' @ dec_int 42 @ [newline] @ ''r'' @ '': sleeping for '' @ dec_int (atoi ''9'') @ '' seconds'' @ [newline] @
      ''r'' @ '': pending signals are: '' @ [newline] @ printSigset (\<lambda>_. ''name'') [] [CHR 0x09, CHR 0x09] {10, SIGINT} @
      caught_line ''r'' 10 1)"
  using sender_receiver [of "\<lambda>_ _. True" 3 42 10 rev "\<lambda>_. ''name''" 5 "''r''" "''9''" "''s''" "[]"]
  by (simp add: is_int32_def caught_def settable_def valid_sig_def)

subsection \<open>A process with some signals blocked\<close>

definition ignored_by_default :: "nat \<Rightarrow> bool" where
  "ignored_by_default s \<longleftrightarrow> s \<in> {17, 18, 23, 28}"

text \<open>A process asleep with the signals of \<open>blk\<close> blocked and default dispositions for the others. While it is stopped,
  signals that would end it wait in \<open>due\<close> until it is continued; a process that stays stopped is a deadlock.\<close>

fun asleep :: "nat \<Rightarrow> nat set \<Rightarrow> bool \<Rightarrow> nat list \<Rightarrow> nat list \<Rightarrow> nat list \<Rightarrow> nat list run" where
  "asleep lim blk stopped due pend [] = (if stopped then Faulted Deadlock else Done pend)"
| "asleep lim blk stopped due pend (s # ss) =
     (let pend' = (if s \<in> blk then queue_signal lim s pend else flush_opposite s pend) in
      if s = SIGKILL then Exited (128 + int s)
      else if s = SIGCONT then
        (if due = [] then asleep lim blk False [] pend' ss else Exited (128 + int (hd due)))
      else if s \<in> blk \<and> s \<noteq> SIGSTOP then asleep lim blk stopped due pend' ss
      else if stop_sig s then asleep lim blk True due pend' ss
      else if ignored_by_default s then asleep lim blk stopped due pend' ss
      else if stopped then asleep lim blk stopped (due @ [s]) pend' ss
      else Exited (128 + int s))"

subsection \<open>\<^verbatim>\<open>sig_standard_realtime.c\<close> and its sender\<close>

definition standard_text :: string where "standard_text = ''standard signal'' @ [newline]"
definition realtime_text :: string where "realtime_text = ''realtime signal'' @ [newline]"

definition std_rt_main :: "nat \<Rightarrow> (nat list \<Rightarrow> nat list) \<Rightarrow> int \<Rightarrow> nat list \<Rightarrow> string run" where
  "std_rt_main lim order pid arrivals =
     run_bind (asleep lim {SIGUSR1, SIGRTMIN} False [] [] arrivals) (\<lambda>pend.
       Done (''pid is '' @ dec_int pid @ [newline] @ ''waitting for 15 s'' @ [newline] @
         concat (map (\<lambda>s. if s = SIGUSR1 then standard_text else realtime_text) (order pend))))"

text \<open>The sender: the number that \<^verbatim>\<open>scanf\<close> read, and the calls in order; their results are not looked at.\<close>

definition std_rt_sender :: "int option \<Rightarrow> (int \<times> nat) list run" where
  "std_rt_sender input =
     (case input of
        None \<Rightarrow> Faulted Uninitialised
      | Some pid \<Rightarrow> Done [(pid, SIGUSR1), (pid, SIGRTMIN), (pid, SIGRTMIN), (pid, SIGUSR1)])"

lemma std_rt_pair:
  assumes "2 < lim" "\<And>xs. mset (order xs) = mset xs"
  shows "run_bind (std_rt_sender (Some pid)) (\<lambda>calls. std_rt_main lim order pid (map snd calls)) =
      Done (''pid is '' @ dec_int pid @ [newline] @ ''waitting for 15 s'' @ [newline] @
        concat (map (\<lambda>s. if s = SIGUSR1 then standard_text else realtime_text) (order [SIGUSR1, SIGRTMIN, SIGRTMIN]))) \<and>
    mset (map (\<lambda>s. if s = SIGUSR1 then standard_text else realtime_text) (order [SIGUSR1, SIGRTMIN, SIGRTMIN])) =
      {#standard_text, realtime_text, realtime_text#}"
  using assms(1) by (simp add: std_rt_sender_def std_rt_main_def queue_signal_def flush_opposite_def stop_sig_def
    ignored_by_default_def mset_map assms(2))

subsection \<open>\<^verbatim>\<open>sig_continue.c\<close>\<close>

definition cont_text :: string where "cont_text = ''I am in handler func'' @ [newline]"

definition sig_continue_main :: "nat \<Rightarrow> int \<Rightarrow> nat list \<Rightarrow> nat list \<Rightarrow> string run" where
  "sig_continue_main lim pid first second =
     run_bind (asleep lim {SIGCONT} False [] [] first) (\<lambda>pend1.
     run_bind (asleep lim {SIGCONT} False [] pend1 second) (\<lambda>pend2.
       Done (''pid is '' @ dec_int pid @ [newline] @ ''Now we wait signal <Ctrl + Z>, sleep 20s'' @ [newline] @
         ''We recive SIGCONT signal'' @ [newline] @ ''But SIGCONT sighandler do not run, we will rm block'' @ [newline] @
         (if SIGCONT \<in> set pend2 then cont_text else []) @ ''rm the block success'' @ [newline])))"

text \<open>While the process runs, a \<^verbatim>\<open>SIGCONT\<close> that has arrived is pending, once.\<close>

lemma asleep_cont:
  assumes "\<forall>s \<in> set ss. s = SIGCONT \<or> s = 20" "asleep lim {SIGCONT} stopped [] pend ss = Done pend'"
    and "set pend \<subseteq> {SIGCONT}" "stopped \<or> (pend = (if c then [SIGCONT] else []))" "stopped \<Longrightarrow> pend = []"
  shows "pend' = (if c \<or> SIGCONT \<in> set ss then [SIGCONT] else []) \<and> (stopped \<longrightarrow> SIGCONT \<in> set ss)"
  using assms
proof (induction ss arbitrary: stopped pend c)
  case (Cons s ss)
  show ?case
  proof (cases "s = SIGCONT")
    case True
    have "queue_signal lim SIGCONT pend = [SIGCONT]"
      using Cons.prems(3-5) by (auto simp: queue_signal_def flush_opposite_def stop_sig_def split: if_splits)
    then have "asleep lim {SIGCONT} False [] [SIGCONT] ss = Done pend'" using Cons.prems(2) True by simp
    from Cons.IH [OF _ this, of True] show ?thesis using Cons.prems(1) True by simp
  next
    case False
    then have s: "s = 20" using Cons.prems(1) by simp
    have "flush_opposite 20 pend = []"
      using Cons.prems(3) by (auto simp: flush_opposite_def stop_sig_def filter_empty_conv)
    then have "asleep lim {SIGCONT} True [] [] ss = Done pend'" using Cons.prems(2) s by (simp add: stop_sig_def)
    from Cons.IH [OF _ this, of c] show ?thesis using Cons.prems(1) s by auto
  qed
qed (auto split: if_splits)

text \<open>Stopped and continued any number of times, the program runs to its end when it has been continued last; the handler
  runs at most once, when the signal is released, and only if there was a \<^verbatim>\<open>SIGCONT\<close>; the message that one was received is
  printed in any case.\<close>

lemma sig_continue_output:
  assumes "\<forall>s \<in> set (a @ b). s = SIGCONT \<or> s = 20" "sig_continue_main lim pid a b = Done out"
  shows "out = ''pid is '' @ dec_int pid @ [newline] @ ''Now we wait signal <Ctrl + Z>, sleep 20s'' @ [newline] @
    ''We recive SIGCONT signal'' @ [newline] @ ''But SIGCONT sighandler do not run, we will rm block'' @ [newline] @
    (if SIGCONT \<in> set (a @ b) then cont_text else []) @ ''rm the block success'' @ [newline]"
proof -
  from assms(2) obtain p1 p2 where p: "asleep lim {SIGCONT} False [] [] a = Done p1" "asleep lim {SIGCONT} False [] p1 b = Done p2"
    by (auto simp: sig_continue_main_def run_bind_Done_iff)
  have "p1 = (if SIGCONT \<in> set a then [SIGCONT] else [])"
    using asleep_cont [OF _ p(1), of False] assms(1) by simp
  then have "p2 = (if SIGCONT \<in> set (a @ b) then [SIGCONT] else [])"
    using asleep_cont [OF _ p(2), of "SIGCONT \<in> set a"] assms(1) by (cases "SIGCONT \<in> set a") simp_all
  then show ?thesis using assms(2) p by (auto simp: sig_continue_main_def)
qed

subsection \<open>\<^verbatim>\<open>sig_sa.c\<close>\<close>

text \<open>\<^verbatim>\<open>SIGQUIT\<close> has a handler that is used once, \<^verbatim>\<open>SIGINT\<close> one that never returns, may be entered again and blocks \<^verbatim>\<open>SIGQUIT\<close>.
  The result is what is printed until the signals end, with the status when the process was ended.\<close>

record sa_state =
  sa_quit :: bool
  sa_depth :: nat

fun sa_loop :: "sa_state \<Rightarrow> nat list \<Rightarrow> string \<times> int option" where
  "sa_loop st [] = ([], None)"
| "sa_loop st (s # ss) =
     (if s = SIGINT then
        let (out, status) = sa_loop (st\<lparr>sa_depth := sa_depth st + 1\<rparr>) ss in (''int!'' @ [newline] @ out, status)
      else if s = SIGQUIT then
        (if sa_depth st > 0 then sa_loop st ss
         else if sa_quit st then
           let (out, status) = sa_loop (st\<lparr>sa_quit := False\<rparr>) ss in (''quit!'' @ [newline] @ out, status)
         else ([], Some (128 + int SIGQUIT)))
      else sa_loop st ss)"

lemma sa_loop_nested:
  "sa_depth st > 0 \<Longrightarrow> sa_loop st ss = (concat (replicate (count_list ss SIGINT) (''int!'' @ [newline])), None)"
  by (induction ss arbitrary: st) auto

lemma sa_loop_first_int:
  assumes "set ss \<subseteq> {SIGQUIT}" "length ss \<le> 1"
  shows "sa_loop \<lparr>sa_quit = True, sa_depth = 0\<rparr> (ss @ SIGINT # rest) =
    (concat (replicate (length ss) (''quit!'' @ [newline])) @ concat (replicate (count_list rest SIGINT + 1) (''int!'' @ [newline])), None)"
  using assms by (cases ss) (simp_all add: sa_loop_nested)

subsection \<open>\<^verbatim>\<open>my_siginterrupt.c\<close>\<close>

abbreviation (input) SA_RESTART :: nat where "SA_RESTART \<equiv> 268435456"

definition my_siginterrupt :: "nat \<Rightarrow> int \<Rightarrow> sig_state \<Rightarrow> int \<times> sig_state" where
  "my_siginterrupt sig flag st =
     (if flag = 1 then
        (case sigaction_get sig st of
           None \<Rightarrow> (- 1, st)
         | Some sigact \<Rightarrow>
             (case sigaction_set sig (sigact\<lparr>sa_flags := or (sa_flags sigact) SA_RESTART\<rparr>) st of
                None \<Rightarrow> (- 1, st)
              | Some st' \<Rightarrow> (0, st')))
      else (0, st))"

text \<open>What the manual promises of \<^verbatim>\<open>siginterrupt\<close>: the flag tells whether system calls are interrupted.\<close>

definition siginterrupt_ok :: "nat \<Rightarrow> int \<Rightarrow> sig_state \<Rightarrow> bool" where
  "siginterrupt_ok sig flag st \<longleftrightarrow> bit (sa_flags (disp st sig)) 28 = (flag = 0)"

lemma my_siginterrupt_inverted:
  assumes "settable sig"
  shows "\<not> siginterrupt_ok sig 1 (snd (my_siginterrupt sig 1 st))"
    and "siginterrupt_ok sig 0 (snd (my_siginterrupt sig 0 st)) = siginterrupt_ok sig 0 st"
    and "fst (my_siginterrupt sig 1 st) = 0"
proof -
  have "bit SA_RESTART 28" by (simp add: bit_iff_odd)
  then have "bit (or (sa_flags (disp st sig)) SA_RESTART) 28" by (simp only: bit_or_iff simp_thms)
  then show "\<not> siginterrupt_ok sig 1 (snd (my_siginterrupt sig 1 st))" "fst (my_siginterrupt sig 1 st) = 0"
    using assms by (simp_all add: my_siginterrupt_def siginterrupt_ok_def sigaction_get_def sigaction_set_def settable_def)
  show "siginterrupt_ok sig 0 (snd (my_siginterrupt sig 0 st)) = siginterrupt_ok sig 0 st"
    by (simp add: my_siginterrupt_def)
qed

text \<open>The program: reading 1024 bytes makes it write behind its buffer.\<close>

definition siginterrupt_main :: "rd_ans list \<Rightarrow> string run" where
  "siginterrupt_main input =
     (case sys_read 1024 input of
        (Inl e, _) \<Rightarrow> Exited EXIT_FAILURE
      | (Inr bytes, _) \<Rightarrow> if length bytes < 1024 then Done (takeWhile (\<lambda>c. c \<noteq> NUL) bytes) else Faulted OutOfBounds)"

subsection \<open>\<^verbatim>\<open>sig_speed_sigsuspend.c\<close>\<close>

text \<open>Parent and child exchange \<open>n\<close> signals. A signal that is already pending is not queued again, so an exchange in which
  one process sends twice in a row would lose a signal. One step is one system call; a call of \<^verbatim>\<open>sigwaitinfo\<close> is
  possible only when the signal is pending.\<close>

record pp =
  pp_parent_pend :: bool
  pp_child_pend :: bool
  pp_sent :: bool          \<comment> \<open>the child is between \<^verbatim>\<open>kill\<close> and \<^verbatim>\<open>sigwaitinfo\<close>\<close>
  pp_got :: bool           \<comment> \<open>the parent is between \<^verbatim>\<open>sigwaitinfo\<close> and \<^verbatim>\<open>kill\<close>\<close>
  pp_child_cnt :: nat
  pp_parent_cnt :: nat

definition child_step :: "nat \<Rightarrow> pp \<Rightarrow> pp option" where
  "child_step n s =
     (if pp_sent s then
        (if pp_child_pend s then
           Some (s\<lparr>pp_child_pend := False, pp_sent := False, pp_child_cnt := pp_child_cnt s + 1\<rparr>)
         else None)
      else if pp_child_cnt s < n then Some (s\<lparr>pp_parent_pend := True, pp_sent := True\<rparr>)
      else None)"

definition parent_step :: "nat \<Rightarrow> pp \<Rightarrow> pp option" where
  "parent_step n s =
     (if pp_got s then Some (s\<lparr>pp_child_pend := True, pp_got := False, pp_parent_cnt := pp_parent_cnt s + 1\<rparr>)
      else if pp_parent_cnt s < n \<and> pp_parent_pend s then Some (s\<lparr>pp_parent_pend := False, pp_got := True\<rparr>)
      else None)"

definition pp_step :: "nat \<Rightarrow> pp \<Rightarrow> pp \<Rightarrow> bool" where
  "pp_step n s s' \<longleftrightarrow> child_step n s = Some s' \<or> parent_step n s = Some s'"

definition pp_start :: pp where
  "pp_start = \<lparr>pp_parent_pend = False, pp_child_pend = False, pp_sent = False, pp_got = False, pp_child_cnt = 0, pp_parent_cnt = 0\<rparr>"

text \<open>\<^verbatim>\<open>strtol\<close> with base 0: the base follows from the prefix.\<close>

definition digit_of :: "char \<Rightarrow> nat" where
  "digit_of c =
     (let n = (of_char c :: nat) in
      if is_digit c then digit_val c
      else if 97 \<le> n \<and> n \<le> 122 then n - 87
      else if 65 \<le> n \<and> n \<le> 90 then n - 55
      else 36)"

fun digits_in :: "nat \<Rightarrow> string \<Rightarrow> nat \<Rightarrow> nat" where
  "digits_in b [] acc = acc"
| "digits_in b (c # r) acc = (if digit_of c < b then digits_in b r (acc * b + digit_of c) else acc)"

fun strtol_base :: "string \<Rightarrow> nat" where
  "strtol_base (z # x # d # r) =
     (if z = CHR ''0'' then (if x \<in> {CHR ''x'', CHR ''X''} \<and> digit_of d < 16 then digits_in 16 (d # r) 0 else digits_in 8 (x # d # r) 0)
      else digits_in 10 (z # x # d # r) 0)"
| "strtol_base s = (if s \<noteq> [] \<and> hd s = CHR ''0'' then digits_in 8 (tl s) 0 else digits_in 10 s 0)"

definition strtol0 :: "string \<Rightarrow> int" where
  "strtol0 s =
     (case dropWhile is_space s of
        [] \<Rightarrow> 0
      | c # r \<Rightarrow>
          clamp_long (if c = CHR ''-'' then - int (strtol_base r)
                      else if c = CHR ''+'' then int (strtol_base r)
                      else int (strtol_base (c # r))))"

text \<open>\<^verbatim>\<open>main\<close> up to the two loops: the number of signals each process counts.\<close>

definition sig_speed_main :: "bool \<Rightarrow> bool \<Rightarrow> string list \<Rightarrow> (nat \<times> pp) run" where
  "sig_speed_main mask_ok fork_ok argv =
     (if length argv \<noteq> 2 \<or> argv ! 1 = ''--help'' then Exited EXIT_FAILURE
      else if \<not> mask_ok then Exited EXIT_FAILURE
      else if \<not> fork_ok then Exited EXIT_FAILURE
      else Done (nat (to_int32 (strtol0 (argv ! 1))), pp_start))"

lemma strtol0_bases: "strtol0 ''0x1F'' = 31" "strtol0 '' -017'' = - 15" "strtol0 ''20k'' = 20"
  by code_simp+

definition pp_inv :: "nat \<Rightarrow> pp \<Rightarrow> bool" where
  "pp_inv n s \<longleftrightarrow> pp_child_cnt s \<le> n \<and>
     (if pp_sent s then pp_child_cnt s < n \<and>
        (if pp_parent_pend s then \<not> pp_got s \<and> \<not> pp_child_pend s \<and> pp_parent_cnt s = pp_child_cnt s
         else if pp_got s then \<not> pp_child_pend s \<and> pp_parent_cnt s = pp_child_cnt s
         else pp_child_pend s \<and> pp_parent_cnt s = pp_child_cnt s + 1)
      else \<not> pp_parent_pend s \<and> \<not> pp_got s \<and> \<not> pp_child_pend s \<and> pp_parent_cnt s = pp_child_cnt s)"

definition pp_end :: "nat \<Rightarrow> pp \<Rightarrow> bool" where
  "pp_end n s \<longleftrightarrow> \<not> pp_sent s \<and> \<not> pp_got s \<and> pp_child_cnt s = n \<and> pp_parent_cnt s = n"

definition pp_rank :: "nat \<Rightarrow> pp \<Rightarrow> nat" where
  "pp_rank n s = 4 * (n - pp_child_cnt s) -
     (if \<not> pp_sent s then 0 else if pp_parent_pend s then 1 else if pp_got s then 2 else 3)"

lemma pp_step_rank: "pp_inv n s \<Longrightarrow> pp_step n s s' \<Longrightarrow> pp_rank n s = Suc (pp_rank n s')"
  by (auto simp: pp_step_def child_step_def parent_step_def pp_inv_def pp_rank_def split: if_splits)

interpretation ping: terminating_system "\<lambda>s. s = pp_start" "pp_step n" "pp_inv n" "pp_end n" "pp_rank n"
proof
  show "s = pp_start \<Longrightarrow> pp_inv n s" for s by (simp add: pp_start_def pp_inv_def)
  show "pp_inv n s \<Longrightarrow> pp_step n s s' \<Longrightarrow> pp_inv n s'" for s s'
    by (auto simp: pp_step_def child_step_def parent_step_def pp_inv_def split: if_splits)
  show "pp_inv n s \<Longrightarrow> \<not> pp_end n s \<Longrightarrow> \<exists>s'. pp_step n s s'" for s
    by (cases "pp_sent s"; cases "pp_parent_pend s"; cases "pp_got s")
      (simp_all add: pp_step_def child_step_def parent_step_def pp_inv_def pp_end_def)
  show "pp_inv n s \<Longrightarrow> pp_step n s s' \<Longrightarrow> pp_rank n s' < pp_rank n s" for s s'
    using pp_step_rank [of n s s'] by simp
qed

lemma pp_steps_exact: "(pp_step n ^^ k) pp_start s \<Longrightarrow> k + pp_rank n s = 4 * n"
proof (induction k arbitrary: s)
  case (Suc k)
  then obtain t where t: "(pp_step n ^^ k) pp_start t" "pp_step n t s" by auto
  have "pp_inv n t" using ping.inv_reachable [OF refl relpowp_imp_rtranclp [OF t(1)]] .
  from Suc.IH [OF t(1)] pp_step_rank [OF this t(2)] show ?case by simp
qed (simp add: pp_rank_def pp_start_def)

text \<open>C37: whatever the scheduler does, the exchange of signals of \<^verbatim>\<open>sig_speed_sigsuspend\<close> is complete after exactly \<open>4 n\<close> calls: no
  signal is lost, neither process waits for ever, and a run that cannot go on has ended in both processes.\<close>

theorem signal_exchange:
  assumes "(pp_step n)\<^sup>*\<^sup>* pp_start s"
  shows "(\<exists>t. (pp_step n)\<^sup>*\<^sup>* s t \<and> pp_end n t) \<and> (if \<exists>t. pp_step n s t then True else pp_end n s) \<and>
    (pp_end n s \<longrightarrow> (\<forall>k. (pp_step n ^^ k) pp_start s \<longrightarrow> k = 4 * n))"
proof (intro conjI)
  have inv: "pp_inv n s" using ping.inv_reachable [OF refl assms] .
  show "\<exists>t. (pp_step n)\<^sup>*\<^sup>* s t \<and> pp_end n t" by (rule ping.reaches_final [OF inv])
  show "if \<exists>t. pp_step n s t then True else pp_end n s" using ping.progress [OF inv] by auto
  show "pp_end n s \<longrightarrow> (\<forall>k. (pp_step n ^^ k) pp_start s \<longrightarrow> k = 4 * n)"
    by (auto dest: pp_steps_exact simp: pp_rank_def pp_end_def)
qed

theorem signal_exchange_witness: "\<exists>t. (pp_step 3)\<^sup>*\<^sup>* pp_start t \<and> pp_end 3 t"
  using signal_exchange [of 3 pp_start] by simp

subsection \<open>\<^verbatim>\<open>SIGCHLD_test.c\<close>\<close>

text \<open>The output of parent and child: \<^verbatim>\<open>wait\<close> does not take back the \<^verbatim>\<open>SIGCHLD\<close> that is pending.\<close>

definition sigchld_main :: "nat \<Rightarrow> bool \<Rightarrow> string \<times> string" where
  "sigchld_main lim fork_ok =
     (if \<not> fork_ok then ([], [])
      else
        let pend = queue_signal lim SIGCHLD [] in
        (''sleep over'' @ [newline] @ ''wait ok'' @ [newline] @
           (if SIGCHLD \<in> set pend then ''Hello'' @ [newline] else []),
         ''exiting'' @ [newline]))"

lemma sigchld_handler_after_wait:
  "fst (sigchld_main lim True) = ''sleep over'' @ [newline] @ ''wait ok'' @ [newline] @ ''Hello'' @ [newline]"
  by (simp add: sigchld_main_def queue_signal_def flush_opposite_def stop_sig_def)

subsection \<open>\<^verbatim>\<open>mt_msig.c\<close>\<close>

text \<open>\<open>pending\<close> is the answer of \<^verbatim>\<open>sigpending\<close>; the identity is cut to the 20 bytes of \<^verbatim>\<open>msg\<close>.\<close>

definition mt_thread :: "(nat \<Rightarrow> string) \<Rightarrow> int \<Rightarrow> nat set option \<Rightarrow> string run" where
  "mt_thread strsignal my_id pending =
     (case pending of
        None \<Rightarrow> Exited EXIT_FAILURE
      | Some spend_sigset \<Rightarrow>
          Done (''Thread '' @ dec_int my_id @ '' wait signal'' @ [newline] @
            printSigset strsignal '' '' (take 19 (dec_int my_id)) spend_sigset))"

text \<open>The program with the answers of the six calls on threads; \<open>proc\<close> are the blocked signals that were sent to the process as
  a whole. The result is the output of each thread.\<close>

definition mt_main :: "(nat \<Rightarrow> string) \<Rightarrow> bool list \<Rightarrow> int \<Rightarrow> int \<Rightarrow> nat set \<Rightarrow> (string \<times> string) run" where
  "mt_main strsignal oks id1 id2 proc =
     (if False \<in> set oks then Exited EXIT_FAILURE
      else
        run_bind (mt_thread strsignal id1 (Some (insert SIGUSR1 proc))) (\<lambda>out1.
        run_bind (mt_thread strsignal id2 (Some (insert SIGUSR2 proc))) (\<lambda>out2.
          Done (out1, out2))))"

lemma sigset_lines_outside: "set sigs \<inter> sigset = {} \<Longrightarrow> sigset_lines strsignal sep prefix sigset sigs = (0, [])"
  by (induction sigs) auto

lemma sigset_lines_append:
  "sigset_lines strsignal sep prefix sigset (xs @ ys) =
     (let (c1, o1) = sigset_lines strsignal sep prefix sigset xs; (c2, o2) = sigset_lines strsignal sep prefix sigset ys
      in (c1 + c2, o1 @ o2))"
  by (induction xs) (auto simp: Let_def split: prod.splits)

lemma printSigset_single:
  assumes "1 \<le> s" "s < NSIG"
  shows "printSigset strsignal sep prefix {s} = prefix @ sep @ dec_nat s @ '' ('' @ strsignal s @ '')'' @ [newline]"
proof -
  have "[1..<NSIG] = [1..<s] @ s # [Suc s..<NSIG]"
    using assms upt_conv_Cons [of s NSIG] upt_add_eq_append [of 1 s "NSIG - s"] by simp
  moreover have "sigset_lines strsignal sep prefix {s} [1..<s] = (0, [])" "sigset_lines strsignal sep prefix {s} [Suc s..<NSIG] = (0, [])"
    by (auto intro!: sigset_lines_outside)
  ultimately show ?thesis by (simp add: printSigset_def sigset_lines_append)
qed

text \<open>Signals sent to a thread are pending for this thread only.\<close>

lemma mt_main_separate:
  "False \<notin> set oks \<Longrightarrow> \<exists>out1 out2. mt_main strsignal oks id1 id2 {} = Done (out1, out2) \<and>
     out1 = ''Thread '' @ dec_int id1 @ '' wait signal'' @ [newline] @ take 19 (dec_int id1) @ '' '' @ dec_nat SIGUSR1 @
       '' ('' @ strsignal SIGUSR1 @ '')'' @ [newline] \<and>
     out2 = ''Thread '' @ dec_int id2 @ '' wait signal'' @ [newline] @ take 19 (dec_int id2) @ '' '' @ dec_nat SIGUSR2 @
       '' ('' @ strsignal SIGUSR2 @ '')'' @ [newline]"
  by (simp add: mt_main_def mt_thread_def printSigset_single)

end
