(* ===== verification/Timers.thy ===== *)
theory Timers
  imports C_Lib Getopt
begin

text \<open>
  Timers and waiting with a time limit: \<^verbatim>\<open>my_alarm.c\<close>, \<^verbatim>\<open>sigwaitinfo_alarm.c\<close> and \<^verbatim>\<open>timer_create_test.c\<close> (Section 23),
  \<^verbatim>\<open>pmsg_receivetimed.c\<close> and \<^verbatim>\<open>mq_notify_sig.c\<close> (Section 52), \<^verbatim>\<open>psem_timedwait.c\<close> (Section 53). The kernel keeps the time that
  is left of an interval timer, the messages of a queue with their priorities, and the one registration for a
  notification. The lemmas give the precision of \<^verbatim>\<open>my_alarm\<close>, the round trip of the timer syntax, and the message that is
  received within a time limit.
\<close>

subsection \<open>\<^verbatim>\<open>my_alarm.c\<close>\<close>

text \<open>The real timer of the process in microseconds; 0 is a timer that is not armed.\<close>

record itimer =
  it_value :: int
  it_interval :: int

definition getitimer :: "itimer \<Rightarrow> int \<times> int" where
  "getitimer t = (it_value t div 1000000, it_value t mod 1000000)"

definition my_alarm :: "32 word \<Rightarrow> itimer \<Rightarrow> 32 word \<times> itimer" where
  "my_alarm seconds t =
     (let (old_sec, old_usec) = getitimer t in
      (word_of_int old_sec, \<lparr>it_value = 1000000 * uint seconds, it_interval = 0\<rparr>))"

text \<open>Time passes: \<open>us\<close> microseconds later, while the timer has not expired.\<close>

definition elapse :: "int \<Rightarrow> itimer \<Rightarrow> itimer" where
  "elapse us t = t\<lparr>it_value := it_value t - us\<rparr>"

text \<open>The remaining time is cut to whole seconds: in the last second before the alarm the result is 0, which is also the
  result when no alarm was set.\<close>

lemma my_alarm_remaining:
  assumes "0 \<le> us" "us < 1000000 * uint n"
  shows "int (unat (fst (my_alarm k (elapse us (snd (my_alarm n t)))))) = (1000000 * uint n - us) div 1000000"
    and "1000000 * (uint n - 1) < us \<Longrightarrow> fst (my_alarm k (elapse us (snd (my_alarm n t)))) = 0"
    and "snd (my_alarm k t) = \<lparr>it_value = 1000000 * uint k, it_interval = 0\<rparr>"
proof -
  let ?q = "(1000000 * uint n - us) div 1000000"
  have "0 \<le> ?q" "?q \<le> uint n" using assms by linarith+
  then have q: "0 \<le> ?q" "?q < 2 ^ 32" using uint_lt2p [of n] by simp_all
  have f: "fst (my_alarm k (elapse us (snd (my_alarm n t)))) = word_of_int ?q"
    by (simp add: my_alarm_def getitimer_def elapse_def)
  show "int (unat (fst (my_alarm k (elapse us (snd (my_alarm n t)))))) = ?q"
    unfolding f using q by (simp add: unsigned_of_int take_bit_int_eq_self_iff uint_word_of_int_eq)
  show "fst (my_alarm k (elapse us (snd (my_alarm n t)))) = 0" if "1000000 * (uint n - 1) < us"
  proof -
    have "?q = 0" using that assms by (intro div_pos_pos_trivial) auto
    then show ?thesis unfolding f by simp
  qed
  show "snd (my_alarm k t) = \<lparr>it_value = 1000000 * uint k, it_interval = 0\<rparr>" by (simp add: my_alarm_def getitimer_def)
qed

subsection \<open>\<^verbatim>\<open>sigwaitinfo_alarm.c\<close>\<close>

text \<open>\<^verbatim>\<open>strchr\<close> and the terminator that is written over the separator: the part in front of it and, if there is one, behind.\<close>

definition cut_at :: "char \<Rightarrow> string \<Rightarrow> string \<times> string option" where
  "cut_at c s = (takeWhile (\<lambda>x. x \<noteq> c) s, if c \<in> set s then Some (tl (dropWhile (\<lambda>x. x \<noteq> c) s)) else None)"

record itimerspec =
  val_sec :: int
  val_nsec :: int
  int_sec :: int
  int_nsec :: int

text \<open>The result is the specification and what is left of the argument.\<close>

definition itimerspecFromStr :: "string \<Rightarrow> itimerspec \<times> string" where
  "itimerspecFromStr str =
     (let (str1, cptr) = cut_at (CHR '':'') str;
          (str2, sptr) = cut_at (CHR ''/'') str1;
          vnsec = (case sptr of Some p \<Rightarrow> atoi p | None \<Rightarrow> 0)
      in case cptr of
        None \<Rightarrow> (\<lparr>val_sec = atoi str2, val_nsec = vnsec, int_sec = 0, int_nsec = 0\<rparr>, str2)
      | Some i \<Rightarrow>
          let (i1, iptr) = cut_at (CHR ''/'') i in
          (\<lparr>val_sec = atoi str2, val_nsec = vnsec, int_sec = atoi i1,
             int_nsec = (case iptr of Some p \<Rightarrow> atoi p | None \<Rightarrow> 0)\<rparr>, str2))"

definition the_default :: "'a \<Rightarrow> 'a option \<Rightarrow> 'a" where
  "the_default d x = (case x of None \<Rightarrow> d | Some v \<Rightarrow> v)"

text \<open>The syntax of the usage message: \<^verbatim>\<open>secs[/nsecs][:int-secs[/int-nsecs]]\<close>.\<close>

definition time_text :: "int \<Rightarrow> int option \<Rightarrow> string" where
  "time_text s ns = dec_int s @ (case ns of None \<Rightarrow> [] | Some n \<Rightarrow> ''/'' @ dec_int n)"

definition spec_text :: "int \<Rightarrow> int option \<Rightarrow> (int \<times> int option) option \<Rightarrow> string" where
  "spec_text s ns i = time_text s ns @ (case i of None \<Rightarrow> [] | Some (is, ins) \<Rightarrow> '':'' @ time_text is ins)"

lemma dec_int_no_separator: "c \<in> {CHR '':'', CHR ''/''} \<Longrightarrow> c \<notin> set (dec_int v)"
proof -
  have 1: "digit_char d \<noteq> CHR '':''" "digit_char d \<noteq> CHR ''/''" if "d < 10" for d
    using digit_char_props(1) [OF that] by (auto simp: is_digit_def)
  assume c: "c \<in> {CHR '':'', CHR ''/''}"
  show ?thesis
  proof
    assume "c \<in> set (dec_int v)"
    then consider "c = CHR ''-''" | "c \<in> set (dec_nat (nat \<bar>v\<bar>))" by (auto simp: dec_int_def split: if_splits)
    then show False
    proof cases
      case 2
      from dec_nat_digits [OF this] 1 c show False by auto
    qed (use c in auto)
  qed
qed

lemma takeWhile_until: "c \<notin> set a \<Longrightarrow> takeWhile (\<lambda>x. x \<noteq> c) (a @ c # b) = a \<and> dropWhile (\<lambda>x. x \<noteq> c) (a @ c # b) = c # b"
  by (induction a) auto

lemma cut_first: "c \<notin> set a \<Longrightarrow> cut_at c (a @ c # b) = (a, Some b)"
  by (simp add: cut_at_def takeWhile_until)

lemma cut_none: "c \<notin> set a \<Longrightarrow> cut_at c a = (a, None)"
  by (auto simp: cut_at_def takeWhile_eq_all_conv)

lemma cut_time:
  "cut_at (CHR ''/'') (time_text s ns) = (dec_int s, map_option dec_int ns)"
  by (cases ns) (simp_all add: time_text_def cut_first cut_none dec_int_no_separator)

lemma time_text_colon: "CHR '':'' \<notin> set (time_text s ns)"
  by (auto simp: time_text_def dec_int_no_separator split: option.splits)

lemma cut_spec:
  "cut_at (CHR '':'') (spec_text s ns i) = (time_text s ns, map_option (\<lambda>(a, b). time_text a b) i)"
  by (cases i) (auto simp: spec_text_def cut_first cut_none time_text_colon)

text \<open>\<^verbatim>\<open>itimerspecFromStr\<close> reads back every timer written in the syntax of its usage message, with a missing part
  meaning 0, and leaves of the argument only the first number, which is what the program then prints.\<close>

theorem itimerspec_roundtrip:
  assumes "is_int32 s" "is_int32 (the_default 0 ns)" "is_int32 (fst (the_default (0, None) i))"
    and "is_int32 (the_default 0 (snd (the_default (0, None) i)))"
  shows "itimerspecFromStr (spec_text s ns i) =
    (\<lparr>val_sec = s, val_nsec = the_default 0 ns, int_sec = fst (the_default (0, None) i),
      int_nsec = the_default 0 (snd (the_default (0, None) i))\<rparr>, dec_int s)"
  using assms by (cases i; cases ns)
    (auto simp: itimerspecFromStr_def cut_spec cut_time atoi_dec_int the_default_def split: option.splits)

theorem itimerspec_roundtrip_witness:
  "itimerspecFromStr (spec_text 2 (Some 500) (Some (1, None))) =
    (\<lparr>val_sec = 2, val_nsec = 500, int_sec = 1, int_nsec = 0\<rparr>, dec_int 2)"
  using itimerspec_roundtrip [of 2 "Some 500" "Some (1, None)"] by (simp add: is_int32_def the_default_def)

text \<open>The program: \<open>ids\<close> are the timers that \<^verbatim>\<open>timer_create\<close> makes (\<open>None\<close>: it fails), a specification that is out of range makes
  \<^verbatim>\<open>timer_settime\<close> fail. The result is the table of timers and the output.\<close>

definition spec_valid :: "itimerspec \<Rightarrow> bool" where
  "spec_valid t \<longleftrightarrow> 0 \<le> val_sec t \<and> 0 \<le> val_nsec t \<and> val_nsec t < 1000000000 \<and>
     0 \<le> int_nsec t \<and> int_nsec t < 1000000000 \<and> 0 \<le> int_sec t"

fun create_timers :: "int option list \<Rightarrow> string list \<Rightarrow> ((int \<times> itimerspec) list \<times> string) run" where
  "create_timers ids [] = Done ([], [])"
| "create_timers [] (a # as) = Exited EXIT_FAILURE"
| "create_timers (tid # ids) (a # as) =
     (let (ts, a') = itimerspecFromStr a in
      case tid of
        None \<Rightarrow> Exited EXIT_FAILURE
      | Some t \<Rightarrow>
          if \<not> spec_valid ts then Exited EXIT_FAILURE
          else run_bind (create_timers ids as) (\<lambda>(tab, out).
            Done ((t, ts) # tab, ''Timer ID: '' @ dec_int t @ '' ('' @ a' @ '')'' @ [newline] @ out)))"

text \<open>The endless loop on the answers of \<^verbatim>\<open>sigwaitinfo\<close>: the position in \<^verbatim>\<open>tidlist\<close> that the signal carries, or an error.\<close>

fun wait_timers :: "(int \<times> itimerspec) list \<Rightarrow> nat option list \<Rightarrow> string" where
  "wait_timers tab [] = []"
| "wait_timers tab (None # r) = wait_timers tab r"
| "wait_timers tab (Some j # r) = ''Get Timer ID: '' @ dec_int (fst (tab ! j)) @ [newline] @ wait_timers tab r"

definition sigwaitinfo_main :: "int option list \<Rightarrow> string list \<Rightarrow> nat option list \<Rightarrow> string run" where
  "sigwaitinfo_main ids argv signals =
     (if length argv < 2 then Exited EXIT_FAILURE
      else run_bind (create_timers ids (tl argv)) (\<lambda>(tab, out). Done (out @ wait_timers tab signals)))"

text \<open>Every valid argument gets its timer, in order.\<close>

lemma create_timers_table:
  assumes "length ids = length as" "\<forall>a \<in> set as. spec_valid (fst (itimerspecFromStr a))"
  shows "\<exists>out. create_timers (map Some ids) as = Done (zip ids (map (\<lambda>a. fst (itimerspecFromStr a)) as), out)"
  using assms
proof (induction ids as rule: list_induct2)
  case (Cons t ids a as)
  then obtain out where "create_timers (map Some ids) as = Done (zip ids (map (\<lambda>a. fst (itimerspecFromStr a)) as), out)" by auto
  then show ?case using Cons.prems by (auto simp: Let_def split: prod.splits)
qed simp

lemma create_timers_invalid:
  assumes "a \<in> set as" "\<not> spec_valid (fst (itimerspecFromStr a))"
  shows "create_timers ids as = Exited EXIT_FAILURE"
  using assms by (induction ids as rule: create_timers.induct) (auto simp: Let_def split: prod.splits option.splits)

subsection \<open>\<^verbatim>\<open>timer_create_test.c\<close>\<close>

text \<open>With no \<^verbatim>\<open>sigevent\<close> the signal carries the number of the timer. \<open>expires\<close>: the signal arrives.\<close>

definition timer_test_main :: "int option \<Rightarrow> bool \<Rightarrow> bool \<Rightarrow> bool \<Rightarrow> string run" where
  "timer_test_main timer_id settime_ok expires delete_ok =
     (case timer_id of
        None \<Rightarrow> Exited EXIT_FAILURE
      | Some t \<Rightarrow>
          let line = ''From main:'' @ [CHR 0x09] @ dec_int t @ [newline];
              fired = ''From handler:'' @ [CHR 0x09] @ dec_int t @ [newline] in
          if settime_ok \<and> \<not> expires then Faulted Endless
          else if delete_ok then Done (line @ (if settime_ok then fired else [])) else Exited EXIT_FAILURE)"


subsection \<open>\<^verbatim>\<open>psem_timedwait.c\<close>\<close>

text \<open>The sum of two times of type \<^verbatim>\<open>long\<close>.\<close>

definition add_time :: "int \<Rightarrow> int \<Rightarrow> int" where
  "add_time t d = (t + d + 2 ^ 63) mod 2 ^ 64 - 2 ^ 63"

lemma add_time_small: "0 \<le> t \<Longrightarrow> 0 \<le> d \<Longrightarrow> t + d < 2 ^ 63 \<Longrightarrow> add_time t d = t + d"
  by (simp add: add_time_def)

text \<open>Waiting with an absolute limit on a semaphore: at once when its value is positive, else until a \<^verbatim>\<open>sem_post\<close> in time. The
  posts are given by their times, in order.\<close>

definition sem_timedwait :: "nat \<Rightarrow> int \<Rightarrow> int list \<Rightarrow> bool" where
  "sem_timedwait v deadline posts \<longleftrightarrow> 0 < v \<or> (\<exists>t \<in> set posts. t \<le> deadline)"

definition psem_timedwait_main ::
  "(nat \<times> int list) option \<Rightarrow> int option \<Rightarrow> int \<Rightarrow> string list \<Rightarrow> string \<times> int" where
  "psem_timedwait_main sem now pid argv =
     (if length argv < 2 \<or> argv ! 1 = ''--help'' then ([], EXIT_FAILURE)
      else
        let overtime = (if length argv = 3 then atol (argv ! 2) else 10) in
        case sem of
          None \<Rightarrow> ([], EXIT_FAILURE)
        | Some (v, posts) \<Rightarrow>
            (case now of
               None \<Rightarrow> ([], EXIT_SUCCESS)
             | Some t \<Rightarrow>
                 if sem_timedwait v (add_time t overtime) posts
                 then (dec_int pid @ '' sem_wait() succeeded'' @ [newline], EXIT_FAILURE)
                 else ([], EXIT_FAILURE)))"

text \<open>The status does not tell whether the semaphore was taken: it is a failure in both cases, and a success only when the
  clock could not be read.\<close>

lemma psem_status:
  "snd (psem_timedwait_main sem now pid argv) = EXIT_SUCCESS \<longleftrightarrow>
     2 \<le> length argv \<and> argv ! 1 \<noteq> ''--help'' \<and> sem \<noteq> None \<and> now = None"
  by (auto simp: psem_timedwait_main_def Let_def split: option.splits)

lemma psem_takes:
  "0 \<le> t \<Longrightarrow> t + 10 < 2 ^ 63 \<Longrightarrow> fst (psem_timedwait_main (Some (v, posts)) (Some t) pid [p, s]) \<noteq> [] \<longleftrightarrow>
     s \<noteq> ''--help'' \<and> (0 < v \<or> (\<exists>x \<in> set posts. x \<le> t + 10))"
  by (auto simp: psem_timedwait_main_def sem_timedwait_def add_time_small)

subsection \<open>\<^verbatim>\<open>pmsg_receivetimed.c\<close>\<close>

text \<open>A message with its priority. \<^verbatim>\<open>mq_timedreceive\<close> takes the oldest message of the highest priority; on an empty queue it
  waits for the first message, which arrives with its time. A limit before 1970 is refused.\<close>

type_synonym pmsg = "nat \<times> string"

definition top_prio :: "pmsg list \<Rightarrow> nat" where
  "top_prio q = foldr (\<lambda>m. max (fst m)) q 0"

fun take_prio :: "nat \<Rightarrow> pmsg list \<Rightarrow> (pmsg \<times> pmsg list) option" where
  "take_prio p [] = None"
| "take_prio p (m # q) =
     (if fst m = p then Some (m, q)
      else case take_prio p q of None \<Rightarrow> None | Some (x, q') \<Rightarrow> Some (x, m # q'))"

definition mq_timedreceive :: "int \<Rightarrow> pmsg list \<Rightarrow> (int \<times> pmsg) option \<Rightarrow> (pmsg \<times> pmsg list) option" where
  "mq_timedreceive deadline q arrival =
     (if deadline < 0 then None
      else if q \<noteq> [] then take_prio (top_prio q) q
      else case arrival of
        None \<Rightarrow> None
      | Some (t, m) \<Rightarrow> if t \<le> deadline then Some (m, []) else None)"

fun receive_options :: "gopt list \<Rightarrow> int \<Rightarrow> int option" where
  "receive_options [] overtime = Some overtime"
| "receive_options (Valued c v # os) overtime = receive_options os (atol v)"
| "receive_options (_ # os) overtime = None"

text \<open>The program on the queue \<open>q\<close>; \<open>tty\<close> tells whether the standard output is a terminal: only then the line of \<^verbatim>\<open>printf\<close>
  comes before the bytes of \<^verbatim>\<open>write\<close>. The result is the output and the queue.\<close>

definition pmsg_main ::
  "bool \<Rightarrow> pmsg list option \<Rightarrow> int option \<Rightarrow> (int \<times> pmsg) option \<Rightarrow> string list \<Rightarrow> (string \<times> pmsg list) run" where
  "pmsg_main tty queue now arrival argv =
     (let (os, operands) = getopt_all [] ''t'' (tl argv) in
      case receive_options os 10 of
        None \<Rightarrow> Exited EXIT_FAILURE
      | Some overtime \<Rightarrow>
          if operands = [] then Exited EXIT_FAILURE
          else case queue of
            None \<Rightarrow> Exited EXIT_FAILURE
          | Some q \<Rightarrow>
              case now of
                None \<Rightarrow> Exited EXIT_FAILURE
              | Some t \<Rightarrow>
                  case mq_timedreceive (add_time t overtime) q arrival of
                    None \<Rightarrow> Exited EXIT_FAILURE
                  | Some ((prio, msg), q') \<Rightarrow>
                      let line = ''Read '' @ dec_int (int (length msg)) @ '' bytes; priority = '' @ dec_int (int prio) @ [newline] in
                      Done (if tty then line @ msg @ [newline] else msg @ [newline] @ line, q'))"

lemma take_prio_split:
  "take_prio p q = Some (x, q') \<Longrightarrow> \<exists>a b. q = a @ x # b \<and> q' = a @ b \<and> fst x = p \<and> (\<forall>m \<in> set a. fst m \<noteq> p)"
proof (induction q arbitrary: q')
  case (Cons m q)
  show ?case
  proof (cases "fst m = p")
    case True
    with Cons.prems show ?thesis by (auto intro: exI [of _ "[]"])
  next
    case False
    with Cons.prems obtain r where r: "take_prio p q = Some (x, r)" "q' = m # r" by (auto split: option.splits)
    with Cons.IH obtain a b where "q = a @ x # b" "r = a @ b" "fst x = p" "\<forall>m \<in> set a. fst m \<noteq> p" by blast
    with False r have "m # q = (m # a) @ x # b \<and> q' = (m # a) @ b \<and> fst x = p \<and> (\<forall>k \<in> set (m # a). fst k \<noteq> p)" by simp
    then show ?thesis by blast
  qed
qed simp

lemma take_prio_exists: "m \<in> set q \<Longrightarrow> fst m = p \<Longrightarrow> take_prio p q \<noteq> None"
  by (induction q) (auto split: option.splits)

lemma top_prio_max: "m \<in> set q \<Longrightarrow> fst m \<le> top_prio q"
  by (induction q) (auto simp: top_prio_def)

lemma top_prio_in: "q \<noteq> [] \<Longrightarrow> \<exists>m \<in> set q. fst m = top_prio q"
proof (induction q)
  case (Cons m q)
  then show ?case by (cases "q = []") (auto simp: top_prio_def max_def)
qed simp

text \<open>On a queue that is not empty the program prints the oldest message of the highest priority and removes nothing else.\<close>

lemma pmsg_main_highest:
  assumes "q \<noteq> []" "n \<noteq> [] \<Longrightarrow> hd n \<noteq> CHR ''-''" "0 \<le> t" "t + 10 < 2 ^ 63"
  obtains a b prio msg where "q = a @ (prio, msg) # b" "\<forall>m \<in> set q. fst m \<le> prio" "\<forall>m \<in> set a. fst m < prio"
    "pmsg_main True (Some q) (Some t) arrival [p, n] =
       Done (''Read '' @ dec_int (int (length msg)) @ '' bytes; priority = '' @ dec_int (int prio) @ [newline] @ msg @ [newline], a @ b)"
proof -
  obtain x q' where x: "take_prio (top_prio q) q = Some (x, q')"
    using top_prio_in [OF assms(1)] take_prio_exists by (metis not_None_eq surj_pair)
  from take_prio_split [OF x] obtain a b where ab: "q = a @ x # b" "q' = a @ b" "fst x = top_prio q" "\<forall>m \<in> set a. fst m \<noteq> top_prio q"
    by blast
  obtain prio msg where pm: "x = (prio, msg)" by fastforce
  have g: "getopt_all [] ''t'' [n] = ([], [n])" using assms(2) by (intro getopt_all_no_options) auto
  have "\<forall>m \<in> set q. fst m \<le> prio" using top_prio_max ab(3) pm by auto
  moreover have "\<forall>m \<in> set a. fst m < prio"
    using ab pm top_prio_max [of _ q] by (metis Un_iff fst_conv le_neq_implies_less set_append)
  ultimately show thesis
    using that [of a prio msg b] ab(1,2) pm x g assms by (simp add: pmsg_main_def mq_timedreceive_def add_time_small)
qed

subsection \<open>\<^verbatim>\<open>mq_notify_sig.c\<close>\<close>

text \<open>The queue with its registration for a notification, which the kernel removes when it sends the signal: when a message
  arrives in an empty queue.\<close>

record notify =
  nq_msgs :: "string list"
  nq_registered :: bool
  nq_signal :: bool

datatype nq_event = Arrive string | Resume

definition nq_arrive :: "string \<Rightarrow> notify \<Rightarrow> notify" where
  "nq_arrive msg s =
     (if nq_msgs s = [] \<and> nq_registered s
      then s\<lparr>nq_msgs := [msg], nq_registered := False, nq_signal := True\<rparr>
      else s\<lparr>nq_msgs := nq_msgs s @ [msg]\<rparr>)"

text \<open>One round of the loop: \<^verbatim>\<open>sigwaitinfo\<close> returns only when the signal is pending; then the queue is emptied. \<open>v\<close> is the value that
  comes with the signal, which the program has not set.\<close>

definition nq_round :: "int \<Rightarrow> notify \<Rightarrow> string \<times> notify" where
  "nq_round v s =
     (if nq_signal s then
        (''Hello'' @ [newline] @ ''10 '' @ dec_int v @ [newline] @
           concat (map (\<lambda>m. ''Read '' @ dec_int (int (length m)) @ '' bytes'' @ [newline]) (nq_msgs s)),
         s\<lparr>nq_msgs := [], nq_signal := False\<rparr>)
      else ([], s))"

fun nq_run :: "int \<Rightarrow> notify \<Rightarrow> nq_event list \<Rightarrow> string \<times> notify" where
  "nq_run v s [] = ([], s)"
| "nq_run v s (Arrive m # es) = nq_run v (nq_arrive m s) es"
| "nq_run v s (Resume # es) =
     (let (out, s1) = nq_round v s; (out', s2) = nq_run v s1 es in (out @ out', s2))"

definition mq_notify_main :: "string list option \<Rightarrow> bool \<Rightarrow> int \<Rightarrow> string list \<Rightarrow> nq_event list \<Rightarrow> (string \<times> notify) run" where
  "mq_notify_main queue notify_ok v argv events =
     (if length argv \<noteq> 2 \<or> argv ! 1 = ''--help'' then Exited EXIT_FAILURE
      else case queue of
        None \<Rightarrow> Exited EXIT_FAILURE
      | Some q \<Rightarrow>
          if \<not> notify_ok then Exited EXIT_FAILURE
          else Done (nq_run v \<lparr>nq_msgs = q, nq_registered = True, nq_signal = False\<rparr> events))"

definition arrived :: "nq_event list \<Rightarrow> string list" where
  "arrived es = concat (map (\<lambda>e. case e of Arrive m \<Rightarrow> [m] | Resume \<Rightarrow> []) es)"

lemma nq_run_silent:
  assumes "\<not> nq_signal s" "nq_registered s \<Longrightarrow> nq_msgs s \<noteq> []"
  shows "nq_run v s es = ([], s\<lparr>nq_msgs := nq_msgs s @ arrived es\<rparr>)"
  using assms
proof (induction v s es rule: nq_run.induct)
  case (2 v s m es)
  have "nq_arrive m s = s\<lparr>nq_msgs := nq_msgs s @ [m]\<rparr>" using "2.prems" by (auto simp: nq_arrive_def)
  then show ?case using 2 by (simp add: arrived_def)
next
  case (3 v s es)
  then show ?case by (simp add: nq_round_def arrived_def)
qed (simp add: arrived_def)

lemma nq_run_arrivals:
  "nq_registered s \<and> nq_msgs s = [] \<and> \<not> nq_signal s \<Longrightarrow> ms \<noteq> [] \<Longrightarrow>
   nq_run v s (map Arrive ms @ es) = nq_run v (s\<lparr>nq_registered := False, nq_signal := True, nq_msgs := ms\<rparr>) es"
proof -
  have later: "\<not> nq_registered s \<Longrightarrow> nq_run v s (map Arrive ms @ es) = nq_run v (s\<lparr>nq_msgs := nq_msgs s @ ms\<rparr>) es" for s ms
    by (induction ms arbitrary: s) (simp_all add: nq_arrive_def)
  assume "nq_registered s \<and> nq_msgs s = [] \<and> \<not> nq_signal s" "ms \<noteq> []"
  then show ?thesis by (cases ms) (simp_all add: nq_arrive_def later)
qed

text \<open>\<^verbatim>\<open>mq_notify_sig\<close> registers once for a notification. On an empty queue it reads the messages that are there when it is
  first woken, and no others: all that arrive later stay in the queue. When the queue is not empty at the start, it
  never reads a message.\<close>

theorem notify_once:
  assumes "n \<noteq> ''--help''" "q \<noteq> []" "ms \<noteq> []"
  shows "mq_notify_main (Some q) True v [p, n] es = Done ([], \<lparr>nq_msgs = q @ arrived es, nq_registered = True, nq_signal = False\<rparr>) \<and>
    mq_notify_main (Some []) True v [p, n] (map Arrive ms @ Resume # es) =
      Done (''Hello'' @ [newline] @ ''10 '' @ dec_int v @ [newline] @
          concat (map (\<lambda>m. ''Read '' @ dec_int (int (length m)) @ '' bytes'' @ [newline]) ms),
        \<lparr>nq_msgs = arrived es, nq_registered = False, nq_signal = False\<rparr>)"
proof -
  have "nq_run v \<lparr>nq_msgs = [], nq_registered = False, nq_signal = False\<rparr> es =
      ([], \<lparr>nq_msgs = arrived es, nq_registered = False, nq_signal = False\<rparr>)"
    by (subst nq_run_silent) simp_all
  moreover have "nq_run v \<lparr>nq_msgs = q, nq_registered = True, nq_signal = False\<rparr> es =
      ([], \<lparr>nq_msgs = q @ arrived es, nq_registered = True, nq_signal = False\<rparr>)"
    using assms(2) by (subst nq_run_silent) simp_all
  ultimately show ?thesis using assms by (simp add: mq_notify_main_def nq_run_arrivals nq_round_def)
qed

theorem notify_once_witness:
  "mq_notify_main (Some []) True 0 [''p'', ''/q''] (map Arrive [''a''] @ Resume # [Arrive ''bc'', Resume]) =
      Done (''Hello'' @ [newline] @ ''10 '' @ dec_int 0 @ [newline] @
          concat (map (\<lambda>m. ''Read '' @ dec_int (int (length m)) @ '' bytes'' @ [newline]) [''a'']),
        \<lparr>nq_msgs = [''bc''], nq_registered = False, nq_signal = False\<rparr>)"
  using notify_once [of "''/q''" "[''x'']" "[''a'']" 0 "''p''" "[Arrive ''bc'', Resume]"] by (simp add: arrived_def)

end
