(* ===== verification/Commands.thy ===== *)
theory Commands
  imports C_Lib Getopt
begin

text \<open>
  Commands that set an attribute of a process or a file and pass on to a program: \<^verbatim>\<open>my_nice.c\<close>, \<^verbatim>\<open>rt_sched.c\<close> and
  \<^verbatim>\<open>fifo.c\<close> (Section 35), \<^verbatim>\<open>rusage.c\<close> and \<^verbatim>\<open>get_child_usage.c\<close> (Section 36), \<^verbatim>\<open>cap_sched_set.c\<close> (Section 39), \<^verbatim>\<open>my_setfattr.c\<close>
  (Section 16) and \<^verbatim>\<open>syslog.c\<close> (Section 37). The kernel's rules on priorities, scheduling and attributes are functions of
  the state they change; what the user is allowed to do is an argument. The lemmas say which program is run with which
  arguments and attributes, and on which inputs nothing is changed.
\<close>

subsection \<open>\<^verbatim>\<open>my_nice.c\<close>\<close>

text \<open>How a command ends when it does not fail: it has printed, or a program runs in its place.\<close>

datatype started = Printed string | Running string "string list"

text \<open>The nice value is brought into its range; a lower one needs the privilege.\<close>

definition setpriority :: "bool \<Rightarrow> int \<Rightarrow> int \<Rightarrow> int option" where
  "setpriority priv cur v =
     (let new = max (- 20) (min 19 v) in if new < cur \<and> \<not> priv then None else Some new)"

definition my_nice_main :: "bool \<Rightarrow> int \<Rightarrow> (string \<Rightarrow> bool) \<Rightarrow> string list \<Rightarrow> (started \<times> int) run" where
  "my_nice_main priv cur can_exec argv =
     (if length argv = 1 then Done (Printed (dec_int cur @ [newline]), cur)
      else if length argv > 2 then
        (case setpriority priv cur (atoi (argv ! 1)) of
           None \<Rightarrow> Exited EXIT_FAILURE
         | Some new \<Rightarrow>
             if can_exec (argv ! 2) then Done (Running (argv ! 2) (drop 2 argv), new) else Exited EXIT_FAILURE)
      else Exited EXIT_FAILURE)"

lemma my_nice_runs:
  "my_nice_main priv cur can_exec (p # n # c # args) =
     (if \<not> priv \<and> max (- 20) (min 19 (atoi n)) < cur \<or> \<not> can_exec c then Exited EXIT_FAILURE
      else Done (Running c (c # args), max (- 20) (min 19 (atoi n))))"
  by (auto simp: my_nice_main_def setpriority_def Let_def)

subsection \<open>\<^verbatim>\<open>rt_sched.c\<close>\<close>

datatype policy = SCHED_OTHER | SCHED_FIFO | SCHED_RR | SCHED_BATCH | SCHED_IDLE

text \<open>Realtime policies have priorities from 1 to 99 and need a privilege, the others only priority 0.\<close>

definition sched_ok :: "bool \<Rightarrow> policy \<Rightarrow> int \<Rightarrow> bool" where
  "sched_ok priv pol prio \<longleftrightarrow> (if pol = SCHED_FIFO \<or> pol = SCHED_RR then priv \<and> 1 \<le> prio \<and> prio \<le> 99 else prio = 0)"

definition rt_policy :: "char \<Rightarrow> policy" where
  "rt_policy c = (if c = CHR ''r'' then SCHED_RR else if c = CHR ''f'' then SCHED_FIFO else SCHED_OTHER)"

definition rt_sched_main :: "bool \<Rightarrow> bool \<Rightarrow> (string \<Rightarrow> bool) \<Rightarrow> string list \<Rightarrow> (started \<times> policy \<times> int) run" where
  "rt_sched_main priv setuid_ok can_exec argv =
     (if length argv < 4 then Exited EXIT_FAILURE
      else
        let pol = rt_policy (cat (argv ! 1) 0); prio = atoi (argv ! 2) in
        if \<not> sched_ok priv pol prio then Exited EXIT_FAILURE
        else if \<not> setuid_ok then Exited EXIT_FAILURE
        else if can_exec (argv ! 3) then Done (Running (argv ! 3) (drop 4 argv), pol, prio)
        else Exited EXIT_FAILURE)"

text \<open>The program that is started does not get its own name: its first argument stands in that place.\<close>

lemma rt_sched_runs:
  assumes "can_exec c" "setuid_ok" "sched_ok priv (rt_policy (cat pol 0)) (atoi prio)"
  shows "rt_sched_main priv setuid_ok can_exec (p # pol # prio # c # args) =
    Done (Running c args, rt_policy (cat pol 0), atoi prio)"
  using assms by (simp add: rt_sched_main_def Let_def)

subsection \<open>\<^verbatim>\<open>fifo.c\<close>\<close>

text \<open>A time of \<^verbatim>\<open>gettimeofday\<close>; the quotient of the microseconds is one of integers, in C rounded towards 0.\<close>

type_synonym timeval = "int \<times> int"

definition c_div :: "int \<Rightarrow> int \<Rightarrow> int" where
  "c_div a b = sgn a * sgn b * (\<bar>a\<bar> div \<bar>b\<bar>)"

definition spend_time :: "timeval \<Rightarrow> timeval \<Rightarrow> int" where
  "spend_time start now = fst now - fst start + c_div (snd now - snd start) 1000000"

text \<open>\<^verbatim>\<open>delay\<close> on the times it reads, with the limit in quarters of a second: the times that are left when it returns. \<open>None\<close>:
  it is still waiting.\<close>

fun delay :: "int \<Rightarrow> timeval \<Rightarrow> timeval list \<Rightarrow> timeval list option" where
  "delay quarters start [] = None"
| "delay quarters start (now # ts) = (if quarters \<le> 4 * spend_time start now then Some ts else delay quarters start ts)"

lemma spend_time_seconds:
  assumes "0 \<le> u" "u < 1000000" "0 \<le> u'" "u' < 1000000"
  shows "spend_time (s, u) (s', u') = s' - s"
proof -
  have "\<bar>u' - u\<bar> div 1000000 = 0" using assms by (intro div_pos_pos_trivial) auto
  then show ?thesis by (simp add: spend_time_def c_div_def)
qed

text \<open>\<^verbatim>\<open>delay\<close> returns when the number of seconds of the clock has changed: after anything between a microsecond and a second
  instead of a quarter of a second.\<close>

lemma delay_quarter:
  assumes "0 \<le> u" "u < 1000000" "\<forall>(s', u') \<in> set ts. 0 \<le> u' \<and> u' < 1000000"
  shows "delay 1 (s, u) ts =
    (case dropWhile (\<lambda>(s', u'). s' \<le> s) ts of [] \<Rightarrow> None | now # rest \<Rightarrow> Some rest)"
  using assms(3) by (induction ts) (use assms(1,2) in \<open>auto simp: spend_time_seconds\<close>)

lemma delay_one_microsecond: "delay 1 (s, 999999) [(s + 1, 0)] = Some []"
  by (simp add: spend_time_seconds)

text \<open>The lines \<^verbatim>\<open>fifo_func\<close> prints in both processes, as the number of the process and of the line: at equal priority and on one
  processor, the first of the queue runs until it yields, which puts it at the end, or exits.\<close>

function fifo_sched :: "(int \<times> nat) list \<Rightarrow> (int \<times> nat) list" where
  "fifo_sched [] = []"
| "fifo_sched ((p, i) # q) =
     (if 12 \<le> i then fifo_sched q
      else (p, i + 1) # (if i mod 4 = 3 then fifo_sched (q @ [(p, i + 1)]) else fifo_sched ((p, i + 1) # q)))"
  by pat_completeness auto
termination
  by (relation "measure (\<lambda>q. length q + sum_list (map (\<lambda>(p, i). 13 - i) q))") auto

definition turn :: "int \<Rightarrow> nat \<Rightarrow> (int \<times> nat) list" where
  "turn p k = map (\<lambda>j. (p, 4 * k + j)) [1, 2, 3, 4]"

text \<open>Parent and child take turns of four lines.\<close>

lemma fifo_turns:
  "fifo_sched [(a, 0), (b, 0)] = turn a 0 @ turn b 0 @ turn a 1 @ turn b 1 @ turn a 2 @ turn b 2"
  by (simp add: turn_def)

definition fifo_main :: "bool \<Rightarrow> bool \<Rightarrow> bool \<Rightarrow> bool \<Rightarrow> int \<Rightarrow> int \<Rightarrow> (int \<times> nat) list run" where
  "fifo_main affinity_ok sched_set_ok rlimit_ok fork_ok parent child =
     (if affinity_ok \<and> sched_set_ok \<and> rlimit_ok \<and> fork_ok then Done (fifo_sched [(parent, 0), (child, 0)])
      else Exited EXIT_FAILURE)"

subsection \<open>\<^verbatim>\<open>rusage.c\<close> and \<^verbatim>\<open>get_child_usage.c\<close>\<close>

text \<open>\<^verbatim>\<open>print_rusage\<close>: the microseconds are divided as integers before they are added, so that only whole seconds appear. \<open>None\<close>: the
  result \<^verbatim>\<open>-1\<close>.\<close>

definition lf_text :: "int \<Rightarrow> string" where
  "lf_text n = dec_int n @ ''.000000''"

definition print_rusage :: "string \<Rightarrow> (timeval \<times> timeval) option \<Rightarrow> string option" where
  "print_rusage msg usage =
     (case usage of
        None \<Rightarrow> None
      | Some ((us, uu), (ss, su)) \<Rightarrow>
          Some (msg @ '' usage:'' @ [newline] @ ''User CPU time: '' @ lf_text (us + c_div uu 1000000) @ [newline] @
            ''System CPU time: '' @ lf_text (ss + c_div su 1000000) @ [newline]))"

lemma print_rusage_whole_seconds:
  assumes "0 \<le> u" "u < 1000000" "0 \<le> v" "v < 1000000"
  shows "print_rusage msg (Some ((s, u), (t, v))) = print_rusage msg (Some ((s, 0), (t, 0)))"
proof -
  have "c_div u 1000000 = 0" "c_div v 1000000 = 0" "c_div 0 1000000 = 0"
    using assms by (simp_all add: c_div_def div_pos_pos_trivial)
  then show ?thesis by (simp add: print_rusage_def)
qed

text \<open>How a child ends, and the status word that \<^verbatim>\<open>wait\<close> stores; \<^verbatim>\<open>exit\<close> keeps the low byte of its argument.\<close>

datatype child_end = Exit_With nat | Killed_By nat

fun wait_status :: "child_end \<Rightarrow> nat" where
  "wait_status (Exit_With n) = (n mod 256) * 256"
| "wait_status (Killed_By sig) = sig"

definition rusage_main ::
  "bool \<Rightarrow> (string \<Rightarrow> string list \<Rightarrow> child_end) \<Rightarrow> (timeval \<times> timeval) option \<Rightarrow> string list \<Rightarrow> string \<times> nat" where
  "rusage_main fork_ok command usage argv =
     (if length argv < 2 \<or> \<not> fork_ok then ([], 1)
      else
        let child_retval = wait_status (command (argv ! 1) (tl argv)) in
        (case print_rusage (argv ! 1) usage of None \<Rightarrow> [] | Some out \<Rightarrow> out, child_retval mod 256))"

text \<open>The status of a command that exits is lost: the program ends with 0 whatever the command returned.\<close>

lemma rusage_status:
  "rusage_main True command usage (p # c # args) =
     (case print_rusage c usage of None \<Rightarrow> [] | Some out \<Rightarrow> out,
      case command c (c # args) of Exit_With n \<Rightarrow> 0 | Killed_By sig \<Rightarrow> sig mod 256)"
  by (cases "command c (c # args)") (simp_all add: rusage_main_def)

text \<open>The \<^verbatim>\<open>delay\<close> of \<^verbatim>\<open>get_child_usage\<close> waits for four seconds of the clock: more than three have then passed, but not always four.\<close>

definition usage_delay :: "timeval list \<Rightarrow> timeval list option" where
  "usage_delay ts = (case ts of [] \<Rightarrow> None | start # r \<Rightarrow> delay 16 start r)"

lemma usage_delay_short: "usage_delay [(0, 999999), (4, 0)] = Some []"
  by (simp add: usage_delay_def spend_time_seconds)

lemma usage_delay_lasts:
  assumes "usage_delay ((s, u) # ts) = Some rest" "0 \<le> u" "u < 1000000" "\<forall>(s', u') \<in> set ts. 0 \<le> u' \<and> u' < 1000000"
  shows "\<exists>s' u'. (s', u') \<in> set ts \<and> 3000000 < (s' - s) * 1000000 + (u' - u)"
  using assms(1,4) unfolding usage_delay_def
proof (induction ts)
  case (Cons t ts)
  obtain s' u' where t: "t = (s', u')" by (cases t)
  have u': "0 \<le> u'" "u' < 1000000" using Cons.prems(2) t by auto
  have st: "spend_time (s, u) t = s' - s" using spend_time_seconds assms(2,3) u' t by simp
  show ?case
  proof (cases "4 \<le> s' - s")
    case True
    then have "4 * 1000000 \<le> (s' - s) * 1000000" by (intro mult_right_mono) simp_all
    then have "3000000 < (s' - s) * 1000000 + (u' - u)" using assms(3) u' by linarith
    then show ?thesis using t by auto
  next
    case False
    then have "delay 16 (s, u) ts = Some rest" using Cons.prems(1) st by simp
    then show ?thesis using Cons by fastforce
  qed
qed simp

text \<open>\<^verbatim>\<open>get_child_usage\<close>: the times of the child count only after it has been waited for. The child is busy for \<open>busy\<close>.\<close>

definition get_child_usage_main :: "bool \<Rightarrow> timeval \<times> timeval \<Rightarrow> string run" where
  "get_child_usage_main fork_ok busy =
     (if \<not> fork_ok then Exited EXIT_FAILURE
      else Done (the (print_rusage ''before wait'' (Some ((0, 0), (0, 0)))) @ the (print_rusage ''after wait'' (Some busy))))"

subsection \<open>\<^verbatim>\<open>cap_sched_set.c\<close>\<close>

text \<open>\<^verbatim>\<open>raise_cap_sys_nice\<close> on the answers of the capability library.\<close>

definition raise_cap_sys_nice :: "bool \<Rightarrow> bool \<Rightarrow> bool \<Rightarrow> bool \<Rightarrow> int" where
  "raise_cap_sys_nice get_ok flag_ok set_ok free_ok =
     (if \<not> get_ok then - 1 else if \<not> flag_ok then - 1 else if \<not> set_ok then - 1 else if \<not> free_ok then - 1 else 0)"

definition cap_policy :: "char \<Rightarrow> policy" where
  "cap_policy c =
     (if c = CHR ''r'' then SCHED_RR else if c = CHR ''f'' then SCHED_FIFO
      else if c = CHR ''b'' then SCHED_BATCH else if c = CHR ''i'' then SCHED_IDLE else SCHED_OTHER)"

text \<open>The loop over the processes; \<open>exists\<close> tells which there are. The result is the list of those that were changed and the status.\<close>

fun set_all :: "(int \<Rightarrow> bool) \<Rightarrow> bool \<Rightarrow> policy \<Rightarrow> int \<Rightarrow> int list \<Rightarrow> int list \<times> int" where
  "set_all procs priv pol prio [] = ([], EXIT_SUCCESS)"
| "set_all procs priv pol prio (pid # pids) =
     (if procs pid \<and> sched_ok priv pol prio
      then let (done_pids, st) = set_all procs priv pol prio pids in (pid # done_pids, st)
      else ([], EXIT_FAILURE))"

definition cap_sched_main :: "(int \<Rightarrow> bool) \<Rightarrow> int \<Rightarrow> string list \<Rightarrow> (int list \<times> policy \<times> int) \<times> int" where
  "cap_sched_main procs raised argv =
     (if length argv < 3 \<or> cat (argv ! 1) 0 \<notin> set ''rfo'' \<union> {NUL} then (([], SCHED_OTHER, 0), EXIT_FAILURE)
      else
        let pol = cap_policy (cat (argv ! 1) 0); prio = atoi (argv ! 2) in
        if raised = - 1 then (([], pol, prio), EXIT_FAILURE)
        else let (pids, st) = set_all procs True pol prio (map atoi (drop 3 argv)) in ((pids, pol, prio), st))"

text \<open>The policies \<^verbatim>\<open>b\<close> and \<^verbatim>\<open>i\<close> of the usage message are refused.\<close>

lemma cap_sched_batch_idle:
  "cap_sched_main procs raised (p # (CHR ''b'' # x) # r) = (([], SCHED_OTHER, 0), EXIT_FAILURE)"
  "cap_sched_main procs raised (p # (CHR ''i'' # x) # r) = (([], SCHED_OTHER, 0), EXIT_FAILURE)"
  by (simp_all add: cap_sched_main_def cat_def)

lemma set_all_success:
  "snd (set_all procs priv pol prio pids) = EXIT_SUCCESS \<longleftrightarrow> fst (set_all procs priv pol prio pids) = pids"
  by (induction pids) (auto split: prod.splits)

lemma set_all_prefix: "\<exists>rest. pids = fst (set_all procs priv pol prio pids) @ rest"
  by (induction pids) (auto split: prod.splits)

subsection \<open>\<^verbatim>\<open>my_setfattr.c\<close>\<close>

text \<open>The options that have been read: whether \<^verbatim>\<open>-x\<close> came last, the name and the value.\<close>

record setf =
  n_or_x :: bool
  ea_name :: "string option"
  ea_value :: "string option"

text \<open>The loop over the options; \<open>None\<close>: one is unknown or lacks its argument.\<close>

fun setf_options :: "gopt list \<Rightarrow> setf \<Rightarrow> setf option" where
  "setf_options [] f = Some f"
| "setf_options (Valued c v # os) f =
     (if c = CHR ''n'' then setf_options os (f\<lparr>n_or_x := False, ea_name := Some v\<rparr>)
      else if c = CHR ''x'' then setf_options os (f\<lparr>n_or_x := True, ea_name := Some v\<rparr>)
      else if c = CHR ''v'' then setf_options os (f\<lparr>ea_value := Some v\<rparr>)
      else None)"
| "setf_options (_ # os) f = None"

text \<open>The attributes of the files. \<open>may\<close> tells which names the kernel lets the user set; an attribute that is not there cannot be
  removed.\<close>

type_synonym xattrs = "string \<Rightarrow> (string \<rightharpoonup> string) option"

definition setf_apply :: "(string \<Rightarrow> bool) \<Rightarrow> setf \<Rightarrow> string option \<Rightarrow> xattrs \<Rightarrow> xattrs run" where
  "setf_apply may f file_path fs =
     (case file_path of
        None \<Rightarrow> Exited EXIT_FAILURE
      | Some path \<Rightarrow>
          case fs path of
            None \<Rightarrow> Exited EXIT_FAILURE
          | Some attrs \<Rightarrow>
              if \<not> n_or_x f then
                (case ea_value f of
                   None \<Rightarrow> Faulted NullDeref
                 | Some v \<Rightarrow>
                     (case ea_name f of
                        None \<Rightarrow> Exited EXIT_FAILURE
                      | Some n \<Rightarrow>
                          if may n then Done (fs(path := Some (attrs(n \<mapsto> v @ [NUL])))) else Exited EXIT_FAILURE))
              else
                (case ea_name f of
                   None \<Rightarrow> Exited EXIT_FAILURE
                 | Some n \<Rightarrow>
                     if may n \<and> attrs n \<noteq> None then Done (fs(path := Some (attrs(n := None)))) else Exited EXIT_FAILURE))"

definition setfattr_main :: "(string \<Rightarrow> bool) \<Rightarrow> string list \<Rightarrow> xattrs \<Rightarrow> xattrs run" where
  "setfattr_main may argv fs =
     (if length argv < 4 \<or> length argv > 6 then Exited EXIT_FAILURE
      else
        let (os, operands) = getopt_all [] ''nxv'' (tl argv) in
        case setf_options os \<lparr>n_or_x = False, ea_name = None, ea_value = None\<rparr> of
          None \<Rightarrow> Exited EXIT_FAILURE
        | Some f \<Rightarrow> setf_apply may f (case operands of [] \<Rightarrow> None | o1 # _ \<Rightarrow> Some o1) fs)"

lemma getopt_setf:
  assumes "file_path = [] \<or> hd file_path \<noteq> CHR ''-''"
  shows "getopt_all [] ''nxv'' [''-n'', n, ''-v'', v, file_path] = ([Valued (CHR ''n'') n, Valued (CHR ''v'') v], [file_path])"
    and "getopt_all [] ''nxv'' [''-x'', n, file_path] = ([Valued (CHR ''x'') n], [file_path])"
    and "getopt_all [] ''nxv'' [''-n'', n, file_path] = ([Valued (CHR ''n'') n], [file_path])"
  using assms by (auto simp: Let_def)

text \<open>setting an attribute with \<^verbatim>\<open>my_setfattr -n name -v value file\<close> stores the value with its terminator and changes no other
  attribute or file; removing it with \<^verbatim>\<open>-x\<close> restores the attributes the file had when the name was new; \<^verbatim>\<open>-n\<close> without a
  value, which the usage message allows, makes the program read a null pointer.\<close>

theorem setfattr_roundtrip:
  assumes "file_path = [] \<or> hd file_path \<noteq> CHR ''-''" "fs file_path = Some attrs" "may n"
  shows "setfattr_main may [p, ''-n'', n, ''-v'', v, file_path] fs = Done (fs(file_path := Some (attrs(n \<mapsto> v @ [NUL])))) \<and>
    (if attrs n = None
     then setfattr_main may [p, ''-x'', n, file_path] (fs(file_path := Some (attrs(n \<mapsto> v @ [NUL])))) = Done fs
     else True) \<and>
    setfattr_main may [p, ''-n'', n, file_path] fs = Faulted NullDeref"
proof (intro conjI)
  note [simp] = getopt_setf [OF assms(1)]
  show "setfattr_main may [p, ''-n'', n, ''-v'', v, file_path] fs = Done (fs(file_path := Some (attrs(n \<mapsto> v @ [NUL]))))"
    using assms by (simp add: setfattr_main_def setf_apply_def del: getopt_all.simps)
  have "attrs n = None \<Longrightarrow> attrs(n := None) = attrs" by (simp add: fun_upd_idem)
  then show "if attrs n = None
    then setfattr_main may [p, ''-x'', n, file_path] (fs(file_path := Some (attrs(n \<mapsto> v @ [NUL])))) = Done fs else True"
    using assms by (simp add: setfattr_main_def setf_apply_def fun_upd_idem del: getopt_all.simps)
  show "setfattr_main may [p, ''-n'', n, file_path] fs = Faulted NullDeref"
    using assms by (simp add: setfattr_main_def setf_apply_def del: getopt_all.simps)
qed

theorem setfattr_roundtrip_witness:
  "setfattr_main (\<lambda>_. True) [''s'', ''-n'', ''user.a'', ''-v'', ''1'', ''f''] (\<lambda>_. Some Map.empty) =
    Done ((\<lambda>_. Some Map.empty)(''f'' := Some [''user.a'' \<mapsto> ''1'' @ [NUL]]))"
  using setfattr_roundtrip [of "''f''" "\<lambda>_. Some Map.empty" Map.empty "\<lambda>_. True" "''user.a''" "''s''" "''1''"] by simp

subsection \<open>\<^verbatim>\<open>syslog.c\<close>\<close>

definition log_level :: "char \<Rightarrow> nat option" where
  "log_level c = map_of (zip ''gacewnid'' [0..<8]) c"

text \<open>The options: the level and the flags \<^verbatim>\<open>LOG_PID\<close> and \<^verbatim>\<open>LOG_PERROR\<close>. An empty argument of \<^verbatim>\<open>-l\<close> has the terminator as its
  letter, which is not a level.\<close>

fun log_options :: "gopt list \<Rightarrow> nat \<times> bool \<times> bool \<Rightarrow> (nat \<times> bool \<times> bool) option" where
  "log_options [] st = Some st"
| "log_options (Valued c v # os) (level, pid, perror) =
     (case log_level (cat v 0) of None \<Rightarrow> None | Some l \<Rightarrow> log_options os (l, pid, perror))"
| "log_options (Flag c # os) (level, pid, perror) =
     (if c = CHR ''p'' then log_options os (level, True, perror) else log_options os (level, pid, True))"
| "log_options (_ # os) st = None"

text \<open>The entry: name, flags, priority with the facility \<^verbatim>\<open>LOG_USER\<close>, message.\<close>

definition syslog_main :: "string list \<Rightarrow> (string \<times> nat \<times> nat \<times> string) run" where
  "syslog_main argv =
     (let (os, operands) = getopt_all ''pe'' ''l'' (tl argv) in
      case log_options os (6, False, False) of
        None \<Rightarrow> Exited EXIT_FAILURE
      | Some (level, pid, perror) \<Rightarrow>
          case operands of
            [msg] \<Rightarrow> Done (argv ! 0, (if pid then 1 else 0) + (if perror then 32 else 0), or 8 level, msg)
          | _ \<Rightarrow> Exited EXIT_FAILURE)"

lemma syslog_level:
  assumes "msg = [] \<or> hd msg \<noteq> CHR ''-''" "c \<noteq> CHR 0x00"
  shows "syslog_main [p, ''-l'', [c], msg] =
    (case log_level c of None \<Rightarrow> Exited EXIT_FAILURE | Some l \<Rightarrow> Done (p, 0, or 8 l, msg))"
proof -
  have "getopt_all ''pe'' ''l'' [''-l'', [c], msg] = ([Valued (CHR ''l'') [c]], [msg])"
    using assms by (auto simp: Let_def)
  then show ?thesis by (simp add: syslog_main_def cat_def del: getopt_all.simps split: option.splits)
qed

end
