(* ===== verification/Remote_Shell.thy ===== *)
theory Remote_Shell
  imports Echo_Server
begin

text \<open>
  Section 61, \<^verbatim>\<open>is_shell_sv.c\<close> and \<^verbatim>\<open>is_shell_cl.c\<close>: a server that runs one command per connection, and its client; and
  Section 60, \<^verbatim>\<open>is_echo_inetd_sv.c\<close>, the echo server for one connection. What the shell prints for a command is an
  argument. The theorems follow a command from the line the user types to the output that comes back, for requests that
  arrive whole, in parts and longer than the buffer of the server.
\<close>

subsection \<open>The client\<close>

text \<open>The request: the bytes read, the last of which is overwritten with a terminator.\<close>

definition cl_request :: "string \<Rightarrow> string" where
  "cl_request bytes = butlast bytes @ [NUL]"

text \<open>The client with the answer of \<^verbatim>\<open>inetConnect\<close>, the standard input, whether \<^verbatim>\<open>send\<close> takes all, and the chunks that \<^verbatim>\<open>recv\<close>
  delivers; \<open>fin\<close> says how the connection ends, \<open>None\<close> when it does not. The result is the output, the request and the
  status, \<open>None\<close> while the client waits.\<close>

definition shell_cl_main ::
  "bool \<Rightarrow> rd_ans list \<Rightarrow> bool \<Rightarrow> string list \<Rightarrow> bool option \<Rightarrow> string \<times> string option \<times> int option" where
  "shell_cl_main connected input send_ok chunks fin =
     (if \<not> connected then ([], None, Some EXIT_FAILURE)
      else case sys_read 10240 input of
        (Inl e, _) \<Rightarrow> (''ssh:>'', None, Some EXIT_FAILURE)
      | (Inr bytes, _) \<Rightarrow>
          if bytes = [] then (''ssh:>'', None, Some EXIT_SUCCESS)
          else if \<not> send_ok then (''ssh:>'', Some (cl_request bytes), Some EXIT_FAILURE)
          else (''ssh:>'' @ concat chunks, Some (cl_request bytes),
            case fin of None \<Rightarrow> None | Some ok \<Rightarrow> Some (if ok then EXIT_SUCCESS else EXIT_FAILURE)))"

subsection \<open>The server\<close>

text \<open>The buffer after \<^verbatim>\<open>recv\<close>: bytes that were not received are indeterminate, the last one is a terminator.\<close>

definition sv_buf :: "string \<Rightarrow> chars" where
  "sv_buf bytes = (map Some bytes @ replicate (1024 - length bytes) None)[1023 := Some NUL]"

text \<open>\<^verbatim>\<open>handle_request\<close>: the command that is run and what the shell sends back. The function then loops for ever; the line it
  printed before stays in its buffer.\<close>

definition shell_request :: "(string \<Rightarrow> string) \<Rightarrow> bool \<Rightarrow> bool \<Rightarrow> rd_ans list \<Rightarrow> (string \<times> string) run" where
  "shell_request shell dup_out dup_err reads =
     (if \<not> dup_out then Exited EXIT_FAILURE
      else if \<not> dup_err then Exited EXIT_FAILURE
      else case sys_read 1024 reads of
        (Inl e, _) \<Rightarrow> Exited EXIT_FAILURE
      | (Inr bytes, _) \<Rightarrow> run_bind (print_str (sv_buf bytes)) (\<lambda>cmd. Done (cmd, shell cmd)))"

text \<open>The loop of \<^verbatim>\<open>main\<close> on what \<^verbatim>\<open>accept\<close> and \<^verbatim>\<open>fork\<close> do: \<open>None\<close> a failing \<^verbatim>\<open>accept\<close>. After a failing \<^verbatim>\<open>fork\<close> the connection is
  closed and the branch of the child is entered: there \<^verbatim>\<open>dup2\<close> fails and the server itself exits. The result lists the children
  that run and the status, \<open>None\<close> while the server waits.\<close>

fun shell_sv_loop :: "(string \<Rightarrow> string) \<Rightarrow> (bool \<times> rd_ans list) option list \<Rightarrow> (string \<times> string) run list \<times> int option" where
  "shell_sv_loop shell [] = ([], None)"
| "shell_sv_loop shell (None # es) = ([], Some EXIT_FAILURE)"
| "shell_sv_loop shell (Some (forked, reads) # es) =
     (if forked then
        let (children, st) = shell_sv_loop shell es in (shell_request shell True True reads # children, st)
      else case shell_request shell False False reads of
        Exited st \<Rightarrow> ([], Some st)
      | _ \<Rightarrow> ([], None))"

definition shell_sv_main :: "(string \<Rightarrow> string) \<Rightarrow> bool \<Rightarrow> (bool \<times> rd_ans list) option list \<Rightarrow> (string \<times> string) run list \<times> int option" where
  "shell_sv_main shell listening es = (if listening then shell_sv_loop shell es else ([], Some EXIT_FAILURE))"

lemma sv_buf_whole:
  assumes "c_string l" "length l < 1024"
  shows "print_str (sv_buf (l @ [NUL])) = Done l"
proof -
  have "\<exists>r. sv_buf (l @ [NUL]) = map Some l @ Some NUL # r"
  proof (cases "length l = 1023")
    case True
    then show ?thesis by (simp add: sv_buf_def list_update_append)
  next
    case False
    with assms(2) show ?thesis by (cases "1023 - length l") (simp_all add: sv_buf_def list_update_append)
  qed
  then show ?thesis using print_str_c_array [OF assms(1)] by auto
qed

lemma sv_buf_long:
  assumes "c_string l" "1024 \<le> length l"
  shows "print_str (sv_buf (take 1024 (l @ x))) = Done (take 1023 l)"
proof -
  have t: "take 1024 (l @ x) = take 1023 l @ [l ! 1023]"
    using assms(2) take_Suc_conv_app_nth [of 1023 l] by simp
  have "sv_buf (take 1024 (l @ x)) = map Some (take 1023 l) @ [Some NUL]"
    using assms(2) unfolding t by (simp add: sv_buf_def list_update_append)
  moreover have "c_string (take 1023 l)" using assms(1) by (auto simp: c_string_def dest: in_set_takeD)
  ultimately show ?thesis using print_str_c_array [of "take 1023 l" "[]"] by simp
qed

lemma sv_buf_part:
  assumes "c_string l" "length l < 1023"
  shows "print_str (sv_buf l) = Faulted Uninitialised"
proof -
  have k: "1024 - length l = Suc (1023 - length l)" using assms(2) by simp
  have "\<exists>r. sv_buf l = map Some l @ None # r"
    using assms(2) unfolding sv_buf_def k by (cases "1023 - length l") (simp_all add: list_update_append)
  then show ?thesis using print_str_indeterminate [of l] assms(1) by (auto simp: c_string_def)
qed

text \<open>a line of less than 1024 bytes typed at the client is run by the server as it was typed, when the request arrives in
  one piece, and the output of the command is printed by the client, which then waits for ever. Of a longer line the server runs
  the first 1023 bytes. A request that arrives in parts makes the server read bytes it never received.\<close>

theorem shell_session:
  assumes "c_string l" "length l < 10240" "k < length l" "k < 1023"
  shows "(case shell_cl_main True [RdBytes (l @ [newline])] True [shell l] None of
      (out, req, st) \<Rightarrow> out = ''ssh:>'' @ shell l \<and> st = None \<and> req = Some (l @ [NUL])) \<and>
    shell_request shell True True [RdBytes (l @ [NUL])] =
      (if length l < 1024 then Done (l, shell l) else Done (take 1023 l, shell (take 1023 l))) \<and>
    shell_request shell True True [RdBytes (take k l), RdBytes (drop k l @ [NUL])] = Faulted Uninitialised"
proof (intro conjI)
  show "case shell_cl_main True [RdBytes (l @ [newline])] True [shell l] None of
      (out, req, st) \<Rightarrow> out = ''ssh:>'' @ shell l \<and> st = None \<and> req = Some (l @ [NUL])"
    using assms(2) by (simp add: shell_cl_main_def cl_request_def)
  show "shell_request shell True True [RdBytes (l @ [NUL])] =
      (if length l < 1024 then Done (l, shell l) else Done (take 1023 l, shell (take 1023 l)))"
  proof (cases "length l < 1024")
    case True
    then have "sys_read 1024 [RdBytes (l @ [NUL])] = (Inr (l @ [NUL]), [])" by simp
    then show ?thesis using sv_buf_whole [OF assms(1) True] True by (simp add: shell_request_def)
  next
    case False
    then show ?thesis using sv_buf_long [OF assms(1), of "[NUL]"] by (simp add: shell_request_def)
  qed
  have "c_string (take k l)" "length (take k l) < 1023" using assms by (auto simp: c_string_def dest: in_set_takeD)
  from sv_buf_part [OF this] show "shell_request shell True True [RdBytes (take k l), RdBytes (drop k l @ [NUL])] = Faulted Uninitialised"
    using assms(4) by (simp add: shell_request_def)
qed

theorem shell_session_witness:
  "shell_request (\<lambda>c. c) True True [RdBytes (''date'' @ [NUL])] = Done (''date'', ''date'') \<and>
   shell_request (\<lambda>c. c) True True [RdBytes (take 2 ''date''), RdBytes (drop 2 ''date'' @ [NUL])] = Faulted Uninitialised"
  using shell_session [of "''date''" 2 "\<lambda>c. c"] by (simp add: c_string_def)

text \<open>A failing \<^verbatim>\<open>fork\<close> ends the server, whatever connections follow.\<close>

lemma shell_sv_fork_fails:
  "shell_sv_loop shell (map (\<lambda>r. Some (True, r)) rs @ Some (False, r) # es) =
     (map (shell_request shell True True) rs, Some EXIT_FAILURE)"
  by (induction rs) (simp_all add: shell_request_def)

subsection \<open>\<^verbatim>\<open>is_echo_inetd_sv.c\<close>\<close>

text \<open>With \<^verbatim>\<open>-i\<close> the connection is the standard input that \<^verbatim>\<open>inetd\<close> has set up; without it the program accepts one itself. \<^verbatim>\<open>handleRequest\<close> is
  the function of \<^verbatim>\<open>is_echo_sv.c\<close>.\<close>

definition echo_inetd_main :: "bool \<Rightarrow> bool \<Rightarrow> string list \<Rightarrow> rd_ans list \<Rightarrow> wr_ans list \<Rightarrow> string \<times> int" where
  "echo_inetd_main listen_ok accept_ok argv reads room =
     (if \<not> (length argv = 2 \<and> argv ! 1 = ''-i'') \<and> (\<not> listen_ok \<or> \<not> accept_ok) then ([], EXIT_FAILURE)
      else case handleRequest reads room of
        (None, out) \<Rightarrow> (out, EXIT_SUCCESS)
      | (Some st, out) \<Rightarrow> (out, st))"

lemma echo_inetd_echoes:
  "rd_clean reads \<Longrightarrow> echo_inetd_main listen_ok accept_ok [p, ''-i''] reads [] = (feed reads, EXIT_SUCCESS)"
  "rd_clean reads \<Longrightarrow> echo_inetd_main True True [p] reads [] = (feed reads, EXIT_SUCCESS)"
  by (simp_all add: echo_inetd_main_def handleRequest_echoes)

end
