(* ===== verification/Sysv_List.thy ===== *)
theory Sysv_List
  imports C_Lib
begin

text \<open>
  Listing System V objects: \<^verbatim>\<open>svsem_ls.c\<close> (Section 47), \<^verbatim>\<open>svshm_ls.c\<close> and \<^verbatim>\<open>svshm_mon.c\<close> (Section 48). The kernel keeps the objects in
  a table with holes and reports the highest index in use. The theorem compares which entries the two listings show.
\<close>

subsection \<open>Formats\<close>

definition pad_left :: "nat \<Rightarrow> string \<Rightarrow> string" where
  "pad_left n s = replicate (n - length s) (CHR '' '') @ s"

definition pad_right :: "nat \<Rightarrow> string \<Rightarrow> string" where
  "pad_right n s = s @ replicate (n - length s) (CHR '' '')"

text \<open>\<open>ctime\<close> is the function of the C library; the programs overwrite the newline at its end.\<close>

definition time_field :: "(int \<Rightarrow> string) \<Rightarrow> int \<Rightarrow> string" where
  "time_field ctime t = butlast (ctime t)"

text \<open>The loop over the answers of the \<^verbatim>\<open>STAT\<close> calls from index \<open>i\<close>: an unused index is passed over, every other error ends the
  program.\<close>

fun ls_loop :: "(nat \<Rightarrow> 'a \<Rightarrow> string) \<Rightarrow> nat \<Rightarrow> (errno + 'a) list \<Rightarrow> string run" where
  "ls_loop line i [] = Done []"
| "ls_loop line i (Inl e # r) = (if e = EINVAL then ls_loop line (Suc i) r else Exited EXIT_FAILURE)"
| "ls_loop line i (Inr x # r) = run_bind (ls_loop line (Suc i) r) (\<lambda>out. Done (line i x @ out))"

subsection \<open>\<^verbatim>\<open>svsem_ls.c\<close>\<close>

record semds =
  sem_otime :: int
  sem_ctime :: int
  sem_nsems :: int

definition sem_line :: "(int \<Rightarrow> string) \<Rightarrow> nat \<Rightarrow> semds \<Rightarrow> string" where
  "sem_line ctime ind ds =
     pad_right 5 (dec_nat ind) @ ''        '' @ pad_left 20 (time_field ctime (sem_otime ds)) @ ''      '' @
     pad_left 20 (time_field ctime (sem_ctime ds)) @ ''      '' @ pad_right 5 (dec_int (sem_nsems ds)) @ [newline]"

definition sem_title :: string where
  "sem_title = ''index        sem_otime                     sem_ctime                     sem_nsems'' @ [newline]"

text \<open>\<open>maxind\<close> is the answer of \<^verbatim>\<open>SEM_INFO\<close>, \<open>stat\<close> that of \<^verbatim>\<open>SEM_STAT\<close>.\<close>

definition svsem_ls_main :: "(int \<Rightarrow> string) \<Rightarrow> nat option \<Rightarrow> (nat \<Rightarrow> errno + semds) \<Rightarrow> (string \<times> int) run" where
  "svsem_ls_main ctime maxind stat =
     (case maxind of
        None \<Rightarrow> Exited EXIT_FAILURE
      | Some n \<Rightarrow>
          run_bind (ls_loop (sem_line ctime) 0 (map stat [0..<Suc n])) (\<lambda>out.
            Done (''maxind: '' @ dec_nat n @ [newline] @ sem_title @ out, EXIT_SUCCESS)))"

subsection \<open>\<^verbatim>\<open>svshm_ls.c\<close> and \<^verbatim>\<open>svshm_mon.c\<close>\<close>

record shmds =
  shm_segsz :: int
  shm_atime :: int
  shm_dtime :: int
  shm_ctime :: int
  shm_cpid :: int
  shm_lpid :: int
  shm_nattch :: int

abbreviation (input) tab :: char where "tab \<equiv> CHR 0x09"

definition shm_line :: "(int \<Rightarrow> string) \<Rightarrow> shmds \<Rightarrow> string" where
  "shm_line ctime ds =
     pad_right 10 (dec_int (shm_segsz ds)) @ [tab] @ time_field ctime (shm_atime ds) @ [tab] @
     time_field ctime (shm_dtime ds) @ [tab] @ time_field ctime (shm_ctime ds) @ [tab] @
     pad_right 10 (dec_int (shm_cpid ds)) @ [tab] @ pad_right 8 (dec_int (shm_lpid ds)) @ [tab] @
     pad_right 10 (dec_int (shm_nattch ds)) @ [newline]"

definition shm_title :: string where
  "shm_title = ''seg_sz'' @ [tab, tab] @ ''atime'' @ [tab, tab, tab, tab] @ ''dtime'' @ [tab, tab, tab, tab] @ ''ctime'' @
     [tab, tab, tab, tab] @ ''cpid'' @ [tab, tab] @ ''lpid'' @ [tab, tab] @ ''nattch'' @ [newline]"

definition svshm_ls_main :: "(int \<Rightarrow> string) \<Rightarrow> nat option \<Rightarrow> (nat \<Rightarrow> errno + shmds) \<Rightarrow> (string \<times> int) run" where
  "svshm_ls_main ctime maxindex stat =
     (case maxindex of
        None \<Rightarrow> Exited EXIT_FAILURE
      | Some n \<Rightarrow>
          run_bind (ls_loop (\<lambda>_. shm_line ctime) 0 (map stat [0..<n])) (\<lambda>out.
            Done (''max index: '' @ dec_nat n @ [newline] @ shm_title @ out, EXIT_FAILURE)))"

definition svshm_mon_main :: "(int \<Rightarrow> string) \<Rightarrow> (int \<rightharpoonup> shmds) \<Rightarrow> string list \<Rightarrow> (string \<times> int) run" where
  "svshm_mon_main ctime segments argv =
     (if length argv \<noteq> 2 then Exited EXIT_FAILURE
      else case segments (atoi (argv ! 1)) of
        None \<Rightarrow> Exited EXIT_FAILURE
      | Some ds \<Rightarrow> Done (shm_title @ shm_line ctime ds, EXIT_FAILURE))"

subsection \<open>What is listed\<close>

text \<open>A table of the kernel as a list with holes, whose last entry is in use.\<close>

definition table_stat :: "'a option list \<Rightarrow> nat \<Rightarrow> errno + 'a" where
  "table_stat t i = (if i < length t then (case t ! i of None \<Rightarrow> Inl EINVAL | Some x \<Rightarrow> Inr x) else Inl EINVAL)"

fun table_lines :: "(nat \<Rightarrow> 'a \<Rightarrow> string) \<Rightarrow> nat \<Rightarrow> 'a option list \<Rightarrow> string" where
  "table_lines line i [] = []"
| "table_lines line i (None # r) = table_lines line (Suc i) r"
| "table_lines line i (Some x # r) = line i x @ table_lines line (Suc i) r"

lemma ls_loop_table:
  "ls_loop line i (map (\<lambda>e. case e of None \<Rightarrow> Inl EINVAL | Some x \<Rightarrow> Inr x) t) = Done (table_lines line i t)"
  by (induction line i t rule: table_lines.induct) simp_all

lemma table_stat_map:
  "n \<le> length t \<Longrightarrow> map (table_stat t) [0..<n] = map (\<lambda>e. case e of None \<Rightarrow> Inl EINVAL | Some x \<Rightarrow> Inr x) (take n t)"
  by (rule nth_equalityI) (auto simp: table_stat_def)

text \<open>on a table of any shape \<^verbatim>\<open>svsem_ls\<close> prints one line for every entry in use, in order; \<^verbatim>\<open>svshm_ls\<close>, whose loop ends one
  index earlier, omits the entry with the highest index, and ends with a failure.\<close>

theorem listings:
  "svsem_ls_main ctime (Some (length t)) (table_stat (t @ [Some x])) =
      Done (''maxind: '' @ dec_nat (length t) @ [newline] @ sem_title @ table_lines (sem_line ctime) 0 (t @ [Some x]), EXIT_SUCCESS) \<and>
   svshm_ls_main ctime (Some (length u)) (table_stat (u @ [Some y])) =
      Done (''max index: '' @ dec_nat (length u) @ [newline] @ shm_title @ table_lines (\<lambda>_. shm_line ctime) 0 u, EXIT_FAILURE)"
proof
  have "map (table_stat (t @ [Some x])) [0..<Suc (length t)] =
      map (\<lambda>e. case e of None \<Rightarrow> Inl EINVAL | Some x \<Rightarrow> Inr x) (t @ [Some x])"
    by (subst table_stat_map) simp_all
  then show "svsem_ls_main ctime (Some (length t)) (table_stat (t @ [Some x])) =
      Done (''maxind: '' @ dec_nat (length t) @ [newline] @ sem_title @ table_lines (sem_line ctime) 0 (t @ [Some x]), EXIT_SUCCESS)"
    unfolding svsem_ls_main_def by (simp only: option.case ls_loop_table run_bind.simps)
  have "map (table_stat (u @ [Some y])) [0..<length u] = map (\<lambda>e. case e of None \<Rightarrow> Inl EINVAL | Some x \<Rightarrow> Inr x) u"
    by (subst table_stat_map) simp_all
  then show "svshm_ls_main ctime (Some (length u)) (table_stat (u @ [Some y])) =
      Done (''max index: '' @ dec_nat (length u) @ [newline] @ shm_title @ table_lines (\<lambda>_. shm_line ctime) 0 u, EXIT_FAILURE)"
    unfolding svshm_ls_main_def by (simp only: option.case ls_loop_table run_bind.simps)
qed

end
