(* ===== verification/Offsets.thy ===== *)
theory Offsets
  imports C_Lib
begin

text \<open>
  File offsets and heap blocks: \<^verbatim>\<open>check_fd.c\<close>, \<^verbatim>\<open>large_file.c\<close> and \<^verbatim>\<open>o_append.c\<close> (Section 5) on descriptors that share an open file
  description, and \<^verbatim>\<open>free_and_sbrk.c\<close> (Section 7), whose loops index an array of blocks with numbers from the command
  line. The lemmas give the contents of the files, the sharing of offset and flags, and exactly which blocks are freed and which
  arguments lead outside the array.
\<close>

subsection \<open>Open file descriptions\<close>

record ofd =
  o_off :: int
  o_flags :: int

record ftab =
  f_desc :: "nat \<rightharpoonup> nat"        \<comment> \<open>descriptor to open file description\<close>
  f_ofd :: "nat \<Rightarrow> ofd"

definition lseek_cur :: "nat \<Rightarrow> int \<Rightarrow> ftab \<Rightarrow> (int \<times> ftab) option" where
  "lseek_cur fd d t =
     (case f_desc t fd of
        None \<Rightarrow> None
      | Some k \<Rightarrow>
          let off = o_off (f_ofd t k) + d in
          if off < 0 then None else Some (off, t\<lparr>f_ofd := (f_ofd t)(k := (f_ofd t k)\<lparr>o_off := off\<rparr>)\<rparr>))"

text \<open>\<open>settable\<close> is what the kernel keeps of the flags of \<^verbatim>\<open>F_SETFL\<close>.\<close>

definition setfl :: "(int \<Rightarrow> int) \<Rightarrow> nat \<Rightarrow> int \<Rightarrow> ftab \<Rightarrow> ftab option" where
  "setfl settable fd fl t =
     (case f_desc t fd of
        None \<Rightarrow> None
      | Some k \<Rightarrow> Some (t\<lparr>f_ofd := (f_ofd t)(k := (f_ofd t k)\<lparr>o_flags := settable fl\<rparr>)\<rparr>))"

definition getfl :: "nat \<Rightarrow> ftab \<Rightarrow> int option" where
  "getfl fd t = map_option (\<lambda>k. o_flags (f_ofd t k)) (f_desc t fd)"

subsection \<open>\<^verbatim>\<open>check_fd.c\<close>\<close>

text \<open>\<open>oldfd\<close> and \<open>newfd\<close> are the descriptors that \<^verbatim>\<open>open\<close> and \<^verbatim>\<open>dup\<close> return.\<close>

definition check_fd_main :: "(int \<Rightarrow> int) \<Rightarrow> nat option \<Rightarrow> nat option \<Rightarrow> string run" where
  "check_fd_main settable oldfd newfd =
     (case oldfd of
        None \<Rightarrow> Exited EXIT_FAILURE
      | Some old \<Rightarrow>
          case newfd of
            None \<Rightarrow> Exited EXIT_FAILURE
          | Some new \<Rightarrow>
              let t0 = \<lparr>f_desc = [old \<mapsto> 0, new \<mapsto> 0], f_ofd = \<lambda>_. \<lparr>o_off = 0, o_flags = settable 66\<rparr>\<rparr> in
              (case setfl settable old 9282 t0 of
                 None \<Rightarrow> Exited EXIT_FAILURE
               | Some t1 \<Rightarrow>
                   let (o1, t2) = the (lseek_cur old 0 t1); (n1, t3) = the (lseek_cur new 0 t2);
                       (o2, t4) = the (lseek_cur old 100 t3); (n2, t5) = the (lseek_cur new 0 t4) in
                   Done (''Success with oldfd('' @ dec_nat old @ '') and newfd('' @ dec_nat new @ '')'' @ [newline] @
                     ''oldfd flags: '' @ dec_int (the (getfl old t1)) @ [newline] @
                     ''newfd flags: '' @ dec_int (the (getfl new t1)) @ [newline] @
                     ''oldfd offset:'' @ dec_int o1 @ '' and newfd offset:'' @ dec_int n1 @ [newline] @
                     ''oldfd newoffset:'' @ dec_int o2 @ [newline] @ ''newfd offset '' @ dec_int n2 @ [newline])))"

text \<open>Flags set and offsets moved through one descriptor are seen through the other.\<close>

lemma check_fd_shares:
  "check_fd_main settable (Some old) (Some new) =
     Done (''Success with oldfd('' @ dec_nat old @ '') and newfd('' @ dec_nat new @ '')'' @ [newline] @
       ''oldfd flags: '' @ dec_int (settable 9282) @ [newline] @ ''newfd flags: '' @ dec_int (settable 9282) @ [newline] @
       ''oldfd offset:'' @ dec_int 0 @ '' and newfd offset:'' @ dec_int 0 @ [newline] @
       ''oldfd newoffset:'' @ dec_int 100 @ [newline] @ ''newfd offset '' @ dec_int 100 @ [newline])"
  by (simp add: check_fd_main_def setfl_def getfl_def lseek_cur_def Let_def)

subsection \<open>\<^verbatim>\<open>o_append.c\<close> and \<^verbatim>\<open>large_file.c\<close>\<close>

text \<open>Writing at an offset; a gap behind the end reads as zeros.\<close>

definition write_at :: "nat \<Rightarrow> string \<Rightarrow> string \<Rightarrow> string" where
  "write_at off b f = take off f @ replicate (off - length f) NUL @ b @ drop (off + length b) f"

text \<open>\<open>contents\<close> are those of an existing file that can be written; the result is the new contents.\<close>

definition o_append_main :: "string option \<Rightarrow> bool \<Rightarrow> string list \<Rightarrow> string run" where
  "o_append_main contents write_ok argv =
     (if length argv < 2 then Exited EXIT_FAILURE
      else case contents of
        None \<Rightarrow> Exited EXIT_FAILURE
      | Some f \<Rightarrow> if write_ok then Done (write_at 0 ''test'' f) else Exited EXIT_FAILURE)"

definition large_file_main :: "string option \<Rightarrow> bool \<Rightarrow> bool \<Rightarrow> string list \<Rightarrow> string run" where
  "large_file_main contents open_ok write_ok argv =
     (if length argv \<noteq> 3 \<or> argv ! 1 = ''--help'' then Exited EXIT_FAILURE
      else if \<not> open_ok then Exited EXIT_FAILURE
      else
        let off = atol (argv ! 2) in
        if off < 0 then Exited EXIT_FAILURE
        else if \<not> write_ok then Exited EXIT_FAILURE
        else Done (write_at (nat off) ''test'' (case contents of None \<Rightarrow> [] | Some f \<Rightarrow> f)))"

lemma write_at_length: "length (write_at off b f) = max (length f) (off + length b)"
  by (auto simp: write_at_def)

lemma write_at_nth:
  "i < max (length f) (off + length b) \<Longrightarrow> write_at off b f ! i =
     (if off \<le> i \<and> i < off + length b then b ! (i - off) else if i < length f then f ! i else NUL)"
  by (auto simp: write_at_def nth_append min_def)

text \<open>The four bytes stand at the offset, everything else is as before, and what was not there is zero.\<close>

lemma large_file_contents:
  assumes "0 \<le> v" "v < 2 ^ 63" "p \<noteq> ''--help''" "large_file_main (Some f) True True [q, p, dec_int v] = Done f'"
  shows "length f' = max (length f) (nat v + 4)"
    and "i < length f' \<Longrightarrow> f' ! i = (if nat v \<le> i \<and> i < nat v + 4 then ''test'' ! (i - nat v) else if i < length f then f ! i else NUL)"
proof -
  have f': "f' = write_at (nat v) ''test'' f"
    using assms by (simp add: large_file_main_def atol_dec_int numeral_eq_Suc)
  show l: "length f' = max (length f) (nat v + 4)" by (simp add: f' write_at_length)
  show "i < length f' \<Longrightarrow> f' ! i = (if nat v \<le> i \<and> i < nat v + 4 then ''test'' ! (i - nat v) else if i < length f then f ! i else NUL)"
    using write_at_nth [of i f "nat v" "''test''"] by (simp add: f' write_at_length)
qed

text \<open>\<^verbatim>\<open>o_append\<close> overwrites the start of the file.\<close>

lemma o_append_overwrites: "o_append_main (Some (a @ b)) True [p, q] = Done (''test'' @ b)" if "length a = 4"
  using that by (simp add: o_append_main_def write_at_def)

subsection \<open>\<^verbatim>\<open>free_and_sbrk.c\<close>\<close>

text \<open>The loop over the blocks to free. A block freed a second time is an indeterminate pointer; an index that overflows is, like
  a negative one, outside the array. The result lists the indices in order.\<close>

function free_loop :: "int \<Rightarrow> int \<Rightarrow> int \<Rightarrow> int list run" where
  "free_loop step mx j =
     (if mx \<le> j then Done []
      else if j < 0 then Faulted OutOfBounds
      else if step = 0 then Faulted Uninitialised
      else if j + step > INT_MAX then Faulted OutOfBounds
      else run_bind (free_loop step mx (j + step)) (\<lambda>js. Done (j # js)))"
  by pat_completeness auto
termination
  by (relation "measure (\<lambda>(step, mx, j). nat (if 0 < step then mx - j else j + 1))") auto

declare free_loop.simps [simp del]

abbreviation (input) MAX_ALLOCS :: int where "MAX_ALLOCS \<equiv> 1000000"

text \<open>\<open>alloc_ok size j\<close> is whether the \<open>j\<close>-th \<^verbatim>\<open>malloc\<close> succeeds. The result is the number of blocks and the list of those freed.\<close>

definition free_and_sbrk_main :: "(int \<Rightarrow> int \<Rightarrow> bool) \<Rightarrow> string list \<Rightarrow> (int \<times> int list) run" where
  "free_and_sbrk_main alloc_ok argv =
     (if length argv < 3 \<or> argv ! 1 = ''--help'' then Exited EXIT_FAILURE
      else
        let numAllocs = atoi (argv ! 1) in
        if numAllocs > MAX_ALLOCS then Exited EXIT_FAILURE
        else
          let blockSize = atoi (argv ! 2);
              freeStep = (if length argv > 3 then atoi (argv ! 3) else 1);
              freeMin = (if length argv > 4 then atoi (argv ! 4) else 1);
              freeMax = (if length argv > 5 then atoi (argv ! 5) else numAllocs) in
          if freeMax > numAllocs then Exited EXIT_FAILURE
          else if \<exists>j \<in> set [0..<nat numAllocs]. \<not> alloc_ok blockSize (int j) then Exited EXIT_FAILURE
          else run_bind (free_loop freeStep freeMax (to_int32 (freeMin - 1))) (\<lambda>js. Done (max 0 numAllocs, js)))"

text \<open>With a positive step and a start in the array, the loop frees every \<open>step\<close>-th block of the range, each once.\<close>

lemma free_loop_frees:
  assumes "0 < step" "step + mx \<le> INT_MAX" "0 \<le> j"
  shows "\<exists>js. free_loop step mx j = Done js \<and> set js = {i. j \<le> i \<and> i < mx \<and> (i - j) mod step = 0} \<and> sorted_wrt (<) js"
  using assms
proof (induction step mx j rule: free_loop.induct)
  case (1 step mx j)
  show ?case
  proof (cases "mx \<le> j")
    case True
    then show ?thesis by (auto simp: free_loop.simps [of step mx j])
  next
    case False
    with "1.prems" have g: "\<not> j < 0" "step \<noteq> 0" "\<not> j + step > INT_MAX" "0 \<le> j + step" by auto
    obtain js where js: "free_loop step mx (j + step) = Done js"
        "set js = {i. j + step \<le> i \<and> i < mx \<and> (i - (j + step)) mod step = 0}" "sorted_wrt (<) js"
      using "1.IH" [OF False g(1,2,3) "1.prems"(1,2) g(4)] by blast
    have m: "(i - (j + step)) mod step = (i - j) mod step" for i by (metis diff_diff_eq minus_mod_self2)
    have gap: "j + step \<le> i" if "j < i" "(i - j) mod step = 0" for i
      using that "1.prems"(1) zmod_trivial_iff [of "i - j" step] by auto
    have "set (j # js) = {i. j \<le> i \<and> i < mx \<and> (i - j) mod step = 0}"
      using js(2) False gap "1.prems"(1) by (auto simp: m)
    moreover have "sorted_wrt (<) (j # js)" using js(2,3) "1.prems"(1) by auto
    moreover have "free_loop step mx j = Done (j # js)" using False g js(1) by (simp add: free_loop.simps [of step mx j])
    ultimately show ?thesis by blast
  qed
qed

lemma free_loop_faults:
  assumes "j < mx"
  shows "j < 0 \<Longrightarrow> free_loop step mx j = Faulted OutOfBounds"
    and "0 \<le> j \<Longrightarrow> step = 0 \<Longrightarrow> free_loop step mx j = Faulted Uninitialised"
  using assms by (simp_all add: free_loop.simps [of step mx j] free_loop.simps [of 0 mx j])

lemma free_loop_down: "step < 0 \<Longrightarrow> j < mx \<Longrightarrow> mx \<le> INT_MAX \<Longrightarrow> free_loop step mx j = Faulted OutOfBounds"
proof (induction step mx j rule: free_loop.induct)
  case (1 step mx j)
  show ?case
  proof (cases "j < 0")
    case False
    then have "free_loop step mx (j + step) = Faulted OutOfBounds" using 1 by auto
    with False "1.prems" show ?thesis by (simp add: free_loop.simps [of step mx j])
  qed (use "1.prems" in \<open>simp add: free_loop.simps [of step mx j]\<close>)
qed

text \<open>with all five arguments given, \<^verbatim>\<open>free_and_sbrk\<close> frees exactly every \<open>step\<close>-th of the blocks from \<open>min\<close> to \<open>max\<close>, each once and in
  order, when \<open>step\<close> and \<open>min\<close> are positive; a smaller \<open>min\<close> or a negative \<open>step\<close>, which nothing refuses, makes it free what is in
  front of the array, and step 0 frees one block twice.\<close>

theorem free_and_sbrk_bounds:
  assumes "\<And>x j. alloc_ok x j" "is_int32 bsz" "is_int32 step" "is_int32 n" "n \<le> MAX_ALLOCS" "mx \<le> n"
    and "INT_MIN < mn" "mn \<le> mx" "step + mx \<le> INT_MAX" "INT_MIN \<le> mx"
  shows "\<exists>js. free_and_sbrk_main alloc_ok [p, dec_int n, dec_int bsz, dec_int step, dec_int mn, dec_int mx] =
      (if mn < 1 \<or> step < 0 then Faulted OutOfBounds
       else if step = 0 then Faulted Uninitialised
       else Done (max 0 n, js)) \<and>
    (if 1 \<le> mn \<and> 0 < step then set js = {i. mn - 1 \<le> i \<and> i < mx \<and> (i - (mn - 1)) mod step = 0} \<and> sorted_wrt (<) js else True)"
proof -
  have i: "is_int32 mn" "is_int32 mx" "is_int32 (mn - 1)" using assms by (auto simp: is_int32_def)
  note h = dec_int_not_help [of n]
  have main: "free_and_sbrk_main alloc_ok [p, dec_int n, dec_int bsz, dec_int step, dec_int mn, dec_int mx] =
      run_bind (free_loop step mx (mn - 1)) (\<lambda>js. Done (max 0 n, js))"
    using assms i h by (simp add: free_and_sbrk_main_def atoi_dec_int to_int32_id numeral_eq_Suc Let_def)
  show ?thesis
  proof (cases "1 \<le> mn \<and> 0 < step")
    case True
    then obtain js where "free_loop step mx (mn - 1) = Done js"
        "set js = {i. mn - 1 \<le> i \<and> i < mx \<and> (i - (mn - 1)) mod step = 0}" "sorted_wrt (<) js"
      using free_loop_frees [of step mx "mn - 1"] assms(9) by auto
    then show ?thesis using True main by auto
  next
    case False
    have "free_loop step mx (mn - 1) = (if mn < 1 \<or> step < 0 then Faulted OutOfBounds else Faulted Uninitialised)"
      using False free_loop_faults [of "mn - 1" mx step] free_loop_down [of step "mn - 1" mx] assms(8) i(2)
      by (auto simp: is_int32_def)
    then show ?thesis using False main by auto
  qed
qed

theorem free_and_sbrk_bounds_witness:
  "\<exists>js. free_and_sbrk_main (\<lambda>_ _. True) [''p'', dec_int 10, dec_int 8, dec_int 3, dec_int 2, dec_int 9] = Done (10, js) \<and>
     set js = {i. 1 \<le> i \<and> i < 9 \<and> (i - 1) mod 3 = 0}"
  using free_and_sbrk_bounds [of "\<lambda>_ _. True" 8 3 10 9 2 "''p''"] by (auto simp: is_int32_def)

end
