(* ===== verification/Poll.thy ===== *)
theory Poll
  imports Terminal
begin

unbundle bit_operations_syntax

text \<open>
  Waiting for input (Section 63): \<^verbatim>\<open>t_poll.c\<close>, \<^verbatim>\<open>epoll.c\<close> and \<^verbatim>\<open>epoll_maxlen.c\<close>, and \<^verbatim>\<open>sig_queue_io.c\<close>, which is told by a signal that
  there is input. The readiness of descriptors and the arrival of input are arguments. The lemmas describe the syntax of the
  arguments and the report of \<^verbatim>\<open>t_poll\<close>, the order in which level-triggered \<^verbatim>\<open>epoll\<close> serves its descriptors, and the terminal
  mode and the lost wake-up of \<^verbatim>\<open>sig_queue_io\<close>.
\<close>

subsection \<open>\<^verbatim>\<open>t_poll.c\<close>\<close>

text \<open>\<^verbatim>\<open>sscanf(arg, "%d%2[rw]", ...)\<close>: \<open>None\<close> when not both conversions succeed.\<close>

definition scan_fd :: "string \<Rightarrow> (int \<times> string) option" where
  "scan_fd s =
     (let s1 = dropWhile is_space s;
          neg = (s1 \<noteq> [] \<and> hd s1 = CHR ''-'');
          s2 = (if s1 \<noteq> [] \<and> hd s1 \<in> {CHR ''-'', CHR ''+''} then tl s1 else s1);
          ds = takeWhile is_digit s2;
          v = int (foldl (\<lambda>a c. a * 10 + digit_val c) 0 ds);
          buf = take 2 (takeWhile (\<lambda>c. c \<in> set ''rw'') (dropWhile is_digit s2)) in
      if ds = [] \<or> buf = [] then None else Some (to_int32 (clamp_long (if neg then - v else v)), buf))"

record pollfd =
  pf_fd :: int
  pf_in :: bool
  pf_out :: bool

fun poll_args :: "string list \<Rightarrow> pollfd list option" where
  "poll_args [] = Some []"
| "poll_args (a # as) =
     (case scan_fd a of
        None \<Rightarrow> None
      | Some (fd, buf) \<Rightarrow>
          map_option (\<lambda>fds. \<lparr>pf_fd = fd, pf_in = (CHR ''r'' \<in> set buf), pf_out = (CHR ''w'' \<in> set buf)\<rparr> # fds) (poll_args as))"

text \<open>The state of a descriptor when \<^verbatim>\<open>poll\<close> returns: readable, writable, in error (also: not open). A negative descriptor is
  passed over.\<close>

record fd_ready =
  rd_ready :: bool
  wr_ready :: bool
  fd_error :: bool

definition revents :: "(int \<Rightarrow> fd_ready) \<Rightarrow> pollfd \<Rightarrow> bool \<times> bool \<times> bool" where
  "revents st p =
     (if pf_fd p < 0 then (False, False, False)
      else (pf_in p \<and> rd_ready (st (pf_fd p)), pf_out p \<and> wr_ready (st (pf_fd p)), fd_error (st (pf_fd p))))"

definition poll_line :: "(int \<Rightarrow> fd_ready) \<Rightarrow> pollfd \<Rightarrow> string" where
  "poll_line st p =
     (let (r, w, e) = revents st p in
      if r \<or> w then dec_int (pf_fd p) @ '': '' @ (if r then ''r'' else []) @ (if w then ''w'' else []) @ [newline] else [])"

definition t_poll_main :: "(int \<Rightarrow> fd_ready) \<Rightarrow> bool \<Rightarrow> string list \<Rightarrow> string run" where
  "t_poll_main st poll_ok argv =
     (if length argv < 2 \<or> argv ! 1 = ''--help'' then Exited EXIT_FAILURE
      else
        let pto = (if argv ! 1 = ''-'' then - 1 else to_int32 (atoi (argv ! 1) * 1000)) in
        case poll_args (drop 2 argv) of
          None \<Rightarrow> Exited EXIT_FAILURE
        | Some fds \<Rightarrow>
            if \<not> poll_ok then Exited EXIT_FAILURE
            else
              let ready = length (filter (\<lambda>p. revents st p \<noteq> (False, False, False)) fds) in
              if ready = 0 \<and> pto < 0 then Faulted Deadlock
              else Done (''ready = '' @ dec_nat ready @ [newline] @ concat (map (poll_line st) fds)))"

lemma digits_of_dec_nat:
  assumes "r = [] \<or> \<not> is_digit (hd r)"
  shows "takeWhile is_digit (dec_nat n @ r) = dec_nat n" "dropWhile is_digit (dec_nat n @ r) = r"
proof -
  have "\<forall>c \<in> set (dec_nat n). is_digit c" using dec_nat_digits digit_char_props(1) by blast
  then show "takeWhile is_digit (dec_nat n @ r) = dec_nat n" "dropWhile is_digit (dec_nat n @ r) = r"
    using assms by (simp_all add: takeWhile_append2 dropWhile_append2) (cases r; simp)+
qed

text \<open>A descriptor written as in the usage message is read back with its letters.\<close>

lemma scan_fd_text:
  assumes "is_int32 v" "buf \<in> {''r'', ''w'', ''rw''}"
  shows "scan_fd (dec_int v @ buf) = Some (v, buf)"
proof -
  let ?n = "nat \<bar>v\<bar>"
  have b: "buf \<noteq> []" "\<not> is_digit (hd buf)" "takeWhile (\<lambda>c. c \<in> set ''rw'') buf = buf" "take 2 buf = buf"
    using assms(2) by (auto simp: is_digit_def)
  obtain d where d: "hd (dec_nat ?n) = digit_char d" "d < 10" using hd_dec_nat by blast
  then have h: "\<not> is_space (hd (dec_nat ?n))" "hd (dec_nat ?n) \<noteq> CHR ''-''" "hd (dec_nat ?n) \<noteq> CHR ''+''" by simp_all
  have w: "dropWhile is_space (dec_int v @ buf) = dec_int v @ buf"
    using h(1) by (cases "dec_nat ?n") (auto simp: dec_int_def is_space_def)
  have v: "to_int32 (clamp_long (if v < 0 then - int ?n else int ?n)) = v"
    using assms(1) by (auto simp: clamp_long_id to_int32_id)
  have t: "takeWhile is_digit (dec_nat ?n @ buf) = dec_nat ?n" "dropWhile is_digit (dec_nat ?n @ buf) = buf"
    using digits_of_dec_nat b(2) by blast+
  show ?thesis
  proof (cases "v < 0")
    case True
    then have "dec_int v = CHR ''-'' # dec_nat ?n" by (simp add: dec_int_def)
    then show ?thesis using w v t b True by (simp add: scan_fd_def fold_dec_nat Let_def takeWhile_eq_all_conv [THEN iffD2])
  next
    case False
    then have "dec_int v = dec_nat ?n" by (simp add: dec_int_def)
    then show ?thesis using w v t b False h by (simp add: scan_fd_def fold_dec_nat Let_def takeWhile_eq_all_conv [THEN iffD2])
  qed
qed

subsection \<open>\<^verbatim>\<open>epoll.c\<close> and \<^verbatim>\<open>epoll_maxlen.c\<close>\<close>

text \<open>With no descriptor registered and no time limit \<^verbatim>\<open>epoll_wait\<close> never returns.\<close>

definition epoll_main :: "bool \<Rightarrow> string run" where
  "epoll_main create_ok = (if create_ok then Faulted Deadlock else Exited EXIT_FAILURE)"

text \<open>The list of ready descriptors: \<^verbatim>\<open>epoll_wait\<close> for one event takes the first, and puts it at the end while its data have not
  been read.\<close>

fun epoll_rounds :: "nat \<Rightarrow> int list \<Rightarrow> int list" where
  "epoll_rounds 0 q = []"
| "epoll_rounds (Suc n) q = (case q of [] \<Rightarrow> [] | fd # r \<Rightarrow> fd # epoll_rounds n (r @ [fd]))"

text \<open>\<open>pipes\<close> are the read ends of the three pipes, each with a byte to read; \<open>oks\<close> the answers of the calls that set them up.\<close>

definition epoll_maxlen_main :: "bool list \<Rightarrow> int \<times> int \<times> int \<Rightarrow> string run" where
  "epoll_maxlen_main oks pipes =
     (if False \<in> set oks then Exited EXIT_FAILURE
      else case pipes of (a, b, c) \<Rightarrow>
        Done (concat (map (\<lambda>fd. ''fd: '' @ dec_int fd @ [newline]) (epoll_rounds 10 [a, b, c]))))"

lemma epoll_rounds_fair:
  "q \<noteq> [] \<Longrightarrow> i < n \<Longrightarrow> epoll_rounds n q ! i = q ! (i mod length q)"
proof (induction n arbitrary: q i)
  case (Suc n)
  then obtain fd r where q: "q = fd # r" by (cases q) auto
  show ?case
  proof (cases i)
    case (Suc j)
    have "epoll_rounds n (r @ [fd]) ! j = (r @ [fd]) ! (j mod length (r @ [fd]))"
      using Suc Suc.prems Suc.IH [of "r @ [fd]" j] by simp
    also have "\<dots> = q ! (Suc j mod length q)"
      using q mod_less_divisor [of "Suc (length r)" j] by (auto simp: nth_append mod_Suc simp del: mod_less_divisor)
    finally show ?thesis using Suc q by simp
  qed (simp add: q)
qed simp

lemma epoll_rounds_length: "q \<noteq> [] \<Longrightarrow> length (epoll_rounds n q) = n"
  by (induction n arbitrary: q) (auto split: list.splits)

subsection \<open>\<^verbatim>\<open>sig_queue_io.c\<close>\<close>

definition make_cbreak :: "termios \<Rightarrow> termios" where
  "make_cbreak t = t\<lparr>c_lflag := (c_lflag t AND NOT (ICANON OR ECHO)) OR ISIG, c_iflag := c_iflag t AND NOT ICRNL,
     c_vmin := 1, c_vtime := 0\<rparr>"

definition tty_set_cbreak :: "bool \<Rightarrow> bool \<Rightarrow> termios \<Rightarrow> int \<times> termios option \<times> termios" where
  "tty_set_cbreak get_ok set_ok t =
     (if \<not> get_ok then (- 1, None, t)
      else if \<not> set_ok then (- 1, Some t, t) else (0, Some t, make_cbreak t))"

lemma bit_twiddle_sym: "k < 32 \<Longrightarrow> bit (2 ^ k :: 32 word) n = (n = k)"
  by (auto simp: bit_exp_iff)

lemma make_cbreak_bits:
  "bit (c_lflag (make_cbreak t)) n = ((bit (c_lflag t) n \<and> n \<noteq> 1 \<and> n \<noteq> 3) \<or> n = 0)"
  "bit (c_iflag (make_cbreak t)) n = (bit (c_iflag t) n \<and> n \<noteq> 8)"
proof -
  have b: "bit (0x2 :: 32 word) n = (n = 1)" "bit (0x8 :: 32 word) n = (n = 3)" "bit (0x100 :: 32 word) n = (n = 8)"
    "bit (0x1 :: 32 word) n = (n = 0)"
    using bit_twiddle_sym [of 1 n] bit_twiddle_sym [of 3 n] bit_twiddle_sym [of 8 n] by (simp_all add: bit_1_iff)
  have l: "c_lflag (make_cbreak t) = (c_lflag t AND NOT (ICANON OR ECHO)) OR ISIG" "c_iflag (make_cbreak t) = c_iflag t AND NOT ICRNL"
    by (simp_all add: make_cbreak_def)
  have len: "bit (c_lflag t) n \<Longrightarrow> n < 32" "bit (c_iflag t) n \<Longrightarrow> n < 32" by (auto dest: bit_imp_le_length)
  show "bit (c_lflag (make_cbreak t)) n = ((bit (c_lflag t) n \<and> n \<noteq> 1 \<and> n \<noteq> 3) \<or> n = 0)"
    unfolding l bit_and_iff bit_or_iff bit_not_iff b using len(1) by (auto simp: possible_bit_word)
  show "bit (c_iflag (make_cbreak t)) n = (bit (c_iflag t) n \<and> n \<noteq> 8)"
    unfolding l bit_and_iff bit_or_iff bit_not_iff b using len(2) by (auto simp: possible_bit_word)
qed

text \<open>The line of the handler: the codes 1 to 6 are tested as if they were bits.\<close>

definition code_text :: "nat \<Rightarrow> string" where
  "code_text code =
     concat (map (\<lambda>(c, name). if and code c \<noteq> 0 then name else ''-'')
       [(1, ''POLL_IN''), (2, ''POLL_OUT''), (3, ''POLL_MSG''), (4, ''POLLERR''), (5, ''POLL_PRI''), (6, ''POLL_HUP'')])"

definition io_handler :: "int \<Rightarrow> nat \<Rightarrow> string" where
  "io_handler fd code = ''fd: '' @ dec_int fd @ [newline] @ ''-->'' @ code_text code @ [newline]"

lemma code_text_in: "code_text 1 = ''POLL_IN-POLL_MSG-POLL_PRI-''"
  by (simp add: code_text_def)

text \<open>The inner loop on the input that is there: after the character \<^verbatim>\<open>#\<close> one more is read and dropped.\<close>

fun cb_read :: "nat \<Rightarrow> string \<Rightarrow> string \<times> string \<times> bool" where
  "cb_read cnt [] = ([], [], False)"
| "cb_read cnt (c # q) =
     (let line = ''cnt='' @ dec_nat cnt @ ''; read '' @ [c] @ [newline] in
      if c = CHR ''#'' then (line, tl q, True)
      else let (out, rest, fin) = cb_read cnt q in (line @ out, rest, fin))"

text \<open>The rounds of the outer loop. In each, some input arrives with its signal before \<^verbatim>\<open>gotSig\<close> is tested, and some between the last
  \<^verbatim>\<open>read\<close> and the assignment that clears \<^verbatim>\<open>gotSig\<close>. The result is the output and, when the loop has ended, the input left over.\<close>

fun cb_loop :: "nat \<Rightarrow> bool \<Rightarrow> string \<Rightarrow> (string \<times> string) list \<Rightarrow> string \<times> string option" where
  "cb_loop cnt got q [] = ([], None)"
| "cb_loop cnt got q ((a, late) # r) =
     (if got \<or> a \<noteq> [] then
        let (out, rest, fin) = cb_read cnt (q @ a) in
        if fin then (out, Some (rest @ late))
        else let (out', res) = cb_loop (cnt + 1) False late r in (out @ out', res)
      else cb_loop (cnt + 1) (late \<noteq> []) (q @ late) r)"

text \<open>The program with the answers of the calls that prepare the descriptor; the result is the output, the input left over and the
  attributes of the terminal, which are the old ones again when the loop has ended.\<close>

definition sig_queue_io_main ::
  "bool list \<Rightarrow> bool \<Rightarrow> bool \<Rightarrow> bool \<Rightarrow> termios \<Rightarrow> (string \<times> string) list \<Rightarrow> (string \<times> string option \<times> termios) run" where
  "sig_queue_io_main oks get_ok set_ok restore_ok t rounds =
     (if False \<in> set oks then Exited EXIT_FAILURE
      else case tty_set_cbreak get_ok set_ok t of
        (ret, orig, t') \<Rightarrow>
          if ret = - 1 then Exited EXIT_FAILURE
          else case cb_loop 0 False [] rounds of
            (out, None) \<Rightarrow> Done (out, None, t')
          | (out, Some rest) \<Rightarrow> if restore_ok then Done (out, Some rest, the orig) else Exited EXIT_FAILURE)"

lemma cb_read_all: "CHR ''#'' \<notin> set q \<Longrightarrow> snd (cb_read cnt q) = ([], False)"
  by (induction q) (auto split: prod.splits)

lemma cb_read_hash:
  "CHR ''#'' \<notin> set q \<Longrightarrow> snd (cb_read cnt (q @ CHR ''#'' # r)) = (tl r, True)"
  by (induction q) (auto split: prod.splits)

lemma cb_loop_idle: "cb_loop cnt False q (replicate n ([], [])) = ([], None)"
  by (induction n arbitrary: cnt) simp_all

text \<open>The terminal gets its attributes back when the user types \<^verbatim>\<open>#\<close>; but input that arrives just before the flag is cleared is not
  read until the next signal: if it ends with \<^verbatim>\<open>#\<close>, the program does not end.\<close>

lemma sig_queue_io_restores:
  assumes "False \<notin> set oks" "CHR ''#'' \<notin> set a"
  shows "\<exists>out. sig_queue_io_main oks True True True t ((a @ CHR ''#'' # r, late) # rs) = Done (out, Some (tl r @ late), t)"
proof -
  obtain out where "cb_read 0 (a @ CHR ''#'' # r) = (out, tl r, True)"
    using cb_read_hash [OF assms(2), of 0 r] by (metis prod.collapse)
  then show ?thesis using assms(1) by (simp add: sig_queue_io_main_def tty_set_cbreak_def)
qed

lemma sig_queue_io_lost_wakeup:
  assumes "False \<notin> set oks" "CHR ''#'' \<notin> set a" "a \<noteq> []"
  shows "\<exists>out. sig_queue_io_main oks True True True t ((a, late) # replicate n ([], [])) = Done (out, None, make_cbreak t)"
proof -
  obtain out where "cb_read 0 a = (out, [], False)"
    using cb_read_all [OF assms(2), of 0] by (metis prod.collapse)
  then show ?thesis using assms by (simp add: sig_queue_io_main_def tty_set_cbreak_def cb_loop_idle)
qed

end
