(* ===== verification/Datagrams.thy ===== *)
theory Datagrams
  imports Echo_Server
begin

text \<open>
  Connected datagram sockets: \<^verbatim>\<open>connect_socket_a.c\<close>, \<^verbatim>\<open>connect_socket_b.c\<close> and \<^verbatim>\<open>connect_socket_c.c\<close> of Section 57, in the UNIX domain, and the
  programs of the same names of Section 59, with UDP. In the UNIX domain the state is the set of socket paths with the queue of each
  socket; the three programs are the steps between the points where they wait for each other. The theorem says whose message the
  connected socket receives in every order in which the others run.
\<close>

subsection \<open>UNIX domain sockets\<close>

record dsock =
  ds_open :: bool                              \<comment> \<open>false: the path is left over\<close>
  ds_peer :: "string option"
  ds_queue :: "(string \<times> string) list"        \<comment> \<open>sender and data\<close>

type_synonym unet = "string \<rightharpoonup> dsock"

definition bind_path :: "string \<Rightarrow> unet \<Rightarrow> unet option" where
  "bind_path p net = (if p \<in> dom net then None else Some (net(p \<mapsto> \<lparr>ds_open = True, ds_peer = None, ds_queue = []\<rparr>)))"

text \<open>A socket connected to another accepts nothing from the rest.\<close>

definition accepts :: "string \<Rightarrow> string \<Rightarrow> unet \<Rightarrow> bool" where
  "accepts dst src net =
     (case net dst of None \<Rightarrow> False | Some d \<Rightarrow> ds_open d \<and> (ds_peer d = None \<or> ds_peer d = Some src))"

definition connect_path :: "string \<Rightarrow> string \<Rightarrow> unet \<Rightarrow> unet option" where
  "connect_path src dst net =
     (if accepts dst src net then map_option (\<lambda>d. net(src \<mapsto> d\<lparr>ds_peer := Some dst\<rparr>)) (net src) else None)"

definition send_path :: "string \<Rightarrow> string \<Rightarrow> string \<Rightarrow> unet \<Rightarrow> unet option" where
  "send_path src dst m net =
     (if accepts dst src net then map_option (\<lambda>d. net(dst \<mapsto> d\<lparr>ds_queue := ds_queue d @ [(src, m)]\<rparr>)) (net dst) else None)"

definition exit_path :: "string \<Rightarrow> unet \<Rightarrow> unet" where
  "exit_path p net = (case net p of None \<Rightarrow> net | Some d \<Rightarrow> net(p \<mapsto> d\<lparr>ds_open := False\<rparr>))"

abbreviation (input) path_a :: string where "path_a \<equiv> ''/tmp/a''"
abbreviation (input) path_b :: string where "path_b \<equiv> ''/tmp/b''"
abbreviation (input) path_c :: string where "path_c \<equiv> ''/tmp/c''"

subsection \<open>The three programs of Section 57\<close>

text \<open>Program a: to bind, to connect, and to receive, with a message of at most 1024 bytes. When the socket cannot be connected the
  program exits and leaves its path. \<open>None\<close>: it waits in \<^verbatim>\<open>recv\<close>.\<close>

definition a_bind :: "unet \<Rightarrow> unet run" where
  "a_bind net = (case bind_path path_a net of None \<Rightarrow> Exited EXIT_FAILURE | Some net' \<Rightarrow> Done net')"

definition a_connect :: "unet \<Rightarrow> int option \<times> unet" where
  "a_connect net =
     (case connect_path path_a path_b net of
        None \<Rightarrow> (Some EXIT_FAILURE, exit_path path_a net)
      | Some net' \<Rightarrow> (None, net'))"

definition a_recv :: "unet \<Rightarrow> (string \<times> unet) option" where
  "a_recv net =
     (case net path_a of
        None \<Rightarrow> None
      | Some d \<Rightarrow>
          case ds_queue d of
            [] \<Rightarrow> None
          | (src, m) # q \<Rightarrow>
              Some (''recv '' @ dec_int (int (length (take 1024 m))) @ '' bytes message'' @ [newline], net(path_a := None)))"

text \<open>Programs b and c: to bind, and to send a buffer of 1024 bytes that begins with their text. Their path is removed at the end.\<close>

definition msg_of :: "string \<Rightarrow> string" where
  "msg_of s = s @ replicate (1024 - length s) NUL"

definition sender_bind :: "string \<Rightarrow> unet \<Rightarrow> unet run" where
  "sender_bind p net = (case bind_path p net of None \<Rightarrow> Exited EXIT_FAILURE | Some net' \<Rightarrow> Done net')"

definition sender_send :: "string \<Rightarrow> string \<Rightarrow> unet \<Rightarrow> string \<times> unet" where
  "sender_send p s net =
     (case send_path p path_a (msg_of s) net of
        None \<Rightarrow> ([], net(p := None))
      | Some net' \<Rightarrow> (''send '' @ dec_int 1024 @ '' bytes message'' @ [newline], net'(p := None)))"

definition b_bind :: "unet \<Rightarrow> unet run" where
  "b_bind = sender_bind path_b"

definition b_send :: "unet \<Rightarrow> string \<times> unet" where
  "b_send net = sender_send path_b (''I am b'' @ [newline]) net"

definition c_main :: "unet \<Rightarrow> (string \<times> unet) run" where
  "c_main net = run_bind (sender_bind path_c net) (\<lambda>net'. Done (sender_send path_c (''I am c'' @ [newline]) net'))"

lemma path_neq: "path_a \<noteq> path_b" "path_a \<noteq> path_c" "path_b \<noteq> path_c" by simp_all

text \<open>Program c on a network in which a is connected to b: it sends nothing and leaves the other sockets alone.\<close>

lemma c_main_refused:
  assumes "net path_a = Some d" "ds_peer d = Some path_b" "net path_c = None"
  shows "c_main net = Done ([], net)"
proof -
  have "\<not> accepts path_a path_c (net(path_c \<mapsto> x))" for x
    using assms(1,2) by (simp add: accepts_def)
  moreover have "net(path_c := None) = net" using assms(3) by (simp add: fun_upd_idem)
  ultimately show ?thesis
    using assms(3) by (simp add: c_main_def sender_bind_def sender_send_def bind_path_def send_path_def dom_def)
qed

text \<open>The network after b has bound its socket.\<close>

definition net_b :: unet where
  "net_b = [path_b \<mapsto> \<lparr>ds_open = True, ds_peer = None, ds_queue = []\<rparr>]"

text \<open>Any number of runs of program c.\<close>

fun c_runs :: "nat \<Rightarrow> unet \<Rightarrow> unet run" where
  "c_runs 0 net = Done net"
| "c_runs (Suc n) net = run_bind (c_main net) (\<lambda>(out, net'). c_runs n net')"

text \<open>when a has connected to b, it receives the message of b however often c runs before; a message that c sends between
  the \<^verbatim>\<open>bind\<close> and the \<^verbatim>\<open>connect\<close> of a is received in its place; and when a starts before b, its path stays behind and it cannot be
  started again.\<close>

theorem connected_receives:
  "run_bind (b_bind Map.empty) (\<lambda>n1. run_bind (a_bind n1) (\<lambda>n2. case a_connect n2 of (st, n3) \<Rightarrow>
      run_bind (c_runs n n3) (\<lambda>n4. case b_send n4 of (out, n5) \<Rightarrow>
        Done (out, map_option fst (a_recv n5), ds_queue (the (n5 path_a)))))) =
    Done (''send '' @ dec_int 1024 @ '' bytes message'' @ [newline], Some (''recv '' @ dec_int 1024 @ '' bytes message'' @ [newline]),
      [(path_b, msg_of (''I am b'' @ [newline]))]) \<and>
   run_bind (a_bind net_b) (\<lambda>n2. run_bind (c_main n2) (\<lambda>(oc, n3). case a_connect n3 of (st, n4) \<Rightarrow>
      Done (st, ds_queue (the (n4 path_a))))) = Done (None, [(path_c, msg_of (''I am c'' @ [newline]))]) \<and>
   run_bind (a_bind Map.empty) (\<lambda>n2. a_bind (snd (a_connect n2))) = Exited EXIT_FAILURE"
proof (intro conjI)
  let ?a = "\<lparr>ds_open = True, ds_peer = Some path_b, ds_queue = []\<rparr>"
  let ?n = "net_b(path_a \<mapsto> ?a)"
  have cm: "c_main ?n = Done ([], ?n)" by (rule c_main_refused [of _ ?a]) (simp_all add: net_b_def)
  have c: "c_runs n ?n = Done ?n" for n by (induction n) (simp_all only: c_runs.simps cm run_bind.simps prod.case)
  have b: "b_bind Map.empty = Done net_b" by (simp add: b_bind_def sender_bind_def bind_path_def net_b_def)
  have a: "a_bind net_b = Done (net_b(path_a \<mapsto> \<lparr>ds_open = True, ds_peer = None, ds_queue = []\<rparr>))"
    by (simp add: a_bind_def bind_path_def net_b_def)
  have k: "a_connect (net_b(path_a \<mapsto> \<lparr>ds_open = True, ds_peer = None, ds_queue = []\<rparr>)) = (None, ?n)"
    by (simp add: a_connect_def connect_path_def accepts_def net_b_def)
  have "length (msg_of (''I am b'' @ [newline])) = 1024" by (simp add: msg_of_def)
  then show "run_bind (b_bind Map.empty) (\<lambda>n1. run_bind (a_bind n1) (\<lambda>n2. case a_connect n2 of (st, n3) \<Rightarrow>
      run_bind (c_runs n n3) (\<lambda>n4. case b_send n4 of (out, n5) \<Rightarrow>
        Done (out, map_option fst (a_recv n5), ds_queue (the (n5 path_a)))))) =
    Done (''send '' @ dec_int 1024 @ '' bytes message'' @ [newline], Some (''recv '' @ dec_int 1024 @ '' bytes message'' @ [newline]),
      [(path_b, msg_of (''I am b'' @ [newline]))])"
    unfolding a b k run_bind.simps prod.case c by (simp add: b_send_def sender_send_def send_path_def accepts_def net_b_def a_recv_def)
  show "run_bind (a_bind net_b) (\<lambda>n2. run_bind (c_main n2) (\<lambda>(oc, n3). case a_connect n3 of (st, n4) \<Rightarrow>
      Done (st, ds_queue (the (n4 path_a))))) = Done (None, [(path_c, msg_of (''I am c'' @ [newline]))])"
    using a by (simp add: c_main_def sender_bind_def sender_send_def send_path_def bind_path_def accepts_def net_b_def
      a_connect_def connect_path_def)
  show "run_bind (a_bind Map.empty) (\<lambda>n2. a_bind (snd (a_connect n2))) = Exited EXIT_FAILURE"
    by (simp add: a_bind_def bind_path_def a_connect_def connect_path_def accepts_def exit_path_def)
qed

subsection \<open>The three programs of Section 59\<close>

text \<open>Program a: the addresses of the server, the answer of \<^verbatim>\<open>send\<close>, and the answer of \<^verbatim>\<open>recv\<close>, \<open>None\<close> while there is no datagram.\<close>

definition udp_a_main :: "ai list option \<Rightarrow> bool \<Rightarrow> bool option \<Rightarrow> string run" where
  "udp_a_main addrs send_ok recv =
     (case addrs of
        None \<Rightarrow> Exited EXIT_FAILURE
      | Some ais \<Rightarrow>
          case fst (connect_first ais) of
            None \<Rightarrow> Exited EXIT_FAILURE
          | Some cfd \<Rightarrow>
              if \<not> send_ok then Exited EXIT_FAILURE
              else case recv of
                None \<Rightarrow> Faulted Deadlock
              | Some False \<Rightarrow> Exited EXIT_FAILURE
              | Some True \<Rightarrow> Done (''Client connect to server'' @ [newline] @ ''send success!'' @ ''recv message''))"

text \<open>Program b prints the length of every datagram, cut to its buffer, with the name of the sender; it answers none. \<open>Inl\<close>: a
  failing \<^verbatim>\<open>recvfrom\<close>.\<close>

fun udp_b_loop :: "(errno + string \<times> (string \<times> string) option) list \<Rightarrow> string" where
  "udp_b_loop [] = []"
| "udp_b_loop (Inl e # r) = udp_b_loop r"
| "udp_b_loop (Inr (m, name) # r) =
     ''Receieve '' @ dec_int (int (length (take 1024 m))) @ '' bytes message from '' @
     (case name of None \<Rightarrow> ''[UNKNOWN]'' | Some (host, service) \<Rightarrow> ''['' @ host @ '':'' @ service @ '']'') @ [newline] @
     udp_b_loop r"

definition udp_b_main :: "ai list option \<Rightarrow> (errno + string \<times> (string \<times> string) option) list \<Rightarrow> string run" where
  "udp_b_main addrs r =
     (case addrs of
        None \<Rightarrow> Exited EXIT_FAILURE
      | Some ais \<Rightarrow> (case bind_first False ais of Some (Some x) \<Rightarrow> Done (udp_b_loop r) | _ \<Rightarrow> Exited EXIT_FAILURE))"

text \<open>Program c: its own address from the port on the command line, then one datagram to the first address of the server; \<open>sent\<close> are
  the answers of the attempts, all of which go to that address.\<close>

definition udp_c_main :: "(string \<Rightarrow> ai list option) \<Rightarrow> ai list option \<Rightarrow> bool list \<Rightarrow> string list \<Rightarrow> (string \<times> nat) run" where
  "udp_c_main self server sent argv =
     (if length argv \<noteq> 2 \<or> argv ! 1 = ''--help'' then Exited EXIT_FAILURE
      else case self (argv ! 1) of
        None \<Rightarrow> Exited EXIT_FAILURE
      | Some ais \<Rightarrow>
          case bind_first False ais of
            Some (Some x) \<Rightarrow>
              (case server of
                 None \<Rightarrow> Exited EXIT_FAILURE
               | Some sv \<Rightarrow>
                   let tries = take (length sv) sent in
                   if True \<in> set tries then Done (''send success'' @ [newline], length (takeWhile Not tries) + 1)
                   else Exited EXIT_FAILURE)
          | _ \<Rightarrow> Exited EXIT_FAILURE)"

text \<open>With program b as the server, which never answers, program a waits for ever after its datagram was sent.\<close>

lemma udp_a_waits:
  "fst (connect_first ais) = Some cfd \<Longrightarrow> udp_a_main (Some ais) True None = Faulted Deadlock \<and>
     udp_b_loop [Inr (''Hello!'', None)] = ''Receieve 6 bytes message from [UNKNOWN]'' @ [newline]"
  by (simp add: udp_a_main_def dec_int_def dec_nat.simps [of 6] digit_char_values)

end
