(* ===== verification/Children.thy ===== *)
theory Children
  imports Commands
begin

text \<open>
  Parents and children: \<^verbatim>\<open>vfork.c\<close> (Section 24), \<^verbatim>\<open>getppid_test.c\<close>, \<^verbatim>\<open>grandp_parent_son.c\<close>, \<^verbatim>\<open>make_zombie.c\<close> and \<^verbatim>\<open>use_waitid.c\<close> (Section 26),
  \<^verbatim>\<open>parent_setpgid_exec.c\<close> and \<^verbatim>\<open>pgrp_firstp_setsid.c\<close> (Section 34). The kernel keeps the tree of processes, the zombies and the
  process groups. The programs order their processes by sleeping; the models take the order that the sleeping times give. The lemmas
  say when a process is adopted and when its zombie disappears, and what the programs print.
\<close>

subsection \<open>The process table\<close>

record ktab =
  k_parent :: "int \<Rightarrow> int"
  k_alive :: "int set"
  k_zombie :: "int set"
  k_execd :: "int set"
  k_pgid :: "int \<Rightarrow> int"
  k_sid :: "int \<Rightarrow> int"

definition k_fork :: "int \<Rightarrow> int \<Rightarrow> ktab \<Rightarrow> ktab" where
  "k_fork p c k = k\<lparr>k_parent := (k_parent k)(c := p), k_alive := insert c (k_alive k), k_execd := k_execd k - {c},
     k_pgid := (k_pgid k)(c := k_pgid k p), k_sid := (k_sid k)(c := k_sid k p)\<rparr>"

text \<open>A process that ends is a zombie until its parent waits; its children get the parent 1, which waits at once.\<close>

definition k_exit :: "int \<Rightarrow> ktab \<Rightarrow> ktab" where
  "k_exit p k = k\<lparr>k_alive := k_alive k - {p},
     k_zombie := {z \<in> insert p (k_zombie k). k_parent k z \<noteq> 1 \<and> k_parent k z \<noteq> p},
     k_parent := (\<lambda>x. if k_parent k x = p then 1 else k_parent k x)\<rparr>"

definition k_wait :: "int \<Rightarrow> int \<Rightarrow> ktab \<Rightarrow> ktab" where
  "k_wait p c k = (if c \<in> k_zombie k \<and> k_parent k c = p then k\<lparr>k_zombie := k_zombie k - {c}\<rparr> else k)"

text \<open>A process may move itself or a child that has not executed a program, within its session and not a session leader.\<close>

definition k_setpgid :: "int \<Rightarrow> int \<Rightarrow> int \<Rightarrow> ktab \<Rightarrow> ktab option" where
  "k_setpgid p target pg k =
     (if (target = p \<or> (k_parent k target = p \<and> target \<notin> k_execd k)) \<and> k_sid k target = k_sid k p \<and> k_sid k target \<noteq> target
      then Some (k\<lparr>k_pgid := (k_pgid k)(target := if pg = 0 then target else pg)\<rparr>) else None)"

text \<open>The leader of a process group cannot start a session.\<close>

definition k_setsid :: "int \<Rightarrow> ktab \<Rightarrow> ktab option" where
  "k_setsid p k = (if k_pgid k p = p then None else Some (k\<lparr>k_sid := (k_sid k)(p := p), k_pgid := (k_pgid k)(p := p)\<rparr>))"

subsection \<open>\<^verbatim>\<open>getppid_test.c\<close> and \<^verbatim>\<open>grandp_parent_son.c\<close>\<close>

text \<open>The child \<open>c\<close> sleeps while the parent \<open>p\<close> exits.\<close>

definition getppid_test_main :: "bool \<Rightarrow> int \<Rightarrow> int \<Rightarrow> ktab \<Rightarrow> string run" where
  "getppid_test_main fork_ok p c k =
     (if \<not> fork_ok then Exited EXIT_FAILURE
      else Done (''ppid: '' @ dec_int (k_parent (k_exit p (k_fork p c k)) c) @ [newline]))"

text \<open>The grandparent \<open>g\<close> waits five seconds after the parent \<open>p\<close> has ended; the child \<open>c\<close> prints the number of its parent before and after.
  The result is the output of the child and the zombies at the two times.\<close>

definition grandp_main :: "int \<Rightarrow> int \<Rightarrow> int \<Rightarrow> ktab \<Rightarrow> string \<times> int set \<times> int set" where
  "grandp_main g p c k =
     (let k1 = k_exit p (k_fork p c (k_fork g p k)); k2 = k_wait g p k1 in
      (''son waiting'' @ [newline] @ ''pid before wait: '' @ dec_int (k_parent k1 c) @ [newline] @
         ''pid after wait: '' @ dec_int (k_parent k2 c) @ [newline],
       k_zombie k1, k_zombie k2))"

lemma getppid_adopted: "getppid_test_main True p c k = Done (''ppid: '' @ dec_int 1 @ [newline])"
  by (simp add: getppid_test_main_def k_exit_def k_fork_def)

text \<open>The child is adopted when its parent ends, not when the zombie of the parent is removed.\<close>

lemma grandp_adopted:
  assumes "g \<noteq> p" "p \<noteq> c" "g \<noteq> 1" "k_zombie k = {}"
  shows "grandp_main g p c k = (''son waiting'' @ [newline] @ ''pid before wait: '' @ dec_int 1 @ [newline] @
    ''pid after wait: '' @ dec_int 1 @ [newline], {p}, {})"
  using assms by (auto simp: grandp_main_def k_exit_def k_fork_def k_wait_def Let_def)

subsection \<open>\<^verbatim>\<open>make_zombie.c\<close> and \<^verbatim>\<open>vfork.c\<close>\<close>

text \<open>After the signal of the child the terminator is written behind the 200 bytes of \<^verbatim>\<open>cmd\<close>.\<close>

definition make_zombie_main :: "bool \<Rightarrow> bool \<Rightarrow> bool \<Rightarrow> string run" where
  "make_zombie_main mask_ok fork_ok wait_ok =
     (if \<not> mask_ok then Exited EXIT_FAILURE
      else if \<not> fork_ok then Exited EXIT_FAILURE
      else if \<not> wait_ok then Exited EXIT_SUCCESS
      else Faulted OutOfBounds)"

text \<open>Parent and child of \<^verbatim>\<open>vfork\<close> share their memory, not their descriptors. \<open>open0\<close>: descriptor 0 is open. The outputs of child and parent,
  and the status of the parent.\<close>

definition vfork_main :: "bool \<Rightarrow> bool \<Rightarrow> string \<times> string \<times> int" where
  "vfork_main vfork_ok open0 =
     (if \<not> vfork_ok then ([], [], EXIT_FAILURE)
      else
        let child = (if open0 then ''child process rm 0 fd success'' @ [newline] else []) in
        if open0 then (child, ''close success, fd exist'' @ [newline], EXIT_SUCCESS) else (child, [], EXIT_FAILURE))"

subsection \<open>\<^verbatim>\<open>use_waitid.c\<close>\<close>

definition hex_digit :: "nat \<Rightarrow> char" where
  "hex_digit d = (if d < 10 then digit_char d else char_of (87 + d))"

definition hex4 :: "nat \<Rightarrow> string" where
  "hex4 n = map (\<lambda>i. hex_digit (n div 16 ^ i mod 16)) [3, 2, 1, 0]"

text \<open>What \<^verbatim>\<open>waitid\<close> reports: the code, and the exit status or the signal.\<close>

fun si_code :: "child_end \<Rightarrow> string" where
  "si_code (Exit_With n) = ''CLD_EXITED''"
| "si_code (Killed_By sig) = ''CLD_KILLED''"

fun si_status :: "child_end \<Rightarrow> nat" where
  "si_status (Exit_With n) = n mod 256"
| "si_status (Killed_By sig) = sig"

text \<open>The signal numbers whose default action leaves a core file: their code is not among those of the program.\<close>

definition core_sig :: "nat \<Rightarrow> bool" where
  "core_sig s \<longleftrightarrow> s \<in> {3, 4, 5, 6, 7, 8, 11, 24, 25, 31}"

definition print_siginfo :: "bool \<Rightarrow> child_end \<Rightarrow> int \<Rightarrow> int \<Rightarrow> string run" where
  "print_siginfo dumped e pid uid =
     (if dumped then Exited EXIT_FAILURE
      else Done (''si_code: '' @ [CHR 0x09] @ si_code e @ [newline] @ ''si_pid: '' @ [CHR 0x09] @ dec_int pid @ [newline] @
        ''si_signo:'' @ [CHR 0x09] @ ''SIGCHLD'' @ [newline] @
        ''si_status: '' @ [CHR 0x09] @ ''0x'' @ hex4 (si_status e) @ [CHR 0x09] @ dec_nat (si_status e div 256) @ [CHR 0x09] @
          dec_nat (si_status e mod 256) @ [newline] @
        ''si_uid: '' @ [CHR 0x09] @ dec_int uid @ [newline]))"

text \<open>The program: with an argument the child exits with it, without it waits for a signal (\<open>None\<close>: none comes). The number that
  is printed as the process is the result of \<^verbatim>\<open>waitid\<close>, which is 0.\<close>

definition use_waitid_main :: "bool \<Rightarrow> nat option \<Rightarrow> int \<Rightarrow> int \<Rightarrow> string list \<Rightarrow> string run" where
  "use_waitid_main fork_ok killed pid uid argv =
     (if length argv > 1 \<and> argv ! 1 = ''--help'' then Exited EXIT_FAILURE
      else if \<not> fork_ok then Exited EXIT_FAILURE
      else
        let line = ''waitid() returned: PID = '' @ dec_int 0 @ '';'' @ [newline] in
        if length argv > 1 then
          run_bind (print_siginfo False (Exit_With (nat (atoi (argv ! 1) mod 256))) pid uid) (\<lambda>out. Done (line @ out))
        else case killed of
          None \<Rightarrow> Faulted Deadlock
        | Some sig \<Rightarrow> run_bind (print_siginfo (core_sig sig) (Killed_By sig) pid uid) (\<lambda>out. Done (line @ out)))"

text \<open>The status of \<^verbatim>\<open>waitid\<close> is the exit status itself, so that the part above the low byte is always 0.\<close>

lemma use_waitid_exit:
  assumes "is_int32 v" "0 \<le> v" "v < 256"
  shows "use_waitid_main True killed pid uid [p, dec_int v] =
    Done (''waitid() returned: PID = '' @ dec_int 0 @ '';'' @ [newline] @
      ''si_code: '' @ [CHR 0x09] @ ''CLD_EXITED'' @ [newline] @ ''si_pid: '' @ [CHR 0x09] @ dec_int pid @ [newline] @
      ''si_signo:'' @ [CHR 0x09] @ ''SIGCHLD'' @ [newline] @
      ''si_status: '' @ [CHR 0x09] @ ''0x'' @ hex4 (nat v) @ [CHR 0x09] @ dec_nat 0 @ [CHR 0x09] @ dec_nat (nat v) @ [newline] @
      ''si_uid: '' @ [CHR 0x09] @ dec_int uid @ [newline])"
proof -
  have "nat v < 256" using assms(3) by simp
  then show ?thesis
    using assms dec_int_not_help [of v] by (simp add: use_waitid_main_def atoi_dec_int print_siginfo_def)
qed

subsection \<open>\<^verbatim>\<open>parent_setpgid_exec.c\<close> and \<^verbatim>\<open>pgrp_firstp_setsid.c\<close>\<close>

text \<open>The child \<open>c\<close> executes its program (\<open>exec_ok\<close>) while the parent \<open>p\<close> sleeps. The outputs of parent and child and whether the group of
  the child was set.\<close>

definition setpgid_exec_main :: "bool \<Rightarrow> bool \<Rightarrow> int \<Rightarrow> int \<Rightarrow> ktab \<Rightarrow> (string \<times> string \<times> bool) run" where
  "setpgid_exec_main fork_ok exec_ok p c k =
     (if \<not> fork_ok then Exited EXIT_FAILURE
      else
        let k1 = k_fork p c k;
            k2 = (if exec_ok then k1\<lparr>k_execd := insert c (k_execd k1)\<rparr> else k_exit c k1) in
        Done (''Main exit'' @ [newline], if exec_ok then [] else ''Servant exit'' @ [newline], k_setpgid p c 0 k2 \<noteq> None))"

definition setsid_main :: "int \<Rightarrow> ktab \<Rightarrow> int" where
  "setsid_main p k = (case k_setsid p k of None \<Rightarrow> EXIT_FAILURE | Some k' \<Rightarrow> EXIT_SUCCESS)"

lemma setpgid_after_exec:
  assumes "p \<noteq> c"
  shows "setpgid_exec_main True True p c k = Done (''Main exit'' @ [newline], [], False)"
  using assms by (simp add: setpgid_exec_main_def k_setpgid_def Let_def)

lemma setsid_leader: "setsid_main p k = EXIT_FAILURE \<longleftrightarrow> k_pgid k p = p"
  by (simp add: setsid_main_def k_setsid_def)

end
