(* ===== verification/Socket_Pipe.thy ===== *)
theory Socket_Pipe
  imports Messages Transitions
begin

text \<open>
  Section 61, \<^verbatim>\<open>my_pipe.c\<close> and the version of \<^verbatim>\<open>p_c_pipe.c\<close> that stands on it. \<^verbatim>\<open>my_pipe\<close> makes a pipe from a pair of connected sockets by
  shutting down one direction. The locale \<open>pipe_impl\<close> is the contract of a pipe: the operations on its two ends, seen through a map to
  the pipe of the kernel, behave as those of the kernel. It is interpreted on the kernel's pipe and on the socket pair. The program, parent
  and child with one step per system call, takes the operations as an argument; the theorems on its interleavings are proved for
  the kernel's pipe and carried over by the contract.
\<close>

subsection \<open>The pipe of the kernel\<close>

text \<open>The result of a write: it blocks, it fails because nobody can read (and the process is killed), or it succeeds.\<close>

datatype 's wrote = Blocked | Broken | Wrote 's

text \<open>The operations on the two ends of a pipe; reading returns nothing only at the end of the data, \<open>None\<close> while it blocks.\<close>

record 's pipe_ops =
  po_write :: "string \<Rightarrow> 's \<Rightarrow> 's wrote"
  po_read :: "nat \<Rightarrow> 's \<Rightarrow> (string \<times> 's) option"
  po_close_w :: "'s \<Rightarrow> 's"
  po_close_r :: "'s \<Rightarrow> 's"

record kpipe =
  kp_buf :: string
  kp_w :: nat              \<comment> \<open>open descriptors of the write end\<close>
  kp_r :: nat

definition kp_write :: "nat \<Rightarrow> string \<Rightarrow> kpipe \<Rightarrow> kpipe wrote" where
  "kp_write cap b p =
     (if b = [] then Wrote p
      else if kp_r p = 0 then Broken
      else if length (kp_buf p) + length b \<le> cap then Wrote (p\<lparr>kp_buf := kp_buf p @ b\<rparr>) else Blocked)"

definition kp_read :: "nat \<Rightarrow> kpipe \<Rightarrow> (string \<times> kpipe) option" where
  "kp_read n p =
     (if kp_buf p \<noteq> [] then Some (take n (kp_buf p), p\<lparr>kp_buf := drop n (kp_buf p)\<rparr>)
      else if kp_w p = 0 then Some ([], p) else None)"

definition kernel_pipe :: "nat \<Rightarrow> kpipe pipe_ops" where
  "kernel_pipe cap = \<lparr>po_write = kp_write cap, po_read = kp_read,
     po_close_w = (\<lambda>p. p\<lparr>kp_w := kp_w p - 1\<rparr>), po_close_r = (\<lambda>p. p\<lparr>kp_r := kp_r p - 1\<rparr>)\<rparr>"

subsection \<open>A connected pair of sockets\<close>

record sock =
  sk_in :: string          \<comment> \<open>received and not yet read\<close>
  sk_refs :: nat
  sk_rdshut :: bool
  sk_wrshut :: bool

type_synonym sockpair = "sock \<times> sock"

text \<open>Sending on a socket whose peer is \<open>peer\<close>, and receiving.\<close>

definition sk_send :: "nat \<Rightarrow> string \<Rightarrow> sock \<Rightarrow> sock \<Rightarrow> sock wrote" where
  "sk_send cap b s peer =
     (if sk_wrshut s then Broken
      else if b = [] then Wrote peer
      else if sk_rdshut peer \<or> sk_refs peer = 0 then Broken
      else if length (sk_in peer) + length b \<le> cap then Wrote (peer\<lparr>sk_in := sk_in peer @ b\<rparr>) else Blocked)"

definition sk_recv :: "nat \<Rightarrow> sock \<Rightarrow> sock \<Rightarrow> (string \<times> sock) option" where
  "sk_recv n s peer =
     (if sk_in s \<noteq> [] then Some (take n (sk_in s), s\<lparr>sk_in := drop n (sk_in s)\<rparr>)
      else if sk_rdshut s \<or> sk_wrshut peer \<or> sk_refs peer = 0 then Some ([], s) else None)"

text \<open>\<^verbatim>\<open>my_pipe\<close>: \<open>None\<close> when \<^verbatim>\<open>socketpair\<close> fails. Socket 0 becomes the read end and socket 1 the write end.\<close>

definition my_pipe :: "bool \<Rightarrow> int \<times> sockpair option" where
  "my_pipe pair_ok =
     (if \<not> pair_ok then (- 1, None)
      else
        let fresh = \<lparr>sk_in = [], sk_refs = 1, sk_rdshut = False, sk_wrshut = False\<rparr> in
        (0, Some (fresh\<lparr>sk_wrshut := True\<rparr>, fresh\<lparr>sk_rdshut := True\<rparr>)))"

definition sock_pipe :: "nat \<Rightarrow> sockpair pipe_ops" where
  "sock_pipe cap =
     \<lparr>po_write = (\<lambda>b (s0, s1). case sk_send cap b s1 s0 of Blocked \<Rightarrow> Blocked | Broken \<Rightarrow> Broken | Wrote s0' \<Rightarrow> Wrote (s0', s1)),
      po_read = (\<lambda>n (s0, s1). map_option (\<lambda>(b, s0'). (b, (s0', s1))) (sk_recv n s0 s1)),
      po_close_w = (\<lambda>(s0, s1). (s0, s1\<lparr>sk_refs := sk_refs s1 - 1\<rparr>)),
      po_close_r = (\<lambda>(s0, s1). (s0\<lparr>sk_refs := sk_refs s0 - 1\<rparr>, s1))\<rparr>"

text \<open>The other two directions: a pipe refuses them, here reading from the write end finds the end of the data and writing to the
  read end fails as if nobody read.\<close>

lemma my_pipe_other_direction:
  "my_pipe True = (0, Some (s0, s1)) \<Longrightarrow> sk_recv n s1 s0 = Some ([], s1) \<and> sk_send cap b s0 s1 = Broken"
  by (auto simp: my_pipe_def sk_recv_def sk_send_def)

subsection \<open>The contract of a pipe\<close>

locale pipe_impl =
  fixes cap :: nat
    and ops :: "'s pipe_ops"
    and view :: "'s \<Rightarrow> kpipe"
    and ok :: "'s \<Rightarrow> bool"
  assumes write_view: "ok s \<Longrightarrow> map_wrote view (po_write ops b s) = kp_write cap b (view s)"
    and read_view: "ok s \<Longrightarrow> map_option (\<lambda>(b, t). (b, view t)) (po_read ops n s) = kp_read n (view s)"
    and close_w_view: "ok s \<Longrightarrow> view (po_close_w ops s) = (view s)\<lparr>kp_w := kp_w (view s) - 1\<rparr>"
    and close_r_view: "ok s \<Longrightarrow> view (po_close_r ops s) = (view s)\<lparr>kp_r := kp_r (view s) - 1\<rparr>"
    and write_ok: "ok s \<Longrightarrow> po_write ops b s = Wrote t \<Longrightarrow> ok t"
    and read_ok: "ok s \<Longrightarrow> po_read ops n s = Some (c, t) \<Longrightarrow> ok t"
    and close_ok: "ok s \<Longrightarrow> ok (po_close_w ops s) \<and> ok (po_close_r ops s)"

interpretation kernel: pipe_impl cap "kernel_pipe cap" "\<lambda>p. p" "\<lambda>_. True"
  by unfold_locales (auto simp: kernel_pipe_def wrote.map_ident option.map_id option.map_ident id_def case_prod_beta)

definition sock_view :: "sockpair \<Rightarrow> kpipe" where
  "sock_view p = \<lparr>kp_buf = sk_in (fst p), kp_w = sk_refs (snd p), kp_r = sk_refs (fst p)\<rparr>"

text \<open>The directions that \<^verbatim>\<open>my_pipe\<close> leaves open.\<close>

definition sock_ok :: "sockpair \<Rightarrow> bool" where
  "sock_ok p \<longleftrightarrow> \<not> sk_rdshut (fst p) \<and> \<not> sk_wrshut (snd p)"

interpretation sockets: pipe_impl cap "sock_pipe cap" sock_view sock_ok
  by unfold_locales
    (auto simp: sock_pipe_def sock_view_def sock_ok_def sk_send_def sk_recv_def kp_write_def kp_read_def split: if_splits)

subsection \<open>Parent and child\<close>

datatype ppc = P_Close1 | P_Close2 | P_Write | P_Read | P_Close3 | P_Close4 | P_Wait | P_Done | P_Failed
datatype cpc = C_Close1 | C_Close2 | C_Read | C_Write | C_Close3 | C_Close4 | C_Done | C_Failed

record 's pcs =
  pq1 :: 's
  pq2 :: 's
  pp_pc :: ppc
  cp_pc :: cpc
  p_got :: string
  c_got :: string

text \<open>A process that fails or is killed closes the descriptors it still has.\<close>

definition child61 :: "'s pipe_ops \<Rightarrow> 's pcs \<Rightarrow> 's pcs option" where
  "child61 o1 s =
     (case cp_pc s of
        C_Close1 \<Rightarrow> Some (s\<lparr>pq1 := po_close_w o1 (pq1 s), cp_pc := C_Close2\<rparr>)
      | C_Close2 \<Rightarrow> Some (s\<lparr>pq2 := po_close_r o1 (pq2 s), cp_pc := C_Read\<rparr>)
      | C_Read \<Rightarrow>
          (case po_read o1 1024 (pq1 s) of
             None \<Rightarrow> None
           | Some (b, q) \<Rightarrow>
               if b = [] then Some (s\<lparr>pq1 := po_close_r o1 q, pq2 := po_close_w o1 (pq2 s), cp_pc := C_Failed\<rparr>)
               else Some (s\<lparr>pq1 := q, c_got := b, cp_pc := C_Write\<rparr>))
      | C_Write \<Rightarrow>
          (case po_write o1 (map child_upper (c_got s)) (pq2 s) of
             Blocked \<Rightarrow> None
           | Broken \<Rightarrow> Some (s\<lparr>pq1 := po_close_r o1 (pq1 s), pq2 := po_close_w o1 (pq2 s), cp_pc := C_Failed\<rparr>)
           | Wrote q \<Rightarrow> Some (s\<lparr>pq2 := q, cp_pc := C_Close3\<rparr>))
      | C_Close3 \<Rightarrow> Some (s\<lparr>pq1 := po_close_r o1 (pq1 s), cp_pc := C_Close4\<rparr>)
      | C_Close4 \<Rightarrow> Some (s\<lparr>pq2 := po_close_w o1 (pq2 s), cp_pc := C_Done\<rparr>)
      | C_Done \<Rightarrow> None
      | C_Failed \<Rightarrow> None)"

definition parent61 :: "'s pipe_ops \<Rightarrow> string \<Rightarrow> 's pcs \<Rightarrow> 's pcs option" where
  "parent61 o1 msg s =
     (case pp_pc s of
        P_Close1 \<Rightarrow> Some (s\<lparr>pq1 := po_close_r o1 (pq1 s), pp_pc := P_Close2\<rparr>)
      | P_Close2 \<Rightarrow> Some (s\<lparr>pq2 := po_close_w o1 (pq2 s), pp_pc := P_Write\<rparr>)
      | P_Write \<Rightarrow>
          (case po_write o1 msg (pq1 s) of
             Blocked \<Rightarrow> None
           | Broken \<Rightarrow> Some (s\<lparr>pq1 := po_close_w o1 (pq1 s), pq2 := po_close_r o1 (pq2 s), pp_pc := P_Failed\<rparr>)
           | Wrote q \<Rightarrow> Some (s\<lparr>pq1 := q, pp_pc := P_Read\<rparr>))
      | P_Read \<Rightarrow>
          (case po_read o1 1024 (pq2 s) of
             None \<Rightarrow> None
           | Some (b, q) \<Rightarrow>
               if b = [] then Some (s\<lparr>pq1 := po_close_w o1 (pq1 s), pq2 := po_close_r o1 q, pp_pc := P_Failed\<rparr>)
               else Some (s\<lparr>pq2 := q, p_got := b, pp_pc := P_Close3\<rparr>))
      | P_Close3 \<Rightarrow> Some (s\<lparr>pq1 := po_close_w o1 (pq1 s), pp_pc := P_Close4\<rparr>)
      | P_Close4 \<Rightarrow> Some (s\<lparr>pq2 := po_close_r o1 (pq2 s), pp_pc := P_Wait\<rparr>)
      | P_Wait \<Rightarrow> if cp_pc s = C_Done \<or> cp_pc s = C_Failed then Some (s\<lparr>pp_pc := P_Done\<rparr>) else None
      | P_Done \<Rightarrow> None
      | P_Failed \<Rightarrow> None)"

definition step61 :: "'s pipe_ops \<Rightarrow> string \<Rightarrow> 's pcs \<Rightarrow> 's pcs \<Rightarrow> bool" where
  "step61 o1 msg s s' \<longleftrightarrow> child61 o1 s = Some s' \<or> parent61 o1 msg s = Some s'"

definition start61 :: "'s \<Rightarrow> 's \<Rightarrow> 's pcs" where
  "start61 q1 q2 = \<lparr>pq1 = q1, pq2 = q2, pp_pc = P_Close1, cp_pc = C_Close1, p_got = [], c_got = []\<rparr>"

subsection \<open>From the contract to the whole program\<close>

definition lift_pcs :: "('s \<Rightarrow> kpipe) \<Rightarrow> 's pcs \<Rightarrow> kpipe pcs" where
  "lift_pcs view s = \<lparr>pq1 = view (pq1 s), pq2 = view (pq2 s), pp_pc = pp_pc s, cp_pc = cp_pc s, p_got = p_got s, c_got = c_got s\<rparr>"

lemma lift_pcs_sel [simp]:
  "pq1 (lift_pcs v s) = v (pq1 s)" "pq2 (lift_pcs v s) = v (pq2 s)" "pp_pc (lift_pcs v s) = pp_pc s"
  "cp_pc (lift_pcs v s) = cp_pc s" "p_got (lift_pcs v s) = p_got s" "c_got (lift_pcs v s) = c_got s"
  by (simp_all add: lift_pcs_def)

lemma kernel_pipe_sel [simp]:
  "po_write (kernel_pipe cap) = kp_write cap" "po_read (kernel_pipe cap) = kp_read"
  "po_close_w (kernel_pipe cap) p = p\<lparr>kp_w := kp_w p - 1\<rparr>" "po_close_r (kernel_pipe cap) p = p\<lparr>kp_r := kp_r p - 1\<rparr>"
  by (simp_all add: kernel_pipe_def)

context pipe_impl
begin

definition both_ok :: "'s pcs \<Rightarrow> bool" where
  "both_ok s \<longleftrightarrow> ok (pq1 s) \<and> ok (pq2 s)"

lemma write_cases:
  assumes "ok s"
  shows "(po_write ops b s = Blocked \<and> kp_write cap b (view s) = Blocked) \<or>
    (po_write ops b s = Broken \<and> kp_write cap b (view s) = Broken) \<or>
    (\<exists>t. po_write ops b s = Wrote t \<and> ok t \<and> kp_write cap b (view s) = Wrote (view t))"
  using write_view [OF assms, of b] write_ok [OF assms, of b] by (cases "po_write ops b s") auto

lemma read_cases:
  assumes "ok s"
  shows "(po_read ops n s = None \<and> kp_read n (view s) = None) \<or>
    (\<exists>b t. po_read ops n s = Some (b, t) \<and> ok t \<and> kp_read n (view s) = Some (b, view t))"
  using read_view [OF assms, of n] read_ok [OF assms, of n] by (cases "po_read ops n s") auto

lemma child_lift:
  assumes "both_ok s"
  shows "map_option (lift_pcs view) (child61 ops s) = child61 (kernel_pipe cap) (lift_pcs view s) \<and> pred_option both_ok (child61 ops s)"
proof -
  have o: "ok (pq1 s)" "ok (pq2 s)" using assms by (simp_all add: both_ok_def)
  show ?thesis
  proof (cases "cp_pc s")
    case C_Read
    then show ?thesis using read_cases [OF o(1), of 1024]
      by (elim disjE exE conjE) (simp_all add: child61_def lift_pcs_def both_ok_def o close_ok close_w_view close_r_view)
  next
    case C_Write
    then show ?thesis using write_cases [OF o(2), of "map child_upper (c_got s)"]
      by (elim disjE exE conjE) (simp_all add: child61_def lift_pcs_def both_ok_def o close_ok close_w_view close_r_view)
  qed (simp_all add: child61_def lift_pcs_def both_ok_def o close_ok close_w_view close_r_view)
qed

lemma parent_lift:
  assumes "both_ok s"
  shows "map_option (lift_pcs view) (parent61 ops msg s) = parent61 (kernel_pipe cap) msg (lift_pcs view s) \<and>
    pred_option both_ok (parent61 ops msg s)"
proof -
  have o: "ok (pq1 s)" "ok (pq2 s)" using assms by (simp_all add: both_ok_def)
  show ?thesis
  proof (cases "pp_pc s")
    case P_Read
    then show ?thesis using read_cases [OF o(2), of 1024]
      by (elim disjE exE conjE) (simp_all add: parent61_def lift_pcs_def both_ok_def o close_ok close_w_view close_r_view)
  next
    case P_Write
    then show ?thesis using write_cases [OF o(1), of msg]
      by (elim disjE exE conjE) (simp_all add: parent61_def lift_pcs_def both_ok_def o close_ok close_w_view close_r_view)
  qed (simp_all add: parent61_def lift_pcs_def both_ok_def o close_ok close_w_view close_r_view)
qed

lemma step_lift: "both_ok s \<Longrightarrow> step61 ops msg s s' \<Longrightarrow> both_ok s' \<and> step61 (kernel_pipe cap) msg (lift_pcs view s) (lift_pcs view s')"
  using child_lift [of s] parent_lift [of s msg] unfolding step61_def by (metis option.pred_inject(2) option.simps(9))

lemma step_back:
  "both_ok s \<Longrightarrow> step61 (kernel_pipe cap) msg (lift_pcs view s) t \<Longrightarrow> \<exists>s'. step61 ops msg s s' \<and> t = lift_pcs view s'"
  using child_lift [of s] parent_lift [of s msg] unfolding step61_def by (metis map_option_eq_Some)

lemma steps_back:
  "(step61 (kernel_pipe cap) msg)\<^sup>*\<^sup>* (lift_pcs view s) t \<Longrightarrow> both_ok s \<Longrightarrow>
     \<exists>s'. (step61 ops msg)\<^sup>*\<^sup>* s s' \<and> both_ok s' \<and> t = lift_pcs view s'"
proof (induction rule: rtranclp_induct)
  case (step t u)
  then obtain s' where s': "(step61 ops msg)\<^sup>*\<^sup>* s s'" "both_ok s'" "t = lift_pcs view s'" by blast
  from step_back [OF s'(2)] step.hyps(2) s'(3) obtain s2 where "step61 ops msg s' s2" "u = lift_pcs view s2" by blast
  with s' step_lift [OF s'(2)] show ?case by (blast intro: rtranclp.rtrancl_into_rtrancl)
qed blast

lemma run_lift:
  "(step61 ops msg ^^ n) s s' \<Longrightarrow> both_ok s \<Longrightarrow> both_ok s' \<and> (step61 (kernel_pipe cap) msg ^^ n) (lift_pcs view s) (lift_pcs view s')"
proof (induction n arbitrary: s')
  case (Suc n)
  from Suc.prems(1) obtain t where t: "(step61 ops msg ^^ n) s t" "step61 ops msg t s'" by auto
  from Suc.IH [OF t(1) Suc.prems(2)] step_lift [OF _ t(2)] show ?case by auto
qed simp

lemma steps_lift:
  "(step61 ops msg)\<^sup>*\<^sup>* s s' \<Longrightarrow> both_ok s \<Longrightarrow> both_ok s' \<and> (step61 (kernel_pipe cap) msg)\<^sup>*\<^sup>* (lift_pcs view s) (lift_pcs view s')"
proof (induction rule: rtranclp_induct)
  case (step t u)
  then have t: "both_ok t" "(step61 (kernel_pipe cap) msg)\<^sup>*\<^sup>* (lift_pcs view s) (lift_pcs view t)" by blast+
  from step_lift [OF t(1) step.hyps(2)] t(2) show ?case by (blast intro: rtranclp.rtrancl_into_rtrancl)
qed simp

end

subsection \<open>The interleavings on the pipe of the kernel\<close>

primrec prank :: "ppc \<Rightarrow> nat" where
  "prank P_Close1 = 0" | "prank P_Close2 = 1" | "prank P_Write = 2" | "prank P_Read = 3" | "prank P_Close3 = 4"
| "prank P_Close4 = 5" | "prank P_Wait = 6" | "prank P_Done = 7" | "prank P_Failed = 8"

primrec crank :: "cpc \<Rightarrow> nat" where
  "crank C_Close1 = 0" | "crank C_Close2 = 1" | "crank C_Read = 2" | "crank C_Write = 3" | "crank C_Close3 = 4"
| "crank C_Close4 = 5" | "crank C_Done = 6" | "crank C_Failed = 7"

text \<open>The descriptors that are still open, and what the pipes hold, by the places of the two processes.\<close>

definition inv_at :: "string \<Rightarrow> nat \<Rightarrow> nat \<Rightarrow> kpipe pcs \<Rightarrow> bool" where
  "inv_at msg p c s \<longleftrightarrow>
     p < 8 \<and> c < 7 \<and> (3 \<le> c \<longrightarrow> 3 \<le> p) \<and> (4 \<le> p \<longrightarrow> 4 \<le> c) \<and> (p = 7 \<longrightarrow> c = 6) \<and>
     kp_w (pq1 s) = of_bool (p \<le> 4) + of_bool (c = 0) \<and> kp_r (pq1 s) = of_bool (p = 0) + of_bool (c \<le> 4) \<and>
     kp_w (pq2 s) = of_bool (p \<le> 1) + of_bool (c \<le> 5) \<and> kp_r (pq2 s) = of_bool (p \<le> 5) + of_bool (c \<le> 1) \<and>
     kp_buf (pq1 s) = (if p \<le> 2 then [] else if c \<le> 2 then msg else drop 1024 msg) \<and>
     kp_buf (pq2 s) = (if 4 \<le> c \<and> p \<le> 3 then map child_upper (take 1024 msg) else []) \<and>
     (3 \<le> c \<longrightarrow> c_got s = take 1024 msg) \<and> p_got s = (if 4 \<le> p then map child_upper (take 1024 msg) else [])"

definition inv61 :: "string \<Rightarrow> kpipe pcs \<Rightarrow> bool" where
  "inv61 msg s \<longleftrightarrow> inv_at msg (prank (pp_pc s)) (crank (cp_pc s)) s"

definition end61 :: "string \<Rightarrow> 's pcs \<Rightarrow> bool" where
  "end61 msg s \<longleftrightarrow> pp_pc s = P_Done \<and> cp_pc s = C_Done \<and> p_got s = map child_upper (take 1024 msg)"


lemma inv61_places:
  "inv61 msg s \<Longrightarrow> prank (pp_pc s) < 8 \<and> crank (cp_pc s) < 7 \<and> (3 \<le> crank (cp_pc s) \<longrightarrow> 3 \<le> prank (pp_pc s)) \<and>
     (4 \<le> prank (pp_pc s) \<longrightarrow> 4 \<le> crank (cp_pc s)) \<and> (prank (pp_pc s) = 7 \<longrightarrow> crank (cp_pc s) = 6)"
  by (simp add: inv61_def inv_at_def)

lemma inv61_child:
  assumes "msg \<noteq> []" "1024 \<le> cap" "inv61 msg s" "child61 (kernel_pipe cap) s = Some s'"
  shows "inv61 msg s' \<and> crank (cp_pc s') = Suc (crank (cp_pc s)) \<and> pp_pc s' = pp_pc s"
proof -
  have at: "inv_at msg (prank (pp_pc s)) (crank (cp_pc s)) s" using assms(3) by (simp add: inv61_def)
  have fits: "min (length msg) 1024 \<le> cap" using assms(2) by simp
  show ?thesis
    using inv61_places [OF assms(3)]
    by (cases "cp_pc s"; cases "pp_pc s"; simp;
        use assms(1,4) at in \<open>clarsimp simp: child61_def inv61_def inv_at_def kp_read_def kp_write_def fits\<close>)
qed

lemma inv61_parent:
  assumes "msg \<noteq> []" "length msg \<le> cap" "inv61 msg s" "parent61 (kernel_pipe cap) msg s = Some s'"
  shows "inv61 msg s' \<and> prank (pp_pc s') = Suc (prank (pp_pc s)) \<and> cp_pc s' = cp_pc s"
proof -
  have at: "inv_at msg (prank (pp_pc s)) (crank (cp_pc s)) s" using assms(3) by (simp add: inv61_def)
  show ?thesis
    using inv61_places [OF assms(3)]
    by (cases "pp_pc s"; cases "cp_pc s"; simp;
        use assms(1,4) at in \<open>clarsimp simp: parent61_def inv61_def inv_at_def kp_read_def kp_write_def assms(2)\<close>)
qed

lemma inv61_progress:
  assumes "msg \<noteq> []" "length msg \<le> cap" "1024 \<le> cap" "inv61 msg s" "\<not> end61 msg s"
  shows "\<exists>s'. step61 (kernel_pipe cap) msg s s'"
proof -
  have at: "inv_at msg (prank (pp_pc s)) (crank (cp_pc s)) s" using assms(4) by (simp add: inv61_def)
  have fits: "min (length msg) 1024 \<le> cap" using assms(3) by simp
  have "child61 (kernel_pipe cap) s \<noteq> None \<or> parent61 (kernel_pipe cap) msg s \<noteq> None"
    using inv61_places [OF assms(4)]
    by (cases "pp_pc s"; cases "cp_pc s"; simp;
        use assms(1,5) at in \<open>simp add: child61_def parent61_def end61_def inv_at_def kp_read_def kp_write_def assms(2) fits\<close>)
  then show ?thesis by (auto simp: step61_def)
qed

abbreviation (input) rank61 :: "'s pcs \<Rightarrow> nat" where
  "rank61 s \<equiv> (7 - prank (pp_pc s)) + (6 - crank (cp_pc s))"

definition kstart :: kpipe where
  "kstart = \<lparr>kp_buf = [], kp_w = 2, kp_r = 2\<rparr>"

definition fits61 :: "nat \<Rightarrow> string \<Rightarrow> bool" where
  "fits61 cap msg \<longleftrightarrow> msg \<noteq> [] \<and> length msg \<le> cap \<and> 1024 \<le> cap"

lemma inv61_step:
  assumes "fits61 cap msg" "inv61 msg s" "step61 (kernel_pipe cap) msg s s'"
  shows "inv61 msg s' \<and> rank61 s' < rank61 s"
proof -
  have lt: "prank (pp_pc s') < 8" "crank (cp_pc s') < 7" if "inv61 msg s'" using that by (simp_all add: inv61_def inv_at_def)
  from assms(3) consider (c) "child61 (kernel_pipe cap) s = Some s'" | (p) "parent61 (kernel_pipe cap) msg s = Some s'"
    by (auto simp: step61_def)
  then show ?thesis
  proof cases
    case c
    from inv61_child [OF _ _ assms(2) this] assms(1) lt show ?thesis by (simp add: fits61_def)
  next
    case p
    from inv61_parent [OF _ _ assms(2) this] assms(1) lt show ?thesis by (simp add: fits61_def)
  qed
qed

interpretation pipes61: terminating_system "\<lambda>s. fits61 cap msg \<and> s = start61 kstart kstart" "step61 (kernel_pipe cap) msg"
  "\<lambda>s. fits61 cap msg \<and> inv61 msg s" "end61 msg" rank61
proof
  show "fits61 cap msg \<and> inv61 msg s" if "fits61 cap msg \<and> s = start61 kstart kstart" for s
    using that by (simp add: start61_def kstart_def inv61_def inv_at_def)
  show "\<exists>s'. step61 (kernel_pipe cap) msg s s'" if "fits61 cap msg \<and> inv61 msg s" "\<not> end61 msg s" for s
    using that inv61_progress [of msg cap s] by (simp add: fits61_def)
qed (auto dest: inv61_step)

subsection \<open>The program on \<^verbatim>\<open>my_pipe\<close>\<close>

text \<open>\<^verbatim>\<open>fork\<close> gives the child a descriptor for each of the parent.\<close>

definition fork_pair :: "sockpair \<Rightarrow> sockpair" where
  "fork_pair p = (case p of (s0, s1) \<Rightarrow> (s0\<lparr>sk_refs := 2 * sk_refs s0\<rparr>, s1\<lparr>sk_refs := 2 * sk_refs s1\<rparr>))"

text \<open>\<^verbatim>\<open>main\<close> up to \<^verbatim>\<open>fork\<close>: the state in which the two processes start.\<close>

definition p_c_main61 :: "bool \<Rightarrow> bool \<Rightarrow> bool \<Rightarrow> string list \<Rightarrow> sockpair pcs run" where
  "p_c_main61 pair1 pair2 fork_ok argv =
     (if length argv \<noteq> 2 \<or> argv ! 1 = ''--help'' then Exited EXIT_FAILURE
      else case my_pipe pair1 of
        (_, None) \<Rightarrow> Exited EXIT_FAILURE
      | (_, Some p1) \<Rightarrow>
          (case my_pipe pair2 of
             (_, None) \<Rightarrow> Exited EXIT_FAILURE
           | (_, Some p2) \<Rightarrow>
               if \<not> fork_ok then Exited EXIT_FAILURE else Done (start61 (fork_pair p1) (fork_pair p2))))"

definition pair61 :: sockpair where
  "pair61 = (\<lparr>sk_in = [], sk_refs = 2, sk_rdshut = False, sk_wrshut = True\<rparr>, \<lparr>sk_in = [], sk_refs = 2, sk_rdshut = True, sk_wrshut = False\<rparr>)"

lemma p_c_main61_Done: "p_c_main61 a b f argv = Done s \<Longrightarrow> s = start61 pair61 pair61"
  by (auto simp: p_c_main61_def my_pipe_def fork_pair_def pair61_def Let_def split: if_splits)

lemma pair61_view:
  "sockets.both_ok (start61 pair61 pair61)" "lift_pcs sock_view (start61 pair61 pair61) = start61 kstart kstart"
  by (simp_all add: sockets.both_ok_def sock_ok_def sock_view_def lift_pcs_def start61_def pair61_def kstart_def)

text \<open>A schedule: the parent where it says \<open>True\<close>, the child otherwise.\<close>

primrec sched61 :: "'s pipe_ops \<Rightarrow> string \<Rightarrow> bool list \<Rightarrow> 's pcs \<Rightarrow> 's pcs option" where
  "sched61 o1 msg [] s = Some s"
| "sched61 o1 msg (b # bs) s = (case if b then parent61 o1 msg s else child61 o1 s of None \<Rightarrow> None | Some t \<Rightarrow> sched61 o1 msg bs t)"

lemma sched61_steps: "sched61 o1 msg bs s = Some t \<Longrightarrow> (step61 o1 msg)\<^sup>*\<^sup>* s t"
  by (induction bs arbitrary: s)
    (auto simp: step61_def split: option.splits if_splits intro: converse_rtranclp_into_rtranclp)

definition waiting61 :: "'s pipe_ops \<Rightarrow> string \<Rightarrow> 's pcs \<Rightarrow> bool" where
  "waiting61 o1 msg s \<longleftrightarrow> child61 o1 s = None \<and> parent61 o1 msg s = None \<and> cp_pc s = C_Read \<and> pp_pc s = P_Read"

lemma empty_message_waits:
  "\<exists>t. (step61 (sock_pipe cap) [])\<^sup>*\<^sup>* (start61 pair61 pair61) t \<and> waiting61 (sock_pipe cap) [] t"
proof -
  have "\<exists>t. sched61 (sock_pipe cap) [] [True, True, True, False, False] (start61 pair61 pair61) = Some t \<and>
      waiting61 (sock_pipe cap) [] t"
    by (simp add: start61_def pair61_def sock_pipe_def parent61_def child61_def sk_send_def sk_recv_def waiting61_def)
  then show ?thesis by (blast intro: sched61_steps)
qed

text \<open>C38: The program of Section 61 on the pipes that \<^verbatim>\<open>my_pipe\<close> makes of socket pairs, for a message that is not empty and fits
  into the buffers of the sockets: from every state an interleaving of the two processes can reach, both can go on until they have
  exited with success, and the parent then has the answer; a state in which neither can go on is such an end; no run has more than
  thirteen steps. With an empty message parent and child can wait for each other for ever.\<close>

theorem p_c_pipe_on_sockets:
  assumes "p_c_main61 a b f argv = Done s0" "length msg \<le> cap" "1024 \<le> cap"
  shows "if msg = [] then \<exists>t. (step61 (sock_pipe cap) msg)\<^sup>*\<^sup>* s0 t \<and> waiting61 (sock_pipe cap) msg t
    else (\<forall>s. (step61 (sock_pipe cap) msg)\<^sup>*\<^sup>* s0 s \<longrightarrow>
        (\<exists>t. (step61 (sock_pipe cap) msg)\<^sup>*\<^sup>* s t \<and> end61 msg t) \<and>
        (if \<exists>t. step61 (sock_pipe cap) msg s t then True else end61 msg s)) \<and>
      (\<forall>n t. (step61 (sock_pipe cap) msg ^^ n) s0 t \<longrightarrow> n \<le> 13)"
proof (cases "msg = []")
  case True
  with empty_message_waits [of cap] p_c_main61_Done [OF assms(1)] show ?thesis by simp
next
  case False
  then have fits: "fits61 cap msg" using assms(2,3) by (simp add: fits61_def)
  note ok = pair61_view(1) [folded p_c_main61_Done [OF assms(1)]] and lift = pair61_view(2) [folded p_c_main61_Done [OF assms(1)]]
  have end_lift: "end61 msg (lift_pcs sock_view t) = end61 msg t" for t by (simp add: end61_def)
  have init: "fits61 cap msg \<and> inv61 msg (start61 kstart kstart)" using pipes61.inv_init [of cap msg] fits by blast
  have inv: "sockets.both_ok s \<and> inv61 msg (lift_pcs sock_view s)" if "(step61 (sock_pipe cap) msg)\<^sup>*\<^sup>* s0 s" for s
    using sockets.steps_lift [OF that ok] pipes61.inv_reachable [of cap msg "start61 kstart kstart"] fits lift by auto
  have "\<exists>t. (step61 (sock_pipe cap) msg)\<^sup>*\<^sup>* s t \<and> end61 msg t" if r: "(step61 (sock_pipe cap) msg)\<^sup>*\<^sup>* s0 s" for s
  proof -
    from inv [OF r] fits obtain t where t: "(step61 (kernel_pipe cap) msg)\<^sup>*\<^sup>* (lift_pcs sock_view s) t" "end61 msg t"
      using pipes61.reaches_final [of cap msg "lift_pcs sock_view s"] by blast
    with sockets.steps_back [OF t(1)] inv [OF r] end_lift show ?thesis by auto
  qed
  moreover have "end61 msg s" if r: "(step61 (sock_pipe cap) msg)\<^sup>*\<^sup>* s0 s" and st: "\<nexists>t. step61 (sock_pipe cap) msg s t" for s
  proof (rule ccontr)
    assume "\<not> end61 msg s"
    then obtain t where t: "step61 (kernel_pipe cap) msg (lift_pcs sock_view s) t"
      using pipes61.progress [of cap msg "lift_pcs sock_view s"] inv [OF r] fits end_lift by blast
    with sockets.step_back [OF _ t] inv [OF r] st show False by blast
  qed
  moreover have "n \<le> 13" if "(step61 (sock_pipe cap) msg ^^ n) s0 t" for n t
    using sockets.run_lift [OF that ok] pipes61.bounded_run [OF init, of n "lift_pcs sock_view t"] lift by (simp add: start61_def)
  ultimately show ?thesis using False by simp
qed

theorem p_c_pipe_on_sockets_witness:
  "\<exists>s0. p_c_main61 True True True [''p'', ''hi''] = Done s0 \<and>
     (\<exists>t. (step61 (sock_pipe 4096) ''hi'')\<^sup>*\<^sup>* s0 t \<and> p_got t = ''HI'')"
proof -
  obtain s0 where s0: "p_c_main61 True True True [''p'', ''hi''] = Done s0"
    by (simp add: p_c_main61_def my_pipe_def Let_def)
  have "map child_upper ''hi'' = ''HI''" by code_simp
  with p_c_pipe_on_sockets [OF s0, of "''hi''" 4096] s0 show ?thesis by (auto simp: end61_def)
qed

end
