(* ===== verification/Servers.thy ===== *)
theory Servers
  imports Echo_Server Pty Relay Messages
begin

text \<open>
  The servers as whole processes, on their descriptor tables: \<^verbatim>\<open>tcp_udp_echo.c\<close> of Section 63 from the creation of its sockets on, the main loop of
  \<^verbatim>\<open>my_telnet_server.c\<close> of Section 64 with the children it makes, and the start of \<^verbatim>\<open>is_echo_sv.c\<close> of Section 60. The first never closes a
  connection, and the theorem on it counts how many it can accept; the second returns to the table it had after every connection.
\<close>

subsection \<open>\<^verbatim>\<open>tcp_udp_echo.c\<close>: sockets\<close>

text \<open>An address of the list: the open file of a new socket, and the answers of the calls on it.\<close>

record te_ai =
  ta_file :: "nat option"
  ta_sockopt :: bool
  ta_bind :: bool

abbreviation (input) FD_SETSIZE :: nat where "FD_SETSIZE \<equiv> 1024"

fun te_bind :: "nat \<Rightarrow> bool \<Rightarrow> te_ai list \<Rightarrow> fds \<Rightarrow> (nat \<times> fds) run" where
  "te_bind lim stream [] t = Exited EXIT_FAILURE"
| "te_bind lim stream (a # as) t =
     (case new_fd lim (ta_file a) t of
        None \<Rightarrow> te_bind lim stream as t
      | Some (fd, t1) \<Rightarrow>
          if FD_SETSIZE < fd then Exited EXIT_FAILURE
          else if stream \<and> \<not> ta_sockopt a then Exited EXIT_FAILURE
          else if ta_bind a then Done (fd, t1)
          else te_bind lim stream as (closed t1 fd))"

text \<open>The two sockets, and the first use of \<^verbatim>\<open>FD_SET\<close> on them.\<close>

definition te_sockets :: "nat \<Rightarrow> te_ai list option \<Rightarrow> bool \<Rightarrow> te_ai list option \<Rightarrow> fds \<Rightarrow> (nat \<times> nat \<times> fds) run" where
  "te_sockets lim tcp_addrs listen_ok udp_addrs t =
     (case tcp_addrs of
        None \<Rightarrow> Exited EXIT_FAILURE
      | Some as \<Rightarrow> run_bind (te_bind lim True as t) (\<lambda>(tcp_fd, t1).
          if \<not> listen_ok then Exited EXIT_FAILURE
          else case udp_addrs of
            None \<Rightarrow> Exited EXIT_FAILURE
          | Some bs \<Rightarrow> run_bind (te_bind lim False bs t1) (\<lambda>(udp_fd, t2). Done (tcp_fd, udp_fd, t2))))"

definition te_fd_set :: "nat \<Rightarrow> unit run" where
  "te_fd_set fd = (if fd < FD_SETSIZE then Done () else Faulted OutOfBounds)"

text \<open>A round: what \<^verbatim>\<open>select\<close> answers, with the open file of a new connection, what the request is, and the answers to the reply. The results:
  how the process ends (\<open>Done ()\<close> while it waits), the descriptors served with the pieces sent, and the table.\<close>

type_synonym te_event = "sel \<times> (errno + string) \<times> wr_ans list"

definition te_accept :: "nat \<Rightarrow> sel \<Rightarrow> fds \<Rightarrow> sel \<times> fds" where
  "te_accept lim s t =
     (case s of
        Sel_Ready True udp f \<Rightarrow>
          (case new_fd lim f t of None \<Rightarrow> (Sel_Ready True udp None, t) | Some (n, t1) \<Rightarrow> (Sel_Ready True udp (Some n), t1))
      | _ \<Rightarrow> (s, t))"

fun te_loop :: "nat \<Rightarrow> nat \<Rightarrow> te_event list \<Rightarrow> nat option \<Rightarrow> fds \<Rightarrow> unit run \<times> (nat \<times> string list) list \<times> fds" where
  "te_loop lim udp_fd [] lfd t = (Done (), [], t)"
| "te_loop lim udp_fd ((s, req, room) # es) lfd t =
     (case te_accept lim s t of (s1, t1) \<Rightarrow>
        case te_round udp_fd s1 lfd of
          Exited n \<Rightarrow> (Exited n, [], t1)
        | Faulted e \<Rightarrow> (Faulted e, [], t1)
        | Done None \<Rightarrow> te_loop lim udp_fd es lfd t1
        | Done (Some f) \<Rightarrow>
            (case te_loop lim udp_fd es f t1 of (r, served, t2) \<Rightarrow> (r, (the f, fst (handler_request req room)) # served, t2)))"

definition tcp_udp_echo_main :: "nat \<Rightarrow> te_ai list option \<Rightarrow> bool \<Rightarrow> te_ai list option \<Rightarrow> te_event list \<Rightarrow> fds
    \<Rightarrow> unit run \<times> (nat \<times> string list) list \<times> fds" where
  "tcp_udp_echo_main lim tcp_addrs listen_ok udp_addrs es t =
     (case te_sockets lim tcp_addrs listen_ok udp_addrs t of
        Exited n \<Rightarrow> (Exited n, [], t)
      | Faulted e \<Rightarrow> (Faulted e, [], t)
      | Done (tcp_fd, udp_fd, t1) \<Rightarrow>
          (case run_bind (te_fd_set tcp_fd) (\<lambda>_. te_fd_set udp_fd) of
             Done _ \<Rightarrow> te_loop lim udp_fd es None t1
           | Exited n \<Rightarrow> (Exited n, [], t1)
           | Faulted e \<Rightarrow> (Faulted e, [], t1)))"

subsection \<open>How many connections it can accept\<close>

definition free_fds :: "nat \<Rightarrow> fds \<Rightarrow> nat set" where
  "free_fds lim t = {i. i < lim \<and> t i = None}"

lemma finite_free_fds [simp]: "finite (free_fds lim t)"
  by (simp add: free_fds_def)

lemma new_fd_None_iff: "new_fd lim (Some x) t = None \<longleftrightarrow> free_fds lim t = {}"
proof (cases "lowest_free lim t 0")
  case None
  then have "free_fds lim t = {}" by (auto simp: lowest_free_def free_fds_def find_None_iff)
  with None show ?thesis by (simp add: new_fd_def)
next
  case (Some n)
  from lowest_free_SomeD [OF this] Some show ?thesis by (auto simp: new_fd_def free_fds_def)
qed

lemma new_fd_free:
  assumes "new_fd lim fl t = Some (n, t1)"
  shows "n \<in> free_fds lim t" "free_fds lim t1 = free_fds lim t - {n}"
proof -
  obtain x where "t n = None" "n < lim" "t1 = t(n \<mapsto> x)" using new_fd_closed [OF assms] by blast
  then show "n \<in> free_fds lim t" "free_fds lim t1 = free_fds lim t - {n}" by (auto simp: free_fds_def)
qed

lemma card_free_new_fd:
  assumes "new_fd lim fl t = Some (n, t1)"
  shows "card (free_fds lim t) = Suc (card (free_fds lim t1))"
  using new_fd_free [OF assms] by (metis card_Suc_Diff1 finite_free_fds)

definition te_connection :: "te_event \<Rightarrow> bool" where
  "te_connection e \<longleftrightarrow> (\<exists>x. fst e = Sel_Ready True False (Some x))"

lemma te_loop_connections:
  "\<forall>e \<in> set es. te_connection e \<Longrightarrow>
     fst (te_loop lim udp_fd es lfd t) = (if length es \<le> card (free_fds lim t) then Done () else Exited EXIT_FAILURE) \<and>
     length (fst (snd (te_loop lim udp_fd es lfd t))) = min (length es) (card (free_fds lim t))"
proof (induction es arbitrary: lfd t)
  case (Cons e es)
  obtain x req room where e: "e = (Sel_Ready True False (Some x), req, room)"
    using Cons.prems by (cases e) (auto simp: te_connection_def)
  show ?case
  proof (cases "new_fd lim (Some x) t")
    case None
    then have "card (free_fds lim t) = 0" using new_fd_None_iff by auto
    with None show ?thesis by (simp add: e te_accept_def te_round_def)
  next
    case (Some p)
    obtain n t1 where p: "p = (n, t1)" by fastforce
    have "card (free_fds lim t) = Suc (card (free_fds lim t1))" using card_free_new_fd Some p by blast
    with Some p Cons show ?thesis
      by (simp add: e te_accept_def te_round_def case_prod_beta)
  qed
qed simp

lemma te_start:
  assumes "ta_file a = Some x" "ta_sockopt a" "ta_bind a" "ta_file b = Some y" "ta_bind b"
    and "new_fd lim (Some x) t = Some (tcp_fd, t1)" "new_fd lim (Some y) t1 = Some (udp_fd, t2)"
  shows "te_sockets lim (Some (a # as)) True (Some (b # bs)) t =
    (if FD_SETSIZE < max tcp_fd udp_fd then Exited EXIT_FAILURE else Done (tcp_fd, udp_fd, t2))"
  using assms by (auto simp: te_sockets_def max_def)

text \<open>C39: The server of Section 63, whose first addresses can be bound and whose sockets get the lowest free descriptors. When
  both are below \<^verbatim>\<open>FD_SETSIZE\<close> it serves exactly as many TCP connections as it has descriptors left after the two for its sockets, whether
  or not the clients have gone: the next one ends the server. When the larger one is exactly \<^verbatim>\<open>FD_SETSIZE\<close>, it passes the
  test of the program, and \<^verbatim>\<open>FD_SET\<close> writes outside the set; only above that the test ends the program.\<close>

theorem echo_connections_bounded:
  assumes "ta_file a = Some x" "ta_sockopt a" "ta_bind a" "ta_file b = Some y" "ta_bind b"
    and "new_fd lim (Some x) t = Some (tcp_fd, t1)" "new_fd lim (Some y) t1 = Some (udp_fd, t2)"
    and "\<forall>e \<in> set es. te_connection e"
    and "res = tcp_udp_echo_main lim (Some (a # as)) True (Some (b # bs)) es t"
  shows "fst res =
    (if FD_SETSIZE < max tcp_fd udp_fd then Exited EXIT_FAILURE
     else if max tcp_fd udp_fd = FD_SETSIZE then Faulted OutOfBounds
     else if length es + 2 \<le> card (free_fds lim t) then Done () else Exited EXIT_FAILURE) \<and>
    length (fst (snd res)) =
      (if FD_SETSIZE \<le> max tcp_fd udp_fd then 0 else min (length es) (card (free_fds lim t) - 2))"
proof -
  have c: "card (free_fds lim t) = card (free_fds lim t2) + 2"
    using card_free_new_fd [OF assms(6)] card_free_new_fd [OF assms(7)] by simp
  show ?thesis
    using te_start [OF assms(1-7), of as bs] te_loop_connections [OF assms(8), of lim udp_fd None t2] c
    by (auto simp: assms(9) tcp_udp_echo_main_def te_fd_set_def max_def)
qed

definition te_addr :: te_ai where
  "te_addr = \<lparr>ta_file = Some 40, ta_sockopt = True, ta_bind = True\<rparr>"

theorem echo_connections_bounded_witness:
  "fst (tcp_udp_echo_main 6 (Some [te_addr]) True (Some [te_addr]) [(Sel_Ready True False (Some 50), Inr ''x'', []), (Sel_Ready True False (Some 51), Inr ''y'', [])]
      [0 \<mapsto> 1, 1 \<mapsto> 1, 2 \<mapsto> 1]) = Exited EXIT_FAILURE"
proof -
  let ?t = "[0 \<mapsto> 1, 1 \<mapsto> 1, 2 \<mapsto> 1] :: fds"
  let ?es = "[(Sel_Ready True False (Some 50), Inr ''x'', []), (Sel_Ready True False (Some 51), Inr ''y'', [])] :: te_event list"
  have l: "lowest_free 6 ?t 0 = Some 3" "lowest_free 6 (?t(3 \<mapsto> 40)) 0 = Some 4"
    by (simp_all add: lowest_free_def upt_conv_Cons)
  have "free_fds 6 ?t = {3, 4, 5}" by (auto simp: free_fds_def split: if_splits)
  then show ?thesis
    using echo_connections_bounded [of te_addr 40 te_addr 40 6 ?t 3 "?t(3 \<mapsto> 40)" 4 "?t(3 \<mapsto> 40, 4 \<mapsto> 40)" ?es, OF _ _ _ _ _ _ _ _ refl, of "[]" "[]"] l
    by (simp add: te_connection_def te_addr_def new_fd_def)
qed

subsection \<open>\<^verbatim>\<open>my_telnet_server.c\<close>\<close>

text \<open>The shell of a session, in the child that \<^verbatim>\<open>ptyFork\<close> makes.\<close>

definition user_shell :: "string option \<Rightarrow> string" where
  "user_shell env = (case env of None \<Rightarrow> ''/bin/sh'' | Some s \<Rightarrow> if s = [] then ''/bin/sh'' else s)"

text \<open>A client: the open file of its connection, the answer of \<^verbatim>\<open>fork\<close>, and what the session finds.\<close>

record tn_client =
  tn_file :: "nat option"
  tn_fork :: "nat option"
  tn_pty :: pty_env
  tn_rounds :: "sel_round list"

type_synonym session = "int option \<times> chan \<times> chan"

text \<open>\<^verbatim>\<open>handle_request(cfd)\<close> on a descriptor table: \<^verbatim>\<open>select\<close> fails with \<^verbatim>\<open>EBADF\<close> when \<^verbatim>\<open>cfd\<close> is not open.\<close>

definition tn_handle :: "nat \<Rightarrow> tn_client \<Rightarrow> nat \<Rightarrow> fds \<Rightarrow> session" where
  "tn_handle lim c cfd t =
     (case ptyFork lim (tn_pty c) (Some 1000) False False t of
        ((None, _), _) \<Rightarrow> handle_request (- 1) (tn_rounds c) ([], []) ([], [])
      | ((Some (pid, mfd, _), t1), _) \<Rightarrow>
          handle_request (int pid) (if is_open t1 (int cfd) then tn_rounds c else [Sel_Err EBADF]) ([], []) ([], []))"

text \<open>The loop of the server: how it ends, the sessions of its children, and its table. After a failing \<^verbatim>\<open>fork\<close> there is no \<^verbatim>\<open>break\<close>, and
  the server goes on as if it were the child.\<close>

fun telnet_serve :: "nat \<Rightarrow> nat \<Rightarrow> tn_client list \<Rightarrow> fds \<Rightarrow> int option \<times> session list \<times> fds" where
  "telnet_serve lim lfd [] t = (None, [], t)"
| "telnet_serve lim lfd (c # cs) t =
     (case new_fd lim (tn_file c) t of
        None \<Rightarrow> (Some EXIT_FAILURE, [], t)
      | Some (cfd, t1) \<Rightarrow>
          (case tn_fork c of
             None \<Rightarrow>
               let t2 = closed (closed t1 cfd) lfd in (fst (tn_handle lim c cfd t2), [], t2)
           | Some pid \<Rightarrow>
               let s = tn_handle lim c cfd (closed t1 lfd)
               in case telnet_serve lim lfd cs (closed t1 cfd) of (r, ss, t3) \<Rightarrow> (r, s # ss, t3)))"

text \<open>\<open>f\<close> is the open file of the listening socket.\<close>

definition telnet_server_main :: "nat \<Rightarrow> ai list option \<Rightarrow> nat \<Rightarrow> tn_client list \<Rightarrow> fds \<Rightarrow> int option \<times> session list \<times> fds" where
  "telnet_server_main lim addrs f cs t =
     (case inetListen addrs False of
        (None, _) \<Rightarrow> (Some EXIT_FAILURE, [], t)
      | (Some lfd, _) \<Rightarrow> telnet_serve lim lfd cs (t(lfd \<mapsto> f)))"

lemma telnet_serve_children:
  assumes "\<forall>c \<in> set cs. tn_file c \<noteq> None \<and> tn_fork c \<noteq> None" "lowest_free lim t 0 = Some cfd"
  shows "telnet_serve lim lfd (cs @ ds) t =
    (case telnet_serve lim lfd ds t of
       (r, ss, t') \<Rightarrow> (r, map (\<lambda>c. tn_handle lim c cfd (closed (t(cfd := tn_file c)) lfd)) cs @ ss, t'))"
  using assms
proof (induction cs)
  case (Cons c cs)
  then obtain x pid where "tn_file c = Some x" "tn_fork c = Some pid" by auto
  moreover from this have n: "new_fd lim (tn_file c) t = Some (cfd, t(cfd \<mapsto> x))" using Cons.prems(2) by (simp add: new_fd_def)
  moreover have "closed (t(cfd \<mapsto> x)) cfd = t" using new_fd_closed [OF n] by blast
  ultimately show ?case using Cons by (simp add: Let_def case_prod_beta fun_upd_def cong: if_cong)
qed (simp add: case_prod_beta)

text \<open>A master taken after the listening socket was closed has a number below that of the closed connection.\<close>

lemma tn_handle_closed:
  assumes "lowest_free lim t 0 = Some cfd" "t lfd \<noteq> None" "lfd < cfd"
  shows "fst (tn_handle lim c cfd (closed t lfd)) = Some EXIT_FAILURE"
proof -
  have cfd: "t cfd = None" using lowest_free_SomeD [OF assms(1)] by simp
  then have u: "closed t lfd cfd = None" using assms(3) by (simp add: closed_def sys_close_def)
  have lf: "lowest_free lim (closed t lfd) 0 = Some m \<Longrightarrow> m \<noteq> cfd" for m
    using lowest_free_SomeD [of lim "closed t lfd" 0 m] assms(2,3) by (force simp: closed_def sys_close_def is_open_def)
  show ?thesis
  proof (cases "fst (fst (ptyFork lim (tn_pty c) (Some 1000) False False (closed t lfd)))")
    case None
    then show ?thesis by (simp add: tn_handle_def handle_request_def case_prod_beta split: prod.splits option.splits)
  next
    case (Some r)
    obtain pid m p where r: "r = (pid, m, p)" by (cases r) auto
    obtain x where x: "snd (fst (ptyFork lim (tn_pty c) (Some 1000) False False (closed t lfd))) = (closed t lfd)(m \<mapsto> x)"
      "lowest_free lim (closed t lfd) 0 = Some m"
      using Some r
      by (auto simp: ptyFork_def ptyMasterOpen_def new_fd_def split: option.splits if_splits)
    have "\<not> is_open ((closed t lfd)(m \<mapsto> x)) (int cfd)" using lf [OF x(2)] u by (simp add: is_open_def)
    with Some r x(1) show ?thesis
      by (simp add: tn_handle_def handle_request_def case_prod_beta split: prod.splits option.splits)
  qed
qed

text \<open>Every connection of the telnet server gets a child with the relay of its own, and the server then has the descriptors it had before.
  A failing \<^verbatim>\<open>fork\<close> ends the server: it goes on in place of the child, closes its listening socket and fails in \<^verbatim>\<open>select\<close>; the
  connections that follow are not served.\<close>

theorem telnet_server_sessions:
  assumes "\<forall>c \<in> set cs. tn_file c \<noteq> None \<and> tn_fork c \<noteq> None" "lowest_free lim t 0 = Some cfd" "t lfd \<noteq> None" "lfd < cfd"
    and "tn_file b \<noteq> None" "tn_fork b = None"
  shows "telnet_serve lim lfd cs t = (None, map (\<lambda>c. tn_handle lim c cfd (t(cfd := tn_file c, lfd := None))) cs, t) \<and>
    telnet_serve lim lfd (cs @ b # ds) t =
      (Some EXIT_FAILURE, map (\<lambda>c. tn_handle lim c cfd (t(cfd := tn_file c, lfd := None))) cs, t(lfd := None))"
proof -
  have c: "closed (t(cfd := f)) lfd = t(cfd := f, lfd := None)" for f
    using assms(3,4) by (simp add: closed_def sys_close_def is_open_def)
  obtain x where x: "tn_file b = Some x" using assms(5) by auto
  have n: "new_fd lim (tn_file b) t = Some (cfd, t(cfd \<mapsto> x))" using assms(2) x by (simp add: new_fd_def)
  have "closed (t(cfd \<mapsto> x)) cfd = t" using new_fd_closed [OF n] by blast
  moreover have "closed t lfd = t(lfd := None)" using assms(3) by (auto simp: closed_def sys_close_def is_open_def)
  moreover note tn_handle_closed [OF assms(2-4), of b]
  ultimately have "telnet_serve lim lfd (b # ds) t = (Some EXIT_FAILURE, [], t(lfd := None))"
    using n assms(6) by (simp add: Let_def)
  then show ?thesis
    using telnet_serve_children [OF assms(1,2), of lfd "[]"] telnet_serve_children [OF assms(1,2), of lfd "b # ds"] by (simp add: c del: telnet_serve.simps(2))
qed

definition tn_demo :: "nat option \<Rightarrow> tn_client" where
  "tn_demo fork = \<lparr>tn_file = Some 60, tn_fork = fork, tn_pty = pty_ok, tn_rounds = [Sel_Set (Some (RdBytes ''$'')) None]\<rparr>"

theorem telnet_server_sessions_witness:
  "fst (telnet_serve 16 3 [tn_demo (Some 8), tn_demo None, tn_demo (Some 9)] [0 \<mapsto> 1, 1 \<mapsto> 1, 2 \<mapsto> 1, 3 \<mapsto> 2]) = Some EXIT_FAILURE"
proof -
  have "lowest_free 16 [0 \<mapsto> 1, 1 \<mapsto> 1, 2 \<mapsto> 1, 3 \<mapsto> 2] 0 = Some 4" by (simp add: lowest_free_def upt_conv_Cons)
  from telnet_server_sessions [OF _ this, of "[tn_demo (Some 8)]" 3 "tn_demo None" "[tn_demo (Some 9)]"] show ?thesis
    by (simp add: tn_demo_def del: telnet_serve.simps(2))
qed

subsection \<open>The start of \<^verbatim>\<open>is_echo_sv.c\<close>\<close>

definition echo_sv_main :: "nat \<Rightarrow> daemon_io \<Rightarrow> daemon_state \<Rightarrow> bool \<Rightarrow> ai list option \<Rightarrow> (nat \<times> echo_sv) run" where
  "echo_sv_main lim io st sigaction_ok addrs =
     (if fst (become_daemon lim io \<lparr>no_umask = False, no_close = False, no_reopen = False\<rparr> st) = - 1 then Exited EXIT_FAILURE
      else if \<not> sigaction_ok then Exited EXIT_FAILURE
      else case inetListen addrs False of
        (None, _) \<Rightarrow> Exited EXIT_FAILURE
      | (Some lfd, _) \<Rightarrow> Done (lfd, \<lparr>connect_num = 0, e_pc = P_Accept, e_live = 0, e_zombies = 0, e_refused = 0\<rparr>))"

lemma echo_sv_main_limit:
  "echo_sv_main lim io st sg addrs = Done (lfd, s0) \<Longrightarrow> echo_step\<^sup>*\<^sup>* s0 s \<Longrightarrow> e_live s + e_zombies s \<le> 2"
  using echo_sys.inv_reachable [of s0 s]
  by (auto simp: echo_sv_main_def echo_start_def echo_inv_def split: if_splits option.splits prod.splits)

end
