(* ===== verification/Script_Tty.thy ===== *)
theory Script_Tty
  imports Terminal Relay
begin

text \<open>
  The side of \<^verbatim>\<open>script.c\<close> of Section 64 that \<open>Relay\<close> leaves out: the mode of the terminal of the user and the sizes of the two windows. The
  start sets the raw mode with \<^verbatim>\<open>ttySetRaw\<close>, \<^verbatim>\<open>ttyReset\<close> runs at the end, and the handler of \<^verbatim>\<open>SIGWINCH\<close> leads to \<^verbatim>\<open>change_windows\<close>. The theorem
  says when the user gets the terminal back as it was.
\<close>

subsection \<open>State and operations\<close>

type_synonym winsize = "nat \<times> nat"

record script_tty =
  sy_tty :: termios             \<comment> \<open>of the terminal of the user\<close>
  sy_orig :: termios            \<comment> \<open>\<^verbatim>\<open>ttyOrig\<close>\<close>
  sy_win :: winsize             \<comment> \<open>of the terminal of the user\<close>
  sy_ws :: winsize              \<comment> \<open>the variable \<^verbatim>\<open>ws\<close>\<close>
  sy_master :: winsize          \<comment> \<open>of the pseudo-terminal\<close>
  sy_got :: bool                \<comment> \<open>\<^verbatim>\<open>gotSig\<close>\<close>

definition ttyReset :: "bool \<Rightarrow> script_tty \<Rightarrow> int option \<times> script_tty" where
  "ttyReset set_ok s = (if set_ok then (None, s\<lparr>sy_tty := sy_orig s\<rparr>) else (Some EXIT_FAILURE, s))"

definition sigwinchHandler :: "script_tty \<Rightarrow> script_tty" where
  "sigwinchHandler s = s\<lparr>sy_got := True\<rparr>"

definition change_windows :: "bool \<Rightarrow> bool \<Rightarrow> script_tty \<Rightarrow> int option \<times> script_tty" where
  "change_windows get_ok set_ok s =
     (if \<not> get_ok then (Some EXIT_FAILURE, s)
      else
        let s1 = s\<lparr>sy_ws := sy_win s\<rparr> in
        if \<not> set_ok then (Some EXIT_FAILURE, s1) else (None, s1\<lparr>sy_master := sy_ws s1\<rparr>))"

text \<open>From the start of \<^verbatim>\<open>main\<close> to the loop; \<^verbatim>\<open>ptyFork\<close> gives the size to the pseudo-terminal, and the result of \<^verbatim>\<open>ttySetRaw\<close> is not
  tested.\<close>

definition script_setup :: "script_env \<Rightarrow> bool \<times> bool \<Rightarrow> string list \<Rightarrow> script_tty \<Rightarrow> unit run \<times> script_tty" where
  "script_setup e raw argv s =
     (if \<not> se_tcgetattr e then (Exited EXIT_FAILURE, s)
      else
        let s1 = s\<lparr>sy_orig := sy_tty s\<rparr> in
        if \<not> se_winsize e then (Exited EXIT_FAILURE, s1)
        else
          let s2 = s1\<lparr>sy_ws := sy_win s1\<rparr> in
          if \<not> se_pty_fork e then (Exited EXIT_FAILURE, s2)
          else
            let s3 = s2\<lparr>sy_master := sy_ws s2\<rparr> in
            if \<not> se_open e then (Exited EXIT_FAILURE, s3)
            else case timed_name argv of
              Exited n \<Rightarrow> (Exited n, s3)
            | Faulted f \<Rightarrow> (Faulted f, s3)
            | Done name \<Rightarrow>
                if \<not> se_open_timed e then (Exited EXIT_FAILURE, s3)
                else
                  let (r, prev, tty) = ttySetRaw (fst raw) (snd raw) True (sy_tty s3);
                      s4 = s3\<lparr>sy_tty := tty, sy_orig := (case prev of None \<Rightarrow> sy_orig s3 | Some p \<Rightarrow> p), sy_got := False\<rparr>
                  in if \<not> se_sigaction e then (Exited EXIT_FAILURE, s4)
                     else if \<not> se_atexit e then (Exited EXIT_FAILURE, s4)
                     else (Done (), s4))"

text \<open>A round of the loop: the answers of the two calls of \<^verbatim>\<open>ioctl\<close>, the size the user gives the window meanwhile, and the status with which
  the round ends the program.\<close>

record sy_round =
  sy_get :: bool
  sy_set :: bool
  sy_new :: "winsize option"
  sy_exit :: "int option"

fun script_windows :: "sy_round list \<Rightarrow> script_tty \<Rightarrow> int option \<times> script_tty" where
  "script_windows [] s = (None, s)"
| "script_windows (r # rs) s =
     (case if sy_got s then change_windows (sy_get r) (sy_set r) s else (None, s) of
        (Some x, s1) \<Rightarrow> (Some x, s1)
      | (None, s1) \<Rightarrow>
          let s2 = (case sy_new r of None \<Rightarrow> s1 | Some z \<Rightarrow> sigwinchHandler (s1\<lparr>sy_win := z\<rparr>))
          in case sy_exit r of Some x \<Rightarrow> (Some x, s2) | None \<Rightarrow> script_windows rs s2)"

definition script_tty_main :: "script_env \<Rightarrow> bool \<times> bool \<Rightarrow> bool \<Rightarrow> string list \<Rightarrow> sy_round list \<Rightarrow> script_tty
    \<Rightarrow> int option run \<times> script_tty" where
  "script_tty_main e raw reset_ok argv rs s =
     (case script_setup e raw argv s of
        (Exited n, s1) \<Rightarrow> (Exited n, s1)
      | (Faulted f, s1) \<Rightarrow> (Faulted f, s1)
      | (Done _, s1) \<Rightarrow>
          (case script_windows rs s1 of
             (None, s2) \<Rightarrow> (Done None, s2)
           | (Some x, s2) \<Rightarrow>
               (case ttyReset reset_ok s2 of (None, s3) \<Rightarrow> (Exited x, s3) | (Some y, s3) \<Rightarrow> (Exited y, s3))))"

subsection \<open>The terminal afterwards\<close>

lemma script_windows_keeps: "script_windows rs s = (r, s') \<Longrightarrow> sy_tty s' = sy_tty s \<and> sy_orig s' = sy_orig s"
proof (induction rs arbitrary: s)
  case (Cons q rs)
  then show ?case
    by (fastforce simp: change_windows_def sigwinchHandler_def Let_def split: if_splits option.splits prod.splits)
qed simp

text \<open>While the loop runs, a size that was announced by a signal is passed on in the next round, and in every round after it since
  the flag is never cleared.\<close>

lemma script_windows_follow:
  assumes "\<forall>r \<in> set rs. sy_get r \<and> sy_set r \<and> sy_exit r = None" "sy_got s \<or> sy_master s = sy_win s" "rs = rs' @ [l]" "sy_new l = None"
  shows "\<exists>s'. script_windows rs s = (None, s') \<and> sy_master s' = sy_win s'"
  using assms
proof (induction rs arbitrary: s rs')
  case (Cons r rs)
  let ?s1 = "if sy_got s then s\<lparr>sy_ws := sy_win s, sy_master := sy_win s\<rparr> else s"
  let ?s2 = "case sy_new r of None \<Rightarrow> ?s1 | Some z \<Rightarrow> sigwinchHandler (?s1\<lparr>sy_win := z\<rparr>)"
  have step: "script_windows (r # rs) s = script_windows rs ?s2"
    using Cons.prems(1) by (auto simp: change_windows_def Let_def split: option.splits)
  show ?case
  proof (cases rs)
    case Nil
    with Cons.prems(3,4) have "sy_new r = None" by simp
    with Nil step Cons.prems(2) show ?thesis by auto
  next
    case (Cons q qs)
    have "\<forall>r \<in> set rs. sy_get r \<and> sy_set r \<and> sy_exit r = None" using Cons.prems(1) by simp
    moreover have "sy_got ?s2 \<or> sy_master ?s2 = sy_win ?s2" using Cons.prems(2) by (auto simp: sigwinchHandler_def split: option.splits)
    moreover obtain rs'' where "rs = rs'' @ [l]" using Cons.prems(3) Cons by (cases rs') auto
    ultimately have "\<exists>s'. script_windows rs ?s2 = (None, s') \<and> sy_master s' = sy_win s'" using Cons.prems(4) by (rule Cons.IH)
    then show ?thesis unfolding step .
  qed
qed simp

text \<open>However the loop ends, the terminal is as it was when \<^verbatim>\<open>script\<close> was started, if \<^verbatim>\<open>ttyReset\<close> can set it; when \<^verbatim>\<open>sigaction\<close> or
  \<^verbatim>\<open>atexit\<close> fails, the program has already set the raw mode and leaves the terminal in it.\<close>

theorem script_restores_terminal:
  assumes "script_tty_main e (True, True) reset_ok argv rs s = (Exited n, s')"
  shows "sy_tty s' =
    (if se_tcgetattr e \<and> se_winsize e \<and> se_pty_fork e \<and> se_open e \<and> se_open_timed e \<and>
        (\<not> se_sigaction e \<or> \<not> se_atexit e \<or> \<not> reset_ok)
     then make_raw (sy_tty s) else sy_tty s)"
proof (cases "script_setup e (True, True) argv s")
  case (Pair r s1)
  show ?thesis
  proof (cases r)
    case (Done u)
    then have ok: "se_tcgetattr e \<and> se_winsize e \<and> se_pty_fork e \<and> se_open e \<and> se_open_timed e \<and> se_sigaction e \<and> se_atexit e"
      "sy_tty s1 = make_raw (sy_tty s)" "sy_orig s1 = sy_tty s"
      using Pair by (auto simp: script_setup_def ttySetRaw_def Let_def split: if_splits run.splits)
    obtain x s2 where w: "script_windows rs s1 = (Some x, s2)"
      using assms Pair Done by (auto simp: script_tty_main_def split: option.splits prod.splits)
    from script_windows_keeps [OF w] ok assms Pair Done w show ?thesis
      by (auto simp: script_tty_main_def ttyReset_def split: if_splits)
  next
    case (Exited k)
    then have "s1 = s'" using assms Pair by (simp add: script_tty_main_def)
    with Exited Pair show ?thesis
      by (auto simp: script_setup_def ttySetRaw_def timed_name_def Let_def split: if_splits)
  next
    case (Faulted f)
    then show ?thesis using assms Pair by (simp add: script_tty_main_def)
  qed
qed

end
