(* ===== verification/Resource_Limits.thy ===== *)
theory Resource_Limits
  imports Complex_Main C_Lib
begin

text \<open>
  Programs around the limits of the system and its resources: \<^verbatim>\<open>t_sysconf.c\<close> and \<^verbatim>\<open>t_fpathconf.c\<close> (Section 11), the file statistics of
  \<^verbatim>\<open>nftw_use.c\<close> (Section 18), the busy wait of \<^verbatim>\<open>get_child_usage.c\<close> and the processor limit of \<^verbatim>\<open>setrlimit_above.c\<close> (Section 36), locked and
  discarded memory in \<^verbatim>\<open>test_rlimit_memlock.c\<close> and \<^verbatim>\<open>test_madvise_madv_dontneed.c\<close> (Section 50), and the arithmetic of \<^verbatim>\<open>mem_segments.c\<close>
  (Section 6).
\<close>

subsection \<open>\<^verbatim>\<open>t_sysconf.c\<close> and \<^verbatim>\<open>t_fpathconf.c\<close>\<close>

text \<open>The answer of \<^verbatim>\<open>sysconf\<close> and \<^verbatim>\<open>fpathconf\<close> with the error number it leaves, \<open>None\<close> when it leaves the one set before.\<close>

type_synonym lim_ans = "int \<times> errno option"

definition limit_line :: "string \<Rightarrow> lim_ans \<Rightarrow> string run" where
  "limit_line msg a =
     (if fst a \<noteq> - 1 then Done (msg @ '' '' @ dec_int (fst a) @ [newline])
      else if snd a = None then Done (msg @ '' (indeterminate)'' @ [newline])
      else Exited EXIT_FAILURE)"

definition sysconf_print :: "('n \<Rightarrow> lim_ans) \<Rightarrow> string \<Rightarrow> 'n \<Rightarrow> string run" where
  "sysconf_print sysconf msg name = limit_line msg (sysconf name)"

definition fpathconf_print :: "(nat \<Rightarrow> 'n \<Rightarrow> lim_ans) \<Rightarrow> string \<Rightarrow> nat \<Rightarrow> 'n \<Rightarrow> string run" where
  "fpathconf_print fpathconf msg fd name = limit_line msg (fpathconf fd name)"

text \<open>The lines in order; an error ends the program after the lines before it.\<close>

fun in_order :: "string run list \<Rightarrow> string \<Rightarrow> int \<times> string" where
  "in_order [] out = (0, out)"
| "in_order (Done l # r) out = in_order r (out @ l)"
| "in_order (_ # r) out = (EXIT_FAILURE, out)"

datatype sc_name = SC_ARG_MAX | SC_LOGIN_NAME_MAX | SC_OPEN_MAX | SC_NGROUPS_MAX | SC_PAGESIZE | SC_RTSIG_MAX
datatype pc_name = PC_NAME_MAX | PC_PATH_MAX | PC_PIPE_BUF

definition t_sysconf_main :: "(sc_name \<Rightarrow> lim_ans) \<Rightarrow> int \<times> string" where
  "t_sysconf_main sysconf =
     in_order
       [sysconf_print sysconf ''_SC_ARG_MAX:             '' SC_ARG_MAX,
        sysconf_print sysconf ''_SC_LOGIN_NAME_MAX:      '' SC_LOGIN_NAME_MAX,
        sysconf_print sysconf ''_SC_OPEN_MAX:            '' SC_OPEN_MAX,
        sysconf_print sysconf ''_SC_NGROUPS_MAX:         '' SC_NGROUPS_MAX,
        sysconf_print sysconf ''_SC_PAGESIZE:            '' SC_PAGESIZE,
        sysconf_print sysconf ''_SC_RTSIG_MAX:           '' SC_RTSIG_MAX] []"

definition t_fpathconf_main :: "(nat \<Rightarrow> pc_name \<Rightarrow> lim_ans) \<Rightarrow> int \<times> string" where
  "t_fpathconf_main fpathconf =
     in_order
       [fpathconf_print fpathconf ''_PC_NAME_MAX:  '' 0 PC_NAME_MAX,
        fpathconf_print fpathconf ''_PC_PATH_MAX:  '' 0 PC_PATH_MAX,
        fpathconf_print fpathconf ''_PC_PIPE_BUF:  '' 0 PC_PIPE_BUF] []"

lemma in_order_success:
  "fst (in_order rs out) = 0 \<longleftrightarrow> (\<forall>r \<in> set rs. \<exists>l. r = Done l)"
  by (induction rs out rule: in_order.induct) auto

text \<open>The program succeeds exactly when no call fails; a limit that is not determined is no failure.\<close>

lemma sysconf_print_Done:
  "(\<exists>l. sysconf_print sysconf msg n = Done l) \<longleftrightarrow> (fst (sysconf n) = - 1 \<longrightarrow> snd (sysconf n) = None)"
  by (simp add: sysconf_print_def limit_line_def)

definition sc_names :: "sc_name list" where
  "sc_names = [SC_ARG_MAX, SC_LOGIN_NAME_MAX, SC_OPEN_MAX, SC_NGROUPS_MAX, SC_PAGESIZE, SC_RTSIG_MAX]"

lemma in_sc_names: "n \<in> set sc_names"
  by (cases n) (simp_all add: sc_names_def)

lemma in_order_map:
  "fst (in_order (map2 (sysconf_print sysconf) msgs ns) out) = 0 \<longleftrightarrow>
     (\<forall>n \<in> snd ` set (zip msgs ns). fst (sysconf n) = - 1 \<longrightarrow> snd (sysconf n) = None)"
  by (simp add: in_order_success sysconf_print_Done case_prod_beta)

lemma t_sysconf_success:
  "fst (t_sysconf_main sysconf) = 0 \<longleftrightarrow> (\<forall>n. fst (sysconf n) = - 1 \<longrightarrow> snd (sysconf n) = None)"
proof -
  have "\<exists>msgs. t_sysconf_main sysconf = in_order (map2 (sysconf_print sysconf) msgs sc_names) [] \<and> length msgs = length sc_names"
    by (rule exI [of _ "[''_SC_ARG_MAX:             '', ''_SC_LOGIN_NAME_MAX:      '', ''_SC_OPEN_MAX:            '',
        ''_SC_NGROUPS_MAX:         '', ''_SC_PAGESIZE:            '', ''_SC_RTSIG_MAX:           '']"])
      (simp add: t_sysconf_main_def sc_names_def)
  then obtain msgs where m: "t_sysconf_main sysconf = in_order (map2 (sysconf_print sysconf) msgs sc_names) []"
      "length msgs = length sc_names" by blast
  have "snd ` set (zip msgs sc_names) = set sc_names" using map_snd_zip [OF m(2)] by (metis list.set_map)
  then have "snd ` set (zip msgs sc_names) = UNIV" using in_sc_names by auto
  then show ?thesis unfolding m(1) in_order_map by simp
qed

subsection \<open>\<^verbatim>\<open>nftw_use.c\<close>\<close>

text \<open>The seven counters, and the callback; for a file that cannot be examined (\<^verbatim>\<open>FTW_NS\<close>) the structure it is given has no defined
  contents.\<close>

record counters =
  n_reg :: int
  n_dir :: int
  n_chr :: int
  n_blk :: int
  n_lnk :: int
  n_fifo :: int
  n_sock :: int

definition dir_tree :: "32 word option \<Rightarrow> counters \<Rightarrow> counters run" where
  "dir_tree st_mode k =
     (case st_mode of
        None \<Rightarrow> Faulted Uninitialised
      | Some m \<Rightarrow>
          let ty = m AND 0xF000 in
          Done (if ty = 0x8000 then k\<lparr>n_reg := n_reg k + 1\<rparr>
                else if ty = 0x4000 then k\<lparr>n_dir := n_dir k + 1\<rparr>
                else if ty = 0x2000 then k\<lparr>n_chr := n_chr k + 1\<rparr>
                else if ty = 0x6000 then k\<lparr>n_blk := n_blk k + 1\<rparr>
                else if ty = 0xA000 then k\<lparr>n_lnk := n_lnk k + 1\<rparr>
                else if ty = 0x1000 then k\<lparr>n_fifo := n_fifo k + 1\<rparr>
                else if ty = 0xC000 then k\<lparr>n_sock := n_sock k + 1\<rparr>
                else k))"

definition num_of :: "counters \<Rightarrow> int" where
  "num_of k = n_reg k + n_dir k + n_chr k + n_blk k + n_lnk k + n_fifo k + n_sock k"

fun tree_calls :: "32 word option list \<Rightarrow> counters \<Rightarrow> counters run" where
  "tree_calls [] k = Done k"
| "tree_calls (m # r) k = run_bind (dir_tree m k) (tree_calls r)"

text \<open>The line with the number, and the seven quotients that are printed with two decimals; their text is left out. \<open>calls\<close> are the files of
  the tree in the order in which \<^verbatim>\<open>nftw\<close> visits them, \<open>None\<close> when it fails.\<close>

definition nftw_use_main :: "string list \<Rightarrow> 32 word option list option \<Rightarrow> (string \<times> (string \<times> rat) list) run" where
  "nftw_use_main argv calls =
     (if length argv \<noteq> 2 then Exited EXIT_FAILURE
      else case calls of
        None \<Rightarrow> Exited EXIT_FAILURE
      | Some ms \<Rightarrow>
          run_bind (tree_calls ms \<lparr>n_reg = 0, n_dir = 0, n_chr = 0, n_blk = 0, n_lnk = 0, n_fifo = 0, n_sock = 0\<rparr>) (\<lambda>k.
            let share = (\<lambda>n. of_int n * 100 / of_int (num_of k)) in
            Done (''NUM: '' @ dec_int (num_of k) @ [newline],
              [(''REG:  '', share (n_reg k)), (''DIR:  '', share (n_dir k)), (''CHR:  '', share (n_chr k)), (''BLK:  '', share (n_blk k)),
               (''LNK:  '', share (n_lnk k)), (''FIFO: '', share (n_fifo k)), (''SOCK: '', share (n_sock k))])))"

definition known_type :: "32 word option \<Rightarrow> bool" where
  "known_type m \<longleftrightarrow> (\<exists>x. m = Some x \<and> x AND 0xF000 \<in> {0x8000, 0x4000, 0x2000, 0x6000, 0xA000, 0x1000, 0xC000})"

lemma tree_calls_count:
  "\<forall>m \<in> set ms. known_type m \<Longrightarrow> \<exists>k'. tree_calls ms k = Done k' \<and> num_of k' = num_of k + int (length ms)"
proof (induction ms arbitrary: k)
  case (Cons m ms)
  then obtain x where x: "m = Some x" "x AND 0xF000 \<in> {0x8000, 0x4000, 0x2000, 0x6000, 0xA000, 0x1000, 0xC000}"
    by (auto simp: known_type_def)
  obtain k1 where k1: "dir_tree m k = Done k1" "num_of k1 = num_of k + 1"
    using x by (auto simp: dir_tree_def num_of_def)
  from Cons obtain k' where "tree_calls ms k1 = Done k'" "num_of k' = num_of k1 + int (length ms)" by auto
  then show ?case using k1 by simp
qed simp

text \<open>Every file is counted once, and the seven shares add up to a hundred; of an empty list of calls no share can be formed.\<close>

lemma nftw_use_shares:
  assumes "\<forall>m \<in> set ms. known_type m" "ms \<noteq> []"
  shows "\<exists>ss. nftw_use_main [prog, d] (Some ms) = Done (''NUM: '' @ dec_int (int (length ms)) @ [newline], ss) \<and> sum_list (map snd ss) = 100"
proof -
  obtain k where k: "tree_calls ms \<lparr>n_reg = 0, n_dir = 0, n_chr = 0, n_blk = 0, n_lnk = 0, n_fifo = 0, n_sock = 0\<rparr> = Done k"
    "num_of k = int (length ms)"
    using tree_calls_count [OF assms(1), of "\<lparr>n_reg = 0, n_dir = 0, n_chr = 0, n_blk = 0, n_lnk = 0, n_fifo = 0, n_sock = 0\<rparr>"]
    by (auto simp: num_of_def)
  let ?d = "of_int (num_of k) :: rat"
  have d: "?d \<noteq> 0" using k(2) assms(2) by simp
  have "of_int (n_reg k) * 100 / ?d + of_int (n_dir k) * 100 / ?d + of_int (n_chr k) * 100 / ?d + of_int (n_blk k) * 100 / ?d +
      of_int (n_lnk k) * 100 / ?d + of_int (n_fifo k) * 100 / ?d + of_int (n_sock k) * 100 / ?d = ?d * 100 / ?d"
    by (simp add: num_of_def add_divide_distrib [symmetric] distrib_right)
  then have "of_int (n_reg k) * 100 / ?d + of_int (n_dir k) * 100 / ?d + of_int (n_chr k) * 100 / ?d + of_int (n_blk k) * 100 / ?d +
      of_int (n_lnk k) * 100 / ?d + of_int (n_fifo k) * 100 / ?d + of_int (n_sock k) * 100 / ?d = 100"
    using d by simp
  then show ?thesis using k by (simp add: nftw_use_main_def Let_def add.assoc)
qed

subsection \<open>\<^verbatim>\<open>setrlimit_above.c\<close>\<close>

text \<open>What the kernel does when a process has used another second of processor time: the first signal at the soft limit, one more every second,
  and the end of the process at the hard limit.\<close>

datatype cpu_event = Run_On | Sigxcpu | Killed

definition cpu_second :: "nat \<Rightarrow> nat \<Rightarrow> nat \<Rightarrow> cpu_event" where
  "cpu_second soft hard s = (if hard \<le> s then Killed else if soft \<le> s then Sigxcpu else Run_On)"

definition sigxcpu_handler :: string where
  "sigxcpu_handler = ''Get it!'' @ [newline]"

text \<open>The endless loop, followed for \<open>n\<close> seconds from second \<open>s\<close> on: what is printed, and whether the process was killed.\<close>

fun burn :: "nat \<Rightarrow> nat \<Rightarrow> nat \<Rightarrow> nat \<Rightarrow> string \<times> bool" where
  "burn soft hard s 0 = ([], False)"
| "burn soft hard s (Suc n) =
     (case cpu_second soft hard s of
        Killed \<Rightarrow> ([], True)
      | Sigxcpu \<Rightarrow> (case burn soft hard (Suc s) n of (out, k) \<Rightarrow> (sigxcpu_handler @ out, k))
      | Run_On \<Rightarrow> burn soft hard (Suc s) n)"

definition setrlimit_above_main :: "bool \<Rightarrow> bool \<Rightarrow> bool \<Rightarrow> nat \<Rightarrow> (string \<times> bool) run" where
  "setrlimit_above_main empty_ok sigaction_ok setrlimit_ok n =
     (if \<not> empty_ok then Exited EXIT_FAILURE
      else if \<not> sigaction_ok then Exited EXIT_FAILURE
      else if \<not> setrlimit_ok then Exited EXIT_FAILURE
      else Done (burn 10 30 1 n))"

lemma burn_signals:
  "s \<le> hard \<Longrightarrow> hard - s < n \<Longrightarrow> burn soft hard s n = (concat (replicate (hard - max soft s) sigxcpu_handler), True)"
proof (induction n arbitrary: s)
  case (Suc n)
  show ?case
  proof (cases "s = hard")
    case False
    then have IH: "burn soft hard (Suc s) n = (concat (replicate (hard - max soft (Suc s)) sigxcpu_handler), True)"
      using Suc by simp
    show ?thesis
    proof (cases "soft \<le> s")
      case True
      then have "hard - max soft s = Suc (hard - max soft (Suc s))" using False Suc.prems(1) by simp
      with True False Suc.prems(1) IH show ?thesis by (simp add: cpu_second_def)
    next
      case soft: False
      then have "max soft s = max soft (Suc s)" by simp
      with soft False Suc.prems(1) IH show ?thesis by (simp add: cpu_second_def)
    qed
  qed (simp add: cpu_second_def)
qed simp

text \<open>The handler runs twenty times, and the process does not live longer than thirty seconds of processor time.\<close>

lemma setrlimit_above_ends:
  "30 \<le> n \<Longrightarrow> setrlimit_above_main True True True n = Done (concat (replicate 20 sigxcpu_handler), True)"
  using burn_signals [of 1 30 n 10] by (simp add: setrlimit_above_main_def)

subsection \<open>\<^verbatim>\<open>test_rlimit_memlock.c\<close> and \<^verbatim>\<open>test_madvise_madv_dontneed.c\<close>\<close>

text \<open>\<^verbatim>\<open>mmap\<close> with \<^verbatim>\<open>MAP_LOCKED\<close> fails when the locked memory would exceed the limit. The lines of the loop, as they appear on the terminal, and
  the bytes locked.\<close>

fun map_loop :: "nat \<Rightarrow> nat \<Rightarrow> nat \<Rightarrow> nat \<Rightarrow> nat \<Rightarrow> string \<times> nat" where
  "map_loop limit page_size i 0 locked = ([], locked)"
| "map_loop limit page_size i (Suc k) locked =
     (let ok = (locked + page_size \<le> limit);
          (out, l) = map_loop limit page_size (Suc i) k (if ok then locked + page_size else locked)
      in (''Mapping index ['' @ dec_nat i @ ''] '' @ (if ok then ''Success'' else ''Failed'') @ [newline] @ out, l))"

definition rlimit_memlock_main :: "string list \<Rightarrow> nat option \<Rightarrow> nat \<Rightarrow> nat \<Rightarrow> (string \<times> nat) run" where
  "rlimit_memlock_main argv page_size limit locked =
     (if length argv \<noteq> 2 then Exited EXIT_FAILURE
      else case page_size of
        None \<Rightarrow> Exited EXIT_FAILURE
      | Some ps \<Rightarrow> Done (map_loop limit ps 0 (nat (atoi (argv ! 1))) locked))"

text \<open>The limit is never exceeded, and pages are locked as long as one fits.\<close>

lemma map_loop_locked:
  "0 < ps \<Longrightarrow> locked \<le> limit \<Longrightarrow> snd (map_loop limit ps i k locked) = locked + ps * min k ((limit - locked) div ps)"
proof (induction k arbitrary: i locked)
  case (Suc k)
  show ?case
  proof (cases "locked + ps \<le> limit")
    case True
    then have "(limit - locked) div ps = Suc ((limit - (locked + ps)) div ps)"
      using Suc.prems(1) by (simp add: le_div_geq)
    with True Suc.IH [of "locked + ps" "Suc i"] Suc.prems(1) show ?thesis by (simp add: case_prod_beta Let_def)
  next
    case False
    then have "limit - locked < ps" using Suc.prems(1) by linarith
    then have "(limit - locked) div ps = 0" by simp
    with False Suc.IH [of locked "Suc i"] Suc.prems show ?thesis by (simp add: case_prod_beta Let_def)
  qed
qed simp

text \<open>The word at the start of an anonymous private mapping: zero at first, and zero again after \<^verbatim>\<open>MADV_DONTNEED\<close>, which discards the page.\<close>

definition hex_char :: "nat \<Rightarrow> char" where
  "hex_char d = (if d < 10 then digit_char d else char_of (87 + d))"

fun hex_nat :: "nat \<Rightarrow> string" where
  "hex_nat n = (if n < 16 then [hex_char n] else hex_nat (n div 16) @ [hex_char (n mod 16)])"

definition hex_line :: "nat \<Rightarrow> string" where
  "hex_line n = ''0x'' @ hex_nat n @ [newline]"

definition madvise_main :: "bool \<Rightarrow> bool \<Rightarrow> string run" where
  "madvise_main mmap_ok madvise_ok =
     (if \<not> mmap_ok then Exited EXIT_FAILURE
      else
        let page0 = (0 :: nat); page1 = 0x123456 in
        if \<not> madvise_ok then Exited EXIT_FAILURE
        else Done (hex_line page0 @ hex_line page1 @ hex_line 0))"

lemma madvise_main_output:
  "madvise_main True True = Done (''0x0'' @ [newline] @ ''0x123456'' @ [newline] @ ''0x0'' @ [newline])"
  by (simp add: madvise_main_def hex_line_def hex_char_def digit_char_values)

subsection \<open>\<^verbatim>\<open>mem_segments.c\<close>\<close>

definition square :: "int \<Rightarrow> int" where
  "square x = to_int32 (x * x)"

definition doCalc :: "int \<Rightarrow> string" where
  "doCalc val =
     ''The square of '' @ dec_int val @ '' is '' @ dec_int (square val) @ [newline] @
     (if val < 1000 then ''The cube of '' @ dec_int val @ '' is '' @ dec_int (to_int32 (to_int32 (val * val) * val)) @ [newline] else [])"

definition mem_segments_main :: string where
  "mem_segments_main = doCalc 9973"

lemma mem_segments_output: "mem_segments_main = ''The square of 9973 is 99460729'' @ [newline]"
  by (simp add: mem_segments_main_def doCalc_def square_def to_int32_id is_int32_def dec_int_def digit_char_values
      dec_nat.simps [of 9973] dec_nat.simps [of 997] dec_nat.simps [of 99] dec_nat.simps [of 9] dec_nat.simps [of 99460729]
      dec_nat.simps [of 9946072] dec_nat.simps [of 994607] dec_nat.simps [of 99460] dec_nat.simps [of 9946] dec_nat.simps [of 994])

text \<open>The results are exact as long as the square, or the cube, fits into 32 bits; the test keeps the cube of positive numbers there, not that of
  negative ones.\<close>

lemma to_int32_fits: "\<bar>x\<bar> \<le> 2147483647 \<Longrightarrow> to_int32 x = x"
  by (rule to_int32_id) (auto simp: is_int32_def)

lemma doCalc_exact:
  assumes "0 \<le> val" "val \<le> 46340"
  shows "square val = val * val" "val < 1000 \<Longrightarrow> to_int32 (to_int32 (val * val) * val) = val * val * val"
proof -
  have "val * val \<le> 46340 * 46340" using assms by (intro mult_mono) auto
  then have sq: "to_int32 (val * val) = val * val" using assms by (intro to_int32_fits) auto
  then show "square val = val * val" by (simp add: square_def)
  assume "val < 1000"
  then have "val * val \<le> 999 * 999" using assms by (intro mult_mono) auto
  then have "val * val * val \<le> 999 * 999 * 999" using assms \<open>val < 1000\<close> by (intro mult_mono) auto
  then show "to_int32 (to_int32 (val * val) * val) = val * val * val" using assms unfolding sq by (intro to_int32_fits) auto
qed

lemma doCalc_negative_wraps: "to_int32 (to_int32 (- 2000 * - 2000) * - 2000) = 589934592"
  by code_simp

end
