(* ===== verification/Libraries.thy ===== *)
theory Libraries
  imports C_Lib
begin

text \<open>
  Programs whose subject is what a library or the kernel keeps behind the back of the program: the shared libraries of Section 42
  (\<^verbatim>\<open>dynload.c\<close>, \<^verbatim>\<open>share_lib_delete_test.c\<close>), the saved environment of \<^verbatim>\<open>longjmp.c\<close> (Section 6), the static buffer behind \<^verbatim>\<open>getpwuid.c\<close>
  (Section 8), a thread that joins itself (\<^verbatim>\<open>pthread_join_in_self.c\<close>, Section 29), orphaned process groups (Section 34), ignored signals
  (\<^verbatim>\<open>sig_ign.c\<close>, Section 20, and \<^verbatim>\<open>child_sigchld.c\<close>, Section 33) and the address of an unbound socket (\<^verbatim>\<open>tcp_nobind.c\<close>, Section 61).
\<close>

subsection \<open>The dynamic loader\<close>

text \<open>The loader counts the references to each loaded library. \<^verbatim>\<open>dlopen\<close> adds one to the library and to each library it needs,
  \<^verbatim>\<open>dlclose\<close> takes them back. \<open>libs\<close> gives for the files that exist the libraries they need, themselves included, and their symbols.\<close>

record lib =
  l_needs :: "string list"
  l_syms :: "string list"

type_synonym loaded = "string \<Rightarrow> nat"

definition dl_open :: "(string \<rightharpoonup> lib) \<Rightarrow> string \<Rightarrow> loaded \<Rightarrow> loaded option" where
  "dl_open libs f ld =
     (case libs f of
        None \<Rightarrow> None
      | Some l \<Rightarrow> Some (\<lambda>g. ld g + (if g = f \<or> g \<in> set (l_needs l) then 1 else 0)))"

definition dl_close :: "(string \<rightharpoonup> lib) \<Rightarrow> string \<Rightarrow> loaded \<Rightarrow> loaded" where
  "dl_close libs f ld =
     (case libs f of
        None \<Rightarrow> ld
      | Some l \<Rightarrow> (\<lambda>g. ld g - (if g = f \<or> g \<in> set (l_needs l) then 1 else 0)))"

text \<open>\<^verbatim>\<open>RTLD_NOLOAD\<close>: a handle only for a library that is loaded.\<close>

definition dl_noload :: "string \<Rightarrow> loaded \<Rightarrow> bool" where
  "dl_noload f ld \<longleftrightarrow> 0 < ld f"

lemma dl_close_open: "dl_open libs f ld = Some ld' \<Longrightarrow> dl_close libs f ld' = ld"
proof -
  assume "dl_open libs f ld = Some ld'"
  then obtain l where "libs f = Some l" "ld' = (\<lambda>g. ld g + (if g = f \<or> g \<in> set (l_needs l) then 1 else 0))"
    by (auto simp: dl_open_def split: option.splits)
  then show ?thesis by (simp add: dl_close_def)
qed

text \<open>\<^verbatim>\<open>share_lib_delete_test\<close>, with and without \<^verbatim>\<open>USE_LIB\<close>. The call of the function in the second library works only while the first
  library, whose symbol it is bound to at that moment, is loaded; otherwise the process is ended.\<close>

definition share_lib_main :: "bool \<Rightarrow> (string \<rightharpoonup> lib) \<Rightarrow> string run" where
  "share_lib_main use_lib libs =
     (case dl_open libs ''./libmy.so'' (\<lambda>_. 0) of
        None \<Rightarrow> Exited EXIT_FAILURE
      | Some ld1 \<Rightarrow>
          run_bind
            (if use_lib then
               (case dl_open libs ''./libtest.so'' ld1 of
                  None \<Rightarrow> Exited EXIT_FAILURE
                | Some ld2 \<Rightarrow>
                    if ''hh_printf'' \<notin> set (l_syms (the (libs ''./libtest.so''))) then Exited EXIT_FAILURE else Done ld2)
             else Done ld1)
            (\<lambda>ld3.
              let ld4 = dl_close libs ''./libmy.so'' ld3 in
              run_bind
                (if use_lib then (if dl_noload ''./libmy.so'' ld4 then Done (''Hello world'' @ [newline]) else Exited 127) else Done [])
                (\<lambda>out. Done (out @ (if dl_noload ''./libmy.so'' ld4 then ''install'' else ''uninstall'') @ [newline]))))"

text \<open>The library stays exactly when another library that needs it is still open.\<close>

lemma share_lib_unloads:
  assumes "libs ''./libmy.so'' = Some l"
  shows "share_lib_main False libs = Done (''uninstall'' @ [newline])"
  using assms by (simp add: share_lib_main_def dl_open_def dl_close_def dl_noload_def)

lemma share_lib_stays:
  assumes "libs ''./libmy.so'' = Some l" "libs ''./libtest.so'' = Some t" "''hh_printf'' \<in> set (l_syms t)"
  shows "share_lib_main True libs =
    (if ''./libmy.so'' \<in> set (l_needs t) then Done (''Hello world'' @ [newline] @ ''install'' @ [newline]) else Exited 127)"
  using assms by (simp add: share_lib_main_def dl_open_def dl_close_def dl_noload_def)

text \<open>\<^verbatim>\<open>dynload\<close>: \<open>symb\<close> is the value of the symbol (\<open>None\<close> a null pointer), \<open>call\<close> what the function prints and \<open>addr\<close> what
  \<^verbatim>\<open>dladdr\<close> finds for its address.\<close>

definition dynload_main :: "(string \<rightharpoonup> lib) \<Rightarrow> (string \<Rightarrow> string \<Rightarrow> nat option) \<Rightarrow> (nat \<Rightarrow> string) \<Rightarrow> (nat \<Rightarrow> string option) \<Rightarrow> string list
    \<Rightarrow> (string \<times> loaded) run" where
  "dynload_main libs symb call addr argv =
     (if length argv \<noteq> 3 \<or> argv ! 1 = ''--help'' then Exited EXIT_SUCCESS
      else case dl_open libs (argv ! 1) (\<lambda>_. 0) of
        None \<Rightarrow> Exited EXIT_FAILURE
      | Some ld \<Rightarrow>
          if argv ! 2 \<notin> set (l_syms (the (libs (argv ! 1)))) then Exited EXIT_FAILURE
          else
            let funcp = symb (argv ! 1) (argv ! 2) in
            Done ((case funcp of None \<Rightarrow> argv ! 2 @ '' is NULL'' @ [newline] | Some p \<Rightarrow> call p) @
                  (let p = (case funcp of None \<Rightarrow> 0 | Some p \<Rightarrow> p)
                   in case addr p of Some info \<Rightarrow> info @ [newline] | None \<Rightarrow> ''Find '' @ dec_nat p @ '' failed'' @ [newline]),
                  dl_close libs (argv ! 1) ld))"

text \<open>When the program ends, no library is loaded any more.\<close>

lemma dynload_unloads: "dynload_main libs symb call addr argv = Done (out, ld) \<Longrightarrow> ld = (\<lambda>_. 0)"
  by (auto simp: dynload_main_def Let_def dest: dl_close_open split: if_splits option.splits)

subsection \<open>\<^verbatim>\<open>longjmp.c\<close>\<close>

text \<open>A function prints and then returns or jumps to a saved environment; the environment is known by the call of \<^verbatim>\<open>func_a\<close> that saved it.\<close>

datatype jumped = Returned | Jumps nat int

definition func_b :: "nat \<Rightarrow> string \<times> jumped" where
  "func_b env = ([], Jumps env 1)"

text \<open>The call number \<open>k\<close> of \<^verbatim>\<open>func_a\<close>: it saves its environment, and a jump to it continues in the \<^verbatim>\<open>switch\<close>.\<close>

definition func_a :: "nat \<Rightarrow> string \<times> jumped" where
  "func_a k =
     (case func_b k of
        (out, Jumps e v) \<Rightarrow>
          let first = ''Calling from main'' @ [newline] @ out in
          if e = k then (first @ (if v = 1 then ''Go back from func_b'' @ [newline] else []) @ ''There is func_a'' @ [newline], Returned)
          else (first, Jumps e v)
      | (out, Returned) \<Rightarrow> (''Calling from main'' @ [newline] @ out @ ''There is func_a'' @ [newline], Returned))"

text \<open>\<^verbatim>\<open>main\<close>: what is printed, and \<open>Faulted\<close> when a jump leads into a call that has returned, whose frame is no longer defined.\<close>

definition longjmp_main :: "string \<times> int run" where
  "longjmp_main =
     (let (out1, r1) = func_a 0; out0 = ''There is main'' @ [newline] @ out1 in
      case r1 of
        Jumps e v \<Rightarrow> (out0, Faulted Uninitialised)
      | Returned \<Rightarrow>
          (case func_b 0 of
             (out2, Returned) \<Rightarrow> (out0 @ out2, Done 0)
           | (out2, Jumps e v) \<Rightarrow> (out0 @ out2, Faulted Uninitialised)))"

lemma longjmp_main_output:
  "longjmp_main = (''There is main'' @ [newline] @ ''Calling from main'' @ [newline] @ ''Go back from func_b'' @ [newline] @
     ''There is func_a'' @ [newline], Faulted Uninitialised)"
  by (simp add: longjmp_main_def func_a_def func_b_def)

subsection \<open>\<^verbatim>\<open>getpwuid.c\<close>\<close>

text \<open>\<^verbatim>\<open>getpwuid\<close> stores its answer in one static structure; \<open>buf\<close> is the name in it. The order in which the two arguments of \<^verbatim>\<open>printf\<close>
  are evaluated is not specified: \<open>first_left\<close>.\<close>

definition getpwuid_call :: "(nat \<rightharpoonup> string) \<Rightarrow> nat \<Rightarrow> string run" where
  "getpwuid_call users uid = (case users uid of None \<Rightarrow> Faulted NullDeref | Some n \<Rightarrow> Done n)"

definition getpwuid_main :: "bool \<Rightarrow> (nat \<rightharpoonup> string) \<Rightarrow> string run" where
  "getpwuid_main first_left users =
     (let order = (if first_left then [0, 1000] else [1000, 0]) in
      run_bind (getpwuid_call users (order ! 0)) (\<lambda>_.
        run_bind (getpwuid_call users (order ! 1)) (\<lambda>buf.
          Done (buf @ '' '' @ buf @ [newline]))))"

lemma getpwuid_main_same_name:
  "users 0 = Some r \<Longrightarrow> users 1000 = Some u \<Longrightarrow>
     getpwuid_main b users = Done (if b then u @ '' '' @ u @ [newline] else r @ '' '' @ r @ [newline])"
  by (simp add: getpwuid_main_def getpwuid_call_def)

subsection \<open>\<^verbatim>\<open>pthread_join_in_self.c\<close>\<close>

text \<open>The thread compares itself with the variable \<^verbatim>\<open>t1\<close>, which \<^verbatim>\<open>pthread_create\<close> may fill in only after the thread has started: \<open>t1_set\<close>.
  \<^verbatim>\<open>pthread_join\<close> of the calling thread fails with \<^verbatim>\<open>EDEADLK\<close>; \<open>msg\<close> is its text.\<close>

definition join_self_thread :: "bool \<Rightarrow> string \<Rightarrow> (string \<times> string) run" where
  "join_self_thread t1_set msg =
     (let s = (if t1_set then Some (35 :: int) else None) in
      case s of
        None \<Rightarrow> Faulted Uninitialised
      | Some v \<Rightarrow> Done (''before'' @ [newline] @ ''after'' @ [newline], if v \<noteq> 0 then msg @ [newline] else []))"

text \<open>The main thread never ends the process by itself: \<^verbatim>\<open>pause\<close> returns only after a signal with a handler, and there is none.\<close>

definition join_self_main :: "bool \<Rightarrow> bool \<Rightarrow> string \<Rightarrow> (string \<times> string) run" where
  "join_self_main create_ok t1_set msg =
     (if \<not> create_ok then Exited EXIT_FAILURE
      else run_bind (join_self_thread t1_set msg) (\<lambda>(out, err). Done (''Massage from main'' @ [newline] @ out, err)))"

lemma join_self_reports: "join_self_main True True msg = Done (''Massage from main'' @ [newline] @ ''before'' @ [newline] @ ''after'' @ [newline], msg @ [newline])"
  by (simp add: join_self_main_def join_self_thread_def)

subsection \<open>Orphaned process groups\<close>

text \<open>\<^verbatim>\<open>orphan_process_read\<close>: after the parent has exited, the child is in an orphaned group in the background, and reading from the terminal
  fails with \<^verbatim>\<open>EIO\<close>; from a file or a pipe it succeeds.\<close>

datatype stdin_kind = Is_Terminal | Is_Other "rd_ans list"

definition orphan_read :: "stdin_kind \<Rightarrow> (errno + string) \<times> rd_ans list" where
  "orphan_read k = (case k of Is_Terminal \<Rightarrow> (Inl EIO, []) | Is_Other rs \<Rightarrow> sys_read 512 rs)"

definition orphan_read_main :: "bool option \<Rightarrow> stdin_kind \<Rightarrow> int \<times> string" where
  "orphan_read_main fork k =
     (case fork of
        None \<Rightarrow> (EXIT_FAILURE, [])
      | Some True \<Rightarrow>
          (case fst (orphan_read k) of
             Inl e \<Rightarrow> (EXIT_FAILURE, ''child process wake up'' @ [newline])
           | Inr b \<Rightarrow> (EXIT_SUCCESS, ''child process wake up'' @ [newline] @ ''read success'' @ [newline]))
      | Some False \<Rightarrow> (EXIT_SUCCESS, ''parent process exit'' @ [newline]))"

lemma orphan_read_terminal: "orphan_read_main (Some True) Is_Terminal = (EXIT_FAILURE, ''child process wake up'' @ [newline])"
  by (simp add: orphan_read_main_def orphan_read_def)

text \<open>\<^verbatim>\<open>orphan_sig\<close>: the signals that reach the child. Stop signals of the terminal are discarded for an orphaned group; \<^verbatim>\<open>SIGUSR1\<close> runs the handler
  and ends \<^verbatim>\<open>pause\<close>; others end the process. The result is the output and whether the child was ended.\<close>

datatype orphan_signal = Usr1 | Tstp | Deadly

fun orphan_sig_child :: "orphan_signal list \<Rightarrow> string \<times> bool" where
  "orphan_sig_child [] = ([], False)"
| "orphan_sig_child (Tstp # r) = orphan_sig_child r"
| "orphan_sig_child (Usr1 # r) =
     (case orphan_sig_child r of (out, e) \<Rightarrow> (''sig_usr1 recieve'' @ [newline] @ ''recieve a signal'' @ [newline] @ out, e))"
| "orphan_sig_child (Deadly # r) = ([], True)"

definition orphan_sig_main :: "bool \<Rightarrow> int option \<Rightarrow> orphan_signal list \<Rightarrow> (string \<times> bool) run" where
  "orphan_sig_main sigaction_ok fork sigs =
     (if \<not> sigaction_ok then Exited EXIT_FAILURE
      else case fork of
        None \<Rightarrow> Exited EXIT_FAILURE
      | Some pid \<Rightarrow>
          if pid = 0 then (case orphan_sig_child sigs of (out, e) \<Rightarrow> Done (''child process wake up'' @ [newline] @ out, e))
          else Done (''child process id is '' @ dec_int pid @ [newline], True))"

lemma orphan_sig_ignores_stops: "orphan_sig_child sigs = orphan_sig_child (filter (\<lambda>s. s \<noteq> Tstp) sigs)"
  by (induction sigs rule: orphan_sig_child.induct) simp_all

subsection \<open>Signals and threads that loop\<close>

text \<open>\<^verbatim>\<open>sig_ign\<close>: once \<^verbatim>\<open>SIGINT\<close> is ignored the program loops, and only another signal ends it: \<open>sigs\<close> tells for each signal that arrives
  whether it is \<^verbatim>\<open>SIGINT\<close>.\<close>

definition sig_ign_main :: "bool \<Rightarrow> bool \<Rightarrow> bool list \<Rightarrow> bool run" where
  "sig_ign_main empty_ok sigaction_ok sigs =
     (if \<not> empty_ok then Exited EXIT_FAILURE
      else if \<not> sigaction_ok then Exited EXIT_FAILURE
      else Done (\<not> list_all id sigs))"

lemma sig_ign_survives: "sig_ign_main True True (replicate n True) = Done False"
  by (simp add: sig_ign_main_def list_all_iff)

text \<open>\<^verbatim>\<open>child_sigchld\<close>: what parent and child print, and how the process ends. The two threads never return, so \<^verbatim>\<open>pthread_join\<close> does not either.\<close>

definition child_sigchld_main :: "bool option \<Rightarrow> string \<times> unit run" where
  "child_sigchld_main fork =
     (case fork of
        None \<Rightarrow> (''fork fail'' @ [newline], Faulted Endless)
      | Some True \<Rightarrow> (''son process'' @ [newline] @ ''son process exit'' @ [newline], Exited EXIT_SUCCESS)
      | Some False \<Rightarrow> (''Hello'' @ [newline], Faulted Endless))"

subsection \<open>\<^verbatim>\<open>tcp_nobind.c\<close> and the FIFO programs of Section 44\<close>

text \<open>No result is tested: when \<^verbatim>\<open>getnameinfo\<close> fails the two names are indeterminate.\<close>

definition tcp_nobind_main :: "(string \<times> string) option \<Rightarrow> string run" where
  "tcp_nobind_main names =
     (case names of None \<Rightarrow> Faulted Uninitialised | Some (host, port) \<Rightarrow> Done (''['' @ host @ '':'' @ port @ '']'' @ [newline]))"

text \<open>\<^verbatim>\<open>fifo_a\<close> makes the FIFO and ends with failure whether it succeeds or not, the calls that open it being commented out; \<^verbatim>\<open>fifo_b\<close> does
  nothing. The result has the exit status and whether the FIFO exists.\<close>

definition fifo_a_main :: "errno option \<Rightarrow> bool \<Rightarrow> int \<times> bool" where
  "fifo_a_main mkfifo_err exists0 =
     (case mkfifo_err of
        None \<Rightarrow> (EXIT_FAILURE, True)
      | Some e \<Rightarrow> if e \<noteq> EEXIST then (EXIT_FAILURE, exists0) else (EXIT_FAILURE, exists0))"

definition fifo_b_main :: int where
  "fifo_b_main = EXIT_FAILURE"

lemma fifo_a_fails: "fst (fifo_a_main e x) = EXIT_FAILURE"
  by (simp add: fifo_a_main_def split: option.splits)

end
