(* ===== verification/Test_Programs.thy ===== *)
theory Test_Programs
  imports Signals Timers Terminal Once File_Modes
begin

text \<open>
  The main programs that try the functions of other components: \<^verbatim>\<open>SystemVapi.c\<close> (Section 22), \<^verbatim>\<open>my_abort.c\<close> (Section 21), \<^verbatim>\<open>my_alarm.c\<close> (Section
  23), \<^verbatim>\<open>one_time_init.c\<close> (Section 31), \<^verbatim>\<open>my_getpass.c\<close> and \<^verbatim>\<open>my_ttyname.c\<close> (Section 62) and \<^verbatim>\<open>check_ftok.c\<close> (Section 45). Each composes the model of
  its function with the rest of the program.
\<close>

subsection \<open>\<^verbatim>\<open>SystemVapi.c\<close>\<close>

abbreviation (input) USR1 :: nat where "USR1 \<equiv> 10"

text \<open>What \<open>n\<close> signals sent one after the other do: blocked ones leave one pending, ignored ones nothing, others run the handler, which prints. A
  pending signal is delivered as soon as it is not blocked, and discarded when it is ignored.\<close>

definition hello :: string where
  "hello = ''Hello'' @ [newline]"

definition arrive :: "nat \<Rightarrow> sig_state \<Rightarrow> bool \<Rightarrow> string \<times> bool" where
  "arrive n st pending =
     (let k = n + (if pending then 1 else 0) in
      if USR1 \<in> blocked st then ([], 0 < k)
      else case sa_handler (disp st USR1) of
        Handler _ \<Rightarrow> (concat (replicate k hello), False)
      | _ \<Rightarrow> ([], False))"

text \<open>The program for \<open>n1\<close> signals that arrive in the first \<^verbatim>\<open>pause\<close>, \<open>n2\<close> while the signal is held, \<open>n3\<close> after it is released, \<open>n4\<close> while it is
  ignored and \<open>n5\<close> in \<^verbatim>\<open>my_sigpause\<close>. Without a signal the two calls that wait do not return: the second component of the result.\<close>

definition systemv_main :: "int \<Rightarrow> nat \<times> nat \<times> nat \<times> nat \<times> nat \<Rightarrow> sig_state \<Rightarrow> string \<times> bool" where
  "systemv_main pid ns st0 =
     (case ns of (n1, n2, n3, n4, n5) \<Rightarrow>
        let st1 = snd (my_sigset USR1 (Handler 1) st0);
            (a1, p1) = arrive n1 st1 False;
            out1 = ''pid is '' @ dec_int pid @ [newline] @ ''waiting'' @ [newline] @ a1
        in if n1 = 0 then (out1, False)
           else
             let st2 = snd (my_sighold USR1 st1);
                 (a2, p2) = arrive n2 st2 p1;
                 st3 = snd (my_sigrelse USR1 st2);
                 (a3, p3) = arrive 0 st3 p2;
                 (a3', p3') = arrive n3 st3 p3;
                 st4 = snd (my_sigignore USR1 st3);
                 (a4, p4) = arrive n4 st4 p3';
                 st5 = snd (my_sigset USR1 (Handler 1) st4);
                 mask5 = fst (fst (my_sigpause USR1 st5));
                 out5 = out1 @ ''waiting'' @ [newline] @ a2 @ ''ok'' @ [newline] @ ''waiting'' @ [newline] @ a3 @
                   ''sleeping for 5s'' @ [newline] @ a3' @ ''sleeping for 5s'' @ [newline] @ a4 @ ''ok'' @ [newline] @ ''set ok'' @ [newline];
                 (a5, p5) = arrive n5 (case mask5 of None \<Rightarrow> st5 | Some m \<Rightarrow> st5\<lparr>blocked := m\<rparr>) p4
             in if n5 = 0 then (out5, False) else (out5 @ a5 @ ''waiting for 5s'' @ [newline], True))"

lemmas systemv_defs = my_sigset_def my_sighold_def my_sigrelse_def my_sigignore_def my_sigpause_def sigaction_get_def sigaction_set_def
  sigaddset_def sigdelset_def setmask_def settable_def valid_sig_def arrive_def

text \<open>Signals that arrive while the signal is held are delivered once when it is released; those that arrive while it is ignored never.\<close>

lemma systemv_main_output:
  assumes "0 < n1" "0 < n5"
  shows "systemv_main pid (n1, n2, n3, n4, n5) st0 =
    (''pid is '' @ dec_int pid @ [newline] @ ''waiting'' @ [newline] @ concat (replicate n1 hello) @
     ''waiting'' @ [newline] @ ''ok'' @ [newline] @ ''waiting'' @ [newline] @ (if 0 < n2 then hello else []) @
     ''sleeping for 5s'' @ [newline] @ concat (replicate n3 hello) @ ''sleeping for 5s'' @ [newline] @ ''ok'' @ [newline] @ ''set ok'' @ [newline] @
     concat (replicate n5 hello) @ ''waiting for 5s'' @ [newline], True)"
  using assms by (simp add: systemv_main_def systemv_defs)

subsection \<open>\<^verbatim>\<open>my_abort.c\<close> and \<^verbatim>\<open>my_alarm.c\<close>\<close>

text \<open>With \<^verbatim>\<open>TEST\<close> a handler that prints and returns is installed first.\<close>

definition abort_main :: "bool \<Rightarrow> sig_state \<Rightarrow> string \<times> raised" where
  "abort_main test st =
     (let st1 = (if test then the (sigaction_set SIGABRT \<lparr>sa_handler = Handler 0, sa_flags = 0, sa_mask = {}\<rparr> st) else st)
      in (if test \<and> SIGABRT \<notin> blocked st then ''Hello!'' @ [newline] else [], my_abort (\<lambda>_. True) st1))"

lemma abort_main_terminates: "SIGABRT \<notin> blocked st \<Longrightarrow> snd (abort_main test st) = Terminated SIGABRT"
  by (simp add: abort_main_def my_abort_terminates sigaction_set_def settable_def valid_sig_def)

text \<open>The busy loop of \<^verbatim>\<open>my_alarm.c\<close>: \<open>us\<close> are the microseconds of the rounds, in order; the result is the time at which the loop ends.\<close>

fun alarm_loop :: "int list \<Rightarrow> int \<Rightarrow> itimer \<Rightarrow> int option" where
  "alarm_loop [] now t = None"
| "alarm_loop (d # ds) now t = (if it_value t \<le> d then Some (now + it_value t) else alarm_loop ds (now + d) (elapse d t))"

definition alarm_main :: "bool \<Rightarrow> int list \<Rightarrow> itimer \<Rightarrow> (string \<times> int) option run" where
  "alarm_main sigaction_ok ds t =
     (if \<not> sigaction_ok then Exited EXIT_FAILURE
      else Done (map_option (\<lambda>e. (''GET'' @ [newline], e)) (alarm_loop ds 0 (snd (my_alarm 5 t)))))"

lemma alarm_loop_time: "alarm_loop ds now t = Some e \<Longrightarrow> e = now + it_value t"
  by (induction ds now t rule: alarm_loop.induct) (auto simp: elapse_def split: if_splits)

lemma alarm_loop_ends: "it_value t \<le> sum_list ds \<Longrightarrow> ds \<noteq> [] \<Longrightarrow> \<exists>e. alarm_loop ds now t = Some e"
proof (induction ds now t rule: alarm_loop.induct)
  case (2 d ds now t)
  then show ?case by (cases ds) (auto simp: elapse_def)
qed simp

text \<open>However long a round takes, the program ends five seconds after the call, whatever timer was set before.\<close>

lemma alarm_main_five_seconds:
  assumes "5000000 \<le> sum_list ds" "ds \<noteq> []"
  shows "alarm_main True ds t = Done (Some (''GET'' @ [newline], 5000000))"
proof -
  have v: "it_value (snd (my_alarm 5 t)) = 5000000" by (simp add: my_alarm_def getitimer_def)
  then obtain e where "alarm_loop ds 0 (snd (my_alarm 5 t)) = Some e" using alarm_loop_ends [of "snd (my_alarm 5 t)" ds 0] assms by auto
  with alarm_loop_time [OF this] v show ?thesis by (simp add: alarm_main_def)
qed

subsection \<open>\<^verbatim>\<open>one_time_init.c\<close>\<close>

text \<open>A thread that runs alone, until it has returned or is blocked; seven steps are enough.\<close>

fun run_alone :: "nat \<Rightarrow> nat \<Rightarrow> once \<Rightarrow> once" where
  "run_alone 0 t s = s"
| "run_alone (Suc k) t s = (case one_time_init 0 t s of None \<Rightarrow> s | Some s' \<Rightarrow> run_alone k t s')"

definition once_main :: "bool \<Rightarrow> bool \<Rightarrow> once \<Rightarrow> once run" where
  "once_main create_ok join_ok s =
     (let s1 = run_alone 7 0 s in
      if \<not> create_ok then Exited EXIT_FAILURE
      else let s2 = run_alone 7 1 s1 in if \<not> join_ok then Exited EXIT_FAILURE else Done s2)"

lemma once_main_prints_once:
  assumes "once_start s"
  shows "\<exists>s2. once_main True True s = Done s2 \<and> o_inits s2 = 1 \<and> o_pc s2 0 = Once.Returned 0 \<and> o_pc s2 1 = Once.Returned 0"
  using assms by (simp add: once_main_def once_start_def one_time_init_def goto_def numeral_eq_Suc)

subsection \<open>\<^verbatim>\<open>my_getpass.c\<close> and \<^verbatim>\<open>my_ttyname.c\<close>\<close>

definition getpass_main :: "gp_env \<Rightarrow> termios \<Rightarrow> (string \<times> termios) run" where
  "getpass_main e t =
     run_bind (my_getpass e (Some ''PASSWORD:'') t) (\<lambda>(p, out, t').
       Done (out @ (case p of Some s \<Rightarrow> s @ [newline] | None \<Rightarrow> []), t'))"

text \<open>The answers for the regular file, and for the standard input, of \<^verbatim>\<open>my_ttyname\<close> and of the \<^verbatim>\<open>ttyname\<close> of the library.\<close>

definition ttyname_main :: "(bool \<times> int) option \<Rightarrow> (bool \<times> int) option \<Rightarrow> dir_ans list option \<Rightarrow> dir_ans list option \<Rightarrow> string option \<Rightarrow> string" where
  "ttyname_main file_stat in_stat dev pts lib =
     (let text_of = (\<lambda>p d. case p of Some s \<Rightarrow> s @ [newline] | None \<Rightarrow> d) in
      text_of (my_ttyname file_stat dev pts) [] @
      text_of (my_ttyname in_stat dev pts) (''No found'' @ [newline]) @
      text_of lib (''No found'' @ [newline]))"

lemma ttyname_main_regular: "ttyname_main (Some (False, r)) None dev pts None = ''No found'' @ [newline] @ ''No found'' @ [newline]"
  by (simp add: ttyname_main_def my_ttyname_def)

subsection \<open>\<^verbatim>\<open>check_ftok.c\<close>\<close>

text \<open>The three numbers of the first line, and the key of the second, which is that of \<^verbatim>\<open>ftok\<close> in the library; all are printed in hexadecimal.\<close>

definition check_ftok_main :: "(string \<Rightarrow> (64 word \<times> 64 word) option) \<Rightarrow> (string \<Rightarrow> 32 word \<Rightarrow> 32 word) \<Rightarrow> string list
    \<Rightarrow> ((32 word \<times> 32 word \<times> 32 word) \<times> 32 word) run" where
  "check_ftok_main st ftok argv =
     (if length argv \<noteq> 2 \<or> argv ! 1 = ''--help'' then Exited EXIT_FAILURE
      else case st (argv ! 1) of
        None \<Rightarrow> Exited EXIT_FAILURE
      | Some (ino, dev_minor) \<Rightarrow> Done ((ucast ino, ucast dev_minor, 1), ftok (argv ! 1) 1))"

text \<open>With \<^verbatim>\<open>my_ftok\<close> in place of \<^verbatim>\<open>ftok\<close> the program shows how the key is composed.\<close>

lemma check_ftok_composition:
  assumes "st f = Some (ino, dev_minor)" "f \<noteq> ''--help''"
  shows "check_ftok_main st (my_ftok st) [prog, f] = Done ((ucast ino, ucast dev_minor, 1), ftok_key ino dev_minor 1)"
  using assms by (simp add: check_ftok_main_def my_ftok_def)

end
