(* ===== verification/Spec2Isabelle.thy ===== *)
theory Spec2Isabelle
  imports Malloc Dirname Readline Seqnum_Inet Seqnum_Fifo Sysv_Msg Binary_Tree Realpath Getcwd Nftw Proc_Status Facl Execlp Signals Fd_Table Environ Shm_Xfr Copy_Loops Sendfile Tail Once Echo_Server File_Modes Messages Relay Pty Inotify Shm_Posix Utmp Races Accounts Terminal Mmap Select Locks Sig_Queue Timers Commands Remote_Shell Sysv_List Offsets Poll Datagrams Children Socket_Pipe Servers Script_Tty Resource_Limits Libraries Test_Programs
begin

text \<open>
  The repository holds about a hundred and eighty small C programs, each an answer to an exercise on the
  Linux programming interface, one directory \<^verbatim>\<open>Section_N\<close> per chapter. There is no common main
  program: a program, or a pair of client and server, is a component. What the components share is the
  C library and the kernel. Some call each other's code: the socket servers of Section 59 read
  lines through \<^verbatim>\<open>readline.c\<close>, Sections 60, 61 and 64 have the same \<^verbatim>\<open>inet_sockets.c\<close>, \<^verbatim>\<open>script.c\<close> and the telnet
  server of Section 64 stand on \<^verbatim>\<open>pty_fork.c\<close>, the sequence-number servers of Sections 44, 46 and 59
  make the same promise over three transports, and the transfers of Sections 48, 53 and 54 use
  the same protocol over three kinds of system objects.

  \<^bold>\<open>How programs are modelled.\<close> A C function is a HOL function of the same name. Its result is a value of
  \<open>run\<close> (\<open>Prelude\<close>): \<open>Done\<close> with the returned value and the new state, \<open>Exited\<close> with a status, or \<open>Faulted\<close> with the
  undefined behaviour or the hang it runs into (null pointer, access out of bounds, indeterminate
  value, deadlock, endless loop). Structures and static variables are records, pointers into one array
  are offsets, \<^verbatim>\<open>int\<close> arithmetic whose result can leave the 32 bits is cut to them (an overflow wraps) or excluded by a hypothesis, flags are words. A system call is
  a function on the state of the kernel where the program depends on that state (descriptor tables,
  signal masks, directory trees, accounting files, semaphores); elsewhere its answers are
  arguments, so that a theorem holds for every order of chunks, short transfers,
  interruptions and errors it mentions. Concurrent programs are step functions of their
  processes, one step per access to something shared, and an interleaving is a run of the
  union of the steps. Functions of libraries that are not in the repository (\<^verbatim>\<open>libacl\<close>, \<^verbatim>\<open>crypt\<close>) are
  parameters.

  \<^bold>\<open>Shared theories.\<close>
  \<^item> \<open>Prelude\<close>: the results, error numbers, C strings.
  \<^item> \<open>C_Lib\<close>: \<^verbatim>\<open>atoi\<close>, decimal output, \<^verbatim>\<open>read\<close> and \<^verbatim>\<open>write\<close> with their answers, printing of unterminated arrays.
  \<^item> \<open>Getopt\<close>: \<^verbatim>\<open>getopt\<close> with operands moved behind the options.
  \<^item> \<open>Heap_Memory\<close>: bytes and 64-bit objects, locale \<open>mem64\<close>; chains of linked nodes.
  \<^item> \<open>Transitions\<close>: locales \<open>invariant_system\<close> and \<open>terminating_system\<close>, from a step-wise invariant to all reachable
    states, and from a rank and progress to the end of every run.
  \<^item> \<open>Seq_Alloc\<close>: locale \<open>seq_allocator\<close>, the promise of the three sequence-number servers.

  \<^bold>\<open>Memory, strings, data structures.\<close>
  \<^item> \<open>Malloc\<close> (\<^verbatim>\<open>Section_7/mymalloc_myfree.c\<close>): every load and store of \<^verbatim>\<open>my_malloc\<close> and \<^verbatim>\<open>my_free\<close> on byte memory; the
    free ring is kept well-formed, blocks are taken first-fit, split, grown and merged, allocating and
    freeing is a round trip; requests for which the invariant breaks.
  \<^item> \<open>Binary_Tree\<close> (\<^verbatim>\<open>Section_30/binary_tree.c\<close>): the heap of nodes with their mutexes refines a search tree for
    \<^verbatim>\<open>lookup\<close>; where \<^verbatim>\<open>add\<close> and \<^verbatim>\<open>delete\<close> block or lose a subtree.
  \<^item> \<open>Dirname\<close> (Section 31): splitting of paths, buffers per thread. \<open>Environ\<close> (Section 6): \<^verbatim>\<open>my_setenv\<close>, \<^verbatim>\<open>my_unsetenv\<close>.
  \<^item> \<open>Readline\<close> (Section 59): the buffered reader refines the list of lines; locale \<open>line_reader\<close>.
  \<^item> \<open>Once\<close> (\<^verbatim>\<open>Section_31/one_time_init.c\<close>): at most one call of the function under every interleaving.

  \<^bold>\<open>Files and directories.\<close>
  \<^item> \<open>Realpath\<close>, \<open>Getcwd\<close>, \<open>Nftw\<close> (Section 18): path resolution as a stack machine, the working directory from the
    parents, the order of the tree walk.
  \<^item> \<open>Tail\<close> (Section 13), \<open>Copy_Loops\<close> (Sections 4 and 57: \<^verbatim>\<open>mycp\<close>, \<^verbatim>\<open>mytee\<close>, \<^verbatim>\<open>us_xfr\<close>; locale \<open>copy_program\<close>), \<open>Sendfile\<close>
    (Sections 5 and 61), \<open>Mmap\<close> (Section 49): which bytes arrive for every division into chunks, every size,
    and every failing call.
  \<^item> \<open>File_Modes\<close> (Sections 15 and 45): permission strings, \<^verbatim>\<open>chmod\<close>, \<^verbatim>\<open>chattr\<close>, \<^verbatim>\<open>ftok\<close>. \<open>Facl\<close> (Section 17). \<open>Inotify\<close>
    (Section 19): the list of watches covers those of the kernel, which drops watches on its own.
  \<^item> \<open>Fd_Table\<close> (Sections 5, 44, 46, 60: \<^verbatim>\<open>dup\<close>, \<^verbatim>\<open>my_popen\<close>, \<^verbatim>\<open>become_daemon\<close>) and \<open>Pty\<close> (Section 64): descriptor tables.

  \<^bold>\<open>Processes, users, terminals.\<close>
  \<^item> \<open>Proc_Status\<close> (Section 12): the process tree from \<^verbatim>\<open>/proc\<close>. \<open>Execlp\<close> (Section 27). \<open>Signals\<close> (Sections 21, 22, 61):
    masks and dispositions, locale \<open>mask_ops\<close>.
  \<^item> \<open>Utmp\<close> (Section 40): a session from login to logout over the accounting files, \<^verbatim>\<open>mywho\<close>. \<open>Accounts\<close> (Sections 8, 9
    and 38): groups of a process, the identity \<^verbatim>\<open>douser\<close> runs a program under.
  \<^item> \<open>Terminal\<close> (Sections 62 and 64): raw mode, the echo flag of \<^verbatim>\<open>my_getpass\<close>, \<^verbatim>\<open>my_ttyname\<close>.
  \<^item> \<open>Sig_Queue\<close> (Sections 20, 22, 27, 33): which of the signals sent to a process that blocks them it gets to see, for every order of
    delivery; two processes that exchange signals (\<open>ping\<close>, an interpretation of \<open>terminating_system\<close>). \<open>Timers\<close> (Sections 23, 52 and
    53): the syntax of timers, waiting with a limit, message queues with priorities and notification.
  \<^item> \<open>Commands\<close> (Sections 16, 35, 36, 37 and 39): priorities, scheduling, attributes and the program that is run. \<open>Children\<close> (Sections 24, 26 and
    34): adoption, zombies, process groups.
  \<^item> \<open>Resource_Limits\<close> (Sections 6, 11, 18, 36 and 50): limits of the system, counters over a tree, processor time, locked memory. \<open>Libraries\<close> (Sections 6, 8, 20,
    29, 33, 34, 42, 44 and 61): reference counts of the dynamic loader, jumps, static buffers, orphaned groups.
  \<^item> \<open>Test_Programs\<close> (Sections 21, 22, 23, 31, 45 and 62): the main programs that try the functions of other theories.
  \<^item> \<open>Offsets\<close> (Sections 5 and 7): offsets shared by descriptors, and the bounds of the loop over heap blocks.

  \<^bold>\<open>Communication and concurrency.\<close>
  \<^item> \<open>Seqnum_Inet\<close> (Section 59), \<open>Seqnum_Fifo\<close> (Section 44), \<open>Sysv_Msg\<close> (Section 46): consecutive disjoint ranges, what a
    restart keeps, files sent as messages. Each is an interpretation of \<open>seq_allocator\<close>.
  \<^item> \<open>Shm_Xfr\<close> (Section 48) and \<open>Shm_Posix\<close> (Sections 53, 54): under every interleaving all data arrive and the two
    programs never block each other; the variants refine the first by the locale \<open>xfr_variant\<close>.
  \<^item> \<open>Races\<close> (Sections 5, 30, 47): the exact range of lost updates, and of lost bytes with and without \<^verbatim>\<open>O_APPEND\<close>;
    the order that a semaphore enforces.
  \<^item> \<open>Echo_Server\<close> (Section 60 and \<^verbatim>\<open>inet_sockets.c\<close>): the limit on clients, and how the service is lost. \<open>Messages\<close>
    (Sections 44, 57, 63), \<open>Relay\<close> (Section 64: \<^verbatim>\<open>script\<close> and telnet; locale \<open>relay_loop\<close>), \<open>Script_Tty\<close> (the terminal under \<^verbatim>\<open>script\<close>), \<open>Select\<close>
    (Section 63). \<open>Servers\<close> (Sections 60, 63, 64): the servers with their descriptors and children.
  \<^item> \<open>Socket_Pipe\<close> (Section 61): \<^verbatim>\<open>my_pipe\<close> on socket pairs satisfies the contract of a pipe (locale \<open>pipe_impl\<close>, interpreted on the kernel's pipe too),
    and parent and child complete their exchange on it under every interleaving (\<open>pipes61\<close>, an interpretation of \<open>terminating_system\<close>).
  \<^item> \<open>Locks\<close> (Section 55): the record locks of one file under the commands of any number of instances, with waiting, later grants and deadlocks; two programs
    that lock two files, which end when they agree on the order (\<open>same_order\<close>, an interpretation of \<open>terminating_system\<close>).
  \<^item> \<open>Remote_Shell\<close> (Sections 60 and 61): a command from the client to the server and its output back. \<open>Datagrams\<close> (Sections 57 and 59): whose
    message a connected socket receives. \<open>Poll\<close> (Section 63): \<^verbatim>\<open>poll\<close>, \<^verbatim>\<open>epoll\<close> and input announced by signals. \<open>Sysv_List\<close> (Sections 47
    and 48): which objects a listing shows.

  \<^bold>\<open>Bounds and fuel.\<close> Loops are recursive functions with a proof of termination: on offsets, on the weight of the
  answers a descriptor has still to give (\<open>rd_weight\<close>), or on the list of answers. A loop that the program
  never leaves ends in the model with the list of answers, and its state at that point is the result,
  or with \<open>Faulted Endless\<close> when no further answer can end it. Fuel is used for \<^verbatim>\<open>my_nftw\<close>, whose theorem shows
  that the depth of the tree is enough, and for \<^verbatim>\<open>my_realpath\<close>, where one round per component is.
  The steps of the interleaved programs are bounded by ranks where a theorem claims
  that they end. Sizes are those of the source on a 64-bit machine (\<^verbatim>\<open>int\<close> 32 bits, pointers and \<^verbatim>\<open>size_t\<close> 64
  bits, pages of 4096 bytes, pipes of 65536).

  \<^bold>\<open>Not modelled.\<close> Every program has a model. Left out are the main function that tries \<^verbatim>\<open>my_sendfile\<close>, code that is
  commented out or cannot be reached (the second half of \<^verbatim>\<open>my_access\<close>), and the text of floating-point numbers in \<^verbatim>\<open>nftw_use.c\<close>.
  Error messages on the standard error output are left out throughout; where two error paths differ only in the message, they are one
  result. \<^verbatim>\<open>malloc\<close> succeeds unless a theory says otherwise, and in the interleaved programs the system calls of a step do not
  fail. The copies of \<^verbatim>\<open>inet_sockets.c\<close> in Sections 61 and 64 and of \<^verbatim>\<open>become_daemon.c\<close> in Section 60 have the text that \<open>Echo_Server\<close> and
  \<open>Fd_Table\<close> model.
\<close>

end
